(* ===== verification/Prelude.thy ===== *)
theory Prelude
  imports Complex_Main "HOL-Library.Word" "HOL-Library.Multiset"
begin

text \<open>
  Shared vocabulary of the development: the machine integers of the C++ code, its
  exceptions as values, the \<open>std::vector\<close> and \<open><algorithm>\<close> operations several
  components use, and the generic lemmas about them.

  A \<open>std::vector<T>\<close> is a list. \<open>insert_at\<close>, \<open>erase_at\<close>, \<open>lower_bound\<close> and
  \<open>upper_bound\<close> are the standard library's \<open>vector::insert\<close>, \<open>vector::erase\<close>,
  \<open>std::lower_bound\<close> and \<open>std::upper_bound\<close> on the index level. An exception is a
  value \<open>Inl e\<close> of the sum type \<open>'a res\<close>; the text of its message is not modelled.
\<close>

unbundle bit_operations_syntax

section \<open>Machine types\<close>

type_synonym u8 = "8 word"
type_synonym u16 = "16 word"
type_synonym u32 = "32 word"
type_synonym u64 = "64 word"
type_synonym bytes = "u8 list"

text \<open>
  \<open>vdb_types.h\<close>: an \<open>InternalId\<close> is an offset into the parallel arrays, a natural
  number here; its 32-bit width is a bound on the number of nodes where a result depends on
  it. An \<open>ExternalId\<close>, the stable identifier of a row, is a \<open>u64\<close>.
\<close>

type_synonym internal_id = nat

section \<open>Exceptions\<close>

text \<open>The standard exception classes the code throws.\<close>

datatype exn = LengthError | InvalidArgument | RuntimeError

type_synonym 'a res = "exn + 'a"

definition bind_res :: "'a res \<Rightarrow> ('a \<Rightarrow> 'b res) \<Rightarrow> 'b res" where
  "bind_res r f = (case r of Inl e \<Rightarrow> Inl e | Inr x \<Rightarrow> f x)"

named_theorems res_simps \<open>evaluation of the exception monad\<close>

lemma bind_res_Inl [simp, res_simps]: "bind_res (Inl e) f = Inl e"
  and bind_res_Inr [simp, res_simps]: "bind_res (Inr x) f = f x"
  by (simp_all add: bind_res_def)

lemma bind_res_eq_Inr: "bind_res r f = Inr y \<longleftrightarrow> (\<exists>x. r = Inr x \<and> f x = Inr y)"
  by (cases r) auto

section \<open>Vectors\<close>

definition insert_at :: "nat \<Rightarrow> 'a \<Rightarrow> 'a list \<Rightarrow> 'a list" where
  "insert_at i x xs = take i xs @ x # drop i xs"

definition erase_at :: "nat \<Rightarrow> 'a list \<Rightarrow> 'a list" where
  "erase_at i xs = take i xs @ drop (Suc i) xs"

definition lower_bound :: "'a::linorder \<Rightarrow> 'a list \<Rightarrow> nat" where
  "lower_bound k xs = length (takeWhile (\<lambda>x. x < k) xs)"

definition upper_bound :: "'a::linorder \<Rightarrow> 'a list \<Rightarrow> nat" where
  "upper_bound k xs = length (takeWhile (\<lambda>x. x \<le> k) xs)"

text \<open>\<open>std::find\<close>: the first position holding \<open>x\<close>, the length if there is none.\<close>

definition find_pos :: "'a \<Rightarrow> 'a list \<Rightarrow> nat" where
  "find_pos x xs = length (takeWhile (\<lambda>y. y \<noteq> x) xs)"

lemma insert_at_length [simp]: "length (insert_at i x xs) = Suc (length xs)"
  by (simp add: insert_at_def)

lemma insert_at_append [simp]: "insert_at (length xs) x (xs @ ys) = xs @ x # ys"
  by (simp add: insert_at_def)

lemma insert_at_append' [simp]: "length xs = n \<Longrightarrow> insert_at n x (xs @ ys) = xs @ x # ys"
  by (auto simp: insert_at_def)

lemma map_insert_at: "map f (insert_at i x xs) = insert_at i (f x) (map f xs)"
  by (simp add: insert_at_def take_map drop_map)

lemma set_insert_at: "set (insert_at i x xs) = insert x (set xs)"
proof -
  have "set (take i xs) \<union> set (drop i xs) = set xs"
    by (metis append_take_drop_id set_append)
  then show ?thesis by (auto simp: insert_at_def)
qed

lemma erase_at_append [simp]: "erase_at (length xs) (xs @ y # ys) = xs @ ys"
  by (simp add: erase_at_def)

lemma erase_at_length: "i < length xs \<Longrightarrow> length (erase_at i xs) = length xs - 1"
  by (simp add: erase_at_def)

lemma map_erase_at: "map f (erase_at i xs) = erase_at i (map f xs)"
  by (simp add: erase_at_def take_map drop_map)

lemma zip_insert_at:
  "length xs = length ys \<Longrightarrow> zip (insert_at i x xs) (insert_at i y ys) = insert_at i (x, y) (zip xs ys)"
  by (simp add: insert_at_def take_zip drop_zip)

lemma zip_erase_at:
  "length xs = length ys \<Longrightarrow> zip (erase_at i xs) (erase_at i ys) = erase_at i (zip xs ys)"
  by (simp add: erase_at_def take_zip drop_zip)

lemma lower_bound_le [simp]: "lower_bound k xs \<le> length xs"
  by (simp add: lower_bound_def length_takeWhile_le)

lemma take_lower_bound: "take (lower_bound k xs) xs = takeWhile (\<lambda>x. x < k) xs"
  by (simp add: lower_bound_def takeWhile_eq_take [symmetric])

lemma drop_lower_bound: "drop (lower_bound k xs) xs = dropWhile (\<lambda>x. x < k) xs"
  by (simp add: lower_bound_def dropWhile_eq_drop [symmetric])

lemma lower_bound_less: "x \<in> set (take (lower_bound k xs) xs) \<Longrightarrow> x < k"
  by (auto simp: take_lower_bound dest: set_takeWhileD)

lemma lower_bound_ge: "sorted xs \<Longrightarrow> x \<in> set (drop (lower_bound k xs) xs) \<Longrightarrow> k \<le> x"
  unfolding drop_lower_bound by (induction xs) (auto split: if_splits)

lemma find_pos_append [simp]: "x \<notin> set xs \<Longrightarrow> find_pos x (xs @ x # ys) = length xs"
  by (induction xs) (auto simp: find_pos_def)

lemma find_pos_less: "x \<in> set xs \<Longrightarrow> find_pos x xs < length xs"
  by (induction xs) (auto simp: find_pos_def)

lemma find_pos_eq_length: "find_pos x xs = length xs \<longleftrightarrow> x \<notin> set xs"
  by (induction xs) (auto simp: find_pos_def)

lemma nth_find_pos: "x \<in> set xs \<Longrightarrow> xs ! find_pos x xs = x"
  by (induction xs) (auto simp: find_pos_def)

end
