(* ===== verification/Sortable_Bits.thy ===== *)
theory Sortable_Bits
  imports Prelude
begin

text \<open>
  \<open>include/sortable_bits.h\<close>: the order-preserving maps from \<open>int64_t\<close> and \<open>double\<close> to
  \<open>uint64_t\<close> under which a B+-tree key is compared with unsigned \<open><\<close>. Both argument types
  are their 64 raw bits (the \<open>memcpy\<close> of the code); \<open>sint\<close> reads the bits as an
  \<open>int64_t\<close>, \<open>double_value\<close> as an IEEE-754 double.
\<close>

section \<open>The transforms\<close>

definition sortable_bits_int :: "u64 \<Rightarrow> u64" where
  "sortable_bits_int u = u XOR 0x8000000000000000"

definition sortable_bits_double :: "u64 \<Rightarrow> u64" where
  "sortable_bits_double u =
     (let mask = (if drop_bit 63 u \<noteq> 0 then 0xFFFFFFFFFFFFFFFF else 0x8000000000000000)
      in u XOR mask)"

definition from_sortable_bits_int :: "u64 \<Rightarrow> u64" where
  "from_sortable_bits_int b = b XOR 0x8000000000000000"

definition from_sortable_bits_double :: "u64 \<Rightarrow> u64" where
  "from_sortable_bits_double b =
     (let mask = (if drop_bit 63 b \<noteq> 0 then 0x8000000000000000 else 0xFFFFFFFFFFFFFFFF)
      in b XOR mask)"

section \<open>IEEE-754 values of raw bits\<close>

text \<open>
  Sign bit 63, eleven exponent bits, fifty-two mantissa bits. \<open>scaled_mag\<close> is the
  magnitude in units of the least subnormal \<open>2 powr -1074\<close>; the pattern of an infinity
  gets the value \<open>2 ^ 1024\<close>, just above every finite double, so that infinities keep
  their place in the order.
\<close>

definition mag_bits :: "u64 \<Rightarrow> nat" where
  "mag_bits u = take_bit 63 (unat u)"

definition sign_bit :: "u64 \<Rightarrow> bool" where
  "sign_bit u \<longleftrightarrow> bit u 63"

definition scaled_mag :: "nat \<Rightarrow> nat" where
  "scaled_mag n =
     (let e = n div 2 ^ 52; m = n mod 2 ^ 52
      in if e = 0 then m else (2 ^ 52 + m) * 2 ^ (e - 1))"

definition double_value :: "u64 \<Rightarrow> real" where
  "double_value u =
     (if sign_bit u then - real (scaled_mag (mag_bits u)) else real (scaled_mag (mag_bits u)))
     / 2 ^ 1074"

definition double_is_nan :: "u64 \<Rightarrow> bool" where
  "double_is_nan u \<longleftrightarrow> 0x7FF * 2 ^ 52 < mag_bits u"

lemma scaled_mag_split: "m < 2 ^ 52 \<Longrightarrow>
  scaled_mag (e * 2 ^ 52 + m) = (if e = 0 then m else (2 ^ 52 + m) * 2 ^ (e - 1))"
  by (simp add: scaled_mag_def)

lemma scaled_mag_Suc: "scaled_mag n < scaled_mag (Suc n)"
proof -
  define e m where "e = n div 2 ^ 52" and "m = n mod 2 ^ 52"
  have n: "n = e * 2 ^ 52 + m" and m: "m < 2 ^ 52" by (simp_all add: e_def m_def)
  show ?thesis
  proof (cases "Suc m < 2 ^ 52")
    case True
    then have "scaled_mag (Suc n) = (if e = 0 then Suc m else (2 ^ 52 + Suc m) * 2 ^ (e - 1))"
      using n scaled_mag_split [of "Suc m" e] by simp
    then show ?thesis using n m by (simp add: scaled_mag_split del: power_numeral)
  next
    case False
    with m have m': "Suc m = 2 ^ 52" by simp
    then have "Suc n = Suc e * 2 ^ 52 + 0" using n by simp
    then have s: "scaled_mag (Suc n) = 2 ^ 52 * 2 ^ e"
      using scaled_mag_split [of 0 "Suc e"] by simp
    show ?thesis
    proof (cases e)
      case 0
      then have "scaled_mag n = m" using n m scaled_mag_split [of m 0] by simp
      then show ?thesis using 0 s m by simp
    next
      case (Suc k)
      have "(2 ^ 52 + m) * 2 ^ k < 2 * 2 ^ 52 * (2::nat) ^ k" using m by simp
      moreover have "scaled_mag n = (2 ^ 52 + m) * 2 ^ k"
        unfolding n using scaled_mag_split [OF m, of e] Suc by simp
      moreover have "scaled_mag (Suc n) = 2 * 2 ^ 52 * 2 ^ k" using s Suc by simp
      ultimately show ?thesis by simp
    qed
  qed
qed

lemma scaled_mag_mono: "scaled_mag a < scaled_mag b \<longleftrightarrow> a < b"
  by (rule strict_mono_less) (simp add: strict_mono_Suc_iff scaled_mag_Suc)

lemma scaled_mag_zero: "scaled_mag 0 = 0"
  by (simp add: scaled_mag_def)

section \<open>The transforms as arithmetic\<close>

lemma unat_sign_mag: "unat u = mag_bits u + (if sign_bit u then 2 ^ 63 else 0)"
proof -
  have "unat u < 2 ^ Suc 63" using unsigned_less [of u, where ?'a = nat] by simp
  then have "unat u = take_bit (Suc 63) (unat u)"
    by (rule take_bit_nat_eq_self [symmetric])
  also have "\<dots> = 2 ^ 63 * of_bool (bit (unat u) 63) + take_bit 63 (unat u)"
    by (rule take_bit_Suc_from_most)
  finally have "unat u = 2 ^ 63 * of_bool (bit (unat u) 63) + mag_bits u"
    by (simp only: mag_bits_def)
  then show ?thesis by (simp add: sign_bit_def bit_unsigned_iff)
qed

lemma mag_bits_less: "mag_bits u < 2 ^ 63"
  unfolding mag_bits_def by (rule take_bit_nat_less_exp)

lemma unat_not: "unat (NOT (u::u64)) = 2 ^ 64 - 1 - unat u"
proof -
  have "NOT u = -1 - u" by (simp add: not_eq_complement)
  moreover have "unat (-1 :: u64) = 2 ^ 64 - 1"
    by (simp add: unsigned_minus_1_eq_mask mask_eq_exp_minus_1)
  ultimately show ?thesis by (simp add: unat_sub)
qed

lemma drop_bit_63: "drop_bit 63 (u::u64) \<noteq> 0 \<longleftrightarrow> sign_bit u"
proof -
  have "63 + n = 63" if "bit u (63 + n)" for n
    using bit_imp_le_length [OF that] by simp
  then have "drop_bit 63 u = of_bool (bit u 63)"
    by (intro bit_eqI) (fastforce simp: bit_drop_bit_eq bit_of_bool_iff)
  then show ?thesis by (simp add: sign_bit_def)
qed

lemma xor_sign [simp]:
  "mag_bits (u XOR 0x8000000000000000) = mag_bits u"
  "sign_bit (u XOR 0x8000000000000000) = (\<not> sign_bit u)"
proof -
  have "take_bit 63 (u XOR 0x8000000000000000) = take_bit 63 u" by (simp add: take_bit_xor)
  then have "unat (take_bit 63 (u XOR 0x8000000000000000)) = unat (take_bit 63 u)" by simp
  then show "mag_bits (u XOR 0x8000000000000000) = mag_bits u"
    by (simp only: mag_bits_def unsigned_take_bit_eq)
  show "sign_bit (u XOR 0x8000000000000000) = (\<not> sign_bit u)"
    by (simp add: sign_bit_def bit_xor_iff)
qed

lemma xor_ones: "(u::u64) XOR 0xFFFFFFFFFFFFFFFF = NOT u"
proof -
  have "(0xFFFFFFFFFFFFFFFF::u64) = -1" by simp
  then show ?thesis by (simp only: bit.xor_one_right)
qed

lemma sortable_bits_int_unat:
  "unat (sortable_bits_int u) = mag_bits u + (if sign_bit u then 0 else 2 ^ 63)"
  by (simp add: sortable_bits_int_def unat_sign_mag [of "u XOR _"])

lemma sortable_bits_double_unat:
  "unat (sortable_bits_double u) = (if sign_bit u then 2 ^ 63 - 1 - mag_bits u else mag_bits u + 2 ^ 63)"
proof (cases "sign_bit u")
  case True
  then have "sortable_bits_double u = NOT u"
    by (simp add: sortable_bits_double_def drop_bit_63 Let_def xor_ones)
  then show ?thesis using True mag_bits_less [of u]
    by (simp add: unat_not unat_sign_mag [of u])
next
  case False
  then have "sortable_bits_double u = u XOR 0x8000000000000000"
    by (simp add: sortable_bits_double_def drop_bit_63 Let_def)
  then show ?thesis using False by (simp add: unat_sign_mag [of "u XOR _"])
qed

lemma sint_sign_mag: "sint u = int (mag_bits u) - (if sign_bit u then 2 ^ 63 else 0)"
proof -
  have "sint u = signed_take_bit 63 (uint u)" by (simp add: sint_uint)
  also have "\<dots> = take_bit (Suc 63) (uint u) - 2 ^ Suc 63 * of_bool (bit (uint u) 63)"
    by (rule signed_take_bit_eq_take_bit_minus)
  also have "take_bit (Suc 63) (uint u) = uint u"
    using uint_lt2p [of u] by (intro take_bit_int_eq_self) simp_all
  also have "uint u = int (unat u)" by simp
  finally have "sint u = int (unat u) - 2 ^ Suc 63 * of_bool (sign_bit u)"
    by (simp add: sign_bit_def bit_unsigned_iff)
  then show ?thesis by (simp only: unat_sign_mag [of u]) simp
qed

section \<open>Order and round trip\<close>

lemma sortable_bits_int_less: "sortable_bits_int a < sortable_bits_int b \<longleftrightarrow> sint a < sint b"
proof -
  have "sortable_bits_int a < sortable_bits_int b \<longleftrightarrow>
      unat (sortable_bits_int a) < unat (sortable_bits_int b)"
    by (rule word_less_nat_alt)
  then show ?thesis
    using mag_bits_less [of a] mag_bits_less [of b]
    by (simp add: sortable_bits_int_unat sint_sign_mag)
qed

text \<open>C27: unsigned comparison of the transformed bits is signed comparison of the \<open>int64_t\<close>.\<close>

theorem sortable_bits_int_order: "sortable_bits_int a < sortable_bits_int b \<longleftrightarrow> sint a < sint b"
  by (rule sortable_bits_int_less)

lemma double_value_le_iff:
  "double_value a < double_value b \<longleftrightarrow>
     (if sign_bit a
      then (if sign_bit b then mag_bits b < mag_bits a else 0 < mag_bits a \<or> 0 < mag_bits b)
      else \<not> sign_bit b \<and> mag_bits a < mag_bits b)"
proof -
  have pos: "0 < scaled_mag n \<longleftrightarrow> 0 < n" for n
    using scaled_mag_mono [of 0 n] by (simp add: scaled_mag_zero)
  have *: "- real (scaled_mag m) < real (scaled_mag n) \<longleftrightarrow> 0 < m \<or> 0 < n" for m n
    using pos [of m] pos [of n] by linarith
  show ?thesis
    by (simp add: double_value_def divide_less_cancel scaled_mag_mono * del: power_numeral) 
qed



lemma sortable_bits_double_less_iff:
  "sortable_bits_double a < sortable_bits_double b \<longleftrightarrow>
     (if sign_bit a then \<not> sign_bit b \<or> mag_bits b < mag_bits a
      else \<not> sign_bit b \<and> mag_bits a < mag_bits b)"
proof -
  have "sortable_bits_double a < sortable_bits_double b \<longleftrightarrow>
      unat (sortable_bits_double a) < unat (sortable_bits_double b)"
    by (rule word_less_nat_alt)
  then show ?thesis
    using mag_bits_less [of a] mag_bits_less [of b] by (auto simp: sortable_bits_double_unat)
qed

lemma bits_eqI: "mag_bits a = mag_bits b \<Longrightarrow> sign_bit a = sign_bit b \<Longrightarrow> a = b"
  by (metis unat_sign_mag word_unat_eq_iff)

abbreviation minus_zero :: u64 where
  "minus_zero \<equiv> 0x8000000000000000"

lemma zero_bits [simp]:
  "mag_bits 0 = 0" "\<not> sign_bit 0" "mag_bits minus_zero = 0" "sign_bit minus_zero"
  using xor_sign [of 0] by (simp_all add: mag_bits_def sign_bit_def)

lemma sortable_bits_double_less:
  "sortable_bits_double a < sortable_bits_double b \<longleftrightarrow> double_value a < double_value b \<or> (a = minus_zero \<and> b = 0)"
proof (cases "sign_bit a \<and> \<not> sign_bit b \<and> mag_bits a = 0 \<and> mag_bits b = 0")
  case True
  then have "a = minus_zero" "b = 0" by (auto intro: bits_eqI)
  then show ?thesis by (simp add: sortable_bits_double_less_iff)
next
  case False
  then have "\<not> (a = minus_zero \<and> b = 0)" by auto
  then show ?thesis using False
    by (auto simp: sortable_bits_double_less_iff double_value_le_iff)
qed

text \<open>
  C28: on doubles that are not NaN, unsigned comparison of the transformed bits is the
  comparison of the values, except that the two zeros, equal as values, are kept apart.
\<close>

theorem sortable_bits_double_order:
  assumes "\<not> double_is_nan a" and "\<not> double_is_nan b"
  shows "sortable_bits_double a < sortable_bits_double b \<longleftrightarrow>
    double_value a < double_value b \<or> (a = minus_zero \<and> b = 0)"
  by (rule sortable_bits_double_less)

theorem sortable_bits_double_order_witness:
  "\<not> double_is_nan 0xBFF0000000000000 \<and> \<not> double_is_nan 0x4000000000000000 \<and>
   sortable_bits_double 0xBFF0000000000000 < sortable_bits_double 0x4000000000000000 \<and>
   double_value 0xBFF0000000000000 < double_value 0x4000000000000000"
proof -
  have n: "\<not> double_is_nan 0xBFF0000000000000" "\<not> double_is_nan 0x4000000000000000"
    by (simp_all add: double_is_nan_def mag_bits_def take_bit_eq_mod)
  have l: "sortable_bits_double 0xBFF0000000000000 < sortable_bits_double 0x4000000000000000"
    by (simp add: sortable_bits_double_def)
  show ?thesis using sortable_bits_double_order [OF n] n l by simp
qed

lemma sortable_bits_double_alt:
  "sortable_bits_double u = (if sign_bit u then NOT u else u XOR minus_zero)"
  by (simp add: sortable_bits_double_def drop_bit_63 Let_def xor_ones)

lemma from_sortable_bits_double_alt:
  "from_sortable_bits_double b = (if sign_bit b then b XOR minus_zero else NOT b)"
  by (simp add: from_sortable_bits_double_def drop_bit_63 Let_def xor_ones)

text \<open>Decoding inverts encoding and encoding inverts decoding, so both transforms are bijections.\<close>

theorem sortable_bits_roundtrip:
  "from_sortable_bits_int (sortable_bits_int u) = u \<and>
   sortable_bits_int (from_sortable_bits_int u) = u \<and>
   from_sortable_bits_double (sortable_bits_double u) = u \<and>
   sortable_bits_double (from_sortable_bits_double u) = u"
proof -
  have not_sign: "sign_bit (NOT w) = (\<not> sign_bit w)" for w by (simp add: sign_bit_def bit_not_iff)
  show ?thesis
    by (simp add: sortable_bits_double_alt from_sortable_bits_double_alt not_sign
        from_sortable_bits_int_def sortable_bits_int_def xor.assoc)
qed

text \<open>
  The two zeros compare equal as doubles but get different keys, so an index scan from
  \<open>+0.0\<close> on passes over a row that holds \<open>-0.0\<close>.
\<close>

lemma sortable_bits_zeros_differ:
  "double_value minus_zero = double_value 0 \<and>
   sortable_bits_double minus_zero < sortable_bits_double 0"
  by (simp add: double_value_def scaled_mag_zero sortable_bits_double_less_iff)

end
