(* ===== verification/BPlus_Tree.thy ===== *)
theory BPlus_Tree
  imports Prelude
begin

text \<open>
  \<open>include/bplus_tree.h\<close> and \<open>src/bplus_tree.cpp\<close>: the B-link tree behind an indexed
  column. The arena \<open>nodes\<close> is the list \<open>nodes\<close>, a \<open>NodeId\<close> an offset into it, the
  sentinel \<open>kNoNext\<close> the value \<open>None\<close>. The definitions model one thread running alone;
  each is one critical section of the code or the loop that composes them, and taking and
  releasing a node's mutex has no effect on the state.

  An operation returns an \<open>option\<close>: \<open>None\<close> stands for a run that does not return or that
  leaves the defined behaviour of C++ (an offset outside the arena, a failed \<open>assert\<close>,
  a wrapped index). An operation that can throw returns the exception together with the
  tree it leaves behind, because the code throws after it has changed the tree.
\<close>

section \<open>Nodes and trees\<close>

type_synonym node_id = nat

record node =
  is_leaf :: bool
  keys :: "u64 list"
  vals :: "internal_id list"
  children :: "node_id list"
  right_link :: "node_id option"
  high_key :: "u64 option"
  parent_hint :: "node_id option"

definition new_node :: node where
  "new_node = \<lparr>is_leaf = True, keys = [], vals = [], children = [],
     right_link = None, high_key = None, parent_hint = None\<rparr>"

record btree =
  nodes :: "node list"
  root :: node_id
  tsize :: nat
  node_capacity :: nat
  max_nodes :: nat

definition nd :: "btree \<Rightarrow> node_id \<Rightarrow> node" where
  "nd t i = nodes t ! i"

definition upd_node :: "node_id \<Rightarrow> (node \<Rightarrow> node) \<Rightarrow> btree \<Rightarrow> btree" where
  "upd_node i f t = t\<lparr>nodes := (nodes t)[i := f (nodes t ! i)]\<rparr>"

definition new_leaf :: "btree \<Rightarrow> (node_id \<times> btree) res" where
  "new_leaf t = (if max_nodes t \<le> length (nodes t) then Inl LengthError
     else Inr (length (nodes t), t\<lparr>nodes := nodes t @ [new_node\<lparr>is_leaf := True\<rparr>]\<rparr>))"

definition new_internal :: "btree \<Rightarrow> (node_id \<times> btree) res" where
  "new_internal t = (if max_nodes t \<le> length (nodes t) then Inl LengthError
     else Inr (length (nodes t), t\<lparr>nodes := nodes t @ [new_node\<lparr>is_leaf := False\<rparr>]\<rparr>))"

text \<open>The constructor: an empty tree is one empty leaf.\<close>

definition make_btree :: "nat \<Rightarrow> nat \<Rightarrow> btree res" where
  "make_btree cap maxn =
     bind_res (new_leaf \<lparr>nodes = [], root = 0, tsize = 0, node_capacity = cap, max_nodes = maxn\<rparr>)
       (\<lambda>(r, t). Inr (t\<lparr>root := r\<rparr>))"

section \<open>Routing\<close>

definition child_index :: "node \<Rightarrow> u64 \<Rightarrow> nat" where
  "child_index n key = lower_bound key (keys n)"

definition child_position :: "node \<Rightarrow> node_id \<Rightarrow> nat" where
  "child_position parent child = find_pos child (children parent)"

partial_function (option) move_right :: "btree \<Rightarrow> node_id \<Rightarrow> u64 \<Rightarrow> node_id option" where
  "move_right t cur key =
     (case high_key (nd t cur) of
        None \<Rightarrow> Some cur
      | Some h \<Rightarrow> if h < key
          then (case right_link (nd t cur) of None \<Rightarrow> None | Some r \<Rightarrow> move_right t r key)
          else Some cur)"

partial_function (option) move_right_to_child :: "btree \<Rightarrow> node_id \<Rightarrow> node_id \<Rightarrow> node_id option" where
  "move_right_to_child t cur target =
     (if target \<in> set (children (nd t cur)) then Some cur
      else (case right_link (nd t cur) of None \<Rightarrow> None | Some r \<Rightarrow> move_right_to_child t r target))"

partial_function (option) descend_locked :: "btree \<Rightarrow> node_id \<Rightarrow> u64 \<Rightarrow> node_id option" where
  "descend_locked t cur key =
     Option.bind (move_right t cur key) (\<lambda>c.
       if is_leaf (nd t c) then Some c
       else if child_index (nd t c) key < length (children (nd t c))
         then descend_locked t (children (nd t c) ! child_index (nd t c) key) key
         else None)"

section \<open>Reading\<close>

text \<open>
  The leaf-chain walk of \<open>range\<close>. The result is the sequence of \<open>emit(key, id)\<close> calls:
  \<open>batch\<close> is what one leaf contributes, \<open>exceeded_hi\<close> tells that a key above \<open>hi\<close> was seen.
\<close>

definition leaf_batch :: "node \<Rightarrow> u64 \<Rightarrow> u64 \<Rightarrow> (u64 \<times> internal_id) list" where
  "leaf_batch leaf lo hi =
     takeWhile (\<lambda>e. fst e \<le> hi) (drop (lower_bound lo (keys leaf)) (zip (keys leaf) (vals leaf)))"

definition exceeded_hi :: "node \<Rightarrow> u64 \<Rightarrow> u64 \<Rightarrow> bool" where
  "exceeded_hi leaf lo hi \<longleftrightarrow> (\<exists>k \<in> set (drop (lower_bound lo (keys leaf)) (keys leaf)). hi < k)"

partial_function (option) range_from :: "btree \<Rightarrow> u64 \<Rightarrow> u64 \<Rightarrow> node_id \<Rightarrow> (u64 \<times> internal_id) list option" where
  "range_from t lo hi start =
     Option.bind (move_right t start lo) (\<lambda>cur.
       if exceeded_hi (nd t cur) lo hi then Some (leaf_batch (nd t cur) lo hi)
       else (case right_link (nd t cur) of
           None \<Rightarrow> Some (leaf_batch (nd t cur) lo hi)
         | Some next \<Rightarrow> Option.bind (range_from t lo hi next)
             (\<lambda>rest. Some (leaf_batch (nd t cur) lo hi @ rest))))"

definition bt_range :: "btree \<Rightarrow> u64 \<Rightarrow> u64 \<Rightarrow> (u64 \<times> internal_id) list option" where
  "bt_range t lo hi =
     (if hi < lo then Some []
      else Option.bind (move_right t (root t) lo) (\<lambda>c.
        Option.bind (descend_locked t c lo) (\<lambda>leaf. range_from t lo hi leaf)))"

definition bt_find :: "btree \<Rightarrow> u64 \<Rightarrow> internal_id list option" where
  "bt_find t key = map_option (map snd) (bt_range t key key)"

partial_function (option) height_from :: "btree \<Rightarrow> node_id \<Rightarrow> nat \<Rightarrow> nat option" where
  "height_from t cur h =
     (if is_leaf (nd t cur) then Some h
      else (case children (nd t cur) of [] \<Rightarrow> None | c # _ \<Rightarrow> height_from t c (h + 1)))"

definition bt_height :: "btree \<Rightarrow> nat option" where
  "bt_height t = height_from t (root t) 1"

section \<open>Inserting\<close>

text \<open>The critical section on the leaf: the entry goes to its \<open>lower_bound\<close>, the size grows.\<close>

definition leaf_insert :: "btree \<Rightarrow> node_id \<Rightarrow> u64 \<Rightarrow> internal_id \<Rightarrow> btree" where
  "leaf_insert t cur key rid =
     (let pos = lower_bound key (keys (nd t cur))
      in (upd_node cur (\<lambda>leaf. leaf\<lparr>keys := insert_at pos key (keys leaf),
            vals := insert_at pos rid (vals leaf)\<rparr>) t)\<lparr>tsize := tsize t + 1\<rparr>)"

text \<open>A split returns the new right sibling and the separator that routes to it.\<close>

definition split_leaf :: "btree \<Rightarrow> node_id \<Rightarrow> ((node_id \<times> u64) \<times> btree) res" where
  "split_leaf t nid =
     (let l = nd t nid; n = length (keys l); mid = (n + 1) div 2
      in bind_res (new_leaf t) (\<lambda>(right_id, t1).
        Inr ((right_id, last (take mid (keys l))),
          upd_node nid (\<lambda>l. l\<lparr>keys := take mid (keys l), vals := take mid (vals l),
              right_link := Some right_id, high_key := Some (last (take mid (keys l)))\<rparr>)
          (upd_node right_id (\<lambda>r. r\<lparr>keys := drop mid (keys l), vals := drop mid (vals l),
              right_link := right_link l, high_key := high_key l\<rparr>) t1))))"

definition set_hints :: "node_id list \<Rightarrow> node_id \<Rightarrow> btree \<Rightarrow> btree" where
  "set_hints cs p t = foldl (\<lambda>t c. upd_node c (\<lambda>n. n\<lparr>parent_hint := Some p\<rparr>) t) t cs"

definition split_internal :: "btree \<Rightarrow> node_id \<Rightarrow> ((node_id \<times> u64) \<times> btree) res" where
  "split_internal t nid =
     (let l = nd t nid; n = length (keys l); mid = n div 2; separator = keys l ! mid
      in bind_res (new_internal t) (\<lambda>(right_id, t1).
        Inr ((right_id, separator),
          set_hints (drop (mid + 1) (children l)) right_id
            (upd_node nid (\<lambda>l. l\<lparr>keys := take mid (keys l), children := take (mid + 1) (children l),
                right_link := Some right_id, high_key := Some separator\<rparr>)
            (upd_node right_id (\<lambda>r. r\<lparr>keys := drop (mid + 1) (keys l),
                children := drop (mid + 1) (children l),
                right_link := right_link l, high_key := high_key l\<rparr>) t1)))))"

text \<open>Root growth: a new internal node over the old root and its new sibling.\<close>

definition grow_root :: "btree \<Rightarrow> node_id \<Rightarrow> node_id \<Rightarrow> u64 \<Rightarrow> btree res" where
  "grow_root t promoted_child right separator =
     bind_res (new_internal t) (\<lambda>(new_root_id, t1).
       Inr (upd_node right (\<lambda>n. n\<lparr>parent_hint := Some new_root_id\<rparr>)
         (upd_node promoted_child (\<lambda>n. n\<lparr>parent_hint := Some new_root_id\<rparr>)
         ((upd_node new_root_id (\<lambda>n. n\<lparr>keys := [separator], children := [promoted_child, right]\<rparr>) t1)
           \<lparr>root := new_root_id\<rparr>))))"

text \<open>The critical section on the parent: splice \<open>(separator, right)\<close> in after the promoted child.\<close>

definition splice_child :: "btree \<Rightarrow> node_id \<Rightarrow> node_id \<Rightarrow> node_id \<Rightarrow> u64 \<Rightarrow> btree" where
  "splice_child t parent_id promoted_child right separator =
     (let ci = child_position (nd t parent_id) promoted_child
      in upd_node right (\<lambda>n. n\<lparr>parent_hint := Some parent_id\<rparr>)
        (upd_node parent_id (\<lambda>p. p\<lparr>keys := insert_at ci separator (keys p),
           children := insert_at (ci + 1) right (children p)\<rparr>) t))"

text \<open>
  The cascade. Without a hint the promoted child is the root, or, in a run of one thread,
  the retry loop reads the same missing hint for ever.
\<close>

partial_function (option) splice_up ::
  "btree \<Rightarrow> node_id option \<Rightarrow> node_id \<Rightarrow> node_id \<Rightarrow> u64 \<Rightarrow> (exn option \<times> btree) option" where
  "splice_up t hint promoted_child right separator =
     (if hint = None \<and> root t = promoted_child
      then (case grow_root t promoted_child right separator of
          Inl e \<Rightarrow> Some (Some e, t)
        | Inr t' \<Rightarrow> Some (None, t'))
      else (case (if hint = None then parent_hint (nd t promoted_child) else hint) of
          None \<Rightarrow> None
        | Some h \<Rightarrow> Option.bind (move_right_to_child t h promoted_child) (\<lambda>parent_id.
            let t1 = splice_child t parent_id promoted_child right separator
            in if length (keys (nd t1 parent_id)) \<le> node_capacity t1 then Some (None, t1)
               else (case split_internal t1 parent_id of
                   Inl e \<Rightarrow> Some (Some e, t1)
                 | Inr ((right', separator'), t2) \<Rightarrow>
                     splice_up t2 (parent_hint (nd t2 parent_id)) parent_id right' separator'))))"

definition bt_insert :: "btree \<Rightarrow> u64 \<Rightarrow> internal_id \<Rightarrow> (exn option \<times> btree) option" where
  "bt_insert t key rid =
     Option.bind (descend_locked t (root t) key) (\<lambda>cur.
       let t1 = leaf_insert t cur key rid
       in if length (keys (nd t1 cur)) \<le> node_capacity t1 then Some (None, t1)
          else (case split_leaf t1 cur of
              Inl e \<Rightarrow> Some (Some e, t1)
            | Inr ((right, separator), t2) \<Rightarrow>
                splice_up t2 (parent_hint (nd t2 cur)) cur right separator))"

section \<open>Removing\<close>

text \<open>A \<open>path\<close> is the vector of ancestors with its back first.\<close>

partial_function (option) descend_path ::
  "btree \<Rightarrow> node_id \<Rightarrow> u64 \<Rightarrow> node_id list \<Rightarrow> (node_id list \<times> node_id) option" where
  "descend_path t cur key path =
     (if is_leaf (nd t cur) then Some (path, cur)
      else if child_index (nd t cur) key < length (children (nd t cur))
        then descend_path t (children (nd t cur) ! child_index (nd t cur) key) key (cur # path)
        else None)"

partial_function (option) leftmost_path ::
  "btree \<Rightarrow> node_id \<Rightarrow> node_id list \<Rightarrow> (node_id list \<times> node_id) option" where
  "leftmost_path t node path =
     (if is_leaf (nd t node) then Some (path, node)
      else (case children (nd t node) of [] \<Rightarrow> None | c # _ \<Rightarrow> leftmost_path t c (node # path)))"

text \<open>\<open>Some None\<close>: the leaf was the rightmost one (the code returns false).\<close>

fun advance_to_next_leaf ::
  "btree \<Rightarrow> node_id list \<Rightarrow> node_id \<Rightarrow> (node_id list \<times> node_id) option option" where
  "advance_to_next_leaf t [] cur = Some None"
| "advance_to_next_leaf t (parent # path) cur =
     (let idx = child_position (nd t parent) cur
      in if length (children (nd t parent)) \<le> idx then None
         else if idx + 1 < length (children (nd t parent))
         then map_option Some (leftmost_path t (children (nd t parent) ! (idx + 1)) (parent # path))
         else advance_to_next_leaf t path parent)"

definition borrow_from_right :: "btree \<Rightarrow> node_id \<Rightarrow> nat \<Rightarrow> btree" where
  "borrow_from_right t parent ci =
     (let u = children (nd t parent) ! ci; r = children (nd t parent) ! (ci + 1)
      in if is_leaf (nd t u) then
           (let borrowed = hd (keys (nd t r)); v = hd (vals (nd t r))
            in upd_node parent (\<lambda>p. p\<lparr>keys := (keys p)[ci := borrowed]\<rparr>)
              (upd_node r (\<lambda>n. n\<lparr>keys := tl (keys n), vals := tl (vals n)\<rparr>)
              (upd_node u (\<lambda>n. n\<lparr>keys := keys n @ [borrowed], vals := vals n @ [v],
                 high_key := Some borrowed\<rparr>) t)))
         else
           (let new_sep = hd (keys (nd t r)); moved = hd (children (nd t r));
                old_sep = keys (nd t parent) ! ci
            in upd_node moved (\<lambda>n. n\<lparr>parent_hint := Some u\<rparr>)
              (upd_node r (\<lambda>n. n\<lparr>keys := tl (keys n), children := tl (children n)\<rparr>)
              (upd_node parent (\<lambda>p. p\<lparr>keys := (keys p)[ci := new_sep]\<rparr>)
              (upd_node u (\<lambda>n. n\<lparr>keys := keys n @ [old_sep], children := children n @ [moved],
                 high_key := Some new_sep\<rparr>) t)))))"

definition borrow_from_left :: "btree \<Rightarrow> node_id \<Rightarrow> nat \<Rightarrow> btree" where
  "borrow_from_left t parent ci =
     (let u = children (nd t parent) ! ci; l = children (nd t parent) ! (ci - 1)
      in if is_leaf (nd t u) then
           (let borrowed = last (keys (nd t l)); v = last (vals (nd t l));
                new_max = last (butlast (keys (nd t l)))
            in upd_node parent (\<lambda>p. p\<lparr>keys := (keys p)[ci - 1 := new_max]\<rparr>)
              (upd_node l (\<lambda>n. n\<lparr>keys := butlast (keys n), vals := butlast (vals n),
                 high_key := Some new_max\<rparr>)
              (upd_node u (\<lambda>n. n\<lparr>keys := borrowed # keys n, vals := v # vals n\<rparr>) t)))
         else
           (let moved = last (children (nd t l)); old_sep = keys (nd t parent) ! (ci - 1);
                new_sep = last (keys (nd t l))
            in upd_node moved (\<lambda>n. n\<lparr>parent_hint := Some u\<rparr>)
              (upd_node l (\<lambda>n. n\<lparr>keys := butlast (keys n), children := butlast (children n),
                 high_key := Some new_sep\<rparr>)
              (upd_node parent (\<lambda>p. p\<lparr>keys := (keys p)[ci - 1 := new_sep]\<rparr>)
              (upd_node u (\<lambda>n. n\<lparr>keys := old_sep # keys n, children := moved # children n\<rparr>) t)))))"

definition merge_with_right :: "btree \<Rightarrow> node_id \<Rightarrow> nat \<Rightarrow> btree" where
  "merge_with_right t parent ci =
     (let left_id = children (nd t parent) ! ci; right = nd t (children (nd t parent) ! (ci + 1));
          t1 = (if is_leaf (nd t left_id)
            then upd_node left_id (\<lambda>n. n\<lparr>keys := keys n @ keys right, vals := vals n @ vals right\<rparr>) t
            else set_hints (children right) left_id
              (upd_node left_id (\<lambda>n. n\<lparr>keys := keys n @ [keys (nd t parent) ! ci] @ keys right,
                 children := children n @ children right\<rparr>) t))
      in upd_node parent (\<lambda>p. p\<lparr>keys := erase_at ci (keys p),
           children := erase_at (ci + 1) (children p)\<rparr>)
         (upd_node left_id (\<lambda>n. n\<lparr>right_link := right_link right, high_key := high_key right\<rparr>) t1))"

text \<open>
  The rebalancing loop, with \<open>path\<close> shrinking by one level in every round. A node without
  any sibling would make the code index with \<open>ci - 1\<close> at \<open>ci = 0\<close>.
\<close>

fun rebalance_after_erase :: "btree \<Rightarrow> node_id list \<Rightarrow> node_id \<Rightarrow> btree option" where
  "rebalance_after_erase t [] node =
     Some (if \<not> is_leaf (nd t node) \<and> keys (nd t node) = []
       then (let new_root = hd (children (nd t node))
         in (upd_node new_root (\<lambda>n. n\<lparr>high_key := None, right_link := None, parent_hint := None\<rparr>) t)
              \<lparr>root := new_root\<rparr>)
       else t)"
| "rebalance_after_erase t (parent # path) node =
     (let min_keys = node_capacity t div 2
      in if min_keys \<le> length (keys (nd t node)) then Some t
      else
        (let cs = children (nd t parent); ci = child_position (nd t parent) node;
             has_right = ci + 1 < length cs; has_left = 0 < ci
         in if length cs \<le> ci then None
            else if has_right \<and> min_keys < length (keys (nd t (cs ! (ci + 1))))
            then Some (borrow_from_right t parent ci)
            else if has_left \<and> min_keys < length (keys (nd t (cs ! (ci - 1))))
            then Some (borrow_from_left t parent ci)
            else if has_right
            then rebalance_after_erase (merge_with_right t parent ci) path parent
            else if has_left
            then rebalance_after_erase (merge_with_right t parent (ci - 1)) path parent
            else None))"

text \<open>The position of the pair in a leaf, searched between the two bounds of its key.\<close>

definition entry_position :: "node \<Rightarrow> u64 \<Rightarrow> internal_id \<Rightarrow> nat option" where
  "entry_position leaf key rid =
     (let lo = lower_bound key (keys leaf); hi = upper_bound key (keys leaf);
          pos = lo + find_pos rid (take (hi - lo) (drop lo (vals leaf)))
      in if pos < hi then Some pos else None)"

partial_function (option) remove_from ::
  "btree \<Rightarrow> u64 \<Rightarrow> internal_id \<Rightarrow> node_id list \<Rightarrow> node_id \<Rightarrow> (bool \<times> btree) option" where
  "remove_from t key rid path cur =
     (case entry_position (nd t cur) key rid of
        Some pos \<Rightarrow>
          Option.bind (rebalance_after_erase
              ((upd_node cur (\<lambda>leaf. leaf\<lparr>keys := erase_at pos (keys leaf),
                  vals := erase_at pos (vals leaf)\<rparr>) t)\<lparr>tsize := tsize t - 1\<rparr>) path cur)
            (\<lambda>t'. Some (True, t'))
      | None \<Rightarrow>
          if upper_bound key (keys (nd t cur)) \<noteq> length (keys (nd t cur)) then Some (False, t)
          else Option.bind (advance_to_next_leaf t path cur) (\<lambda>a. case a of
              None \<Rightarrow> Some (False, t)
            | Some (path', cur') \<Rightarrow>
                if keys (nd t cur') = [] \<or> hd (keys (nd t cur')) \<noteq> key then Some (False, t)
                else remove_from t key rid path' cur'))"

definition bt_remove :: "btree \<Rightarrow> u64 \<Rightarrow> internal_id \<Rightarrow> (bool \<times> btree) option" where
  "bt_remove t key rid = Option.bind (descend_path t (root t) key []) (\<lambda>(path, cur).
     remove_from t key rid path cur)"

text \<open>The loops evaluate by their equations.\<close>

declare move_right.simps [code] move_right_to_child.simps [code] descend_locked.simps [code]
  range_from.simps [code] height_from.simps [code] splice_up.simps [code]
  descend_path.simps [code] leftmost_path.simps [code] remove_from.simps [code]

end
