(* ===== verification/BPlus_Read.thy ===== *)
theory BPlus_Read
  imports BPlus_Tree
begin

text \<open>
  Reading the B-link tree. A level of the tree is the list of its nodes from left to right;
  \<open>chain\<close> says that the right links thread it and that the high keys ascend, with no bound
  on the last node. \<open>rlink\<close> relates a level to the one above it in the weak form that the
  protocol needs: following a parent's separators never arrives to the right of a node
  that may hold the key. It holds in particular between the two steps of a split, when
  the new sibling is known to no parent. From these facts alone the scan of \<open>range\<close> is
  exact.
\<close>

section \<open>Bounds\<close>

text \<open>A high key is a bound from above, \<open>None\<close> the missing bound, the greatest of all.\<close>

definition ole :: "u64 option \<Rightarrow> u64 option \<Rightarrow> bool" where
  "ole a b = (case b of None \<Rightarrow> True | Some h \<Rightarrow> (case a of None \<Rightarrow> False | Some g \<Rightarrow> g \<le> h))"

definition hi_ok :: "u64 option \<Rightarrow> u64 \<Rightarrow> bool" where
  "hi_ok h k = (case h of None \<Rightarrow> True | Some h \<Rightarrow> k \<le> h)"

definition lo_ok :: "u64 option \<Rightarrow> u64 \<Rightarrow> bool" where
  "lo_ok l k = (case l of None \<Rightarrow> True | Some l \<Rightarrow> l \<le> k)"

lemma bound_simps [simp]:
  "hi_ok None k" "hi_ok (Some h) k = (k \<le> h)" "lo_ok None k" "lo_ok (Some h) k = (h \<le> k)"
  "ole a None" "ole (Some g) (Some h) = (g \<le> h)" "\<not> ole None (Some h)"
  by (simp_all add: hi_ok_def lo_ok_def ole_def)

lemma ole_refl [simp]: "ole a a"
  by (cases a) simp_all

lemma ole_trans: "ole a b \<Longrightarrow> ole b c \<Longrightarrow> ole a c"
  by (cases a; cases b; cases c) simp_all

lemma ole_hi_ok: "ole a b \<Longrightarrow> hi_ok a k \<Longrightarrow> hi_ok b k"
  by (cases a; cases b) auto

abbreviation hk :: "btree \<Rightarrow> node_id \<Rightarrow> u64 option" where
  "hk t x \<equiv> high_key (nd t x)"

definition passed :: "btree \<Rightarrow> u64 \<Rightarrow> node_id list \<Rightarrow> bool" where
  "passed t k A \<longleftrightarrow> (\<forall>a \<in> set A. \<not> hi_ok (hk t a) k)"

lemma passed_simps [simp]:
  "passed t k []" "passed t k (A @ B) = (passed t k A \<and> passed t k B)"
  "passed t k (a # A) = (\<not> hi_ok (hk t a) k \<and> passed t k A)"
  by (auto simp: passed_def)

section \<open>Levels\<close>

primrec linked :: "btree \<Rightarrow> node_id list \<Rightarrow> node_id option \<Rightarrow> bool" where
  "linked t [] e = True"
| "linked t (x # L) e =
     (right_link (nd t x) = (case L of [] \<Rightarrow> e | y # _ \<Rightarrow> Some y) \<and> linked t L e)"

definition chain :: "btree \<Rightarrow> node_id list \<Rightarrow> bool" where
  "chain t L \<longleftrightarrow> L \<noteq> [] \<and> linked t L None \<and> sorted_wrt ole (map (hk t) L) \<and>
     hk t (last L) = None \<and> (\<forall>x \<in> set (butlast L). hk t x \<noteq> None)"

lemma linked_append: "linked t (A @ B) e =
    (linked t A (case B of [] \<Rightarrow> e | y # _ \<Rightarrow> Some y) \<and> linked t B e)"
  by (induction A) (auto split: list.splits)

lemma chain_suffix: "chain t (A @ c # B) \<Longrightarrow> chain t (c # B)"
  by (auto simp: chain_def linked_append sorted_wrt_append butlast_append)

lemma chain_next:
  assumes "chain t (c # B)" and "hk t c \<noteq> None"
  obtains d B' where "B = d # B'" and "right_link (nd t c) = Some d" and "ole (hk t c) (hk t d)"
  using assms by (cases B) (auto simp: chain_def)

lemma chain_last_link: "chain t [c] \<Longrightarrow> right_link (nd t c) = None \<and> hk t c = None"
  by (simp add: chain_def)

text \<open>In a chain the walk to the right ends at the first node whose bound covers the key.\<close>

lemma move_right_chain:
  assumes "chain t (c # B)"
  shows "\<exists>A x B'. c # B = A @ x # B' \<and> passed t k A \<and> hi_ok (hk t x) k \<and> move_right t c k = Some x"
  using assms
proof (induction B arbitrary: c)
  case Nil
  then have "hk t c = None" by (simp add: chain_def)
  then have "move_right t c k = Some c" by (simp add: move_right.simps)
  then show ?case using \<open>hk t c = None\<close> by (intro exI [of _ "[]"] exI [of _ c] exI [of _ "[]"]) simp
next
  case (Cons d B)
  then obtain h where h: "hk t c = Some h" and r: "right_link (nd t c) = Some d" and d: "chain t (d # B)"
    using chain_suffix [of t "[c]" d B] by (auto simp: chain_def)
  show ?case
  proof (cases "h < k")
    case True
    then have m: "move_right t c k = move_right t d k" using h r by (subst move_right.simps) simp
    from Cons.IH [OF d] obtain A x B' where
      "d # B = A @ x # B'" "passed t k A" "hi_ok (hk t x) k" "move_right t d k = Some x" by blast
    then show ?thesis using m h True
      by (intro exI [of _ "c # A"] exI [of _ x] exI [of _ B']) simp
  next
    case False
    then have "move_right t c k = Some c" using h by (subst move_right.simps) simp
    then show ?thesis using h False by (intro exI [of _ "[]"] exI [of _ c] exI [of _ "d # B"]) simp
  qed
qed

lemma move_right_stay: "hi_ok (hk t c) k \<Longrightarrow> move_right t c k = Some c"
  by (subst move_right.simps) (auto split: option.splits)

section \<open>Routing from a level to the one below\<close>

text \<open>\<open>H\<close> is the bound a parent level holds for each node it knows.\<close>

definition routes :: "btree \<Rightarrow> (node_id \<Rightarrow> u64 option) \<Rightarrow> node_id \<Rightarrow> bool" where
  "routes t H x \<longleftrightarrow> \<not> is_leaf (nd t x) \<and>
     map H (children (nd t x)) = map Some (keys (nd t x)) @ [hk t x] \<and>
     sorted_wrt ole (map H (children (nd t x)))"

definition known :: "btree \<Rightarrow> node_id list \<Rightarrow> node_id list" where
  "known t U = concat (map (\<lambda>x. children (nd t x)) U)"

definition rlink :: "btree \<Rightarrow> node_id list \<Rightarrow> node_id list \<Rightarrow> bool" where
  "rlink t D U \<longleftrightarrow> (\<exists>H. (\<forall>x \<in> set U. routes t H x) \<and>
     (\<forall>k P c Q. known t U = P @ c # Q \<longrightarrow> (\<forall>a \<in> set P. \<not> hi_ok (H a) k) \<longrightarrow>
        (\<exists>P' Q'. D = P' @ c # Q' \<and> passed t k P')))"

definition readable :: "btree \<Rightarrow> node_id list list \<Rightarrow> bool" where
  "readable t Ls \<longleftrightarrow> Ls \<noteq> [] \<and> (\<forall>L \<in> set Ls. chain t L) \<and> successively (rlink t) Ls \<and>
     (\<forall>x \<in> set (hd Ls). is_leaf (nd t x)) \<and> hd (last Ls) = root t"

lemma known_simps [simp]:
  "known t [] = []" "known t (x # U) = children (nd t x) @ known t U"
  "known t (U @ V) = known t U @ known t V"
  by (simp_all add: known_def)

lemma routes_length: "routes t H x \<Longrightarrow> length (children (nd t x)) = Suc (length (keys (nd t x)))"
  unfolding routes_def by (metis length_append length_map length_Cons list.size(3) One_nat_def add.right_neutral add_Suc_right)

lemma routes_child:
  assumes "routes t H x" and "j < length (keys (nd t x))"
  shows "H (children (nd t x) ! j) = Some (keys (nd t x) ! j)"
proof -
  have "map H (children (nd t x)) ! j = (map Some (keys (nd t x)) @ [hk t x]) ! j"
    using assms(1) by (simp add: routes_def)
  then show ?thesis using assms(2) routes_length [OF assms(1)] by (simp add: nth_append)
qed

lemma routes_bounded:
  assumes "routes t H x" and "c \<in> set (children (nd t x))"
  shows "ole (H c) (hk t x)"
proof -
  have *: "map H (children (nd t x)) = map Some (keys (nd t x)) @ [hk t x]"
    and "sorted_wrt ole (map Some (keys (nd t x)) @ [hk t x])"
    using assms(1) unfolding routes_def by metis+
  then have "\<forall>h \<in> set (map Some (keys (nd t x)) @ [hk t x]). ole h (hk t x)"
    by (auto simp: sorted_wrt_append)
  moreover have "H c \<in> set (map Some (keys (nd t x)) @ [hk t x])"
    unfolding * [symmetric] using assms(2) by simp
  ultimately show ?thesis by blast
qed

text \<open>One step down: the child the code takes has nothing that covers the key to its left.\<close>

lemma child_step:
  assumes rl: "rlink t D (A @ x # B)" and A: "passed t k A" and x: "hi_ok (hk t x) k"
  defines "i \<equiv> child_index (nd t x) k"
  shows "\<not> is_leaf (nd t x) \<and> i < length (children (nd t x)) \<and>
    (\<exists>P Q. D = P @ (children (nd t x) ! i) # Q \<and> passed t k P)"
proof -
  from rl obtain H where H: "\<forall>y \<in> set (A @ x # B). routes t H y" and
    D: "\<And>k P c Q. known t (A @ x # B) = P @ c # Q \<Longrightarrow> \<forall>a \<in> set P. \<not> hi_ok (H a) k \<Longrightarrow>
      \<exists>P' Q'. D = P' @ c # Q' \<and> passed t k P'"
    unfolding rlink_def by blast
  have rx: "routes t H x" using H by simp
  let ?C = "children (nd t x)"
  have ik: "i \<le> length (keys (nd t x))" by (simp add: i_def child_index_def)
  then have i: "i < length ?C" using routes_length [OF rx] by simp
  let ?P = "known t A @ take i ?C" and ?Q = "drop (Suc i) ?C @ known t B"
  have "known t (A @ x # B) = ?P @ ?C ! i # ?Q"
    using i by (simp add: id_take_nth_drop [symmetric])
  moreover have "\<not> hi_ok (H a) k" if "a \<in> set (known t A)" for a
  proof -
    from that obtain y where y: "y \<in> set A" "a \<in> set (children (nd t y))" by (auto simp: known_def)
    then have "ole (H a) (hk t y)" using H routes_bounded by auto
    moreover have "\<not> hi_ok (hk t y) k" using A y by (auto simp: passed_def)
    ultimately show ?thesis using ole_hi_ok by blast
  qed
  moreover have "\<not> hi_ok (H a) k" if "a \<in> set (take i ?C)" for a
  proof -
    from that obtain j where j: "j < i" "a = ?C ! j"
      using i by (auto simp: in_set_conv_nth)
    then have "H a = Some (keys (nd t x) ! j)" using routes_child [OF rx, of j] ik by simp
    moreover have "keys (nd t x) ! j \<in> set (take i (keys (nd t x)))"
      using j ik by (auto simp: in_set_conv_nth)
    then have "keys (nd t x) ! j < k" unfolding i_def child_index_def by (rule lower_bound_less)
    ultimately show ?thesis by simp
  qed
  ultimately have "\<exists>P' Q'. D = P' @ (?C ! i) # Q' \<and> passed t k P'"
    by (intro D [of ?P "?C ! i" ?Q]) auto
  then show ?thesis using rx i by (simp add: routes_def)
qed

lemma descend_levels:
  assumes "Rs \<noteq> []" and "\<forall>L \<in> set Rs. chain t L" and "successively (\<lambda>U D. rlink t D U) Rs"
    and "\<forall>x \<in> set (last Rs). is_leaf (nd t x)" and "hd Rs = P @ c # Q" and "passed t k P"
  shows "\<exists>A x B. last Rs = A @ x # B \<and> passed t k A \<and> hi_ok (hk t x) k \<and> descend_locked t c k = Some x"
  using assms
proof (induction Rs arbitrary: P c Q)
  case (Cons U Rs)
  have "chain t (c # Q)" using Cons.prems by (auto intro: chain_suffix)
  then obtain A x B where x: "c # Q = A @ x # B" "passed t k A" "hi_ok (hk t x) k" "move_right t c k = Some x"
    using move_right_chain by blast
  show ?case
  proof (cases Rs)
    case Nil
    then have "is_leaf (nd t x)" using Cons.prems x(1) by simp
    then have "descend_locked t c k = Some x" using x(4) by (simp add: descend_locked.simps)
    then show ?thesis using Nil Cons.prems x
      by (intro exI [of _ "P @ A"] exI [of _ x] exI [of _ B]) simp
  next
    case (Cons D Rs')
    let ?i = "child_index (nd t x) k"
    have "rlink t D ((P @ A) @ x # B)" using Cons.prems(3,5) Cons x(1) by simp
    from child_step [OF this, of k] x Cons.prems(6) obtain P' Q' where
      s: "\<not> is_leaf (nd t x)" "?i < length (children (nd t x))"
        "D = P' @ (children (nd t x) ! ?i) # Q'" "passed t k P'" by auto
    have "descend_locked t c k = descend_locked t (children (nd t x) ! ?i) k"
      using x(4) s by (subst descend_locked.simps) simp
    moreover have "\<exists>A x' B. last Rs = A @ x' # B \<and> passed t k A \<and> hi_ok (hk t x') k \<and>
        descend_locked t (children (nd t x) ! ?i) k = Some x'"
      using Cons.prems Cons s by (intro Cons.IH [of P' _ Q']) auto
    ultimately show ?thesis using Cons by simp
  qed
qed simp

lemma readable_root:
  assumes "readable t Ls"
  obtains R where "chain t (root t # R)" and "last Ls = root t # R"
proof (cases "last Ls")
  case Nil
  then show ?thesis using assms by (auto simp: readable_def chain_def dest: bspec [OF _ last_in_set])
next
  case (Cons r R)
  then show ?thesis using assms that by (auto simp: readable_def dest: bspec [OF _ last_in_set])
qed

lemma descend_readable:
  assumes "readable t Ls"
  shows "\<exists>A x B. hd Ls = A @ x # B \<and> passed t k A \<and> hi_ok (hk t x) k \<and>
    descend_locked t (root t) k = Some x"
proof -
  have ne: "Ls \<noteq> []" using assms by (simp add: readable_def)
  then have "chain t (last Ls)" using assms by (simp add: readable_def)
  then have "last Ls = [] @ root t # tl (last Ls)"
    using assms by (cases "last Ls") (auto simp: chain_def readable_def)
  then show ?thesis
    using assms ne descend_levels [of "rev Ls" t "[]" "root t" "tl (last Ls)" k]
    by (simp add: readable_def hd_rev last_rev successively_rev)
qed

section \<open>The scan along the leaves\<close>

text \<open>
  \<open>leaves_ok t lo L\<close>: the leaves \<open>L\<close> hold sorted keys, each within the bounds of its leaf;
  \<open>lo\<close> bounds the first from below, and only the last leaf has no upper bound.
\<close>

definition lo_le :: "u64 option \<Rightarrow> u64 option \<Rightarrow> bool" where
  "lo_le l h = (case l of None \<Rightarrow> True | Some g \<Rightarrow> ole (Some g) h)"

lemma lo_le_simps [simp]: "lo_le None h" "lo_le (Some g) h = ole (Some g) h"
  by (simp_all add: lo_le_def)

primrec leaves_ok :: "btree \<Rightarrow> u64 option \<Rightarrow> node_id list \<Rightarrow> bool" where
  "leaves_ok t lo [] = True"
| "leaves_ok t lo (x # L) =
     (is_leaf (nd t x) \<and> length (vals (nd t x)) = length (keys (nd t x)) \<and> sorted (keys (nd t x)) \<and>
      (\<forall>k \<in> set (keys (nd t x)). lo_ok lo k \<and> hi_ok (hk t x) k) \<and>
      lo_le lo (hk t x) \<and> (L \<noteq> [] \<longrightarrow> hk t x \<noteq> None) \<and> leaves_ok t (hk t x) L)"

definition leaf_entries :: "btree \<Rightarrow> node_id \<Rightarrow> (u64 \<times> internal_id) list" where
  "leaf_entries t x = zip (keys (nd t x)) (vals (nd t x))"

definition entries :: "btree \<Rightarrow> node_id list \<Rightarrow> (u64 \<times> internal_id) list" where
  "entries t L = concat (map (leaf_entries t) L)"

lemma entries_simps [simp]:
  "entries t [] = []" "entries t (x # L) = leaf_entries t x @ entries t L"
  "entries t (L @ M) = entries t L @ entries t M"
  by (simp_all add: entries_def)

lemma map_fst_leaf_entries:
  "length (vals (nd t x)) = length (keys (nd t x)) \<Longrightarrow> map fst (leaf_entries t x) = keys (nd t x)"
  by (simp add: leaf_entries_def)

definition in_range :: "u64 \<Rightarrow> u64 \<Rightarrow> (u64 \<times> internal_id) list \<Rightarrow> (u64 \<times> internal_id) list" where
  "in_range lo hi es = filter (\<lambda>e. lo \<le> fst e \<and> fst e \<le> hi) es"

lemma in_range_append [simp]: "in_range lo hi (xs @ ys) = in_range lo hi xs @ in_range lo hi ys"
  by (simp add: in_range_def)

lemma in_range_Nil: "(\<And>e. e \<in> set es \<Longrightarrow> fst e < lo \<or> hi < fst e) \<Longrightarrow> in_range lo hi es = []"
  by (force simp: in_range_def filter_empty_conv not_le)

lemma in_range_id: "(\<And>e. e \<in> set es \<Longrightarrow> lo \<le> fst e \<and> fst e \<le> hi) \<Longrightarrow> in_range lo hi es = es"
  by (simp add: in_range_def)

lemma leaf_entry_key: "e \<in> set (leaf_entries t x) \<Longrightarrow> fst e \<in> set (keys (nd t x))"
  by (cases e) (auto simp: leaf_entries_def dest: set_zip_leftD)

lemma leaves_ok_above:
  "leaves_ok t lo L \<Longrightarrow> e \<in> set (entries t L) \<Longrightarrow> lo_ok lo (fst e)"
proof (induction L arbitrary: lo)
  case (Cons x L)
  show ?case
  proof (cases "e \<in> set (leaf_entries t x)")
    case True
    then have "fst e \<in> set (keys (nd t x))" by (rule leaf_entry_key)
    then show ?thesis using Cons.prems(1) by simp
  next
    case False
    then have e: "e \<in> set (entries t L)" "L \<noteq> []" using Cons.prems(2) by auto
    then obtain h where "hk t x = Some h" using Cons.prems(1) by auto
    then show ?thesis using Cons.IH [of "hk t x"] Cons.prems(1) e by (cases lo) auto
  qed
qed simp

lemma sorted_keys_scan:
  assumes "sorted (map fst es)"
  shows "takeWhile (\<lambda>e. fst e \<le> hi) (drop (lower_bound lo (map fst es)) es) = in_range lo hi es"
  using assms
proof (induction es)
  case (Cons e es)
  show ?case
  proof (cases "fst e < lo")
    case True
    then show ?thesis using Cons by (simp add: lower_bound_def in_range_def not_le [symmetric])
  next
    case False
    have "takeWhile (\<lambda>e. fst e \<le> hi) es = in_range lo hi es" if "fst e \<le> hi"
    proof -
      have "lower_bound lo (map fst es) = 0"
        using Cons.prems False by (cases es) (auto simp: lower_bound_def)
      then show ?thesis using Cons by simp
    qed
    moreover have "in_range lo hi es = []" if "\<not> fst e \<le> hi"
      using Cons.prems that by (intro in_range_Nil) (auto simp: not_le intro: less_le_trans)
    ultimately show ?thesis using False by (auto simp: lower_bound_def in_range_def)
  qed
qed (simp add: lower_bound_def in_range_def)

lemma leaf_batch_in_range:
  assumes "length (vals (nd t x)) = length (keys (nd t x))" and "sorted (keys (nd t x))"
  shows "leaf_batch (nd t x) lo hi = in_range lo hi (leaf_entries t x)"
  using sorted_keys_scan [of "leaf_entries t x" hi lo] assms
  by (simp add: leaf_batch_def map_fst_leaf_entries) (simp add: leaf_entries_def)

theorem range_from_scans:
  assumes "chain t (c # Q)" and "leaves_ok t b (c # Q)"
  shows "range_from t lo hi c = Some (in_range lo hi (entries t (c # Q)))"
  using assms
proof (induction Q arbitrary: b c)
  case Nil
  then have c: "right_link (nd t c) = None" "hk t c = None" by (simp_all add: chain_def)
  then have "move_right t c lo = Some c" by (simp add: move_right.simps)
  then show ?case using c Nil.prems(2) by (subst range_from.simps) (simp add: leaf_batch_in_range)
next
  case (Cons d Q)
  have d: "chain t (d # Q)" using chain_suffix [of t "[c]" d Q] Cons.prems by simp
  obtain h where h: "hk t c = Some h" and r: "right_link (nd t c) = Some d"
    using Cons.prems(1) by (auto simp: chain_def)
  have ld: "leaves_ok t (Some h) (d # Q)" using Cons.prems(2) h by simp
  note IH = Cons.IH [OF d ld]
  show ?case
  proof (cases "h < lo")
    case True
    then have "move_right t c lo = move_right t d lo" using h r by (subst move_right.simps) simp
    then have "range_from t lo hi c = range_from t lo hi d"
      by (subst (1 2) range_from.simps) simp
    moreover have "in_range lo hi (leaf_entries t c) = []"
    proof (rule in_range_Nil)
      fix e assume "e \<in> set (leaf_entries t c)"
      then have "fst e \<le> h" using leaf_entry_key [of e t c] Cons.prems(2) h by auto
      then show "fst e < lo \<or> hi < fst e" using True by (auto intro: le_less_trans)
    qed
    ultimately show ?thesis using IH by simp
  next
    case False
    then have m: "move_right t c lo = Some c" using h by (subst move_right.simps) simp
    have lb: "leaf_batch (nd t c) lo hi = in_range lo hi (leaf_entries t c)"
      using Cons.prems(2) by (intro leaf_batch_in_range) auto
    show ?thesis
    proof (cases "exceeded_hi (nd t c) lo hi")
      case True
      then obtain k where k: "k \<in> set (keys (nd t c))" "hi < k"
        by (auto simp: exceeded_hi_def dest: in_set_dropD)
      then have "hi < h" using Cons.prems(2) h by (auto intro: less_le_trans)
      have "in_range lo hi (entries t (d # Q)) = []"
      proof (rule in_range_Nil)
        fix e assume "e \<in> set (entries t (d # Q))"
        then have "h \<le> fst e" using leaves_ok_above [OF ld] by simp
        then show "fst e < lo \<or> hi < fst e" using \<open>hi < h\<close> by (auto intro: less_le_trans)
      qed
      then show ?thesis using m True lb by (subst range_from.simps) simp
    next
      case False
      then show ?thesis using m r lb IH by (subst range_from.simps) simp
    qed
  qed
qed

lemma leaves_ok_append:
  "leaves_ok t lo (A @ B) \<Longrightarrow> leaves_ok t lo A \<and> leaves_ok t (last (lo # map (hk t) A)) B"
  by (induction A arbitrary: lo) auto

lemma leaves_passed:
  assumes "leaves_ok t b (A @ B)" and "passed t lo A"
  shows "in_range lo hi (entries t A) = []"
  using assms
proof (induction A arbitrary: b)
  case (Cons a A)
  have "in_range lo hi (leaf_entries t a) = []"
  proof (rule in_range_Nil)
    fix e assume "e \<in> set (leaf_entries t a)"
    then have "hi_ok (hk t a) (fst e)" using Cons.prems(1) leaf_entry_key by simp
    then show "fst e < lo \<or> hi < fst e" using Cons.prems(2) by (cases "hk t a") (auto simp: not_le)
  qed
  moreover have "in_range lo hi (entries t A) = []" using Cons.prems by (intro Cons.IH [of "hk t a"]) auto
  ultimately show ?case by simp
qed (simp add: in_range_def)

text \<open>On a readable tree the query answers exactly the entries of its leaves within the range.\<close>

theorem bt_range_readable:
  assumes "readable t Ls" and "leaves_ok t None (hd Ls)"
  shows "bt_range t lo hi = Some (in_range lo hi (entries t (hd Ls)))"
proof (cases "hi < lo")
  case True
  then have "in_range lo hi (entries t (hd Ls)) = []" by (intro in_range_Nil) auto
  then show ?thesis using True by (simp add: bt_range_def)
next
  case False
  from descend_readable [OF assms(1), of lo] obtain A x B where
    x: "hd Ls = A @ x # B" "passed t lo A" "descend_locked t (root t) lo = Some x" by blast
  from readable_root [OF assms(1)] obtain R where "chain t (root t # R)" by blast
  then obtain c where c: "move_right t (root t) lo = Some c" "hi_ok (hk t c) lo"
    using move_right_chain by blast
  then have "descend_locked t c lo = Some x"
    using x(3) move_right_stay [OF c(2)] by (subst (asm) descend_locked.simps, subst descend_locked.simps) simp
  moreover have "range_from t lo hi x = Some (in_range lo hi (entries t (x # B)))"
  proof (rule range_from_scans)
    have "chain t (hd Ls)" using assms(1) by (simp add: readable_def)
    then show "chain t (x # B)" using x(1) chain_suffix by simp
    show "leaves_ok t (last (None # map (hk t) A)) (x # B)"
      using assms(2) x(1) leaves_ok_append [of t None A "x # B"] by simp
  qed
  moreover have "in_range lo hi (entries t A) = []"
    using leaves_passed [of t None A "x # B" lo hi] assms(2) x by simp
  ultimately show ?thesis using False c(1) x(1) by (simp add: bt_range_def)
qed

end
