(* ===== verification/BPlus_Inv.thy ===== *)
theory BPlus_Inv
  imports BPlus_Read
begin

text \<open>
  The shape of a B-link tree between two operations and between the two steps of a split.
  \<open>shape t Ls\<close>: the tree \<open>t\<close> consists of the levels \<open>Ls\<close>, leaves first and the root level last;
  every level is threaded by its right links, the nodes of a level are exactly the children
  of the next one in order, and every separator is the high key of the child to its left.
  \<open>pend t Bs Us l r\<close>: the same with the last level of \<open>Bs\<close> just split at \<open>l\<close>, whose new
  sibling \<open>r\<close> no parent in \<open>Us\<close> knows yet. Both shapes can be read.
\<close>

section \<open>Bounds of a level\<close>

definition bounds :: "u64 option list \<Rightarrow> bool" where
  "bounds hs \<longleftrightarrow> hs \<noteq> [] \<and> sorted_wrt ole hs \<and> last hs = None \<and> (\<forall>h \<in> set (butlast hs). h \<noteq> None)"

lemma chain_bounds: "chain t L \<longleftrightarrow> linked t L None \<and> bounds (map (hk t) L)"
  by (auto simp: chain_def bounds_def last_map map_butlast [symmetric])

lemma bounds_Cons: "bounds (h # hs) \<longleftrightarrow> (if hs = [] then h = None
    else h \<noteq> None \<and> (\<forall>g \<in> set hs. ole h g) \<and> bounds hs)"
  by (auto simp: bounds_def)

lemma bounds_append: "ys \<noteq> [] \<Longrightarrow> bounds (xs @ ys) \<longleftrightarrow>
    (\<forall>h \<in> set xs. h \<noteq> None) \<and> sorted_wrt ole xs \<and> (\<forall>x \<in> set xs. \<forall>y \<in> set ys. ole x y) \<and> bounds ys"
  by (induction xs) (auto simp: bounds_Cons)

lemma bounds_skip: "bounds (xs @ x # y # ys) \<Longrightarrow> bounds (xs @ y # ys)"
  by (simp add: bounds_append bounds_Cons)

lemma leaves_ok_bounds:
  "leaves_ok t lo L \<Longrightarrow> L \<noteq> [] \<Longrightarrow> hk t (last L) = None \<Longrightarrow>
     bounds (map (hk t) L) \<and> (\<forall>h \<in> set (map (hk t) L). lo_le lo h)"
proof (induction L arbitrary: lo)
  case (Cons x L)
  show ?case
  proof (cases "L = []")
    case True
    then show ?thesis using Cons.prems by (cases lo) (auto simp: bounds_Cons)
  next
    case False
    then obtain h where h: "hk t x = Some h" using Cons.prems by auto
    have IH: "bounds (map (hk t) L) \<and> (\<forall>g \<in> set (map (hk t) L). lo_le (Some h) g)"
      using Cons.IH [of "hk t x"] Cons.prems False h by simp
    have "\<forall>g \<in> set (map (hk t) L). lo_le lo g"
    proof (cases lo)
      case (Some a)
      then have "ole (Some a) (Some h)" using Cons.prems(1) h by simp
      then show ?thesis using IH Some ole_trans [of "Some a" "Some h"] by simp
    qed simp
    then show ?thesis using IH h False Cons.prems(1) by (simp add: bounds_Cons)
  qed
qed simp

section \<open>A level and its parents\<close>

definition inode_ok :: "btree \<Rightarrow> (node_id \<Rightarrow> u64 option) \<Rightarrow> node_id \<Rightarrow> bool" where
  "inode_ok t H x \<longleftrightarrow> \<not> is_leaf (nd t x) \<and> children (nd t x) \<noteq> [] \<and>
     map H (children (nd t x)) = map Some (keys (nd t x)) @ [hk t x] \<and>
     (\<forall>c \<in> set (children (nd t x)). parent_hint (nd t c) = Some x)"

text \<open>The level \<open>U\<close> knows exactly the nodes \<open>K\<close>, with \<open>H\<close> as their bounds.\<close>

definition knows :: "btree \<Rightarrow> (node_id \<Rightarrow> u64 option) \<Rightarrow> node_id list \<Rightarrow> node_id list \<Rightarrow> bool" where
  "knows t H K U \<longleftrightarrow> known t U = K \<and> (\<forall>x \<in> set U. inode_ok t H x)"

abbreviation lnk :: "btree \<Rightarrow> node_id list \<Rightarrow> node_id list \<Rightarrow> bool" where
  "lnk t D U \<equiv> knows t (hk t) D U"

lemma inode_ok_lengths: "inode_ok t H x \<Longrightarrow> length (children (nd t x)) = Suc (length (keys (nd t x)))"
  unfolding inode_ok_def
  by (metis length_append length_map length_Cons list.size(3) One_nat_def add.right_neutral add_Suc_right)

lemma knows_bounds:
  "knows t H K U \<Longrightarrow> U \<noteq> [] \<Longrightarrow> bounds (map H K) \<Longrightarrow> bounds (map (hk t) U)"
proof (induction U arbitrary: K)
  case (Cons x U)
  then have x: "inode_ok t H x" and U: "knows t H (known t U) U"
    and K: "K = children (nd t x) @ known t U"
    by (auto simp: knows_def)
  show ?case
  proof (cases "U = []")
    case True
    then have "last (map H K) = hk t x" using x K by (simp add: inode_ok_def)
    then show ?thesis using Cons.prems(3) True by (simp add: bounds_def)
  next
    case False
    then have ne: "known t U \<noteq> []" using U by (cases U) (auto simp: knows_def inode_ok_def)
    have eq: "map H K = (map Some (keys (nd t x)) @ [hk t x]) @ map H (known t U)"
      using x K by (simp add: inode_ok_def)
    then have b: "bounds (map H (known t U))" "\<forall>g \<in> set (map H (known t U)). ole (hk t x) g" "hk t x \<noteq> None"
      using Cons.prems(3) ne by (simp_all add: bounds_append bounds_Cons)
    have "\<exists>c \<in> set (known t U). H c = hk t y" if "y \<in> set U" for y
    proof -
      have y: "inode_ok t H y" using U that by (simp add: knows_def)
      then have "H (last (children (nd t y))) = hk t y"
        by (metis inode_ok_def last_map last_snoc)
      moreover have "last (children (nd t y)) \<in> set (known t U)"
        using y that by (auto simp: known_def inode_ok_def intro!: bexI [of _ y])
      ultimately show ?thesis by blast
    qed
    then have "\<forall>g \<in> set (map (hk t) U). ole (hk t x) g" using b(2) by force
    then show ?thesis using Cons.IH [OF U False b(1)] b(3) False by (simp add: bounds_Cons)
  qed
qed simp

lemma knows_routes:
  assumes "knows t H K U" and "bounds (map H K)" and "x \<in> set U"
  shows "routes t H x"
proof -
  from assms(3) obtain U1 U2 where U: "U = U1 @ x # U2" by (auto simp: in_set_conv_decomp)
  have "sorted_wrt ole (map H K)" using assms(2) by (simp add: bounds_def)
  then have "sorted_wrt ole (map H (children (nd t x)))"
    using assms(1) U by (auto simp: knows_def sorted_wrt_append)
  then show ?thesis using assms(1,3) by (simp add: knows_def inode_ok_def routes_def)
qed

lemma knows_rlink:
  assumes "lnk t D U" and "bounds (map (hk t) D)"
  shows "rlink t D U"
  unfolding rlink_def
proof (intro exI [of _ "hk t"] conjI ballI allI impI)
  fix k P c Q assume "known t U = P @ c # Q" and "\<forall>a \<in> set P. \<not> hi_ok (hk t a) k"
  then have "D = P @ c # Q \<and> passed t k P"
    using assms(1) by (simp add: knows_def passed_def)
  then show "\<exists>P' Q'. D = P' @ c # Q' \<and> passed t k P'" by blast
qed (use assms knows_routes in auto)

lemma knows_rlink_pending:
  assumes K: "knows t ((hk t)(l := hk t r)) (A @ l # B) U"
    and b: "bounds (map (hk t) (A @ l # r # B))" and l: "l \<notin> set A" "l \<notin> set B"
  shows "rlink t (A @ l # r # B) U \<and> bounds (map ((hk t)(l := hk t r)) (A @ l # B))"
proof
  let ?H = "(hk t)(l := hk t r)"
  have eq: "map ?H (A @ l # B) = map (hk t) (A @ r # B)" using l by auto
  show b': "bounds (map ?H (A @ l # B))" unfolding eq using b bounds_skip by simp
  have lr: "ole (hk t l) (hk t r)" using b by (simp add: bounds_append bounds_Cons)
  show "rlink t (A @ l # r # B) U"
    unfolding rlink_def
  proof (intro exI [of _ ?H] conjI ballI allI impI)
    fix k P c Q assume "known t U = P @ c # Q" and P: "\<forall>a \<in> set P. \<not> hi_ok (?H a) k"
    then have eq: "A @ l # B = P @ c # Q" using K by (simp add: knows_def)
    show "\<exists>P' Q'. A @ l # r # B = P' @ c # Q' \<and> passed t k P'"
    proof (cases "l \<in> set P")
      case True
      then obtain P1 P2 where P12: "P = P1 @ l # P2" by (auto simp: in_set_conv_decomp)
      have "A @ l # B = P1 @ l # (P2 @ c # Q)" using eq P12 by simp
      then have AB: "A = P1" "B = P2 @ c # Q" using l append_Cons_eq_iff by metis+
      have "\<forall>a \<in> set P1 \<union> set P2. a \<noteq> l" using l AB by auto
      then have "passed t k P1" "passed t k P2" using P P12 by (simp_all add: passed_def)
      moreover have "\<not> hi_ok (hk t r) k" using P P12 by simp
      moreover have "\<not> hi_ok (hk t l) k" using lr ole_hi_ok \<open>\<not> hi_ok (hk t r) k\<close> by blast
      ultimately have "passed t k (A @ l # r # P2)" and "A @ l # r # B = (A @ l # r # P2) @ c # Q"
        using AB by simp_all
      then show ?thesis by blast
    next
      case False
      then have "passed t k P" using P by (auto simp: passed_def split: if_splits)
      moreover obtain V where V: "A = P @ V" "V @ l # B = c # Q"
        using eq False by (auto simp: append_eq_append_conv2 Cons_eq_append_conv)
      then have "\<exists>Q'. A @ l # r # B = P @ c # Q'" by (cases V) auto
      ultimately show ?thesis by blast
    qed
  qed (use K b' knows_routes in auto)
qed

section \<open>The whole tree\<close>

definition base :: "btree \<Rightarrow> node_id list list \<Rightarrow> bool" where
  "base t Ls \<longleftrightarrow> Ls \<noteq> [] \<and> (\<forall>L \<in> set Ls. L \<noteq> [] \<and> linked t L None) \<and>
     leaves_ok t None (hd Ls) \<and> hk t (last (hd Ls)) = None \<and>
     distinct (concat Ls) \<and> (\<forall>x \<in> set (concat Ls). x < length (nodes t))"

definition top_ok :: "btree \<Rightarrow> node_id list list \<Rightarrow> bool" where
  "top_ok t Ls \<longleftrightarrow> last Ls = [root t] \<and> parent_hint (nd t (root t)) = None"

definition shape :: "btree \<Rightarrow> node_id list list \<Rightarrow> bool" where
  "shape t Ls \<longleftrightarrow> base t Ls \<and> successively (lnk t) Ls \<and> top_ok t Ls"

text \<open>The levels \<open>Us\<close> above a level of which they know the nodes \<open>K\<close>; \<open>K\<close> is the root if there are none.\<close>

definition above :: "btree \<Rightarrow> (node_id \<Rightarrow> u64 option) \<Rightarrow> node_id list \<Rightarrow> node_id list list \<Rightarrow> bool" where
  "above t H K Us \<longleftrightarrow> (if Us = [] then K = [root t] \<and> parent_hint (nd t (root t)) = None
     else knows t H K (hd Us) \<and> successively (lnk t) Us \<and> top_ok t Us)"

definition pend :: "btree \<Rightarrow> node_id list list \<Rightarrow> node_id list list \<Rightarrow> node_id \<Rightarrow> node_id \<Rightarrow> bool" where
  "pend t Bs Us l r \<longleftrightarrow> Bs \<noteq> [] \<and> base t (Bs @ Us) \<and> successively (lnk t) Bs \<and>
     (\<exists>A B. last Bs = A @ l # r # B \<and> above t ((hk t)(l := hk t r)) (A @ l # B) Us)"

lemma shape_split: "Bs \<noteq> [] \<Longrightarrow> shape t (Bs @ Us) \<longleftrightarrow>
    base t (Bs @ Us) \<and> successively (lnk t) Bs \<and> above t (hk t) (last Bs) Us"
  by (auto simp: shape_def above_def top_ok_def successively_append_iff)

lemma levels_bounds:
  assumes "successively (lnk t) Ls" and "bounds (map (hk t) (hd Ls))" and "\<forall>L \<in> set Ls. L \<noteq> []"
  shows "(\<forall>L \<in> set Ls. bounds (map (hk t) L)) \<and> successively (rlink t) Ls"
  using assms
proof (induction Ls rule: induct_list012)
  case (3 D U Ls)
  have D: "bounds (map (hk t) D)" and k: "lnk t D U" and U: "U \<noteq> []" and s: "successively (lnk t) (U # Ls)"
    using "3.prems" by simp_all
  have b: "bounds (map (hk t) U)" using knows_bounds [OF k U D] .
  have "(\<forall>L \<in> set (U # Ls). bounds (map (hk t) L)) \<and> successively (rlink t) (U # Ls)"
    by (rule "3.IH" (2) [OF s]) (use b "3.prems"(3) in simp_all)
  then show ?case using knows_rlink [OF k D] D by simp
qed simp_all

lemma base_bounds: "base t Ls \<Longrightarrow> bounds (map (hk t) (hd Ls))"
  using leaves_ok_bounds [of t None "hd Ls"] by (simp add: base_def)

lemma base_leaves: "base t Ls \<Longrightarrow> x \<in> set (hd Ls) \<Longrightarrow> is_leaf (nd t x)"
proof -
  have "leaves_ok t lo L \<Longrightarrow> x \<in> set L \<Longrightarrow> is_leaf (nd t x)" for lo L by (induction L arbitrary: lo) auto
  then show "base t Ls \<Longrightarrow> x \<in> set (hd Ls) \<Longrightarrow> is_leaf (nd t x)" by (auto simp: base_def)
qed

theorem shape_readable: "shape t Ls \<Longrightarrow> readable t Ls"
proof -
  assume a: "shape t Ls"
  then have b: "base t Ls" and s: "successively (lnk t) Ls" and "hd (last Ls) = root t"
    by (simp_all add: shape_def top_ok_def)
  moreover have "\<forall>L \<in> set Ls. L \<noteq> [] \<and> linked t L None" "Ls \<noteq> []" using b by (simp_all add: base_def)
  moreover have "\<forall>x \<in> set (hd Ls). is_leaf (nd t x)" using base_leaves [OF b] by simp
  ultimately show ?thesis using levels_bounds [OF s base_bounds [OF b]]
    by (simp add: readable_def chain_bounds)
qed

theorem pend_readable:
  assumes "pend t Bs Us l r"
  shows "readable t (Bs @ Us)"
proof -
  from assms obtain A B where Bs: "Bs \<noteq> []" "last Bs = A @ l # r # B" and b: "base t (Bs @ Us)"
    and s: "successively (lnk t) Bs" and U: "above t ((hk t)(l := hk t r)) (A @ l # B) Us"
    by (auto simp: pend_def)
  have ne: "\<forall>L \<in> set (Bs @ Us). L \<noteq> []" and lk: "\<forall>L \<in> set (Bs @ Us). linked t L None"
    using b by (auto simp: base_def)
  have lb: "(\<forall>L \<in> set Bs. bounds (map (hk t) L)) \<and> successively (rlink t) Bs"
    using levels_bounds [OF s] base_bounds [OF b] Bs(1) ne by simp
  have leaf: "\<forall>x \<in> set (hd (Bs @ Us)). is_leaf (nd t x)" using base_leaves [OF b] by simp
  show ?thesis
  proof (cases "Us = []")
    case True
    then have "hd (last (Bs @ Us)) = root t" using U Bs(2) by (cases A) (auto simp: above_def)
    then show ?thesis using True lb lk Bs(1) leaf unfolding readable_def by (simp add: chain_bounds)
  next
    case False
    then have K: "knows t ((hk t)(l := hk t r)) (A @ l # B) (hd Us)" and sU: "successively (lnk t) Us"
      and tU: "top_ok t Us"
      using U by (simp_all add: above_def)
    have bl: "bounds (map (hk t) (A @ l # r # B))" using lb Bs by (metis last_in_set)
    have "distinct (last Bs)" using b Bs(1)
      by (metis base_def append_butlast_last_id concat.simps(1,2) concat_append distinct_append append_Nil2)
    then have l: "l \<notin> set A" "l \<notin> set B" using Bs(2) by auto
    note r = knows_rlink_pending [OF K bl l]
    have "hd Us \<noteq> []" using ne False by auto
    then have "bounds (map (hk t) (hd Us))" using knows_bounds [OF K] r by simp
    then have ub: "(\<forall>L \<in> set Us. bounds (map (hk t) L)) \<and> successively (rlink t) Us"
      using levels_bounds [OF sU] ne by simp
    have "\<forall>L \<in> set (Bs @ Us). chain t L" using lb ub lk by (auto simp: chain_bounds)
    moreover have "successively (rlink t) (Bs @ Us)"
      using lb ub r Bs(2) by (simp add: successively_append_iff)
    moreover have "hd (last (Bs @ Us)) = root t" using tU False by (simp add: top_ok_def)
    ultimately show ?thesis using Bs(1) leaf unfolding readable_def by simp
  qed
qed

section \<open>Nodes after an update\<close>

lemma nd_upd_node: "nd (upd_node i f t) j = (if j = i \<and> i < length (nodes t) then f (nd t i) else nd t j)"
  by (cases "i < length (nodes t)") (auto simp: nd_def upd_node_def nth_list_update list_update_beyond)

lemma upd_node_fields [simp]:
  "root (upd_node i f t) = root t" "tsize (upd_node i f t) = tsize t"
  "node_capacity (upd_node i f t) = node_capacity t" "max_nodes (upd_node i f t) = max_nodes t"
  "length (nodes (upd_node i f t)) = length (nodes t)"
  by (simp_all add: upd_node_def)

lemma nd_fields [simp]: "nd (t\<lparr>root := r\<rparr>) j = nd t j" "nd (t\<lparr>tsize := s\<rparr>) j = nd t j"
  by (simp_all add: nd_def)

lemma set_hints_fields [simp]:
  "root (set_hints cs p t) = root t" "tsize (set_hints cs p t) = tsize t"
  "node_capacity (set_hints cs p t) = node_capacity t" "max_nodes (set_hints cs p t) = max_nodes t"
  "length (nodes (set_hints cs p t)) = length (nodes t)"
  by (induction cs arbitrary: t) (simp_all add: set_hints_def)

lemma nd_set_hints: "nd (set_hints cs p t) j =
    (if j \<in> set cs \<and> j < length (nodes t) then (nd t j)\<lparr>parent_hint := Some p\<rparr> else nd t j)"
proof (induction cs arbitrary: t)
  case (Cons c cs)
  show ?case using Cons [of "upd_node c (\<lambda>n. n\<lparr>parent_hint := Some p\<rparr>) t"]
    by (auto simp: set_hints_def nd_upd_node)
qed (simp add: set_hints_def)

definition push_node :: "node \<Rightarrow> btree \<Rightarrow> btree" where
  "push_node n t = t\<lparr>nodes := nodes t @ [n]\<rparr>"

lemma nd_push_node:
  "j < length (nodes t) \<Longrightarrow> nd (push_node n t) j = nd t j"
  "nd (push_node n t) (length (nodes t)) = n"
  by (simp_all add: nd_def push_node_def nth_append)

lemma push_node_fields [simp]:
  "root (push_node n t) = root t" "tsize (push_node n t) = tsize t"
  "node_capacity (push_node n t) = node_capacity t" "max_nodes (push_node n t) = max_nodes t"
  "length (nodes (push_node n t)) = Suc (length (nodes t))"
  by (simp_all add: push_node_def)

lemma new_leaf_push: "new_leaf t = (if max_nodes t \<le> length (nodes t) then Inl LengthError
    else Inr (length (nodes t), push_node (new_node\<lparr>is_leaf := True\<rparr>) t))"
  and new_internal_push: "new_internal t = (if max_nodes t \<le> length (nodes t) then Inl LengthError
    else Inr (length (nodes t), push_node (new_node\<lparr>is_leaf := False\<rparr>) t))"
  by (simp_all add: new_leaf_def new_internal_def push_node_def)

section \<open>What the shape depends on\<close>

lemma linked_cong: "\<forall>x \<in> set L. right_link (nd t' x) = right_link (nd t x) \<Longrightarrow> linked t' L e = linked t L e"
  by (induction L) auto

lemma leaves_ok_cong:
  "\<forall>x \<in> set L. is_leaf (nd t' x) = is_leaf (nd t x) \<and> keys (nd t' x) = keys (nd t x) \<and>
     vals (nd t' x) = vals (nd t x) \<and> hk t' x = hk t x \<Longrightarrow> leaves_ok t' lo L = leaves_ok t lo L"
  by (induction L arbitrary: lo) auto

lemma entries_cong:
  "\<forall>x \<in> set L. keys (nd t' x) = keys (nd t x) \<and> vals (nd t' x) = vals (nd t x) \<Longrightarrow> entries t' L = entries t L"
  by (induction L) (auto simp: leaf_entries_def)

definition same_inner :: "btree \<Rightarrow> btree \<Rightarrow> node_id list \<Rightarrow> bool" where
  "same_inner t t' U \<longleftrightarrow> (\<forall>x \<in> set U. is_leaf (nd t' x) = is_leaf (nd t x) \<and>
     keys (nd t' x) = keys (nd t x) \<and> children (nd t' x) = children (nd t x) \<and> hk t' x = hk t x)"

lemma same_inner_simps [simp]: "same_inner t t' []"
  "same_inner t t' (U @ V) \<longleftrightarrow> same_inner t t' U \<and> same_inner t t' V"
  "same_inner t t' (x # U) \<longleftrightarrow> is_leaf (nd t' x) = is_leaf (nd t x) \<and>
     keys (nd t' x) = keys (nd t x) \<and> children (nd t' x) = children (nd t x) \<and> hk t' x = hk t x \<and>
     same_inner t t' U"
  by (auto simp: same_inner_def)

lemma inode_ok_cong:
  assumes "same_inner t t' [x]"
    and "\<forall>c \<in> set (children (nd t x)). H' c = H c \<and> parent_hint (nd t' c) = parent_hint (nd t c)"
  shows "inode_ok t' H' x = inode_ok t H x"
  using assms by (simp add: inode_ok_def cong: map_cong)

lemma known_cong: "\<forall>x \<in> set U. children (nd t' x) = children (nd t x) \<Longrightarrow> known t' U = known t U"
  by (induction U) auto

lemma knows_cong:
  assumes "same_inner t t' U" and "\<forall>c \<in> set K. H' c = H c \<and> parent_hint (nd t' c) = parent_hint (nd t c)"
  shows "knows t H K U \<Longrightarrow> knows t' H' K U"
proof -
  assume k: "knows t H K U"
  then have K: "known t U = K" by (simp add: knows_def)
  have "known t' U = K" using K assms(1) known_cong [of U t' t] by (simp add: same_inner_def)
  moreover have "inode_ok t' H' x" if "x \<in> set U" for x
  proof -
    have "set (children (nd t x)) \<subseteq> set K" using that K by (auto simp: known_def)
    then have "inode_ok t' H' x = inode_ok t H x"
      using assms that by (intro inode_ok_cong) (auto simp: same_inner_def)
    then show ?thesis using k that by (simp add: knows_def)
  qed
  ultimately show ?thesis by (simp add: knows_def)
qed

lemma successively_lnk_cong:
  assumes "successively (lnk t) Ls" and "\<forall>x \<in> set (concat Ls). hk t' x = hk t x"
    and "\<forall>x \<in> set (concat (butlast Ls)). parent_hint (nd t' x) = parent_hint (nd t x)"
    and "same_inner t t' (concat (tl Ls))"
  shows "successively (lnk t') Ls"
  using assms
proof (induction Ls rule: induct_list012)
  case (3 D U Ls)
  have k: "lnk t D U" and si: "same_inner t t' U" using "3.prems" by simp_all
  have "lnk t' D U"
    by (rule knows_cong [OF si _ k]) (use "3.prems" in auto)
  moreover have "successively (lnk t') (U # Ls)"
    by (rule "3.IH" (2)) (use "3.prems" in \<open>auto simp: same_inner_def\<close>)
  ultimately show ?case by simp
qed simp_all

lemma in_concat_butlast: "x \<in> set (concat (butlast Ls)) \<Longrightarrow> x \<in> set (concat Ls)"
  by (auto dest: in_set_butlastD)

lemma above_cong:
  assumes "above t H K Us" and "\<forall>c \<in> set K. H' c = H c \<and> parent_hint (nd t' c) = parent_hint (nd t c)"
    and "same_inner t t' (concat Us)"
    and "\<forall>x \<in> set (concat Us). parent_hint (nd t' x) = parent_hint (nd t x)" and "root t' = root t"
  shows "above t' H' K Us"
proof (cases Us)
  case Nil
  then show ?thesis using assms by (simp add: above_def)
next
  case (Cons U Vs)
  have k: "knows t' H' K U" and s: "successively (lnk t') Us"
  proof -
    show "knows t' H' K U"
      by (rule knows_cong [of t t' U K H' H]) (use assms Cons in \<open>simp_all add: above_def\<close>)
    show "successively (lnk t') Us"
    proof (rule successively_lnk_cong [of t])
      show "successively (lnk t) Us" using assms(1) Cons by (simp add: above_def)
      show "\<forall>x \<in> set (concat Us). hk t' x = hk t x" using assms(3) by (simp add: same_inner_def)
      show "\<forall>x \<in> set (concat (butlast Us)). parent_hint (nd t' x) = parent_hint (nd t x)"
        by (intro ballI) (rule assms(4) [rule_format], rule in_concat_butlast)
      show "same_inner t t' (concat (tl Us))" using assms(3) Cons by simp
    qed
  qed
  have "last Us = [root t]" using assms(1) Cons by (simp add: above_def top_ok_def)
  then have "[root t] \<in> set Us" using Cons by (metis last_in_set list.distinct(1))
  then have "root t \<in> set (concat Us)" by (auto intro!: bexI [of _ "[root t]"])
  then show ?thesis using assms(1,4,5) Cons k s by (simp add: above_def top_ok_def)
qed

lemma above_frame:
  assumes "above t H K Us" and "\<forall>c \<in> set K. H' c = H c \<and> parent_hint (nd t' c) = parent_hint (nd t c)"
    and "\<forall>u \<in> set (concat Us). nd t' u = nd t u" and "root t' = root t"
  shows "above t' H' K Us"
  by (rule above_cong [OF assms(1,2)]) (use assms(3,4) in \<open>simp_all add: same_inner_def\<close>)

lemma base_cong:
  assumes "base t Ls" and "\<forall>x \<in> set (concat Ls). right_link (nd t' x) = right_link (nd t x)"
    and "\<forall>x \<in> set (hd Ls). is_leaf (nd t' x) = is_leaf (nd t x) \<and> keys (nd t' x) = keys (nd t x) \<and>
      vals (nd t' x) = vals (nd t x) \<and> hk t' x = hk t x"
    and "length (nodes t) \<le> length (nodes t')"
  shows "base t' Ls"
proof -
  have "linked t' L None" if "L \<in> set Ls" for L
    using assms(1,2) that linked_cong [of L t' t None] by (auto simp: base_def)
  moreover have "leaves_ok t' None (hd Ls)"
    using assms(1) leaves_ok_cong [OF assms(3)] by (simp add: base_def)
  moreover have "last (hd Ls) \<in> set (hd Ls)" using assms(1) by (auto simp: base_def)
  then have "hk t' (last (hd Ls)) = None" using assms(1,3) by (simp add: base_def)
  moreover have "\<forall>x \<in> set (concat Ls). x < length (nodes t')"
    using assms(1,4) unfolding base_def by (meson less_le_trans)
  ultimately show ?thesis using assms(1) by (simp add: base_def)
qed

end
