(* ===== verification/BPlus_Insert.thy ===== *)
theory BPlus_Insert
  imports BPlus_Inv
begin

text \<open>
  Insertion keeps the shape of the tree and puts the entry in its place: the entry in the
  leaf, the split of a leaf and of an internal node, the splice into the parent, the growth
  of a root, and the cascade over all of them.
\<close>

section \<open>The leaf\<close>

lemma insort_key_insert_at: "insort_key f x xs = insert_at (length (takeWhile (\<lambda>y. f y < f x) xs)) x xs"
  by (induction xs) (auto simp: insert_at_def)

lemma insort_key_append:
  assumes "\<forall>e \<in> set xs. f e < f x" and "\<forall>e \<in> set ys. f x \<le> f e"
  shows "insort_key f x (xs @ m @ ys) = xs @ insort_key f x m @ ys"
proof -
  have "insort_key f x (m @ ys) = insort_key f x m @ ys"
  proof (induction m)
    case Nil
    then show ?case using assms(2) by (cases ys) auto
  qed auto
  then show ?thesis using assms(1) by (induction xs) auto
qed

lemma leaves_ok_append_iff: "leaves_ok t lo (A @ B) \<longleftrightarrow> leaves_ok t lo A \<and>
    leaves_ok t (last (lo # map (hk t) A)) B \<and> (A \<noteq> [] \<and> B \<noteq> [] \<longrightarrow> hk t (last A) \<noteq> None)"
  by (induction A arbitrary: lo) auto

text \<open>The lower bound of the leaf \<open>x\<close> in \<open>A @ x # B\<close>.\<close>

abbreviation lo_at :: "btree \<Rightarrow> node_id list \<Rightarrow> u64 option" where
  "lo_at t A \<equiv> last (None # map (hk t) A)"

lemma lo_at_passed:
  assumes "leaves_ok t None (A @ x # B)" and "passed t key A"
  shows "lo_ok (lo_at t A) key"
proof (cases "A = []")
  case False
  then obtain h where "hk t (last A) = Some h" using assms(1) by (auto simp: leaves_ok_append_iff)
  moreover have "\<not> hi_ok (hk t (last A)) key" using assms(2) False by (simp add: passed_def)
  ultimately show ?thesis using False by (simp add: last_map)
qed simp

lemma base_leaf_bounds:
  assumes "leaves_ok t None (A @ x # B)"
  shows "(\<forall>e \<in> set (entries t A). passed t k A \<longrightarrow> fst e < k) \<and>
    (\<forall>e \<in> set (entries t B). hi_ok (hk t x) k \<longrightarrow> k \<le> fst e)"
proof (intro conjI ballI impI)
  fix e assume e: "e \<in> set (entries t A)" and p: "passed t k A"
  then have "in_range k (fst e) (entries t A) = []"
    using leaves_passed assms by blast
  then show "fst e < k" using e by (auto simp: in_range_def filter_empty_conv not_le)
next
  fix e assume e: "e \<in> set (entries t B)" and h: "hi_ok (hk t x) k"
  then have B: "leaves_ok t (hk t x) B" "hk t x \<noteq> None"
    using assms by (auto simp: leaves_ok_append_iff entries_def)
  then show "k \<le> fst e" using leaves_ok_above [OF B(1) e] h by auto
qed

lemma length_leaf:
  assumes "leaves_ok t lo L" and "x \<in> set L"
  shows "length (vals (nd t x)) = length (keys (nd t x)) \<and> sorted (keys (nd t x)) \<and> is_leaf (nd t x)"
  using assms by (induction L arbitrary: lo) auto

lemma sorted_insert_at_lower_bound:
  assumes "sorted xs"
  shows "sorted (insert_at (lower_bound k xs) k xs)"
proof -
  have "insert_at (lower_bound k xs) k xs = insort_key (\<lambda>x. x) k xs"
    by (simp add: insort_key_insert_at lower_bound_def)
  then show ?thesis using sorted_insort_key [of "\<lambda>x. x" k xs] assms by simp
qed

lemma leaf_insert_nd:
  assumes "x < length (nodes t)"
  shows "nd (leaf_insert t x key rid) j = (if j = x then (nd t x)\<lparr>
      keys := insert_at (lower_bound key (keys (nd t x))) key (keys (nd t x)),
      vals := insert_at (lower_bound key (keys (nd t x))) rid (vals (nd t x))\<rparr> else nd t j)"
  using assms by (simp add: leaf_insert_def Let_def nd_upd_node)

lemma leaf_insert_fields [simp]:
  "root (leaf_insert t x key rid) = root t" "tsize (leaf_insert t x key rid) = tsize t + 1"
  "node_capacity (leaf_insert t x key rid) = node_capacity t"
  "max_nodes (leaf_insert t x key rid) = max_nodes t"
  "length (nodes (leaf_insert t x key rid)) = length (nodes t)"
  by (simp_all add: leaf_insert_def Let_def)

lemma leaf_insert_leaf_entries:
  assumes "length (vals (nd t x)) = length (keys (nd t x))" and "x < length (nodes t)"
  shows "leaf_entries (leaf_insert t x key rid) x = insort_key fst (key, rid) (leaf_entries t x)"
proof -
  have "lower_bound key (keys (nd t x)) = length (takeWhile (\<lambda>e. fst e < key) (leaf_entries t x))"
    unfolding lower_bound_def map_fst_leaf_entries [OF assms(1), symmetric]
    by (simp add: takeWhile_map comp_def)
  then show ?thesis using assms
    by (simp add: leaf_entries_def leaf_insert_nd zip_insert_at insort_key_insert_at)
qed

theorem leaf_insert_shape:
  fixes rid :: internal_id
  assumes wf: "shape t (D # Us)" and D: "D = A @ x # B" and A: "passed t key A" and x: "hi_ok (hk t x) key"
  defines "t1 \<equiv> leaf_insert t x key rid"
  shows "shape t1 (D # Us) \<and> entries t1 D = insort_key fst (key, rid) (entries t D)"
proof
  have b: "base t (D # Us)" and s: "above t (hk t) D Us"
    using wf shape_split [of "[D]" t Us] by simp_all
  have lk: "leaves_ok t None D" and xn: "x < length (nodes t)" and ds: "distinct (D @ concat Us)"
    using b D by (auto simp: base_def)
  have nd1: "nd t1 j = (if j = x then (nd t x)\<lparr>
      keys := insert_at (lower_bound key (keys (nd t x))) key (keys (nd t x)),
      vals := insert_at (lower_bound key (keys (nd t x))) rid (vals (nd t x))\<rparr> else nd t j)" for j
    unfolding t1_def using leaf_insert_nd [OF xn] .
  have xAB: "x \<notin> set A" "x \<notin> set B" using ds D by auto
  have nAB: "nd t1 y = nd t y" if "y \<in> set A \<union> set B" for y
    using that xAB nd1 [of y] by (auto split: if_splits)
  have hkA: "map (hk t1) A = map (hk t) A" by (simp add: nd1)
  have cA: "leaves_ok t1 None A = leaves_ok t None A" "leaves_ok t1 lo B = leaves_ok t lo B" for lo
    using nAB by (auto intro!: leaves_ok_cong)
  have "lo_ok (lo_at t A) key" using lo_at_passed lk A unfolding D by blast
  then have "leaves_ok t1 None D"
    using lk x sorted_insert_at_lower_bound [of "keys (nd t x)" key]
    unfolding D leaves_ok_append_iff hkA cA by (auto simp: nd1 set_insert_at cA)
  moreover have "linked t1 L e = linked t L e" for L e by (rule linked_cong) (simp add: nd1)
  moreover have "hk t1 j = hk t j" for j by (simp add: nd1)
  moreover have "length (nodes t1) = length (nodes t)" by (simp add: t1_def)
  ultimately have b1: "base t1 (D # Us)" using b by (simp add: base_def)
  have "above t1 (hk t1) D Us"
  proof (rule above_frame [OF s])
    have "x \<notin> set (concat Us)" using ds D by simp
    then show "\<forall>u \<in> set (concat Us). nd t1 u = nd t u" using nd1 by metis
  qed (simp_all add: nd1, simp add: t1_def)
  then show "shape t1 (D # Us)" using b1 shape_split [of "[D]" t1 Us] by simp
  have e: "entries t1 A = entries t A" "entries t1 B = entries t B"
    using nAB by (auto intro!: entries_cong)
  have "leaf_entries t1 x = insort_key fst (key, rid) (leaf_entries t x)"
    unfolding t1_def using length_leaf [OF lk, of x] D xn by (intro leaf_insert_leaf_entries) auto
  then show "entries t1 D = insort_key fst (key, rid) (entries t D)"
    using base_leaf_bounds [of t A x B key] lk A x D e
      insort_key_append [of "entries t A" fst "(key, rid)" "entries t B" "leaf_entries t x"]
    by simp
qed

section \<open>The split of a leaf\<close>

lemma linked_split:
  assumes "linked t (A @ x # B) None" and "\<forall>y \<in> set A \<union> set B. right_link (nd t' y) = right_link (nd t y)"
    and "right_link (nd t' x) = Some r" and "right_link (nd t' r) = right_link (nd t x)"
  shows "linked t' (A @ x # r # B) None"
  using assms linked_cong [of A t' t] linked_cong [of B t' t] by (simp add: linked_append)

lemma split_leaf_result:
  assumes "split_leaf t x = Inr ((r, sep), t2)" and "x < length (nodes t)"
  defines "mid \<equiv> (length (keys (nd t x)) + 1) div 2"
  shows "r = length (nodes t)" "sep = last (take mid (keys (nd t x)))"
    "length (nodes t2) = Suc (length (nodes t))" "root t2 = root t" "tsize t2 = tsize t"
    "node_capacity t2 = node_capacity t" "max_nodes t2 = max_nodes t"
    "\<And>j. j < length (nodes t) \<Longrightarrow> nd t2 j = (if j = x then (nd t x)\<lparr>keys := take mid (keys (nd t x)),
       vals := take mid (vals (nd t x)), right_link := Some r, high_key := Some sep\<rparr> else nd t j)"
    "nd t2 r = new_node\<lparr>is_leaf := True, keys := drop mid (keys (nd t x)), vals := drop mid (vals (nd t x)),
       right_link := right_link (nd t x), high_key := hk t x\<rparr>"
  using assms(1,2) unfolding mid_def
  by (auto simp: split_leaf_def new_leaf_push Let_def nd_upd_node nd_push_node bind_res_def
      split: if_splits)

lemma sorted_last_max: "sorted ys \<Longrightarrow> k \<in> set ys \<Longrightarrow> k \<le> last ys" for ys :: "'a::linorder list"
  by (induction ys) (auto split: if_splits)

lemma sorted_take_drop:
  fixes xs :: "'a::linorder list"
  assumes "sorted xs" and "0 < m" and "m \<le> length xs"
  shows "(\<forall>k \<in> set (take m xs). k \<le> last (take m xs)) \<and> (\<forall>k \<in> set (drop m xs). last (take m xs) \<le> k)
    \<and> last (take m xs) \<in> set xs"
proof -
  have s: "sorted (take m xs @ drop m xs)" and ne: "take m xs \<noteq> []" using assms by auto
  then have l: "last (take m xs) \<in> set (take m xs)" by (metis last_in_set)
  then have "\<forall>k \<in> set (drop m xs). last (take m xs) \<le> k" using s unfolding sorted_append by blast
  moreover have "\<forall>k \<in> set (take m xs). k \<le> last (take m xs)"
    using sorted_last_max [of "take m xs"] sorted_wrt_take [OF assms(1)] by simp
  ultimately show ?thesis using l by (auto dest: in_set_takeD)
qed

theorem split_leaf_pend:
  assumes wf: "shape t (D # Us)" and D: "D = A @ x # B" and sp: "split_leaf t x = Inr ((r, sep), t2)"
    and two: "2 \<le> length (keys (nd t x))"
  shows "pend t2 [A @ x # r # B] Us x r \<and> hk t2 x = Some sep \<and> entries t2 (A @ x # r # B) = entries t D"
proof -
  have b: "base t (D # Us)" and s: "above t (hk t) D Us"
    using wf shape_split [of "[D]" t Us] by simp_all
  have lk: "leaves_ok t None D" and lD: "linked t D None" and xn: "x < length (nodes t)"
    and ds: "distinct (D @ concat Us)" and ids: "\<forall>j \<in> set (D @ concat Us). j < length (nodes t)"
    using b D by (auto simp: base_def)
  define mid where "mid = (length (keys (nd t x)) + 1) div 2"
  note R = split_leaf_result [OF sp xn, folded mid_def]
  have m: "0 < mid" "mid \<le> length (keys (nd t x))" using two by (simp_all add: mid_def)
  have xr: "x \<noteq> r" using xn R(1) by simp
  have other: "nd t2 j = nd t j" if "j \<in> set (A @ B @ concat Us)" for j
  proof -
    have "j < length (nodes t)" "j \<noteq> x" using that ids ds D by auto
    then show ?thesis using R(8) by simp
  qed
  have hk2: "hk t2 x = Some sep" "hk t2 r = hk t x" "right_link (nd t2 x) = Some r"
    "right_link (nd t2 r) = right_link (nd t x)" "parent_hint (nd t2 x) = parent_hint (nd t x)"
    using R(8) [OF xn] R(9) by simp_all
  have X: "length (vals (nd t x)) = length (keys (nd t x))" "sorted (keys (nd t x))" "is_leaf (nd t x)"
    using length_leaf [OF lk, of x] D by auto
  have bx: "\<forall>k \<in> set (keys (nd t x)). lo_ok (lo_at t A) k \<and> hi_ok (hk t x) k" and nA: "A \<noteq> [] \<longrightarrow> hk t (last A) \<noteq> None"
    and oB: "leaves_ok t (hk t x) B" "B \<noteq> [] \<longrightarrow> hk t x \<noteq> None" and oA: "leaves_ok t None A"
    using lk unfolding D leaves_ok_append_iff by auto
  note st = sorted_take_drop [OF X(2) m, folded R(2)]
  have hkA: "map (hk t2) A = map (hk t) A" using other by simp
  have lA: "leaves_ok t2 None A" "leaves_ok t2 (hk t x) B"
    using oA oB leaves_ok_cong [of A t2 t None] leaves_ok_cong [of B t2 t "hk t x"] other by simp_all
  have sep: "lo_ok (lo_at t A) sep" "hi_ok (hk t x) sep" using st bx by auto
  have lows: "lo_le (lo_at t A) (Some sep)" "lo_le (Some sep) (hk t x)"
    using sep by (cases "lo_at t A"; cases "hk t x"; simp)+
  have nx: "nd t2 x = (nd t x)\<lparr>keys := take mid (keys (nd t x)), vals := take mid (vals (nd t x)),
      right_link := Some r, high_key := Some sep\<rparr>" using R(8) [OF xn] by simp
  have sx: "sorted (take mid (keys (nd t x)))" "sorted (drop mid (keys (nd t x)))"
    using X(2) by (auto intro: sorted_wrt_take sorted_wrt_drop)
  have kx: "\<forall>k \<in> set (take mid (keys (nd t x))). lo_ok (lo_at t A) k \<and> k \<le> sep"
    "\<forall>k \<in> set (drop mid (keys (nd t x))). sep \<le> k \<and> hi_ok (hk t x) k"
    using bx st by (auto dest: in_set_takeD in_set_dropD)
  have "leaves_ok t2 (lo_at t A) (x # r # B)"
    using X sx kx lows lA(2) oB(2) by (simp add: nx R(9))
  then have ok: "leaves_ok t2 None (A @ x # r # B)"
    using lA(1) nA other unfolding leaves_ok_append_iff hkA by simp
  have "hk t (last D) = None" using b by (simp add: base_def)
  then have lst: "hk t2 (last (A @ x # r # B)) = None"
    using D hk2 other by (cases B) auto
  have "linked t2 (A @ x # r # B) None"
    using lD D hk2 other by (intro linked_split [of t A x B]) auto
  moreover have "linked t2 U None" if "U \<in> set Us" for U
  proof -
    have "linked t U None" using b that by (simp add: base_def)
    moreover have "set U \<subseteq> set (A @ B @ concat Us)" using that by auto
    then have "\<forall>j \<in> set U. right_link (nd t2 j) = right_link (nd t j)" using other by (metis subsetD)
    ultimately show ?thesis using linked_cong [of U t2 t None] by blast
  qed
  moreover have "r \<notin> set (D @ concat Us)" using ids R(1) by auto
  ultimately have b2: "base t2 ([A @ x # r # B] @ Us)"
    using b ds D ids ok lst R(1,3) unfolding base_def by (auto simp: less_Suc_eq)
  have ab: "above t2 ((hk t2)(x := hk t2 r)) (A @ x # B) Us"
    using s [unfolded D] by (rule above_frame) (use hk2 other R(4) in auto)
  have "leaf_entries t2 x @ leaf_entries t2 r = leaf_entries t x"
    by (simp add: leaf_entries_def nx R(9) take_zip [symmetric] drop_zip [symmetric])
  moreover have "entries t2 A = entries t A" "entries t2 B = entries t B"
    using other by (auto intro!: entries_cong)
  ultimately have "entries t2 (A @ x # r # B) = entries t D"
    unfolding D by (simp flip: append_assoc)
  then show ?thesis using b2 ab hk2(1) unfolding pend_def by auto
qed

section \<open>The split of an internal node\<close>

lemma split_internal_result:
  assumes "split_internal t p = Inr ((q, sep), t2)" and "p < length (nodes t)"
    and "\<forall>c \<in> set (children (nd t p)). c < length (nodes t)"
  defines "mid \<equiv> length (keys (nd t p)) div 2"
  defines "cs \<equiv> drop (mid + 1) (children (nd t p))"
  shows "q = length (nodes t)" "sep = keys (nd t p) ! mid"
    "length (nodes t2) = Suc (length (nodes t))" "root t2 = root t" "tsize t2 = tsize t"
    "node_capacity t2 = node_capacity t" "max_nodes t2 = max_nodes t"
    "\<And>j. j < length (nodes t) \<Longrightarrow> nd t2 j =
       (let n = (if j = p then (nd t p)\<lparr>keys := take mid (keys (nd t p)), children := take (mid + 1) (children (nd t p)),
            right_link := Some q, high_key := Some sep\<rparr> else nd t j)
        in if j \<in> set cs then n\<lparr>parent_hint := Some q\<rparr> else n)"
    "nd t2 q = new_node\<lparr>is_leaf := False, keys := drop (mid + 1) (keys (nd t p)), children := cs,
       right_link := right_link (nd t p), high_key := hk t p\<rparr>"
proof -
  have "length (nodes t) \<notin> set cs" unfolding cs_def using assms(3) by (auto dest: in_set_dropD)
  then show "q = length (nodes t)" "sep = keys (nd t p) ! mid"
    "length (nodes t2) = Suc (length (nodes t))" "root t2 = root t" "tsize t2 = tsize t"
    "node_capacity t2 = node_capacity t" "max_nodes t2 = max_nodes t"
    "\<And>j. j < length (nodes t) \<Longrightarrow> nd t2 j =
       (let n = (if j = p then (nd t p)\<lparr>keys := take mid (keys (nd t p)), children := take (mid + 1) (children (nd t p)),
            right_link := Some q, high_key := Some sep\<rparr> else nd t j)
        in if j \<in> set cs then n\<lparr>parent_hint := Some q\<rparr> else n)"
    "nd t2 q = new_node\<lparr>is_leaf := False, keys := drop (mid + 1) (keys (nd t p)), children := cs,
       right_link := right_link (nd t p), high_key := hk t p\<rparr>"
    using assms(1,2) unfolding mid_def cs_def
    by (auto simp: split_internal_def new_internal_push Let_def nd_upd_node nd_push_node nd_set_hints bind_res_def
        split: if_splits)
qed

lemma knows_append:
  "knows t H K1 U1 \<Longrightarrow> knows t H K2 U2 \<Longrightarrow> knows t H (K1 @ K2) (U1 @ U2)"
  by (auto simp: knows_def)

lemma knows_Cons_iff:
  "knows t H (K1 @ K2) (x # U) \<longleftrightarrow> inode_ok t H x \<and> knows t H K2 U" if "children (nd t x) = K1"
  using that by (auto simp: knows_def)

lemma knows_at:
  assumes "knows t H D (U1 @ p # U2)"
  shows "D = known t U1 @ children (nd t p) @ known t U2 \<and> knows t H (known t U1) U1 \<and>
    inode_ok t H p \<and> knows t H (known t U2) U2"
  using assms by (auto simp: knows_def)

theorem split_internal_pend:
  assumes wf: "shape t (Bs @ D # (U1 @ p # U2) # Us)" and sp: "split_internal t p = Inr ((q, sep), t2)"
    and k: "keys (nd t p) \<noteq> []"
  shows "pend t2 (Bs @ [D, U1 @ p # q # U2]) Us p q \<and> hk t2 p = Some sep \<and>
    entries t2 (hd (Bs @ [D])) = entries t (hd (Bs @ [D]))"
proof -
  let ?U = "U1 @ p # U2" and ?U' = "U1 @ p # q # U2"
  have b: "base t (Bs @ D # ?U # Us)" and s: "successively (lnk t) (Bs @ [D])" and KU: "lnk t D ?U"
    and ab: "above t (hk t) ?U Us"
    using wf shape_split [of "Bs @ [D, ?U]" t Us] by (simp_all add: successively_append_iff)
  have ds: "distinct (concat Bs @ D @ ?U @ concat Us)"
    and ids: "\<forall>j \<in> set (concat Bs @ D @ ?U @ concat Us). j < length (nodes t)"
    using b by (auto simp: base_def)
  note at = knows_at [OF KU]
  define C where "C = children (nd t p)"
  define mid where "mid = length (keys (nd t p)) div 2"
  have pn: "p < length (nodes t)" and cn: "\<forall>c \<in> set (children (nd t p)). c < length (nodes t)"
    using ids at by auto
  note R = split_internal_result [OF sp pn cn, folded mid_def C_def]
  let ?cs = "drop (mid + 1) C"
  have m: "mid < length (keys (nd t p))" using k by (simp add: mid_def)
  have lC: "length C = Suc (length (keys (nd t p)))" using inode_ok_lengths at C_def by blast
  have cD: "set ?cs \<subseteq> set C" "set C \<subseteq> set D" using at by (auto simp: C_def dest: in_set_dropD)
  have other: "same_inner t t2 [j] \<and> right_link (nd t2 j) = right_link (nd t j) \<and> vals (nd t2 j) = vals (nd t j) \<and>
      (j \<notin> set ?cs \<longrightarrow> parent_hint (nd t2 j) = parent_hint (nd t j))"
    if "j \<in> set (concat Bs @ D @ U1 @ U2 @ concat Us)" for j
  proof -
    have "j < length (nodes t)" "j \<noteq> p" using that ids ds by auto
    then show ?thesis using R(8) [of j] by (auto simp: Let_def)
  qed
  have pcs: "p \<notin> set ?cs" using cD ds by auto
  have np: "nd t2 p = (nd t p)\<lparr>keys := take mid (keys (nd t p)), children := take (mid + 1) C,
      right_link := Some q, high_key := Some sep\<rparr>"
    using R(8) [OF pn] pcs by (simp add: Let_def)
  have inner: "same_inner t t2 V" if "set V \<subseteq> set (concat Bs @ D @ U1 @ U2 @ concat Us)" for V
    unfolding same_inner_def
  proof
    fix x assume "x \<in> set V"
    then have "x \<in> set (concat Bs @ D @ U1 @ U2 @ concat Us)" using that by (rule subsetD [rotated])
    from other [OF this] show "is_leaf (nd t2 x) = is_leaf (nd t x) \<and> keys (nd t2 x) = keys (nd t x) \<and>
        children (nd t2 x) = children (nd t x) \<and> hk t2 x = hk t x" by simp
  qed
  have hints: "parent_hint (nd t2 j) = parent_hint (nd t j)"
    if "j \<in> set (concat Bs @ U1 @ U2 @ concat Us) \<or> j \<in> set D \<and> j \<notin> set ?cs" for j
  proof -
    have "set D \<inter> set (concat Bs @ U1 @ U2 @ concat Us) = {}" using ds by (auto simp del: set_concat)
    then have "j \<notin> set ?cs" using that cD by blast
    then show ?thesis using other [of j] that by (auto simp del: set_concat)
  qed
  have "distinct D" using ds by simp
  then have dD: "distinct (known t U1 @ C @ known t U2)" using at C_def by metis
  have hkD: "hk t2 c = hk t c" if "c \<in> set D" for c using inner [of "[c]"] that by (simp add: same_inner_def)
  have dis: "set (known t U1) \<inter> set ?cs = {}" "set (known t U2) \<inter> set ?cs = {}" "set (take (mid + 1) C) \<inter> set ?cs = {}"
    using dD cD set_take_disj_set_drop_if_distinct [of C "mid + 1" "mid + 1"] by auto
  have sub: "set (known t U1) \<subseteq> set D" "set (known t U2) \<subseteq> set D" "set (take (mid + 1) C) \<subseteq> set D"
    using at by (auto simp: C_def dest: in_set_takeD)
  have keep: "\<forall>c \<in> set K. hk t2 c = hk t c \<and> parent_hint (nd t2 c) = parent_hint (nd t c)"
    if "set K \<subseteq> set D" "set K \<inter> set ?cs = {}" for K
    using that hkD hints by blast
  have k1: "knows t2 (hk t2) (known t U1) U1"
    by (rule knows_cong [OF inner keep]) (use at dis sub in auto)
  have k2: "knows t2 (hk t2) (known t U2) U2"
    by (rule knows_cong [OF inner keep]) (use at dis sub in auto)
  have ip: "\<not> is_leaf (nd t p)" "map (hk t) C = map Some (keys (nd t p)) @ [hk t p]"
    "\<forall>c \<in> set C. parent_hint (nd t c) = Some p"
    using at by (simp_all add: inode_ok_def C_def)
  have "map (hk t2) C = map (hk t) C" using hkD cD(2) by auto
  then have hkC: "map (hk t2) (take n C) = take n (map (hk t) C)" "map (hk t2) (drop n C) = drop n (map (hk t) C)" for n
    by (metis take_map, metis drop_map)
  have "inode_ok t2 (hk t2) p"
    using lC ip keep [OF sub(3) dis(3)] m R(2) hkC(1) [of "Suc mid"]
    by (auto simp: inode_ok_def np ip(2) take_Suc_conv_app_nth take_map dest: in_set_takeD)
  moreover have "inode_ok t2 (hk t2) q"
  proof -
    have "parent_hint (nd t2 c) = Some q" if "c \<in> set ?cs" for c
      using R(8) [of c] that cn cD by (auto simp: C_def Let_def)
    then show ?thesis using lC m hkC(2) [of "Suc mid"] by (simp add: inode_ok_def R(9) ip(2) drop_map)
  qed
  moreover have "children (nd t2 p) @ children (nd t2 q) = C" by (simp add: np R(9))
  ultimately have "knows t2 (hk t2) (known t U1 @ C @ known t U2) ?U'"
    using k1 k2 by (auto simp: knows_def)
  then have KU': "lnk t2 D ?U'" using at C_def by simp
  have s2: "successively (lnk t2) (Bs @ [D])"
  proof (rule successively_lnk_cong [OF s])
    show "\<forall>x \<in> set (concat (Bs @ [D])). hk t2 x = hk t x"
      using inner [of "concat (Bs @ [D])"] by (auto simp: same_inner_def)
    show "\<forall>x \<in> set (concat (butlast (Bs @ [D]))). parent_hint (nd t2 x) = parent_hint (nd t x)"
      using hints by auto
    show "same_inner t t2 (concat (tl (Bs @ [D])))" by (rule inner) (cases Bs; auto)
  qed
  have ab2: "above t2 ((hk t2)(p := hk t2 q)) (U1 @ p # U2) Us"
  proof (rule above_cong [OF ab])
    show "\<forall>c \<in> set ?U. ((hk t2)(p := hk t2 q)) c = hk t c \<and> parent_hint (nd t2 c) = parent_hint (nd t c)"
      using inner [of "U1 @ U2"] hints ds R(9) np by (auto simp: same_inner_def)
    show "same_inner t t2 (concat Us)" by (rule inner) auto
    show "\<forall>x \<in> set (concat Us). parent_hint (nd t2 x) = parent_hint (nd t x)" using hints by auto
  qed (rule R(4))
  have qf: "q \<notin> set (concat Bs @ D @ ?U @ concat Us)" using ids R(1) by auto
  have lk2: "linked t2 L None" if "L \<in> set (Bs @ D # ?U' # Us)" for L
  proof (cases "L = ?U'")
    case True
    have "linked t ?U None" using b by (simp add: base_def)
    then have "linked t2 ?U' None"
      by (rule linked_split) (use other np R(9) in auto)
    then show ?thesis using True by simp
  next
    case False
    then have "linked t L None" and "set L \<subseteq> set (concat Bs @ D @ U1 @ U2 @ concat Us)"
      using b that by (auto simp: base_def)
    then show ?thesis using linked_cong [of L t2 t None] other by (metis subsetD)
  qed
  let ?L0 = "hd (Bs @ [D])"
  have L0: "set ?L0 \<subseteq> set (concat Bs @ D @ U1 @ U2 @ concat Us)" "hd (Bs @ D # ?U' # Us) = ?L0" "hd (Bs @ D # ?U # Us) = ?L0"
    by (cases Bs; auto)+
  have ent: "\<forall>x \<in> set ?L0. is_leaf (nd t2 x) = is_leaf (nd t x) \<and> keys (nd t2 x) = keys (nd t x) \<and>
      vals (nd t2 x) = vals (nd t x) \<and> hk t2 x = hk t x"
    using other L0(1) by (metis subsetD same_inner_simps(3))
  have lv: "leaves_ok t None ?L0 \<and> hk t (last ?L0) = None \<and> (\<forall>L \<in> set (Bs @ D # ?U # Us). L \<noteq> [])"
    using b unfolding base_def L0(3) by blast
  have "?L0 \<in> set (Bs @ D # ?U # Us)" by (cases Bs) auto
  then have ok: "leaves_ok t None ?L0" "hk t (last ?L0) = None" "?L0 \<noteq> []" using lv by blast+
  then have "leaves_ok t2 None ?L0" "hk t2 (last ?L0) = None"
    using leaves_ok_cong [OF ent] ent last_in_set by metis+
  moreover have "distinct (concat Bs @ D @ ?U' @ concat Us)" using ds qf by auto
  moreover have "\<forall>j \<in> set (concat Bs @ D @ ?U' @ concat Us). j < length (nodes t2)"
    using ids R(1,3) by (auto simp: less_Suc_eq)
  moreover have "\<forall>L \<in> set (Bs @ D # ?U' # Us). L \<noteq> []" using lv by simp
  ultimately have "base t2 ((Bs @ [D, ?U']) @ Us)"
    using lk2 L0(2) by (simp add: base_def)
  moreover have "successively (lnk t2) (Bs @ [D, ?U'])"
    using s2 KU' by (simp add: successively_append_iff)
  moreover have "entries t2 ?L0 = entries t ?L0" using ent by (auto intro!: entries_cong)
  ultimately show ?thesis using ab2 np unfolding pend_def by auto
qed

section \<open>The splice into the parent and the growth of the root\<close>

lemma insert_at_snoc: "i \<le> length xs \<Longrightarrow> insert_at i y (xs @ [z]) = insert_at i y xs @ [z]"
  by (simp add: insert_at_def)

lemma splice_nd:
  assumes "p < length (nodes t)" and "r < length (nodes t)" and "p \<noteq> r"
    and "children (nd t p) = C1 @ l # C2" and "l \<notin> set C1"
  shows "nd (splice_child t p l r sep) j = (if j = p then (nd t p)\<lparr>keys := insert_at (length C1) sep (keys (nd t p)),
      children := C1 @ l # r # C2\<rparr> else if j = r then (nd t r)\<lparr>parent_hint := Some p\<rparr> else nd t j)"
proof -
  have "insert_at (length C1 + 1) r (C1 @ l # C2) = C1 @ l # r # C2"
    by (simp add: insert_at_def)
  then show ?thesis using assms by (simp add: splice_child_def child_position_def Let_def nd_upd_node)
qed

lemma splice_fields [simp]:
  "root (splice_child t p l r sep) = root t" "tsize (splice_child t p l r sep) = tsize t"
  "node_capacity (splice_child t p l r sep) = node_capacity t" "max_nodes (splice_child t p l r sep) = max_nodes t"
  "length (nodes (splice_child t p l r sep)) = length (nodes t)"
  by (simp_all add: splice_child_def Let_def)

lemma pend_parent:
  assumes "pend t Bs (U # Us) l r"
  shows "\<exists>p. p \<in> set U \<and> l \<in> set (children (nd t p)) \<and> parent_hint (nd t l) = Some p"
proof -
  from assms obtain A B where "knows t ((hk t)(l := hk t r)) (A @ l # B) U"
    by (auto simp: pend_def above_def)
  then have k: "l \<in> set (known t U)" and i: "\<forall>x \<in> set U. inode_ok t ((hk t)(l := hk t r)) x"
    unfolding knows_def by simp_all
  from k obtain p where "p \<in> set U" "l \<in> set (children (nd t p))" by (auto simp: known_def)
  then show ?thesis using i by (auto simp: inode_ok_def)
qed

theorem splice_shape:
  assumes pend: "pend t Bs (U # Us) l r" and sep: "hk t l = Some sep"
    and p: "p \<in> set U" "l \<in> set (children (nd t p))"
  defines "t' \<equiv> splice_child t p l r sep"
  shows "shape t' (Bs @ U # Us) \<and> entries t' (hd Bs) = entries t (hd Bs) \<and> hk t' p = hk t p \<and>
    length (keys (nd t' p)) = Suc (length (keys (nd t p))) \<and> (\<forall>j. j \<noteq> p \<longrightarrow> keys (nd t' j) = keys (nd t j))"
proof -
  let ?H = "(hk t)(l := hk t r)"
  obtain Bs0 D where Bs: "Bs = Bs0 @ [D]" using pend by (cases Bs rule: rev_cases) (auto simp: pend_def)
  with pend obtain A B where D: "D = A @ l # r # B" and b: "base t (Bs0 @ D # U # Us)"
    and s: "successively (lnk t) Bs" and ab: "above t ?H (A @ l # B) (U # Us)"
    by (auto simp: pend_def)
  have ds: "distinct (concat Bs0 @ D @ U @ concat Us)"
    and ids: "\<forall>j \<in> set (concat Bs0 @ D @ U @ concat Us). j < length (nodes t)"
    using b by (auto simp: base_def)
  have kU: "knows t ?H (A @ l # B) U" and aU: "above t (hk t) U Us"
  proof -
    show "knows t ?H (A @ l # B) U" using ab by (simp add: above_def)
    show "above t (hk t) U Us" using ab by (cases Us) (auto simp: above_def top_ok_def)
  qed
  from p(1) obtain U1 U2 where U: "U = U1 @ p # U2" by (auto simp: in_set_conv_decomp)
  from p(2) obtain C1 C2 where C: "children (nd t p) = C1 @ l # C2" "l \<notin> set C1"
    by (meson split_list_first)
  note at = knows_at [OF kU [unfolded U]]
  have dl: "l \<notin> set A" "l \<notin> set B" using ds D by auto
  have "A @ l # B = (known t U1 @ C1) @ l # (C2 @ known t U2)" using at C by simp
  then have AB: "A = known t U1 @ C1" "B = C2 @ known t U2"
    using dl append_Cons_eq_iff by metis+
  have pn: "p < length (nodes t)" "r < length (nodes t)" and pr: "p \<noteq> r" using ids ds U D by auto
  have nd': "nd t' j = (if j = p then (nd t p)\<lparr>keys := insert_at (length C1) sep (keys (nd t p)),
      children := C1 @ l # r # C2\<rparr> else if j = r then (nd t r)\<lparr>parent_hint := Some p\<rparr> else nd t j)" for j
    unfolding t'_def using splice_nd [OF pn pr C] .
  have hk': "hk t' j = hk t j" for j by (simp add: nd')
  have rt: "root t' = root t" by (simp add: t'_def)
  have inner: "same_inner t t' V" if "p \<notin> set V" for V using that by (auto simp: same_inner_def nd')
  have hints: "parent_hint (nd t' j) = parent_hint (nd t j)" if "j \<noteq> r" for j using that by (simp add: nd')
  have rAB: "r \<notin> set A" "r \<notin> set B" "r \<noteq> l" using ds D by auto
  have Hk: "\<forall>c \<in> set A \<union> set B. ?H c = hk t' c \<and> parent_hint (nd t' c) = parent_hint (nd t c)"
  proof
    fix c assume "c \<in> set A \<union> set B"
    then have "c \<noteq> l" "c \<noteq> r" using dl rAB by auto
    then show "?H c = hk t' c \<and> parent_hint (nd t' c) = parent_hint (nd t c)" using hints hk' by simp
  qed
  have pU: "p \<notin> set U1" "p \<notin> set U2" using ds U by auto
  have k1: "knows t' (hk t') (known t U1) U1"
    by (rule knows_cong [where H = ?H, OF inner]) (use pU at Hk AB in auto)
  have k2: "knows t' (hk t') (known t U2) U2"
    by (rule knows_cong [where H = ?H, OF inner]) (use pU at Hk AB in auto)
  have ip: "inode_ok t ?H p" using at by simp
  have lC: "length C1 \<le> length (keys (nd t p))" using inode_ok_lengths [OF ip] C by simp
  have "map ?H (C1 @ l # C2) = map Some (keys (nd t p)) @ [hk t p]" using ip C by (simp add: inode_ok_def)
  moreover have "map ?H C1 = map (hk t) C1" "map ?H C2 = map (hk t) C2" using C(2) dl AB by auto
  ultimately have "map (hk t) C1 @ hk t r # map (hk t) C2 = map Some (keys (nd t p)) @ [hk t p]" by simp
  then have "insert_at (length C1) (Some sep) (map (hk t) C1 @ hk t r # map (hk t) C2) =
      map Some (insert_at (length C1) sep (keys (nd t p))) @ [hk t p]"
    using lC by (simp add: insert_at_snoc map_insert_at)
  then have mp: "map (hk t) C1 @ Some sep # hk t r # map (hk t) C2 =
      map Some (insert_at (length C1) sep (keys (nd t p))) @ [hk t p]" by simp
  have "inode_ok t' (hk t') p"
    using ip mp C sep hints pr unfolding inode_ok_def hk' by (auto simp: nd')
  moreover have "children (nd t' p) = C1 @ l # r # C2" by (simp add: nd')
  ultimately have "lnk t' D U" using k1 k2 by (auto simp: knows_def U D AB)
  moreover have "successively (lnk t') Bs"
  proof (rule successively_lnk_cong [OF s])
    have "r \<notin> set (concat (butlast Bs))" using ds D Bs by auto
    then show "\<forall>x \<in> set (concat (butlast Bs)). parent_hint (nd t' x) = parent_hint (nd t x)"
      using hints by metis
    have "p \<notin> set (concat (tl Bs))" using ds U Bs by (cases Bs0) auto
    then show "same_inner t t' (concat (tl Bs))" by (rule inner)
  qed (simp add: hk')
  ultimately have s': "successively (lnk t') (Bs @ [U])" using Bs by (simp add: successively_append_iff)
  have ab': "above t' (hk t') U Us"
  proof (rule above_cong [OF aU])
    show "\<forall>c \<in> set U. hk t' c = hk t c \<and> parent_hint (nd t' c) = parent_hint (nd t c)"
    proof -
      have "r \<notin> set U" using ds D by auto
      then show ?thesis using hints hk' by metis
    qed
    show "same_inner t t' (concat Us)" by (rule inner) (use ds U in auto)
    have "r \<notin> set (concat Us)" using ds D by auto
    then show "\<forall>x \<in> set (concat Us). parent_hint (nd t' x) = parent_hint (nd t x)" using hints by metis
  qed (simp add: rt)
  have L0: "p \<notin> set (hd Bs)" "hd Bs = hd (Bs0 @ D # U # Us)" using ds U Bs by (cases Bs0; auto)+
  have "base t' (Bs0 @ D # U # Us)"
  proof (rule base_cong [OF b])
    show "\<forall>x \<in> set (hd (Bs0 @ D # U # Us)). is_leaf (nd t' x) = is_leaf (nd t x) \<and>
        keys (nd t' x) = keys (nd t x) \<and> vals (nd t' x) = vals (nd t x) \<and> hk t' x = hk t x"
      using L0 by (auto simp: nd')
    show "\<forall>x \<in> set (concat (Bs0 @ D # U # Us)). right_link (nd t' x) = right_link (nd t x)"
      by (simp add: nd')
    show "length (nodes t) \<le> length (nodes t')" by (simp add: t'_def)
  qed
  then have "shape t' (Bs @ U # Us)" using s' ab' shape_split [of "Bs @ [U]" t' Us] Bs by simp
  moreover have "entries t' (hd Bs) = entries t (hd Bs)" using L0 by (intro entries_cong) (auto simp: nd')
  ultimately show ?thesis by (simp add: nd')
qed

lemma grow_root_nd:
  assumes "grow_root t l r sep = Inr t'" and "l < length (nodes t)" "r < length (nodes t)" "l \<noteq> r"
  shows "root t' = length (nodes t)" "length (nodes t') = Suc (length (nodes t))" "tsize t' = tsize t"
    "node_capacity t' = node_capacity t" "max_nodes t' = max_nodes t"
    "nd t' (length (nodes t)) = new_node\<lparr>is_leaf := False, keys := [sep], children := [l, r]\<rparr>"
    "\<And>j. j < length (nodes t) \<Longrightarrow> nd t' j =
       (if j = l \<or> j = r then (nd t j)\<lparr>parent_hint := Some (length (nodes t))\<rparr> else nd t j)"
  using assms by (auto simp: grow_root_def new_internal_push nd_upd_node nd_push_node bind_res_def split: if_splits)

theorem grow_root_shape:
  assumes pend: "pend t Bs [] l r" and sep: "hk t l = Some sep" and g: "grow_root t l r sep = Inr t'"
  shows "shape t' (Bs @ [[length (nodes t)]]) \<and> entries t' (hd Bs) = entries t (hd Bs) \<and>
    (\<forall>j < length (nodes t). keys (nd t' j) = keys (nd t j))"
proof -
  let ?n = "length (nodes t)"
  obtain Bs0 D where Bs: "Bs = Bs0 @ [D]" using pend by (cases Bs rule: rev_cases) (auto simp: pend_def)
  with pend have D: "D = [l, r]" and b: "base t Bs" and s: "successively (lnk t) Bs"
    by (auto simp: pend_def above_def append_eq_Cons_conv)
  have ds: "distinct (concat Bs0 @ [l, r])" and ids: "\<forall>j \<in> set (concat Bs). j < ?n"
    using b Bs D by (auto simp: base_def)
  have ln: "l < ?n" "r < ?n" "l \<noteq> r" using ids ds Bs D by auto
  note R = grow_root_nd [OF g ln]
  have "\<forall>L \<in> set Bs. bounds (map (hk t) L)"
    using levels_bounds [OF s base_bounds [OF b]] b by (simp add: base_def)
  then have hr: "hk t r = None" using Bs D by (simp add: bounds_Cons)
  have old: "hk t' j = hk t j \<and> right_link (nd t' j) = right_link (nd t j) \<and> same_inner t t' [j] \<and>
      vals (nd t' j) = vals (nd t j) \<and> (j \<noteq> l \<and> j \<noteq> r \<longrightarrow> parent_hint (nd t' j) = parent_hint (nd t j))"
    if "j < ?n" for j
    using R(7) [OF that] by auto
  have inner: "same_inner t t' V" if "set V \<subseteq> set (concat Bs)" for V
    unfolding same_inner_def
  proof
    fix x assume "x \<in> set V"
    then have "x < ?n" using that ids by blast
    from old [OF this] show "is_leaf (nd t' x) = is_leaf (nd t x) \<and> keys (nd t' x) = keys (nd t x) \<and>
        children (nd t' x) = children (nd t x) \<and> hk t' x = hk t x" by simp
  qed
  have "lnk t' D [?n]"
    using old ln hr sep D by (auto simp: knows_def inode_ok_def R(6,7) new_node_def)
  moreover have "successively (lnk t') Bs"
  proof (rule successively_lnk_cong [OF s])
    show "\<forall>x \<in> set (concat Bs). hk t' x = hk t x" using old ids by blast
    show "\<forall>x \<in> set (concat (butlast Bs)). parent_hint (nd t' x) = parent_hint (nd t x)"
    proof
      fix x assume x: "x \<in> set (concat (butlast Bs))"
      then have "x \<noteq> l \<and> x \<noteq> r" "x < ?n" using ds ids Bs by auto
      then show "parent_hint (nd t' x) = parent_hint (nd t x)" using old by blast
    qed
    show "same_inner t t' (concat (tl Bs))" by (rule inner) (cases Bs; auto)
  qed
  moreover have "Bs \<noteq> []" "last Bs = D" using Bs by simp_all
  ultimately have s': "successively (lnk t') (Bs @ [[?n]])" by (simp add: successively_append_iff)
  have L0: "set (hd Bs) \<subseteq> set (concat Bs)" "hd Bs \<noteq> []" using b by (cases Bs; auto simp: base_def)+
  have L0v: "\<forall>x \<in> set (hd Bs). is_leaf (nd t' x) = is_leaf (nd t x) \<and>
      keys (nd t' x) = keys (nd t x) \<and> vals (nd t' x) = vals (nd t x) \<and> hk t' x = hk t x"
  proof
    fix x assume "x \<in> set (hd Bs)"
    then have "x < ?n" using ids L0 by blast
    from old [OF this] show "is_leaf (nd t' x) = is_leaf (nd t x) \<and> keys (nd t' x) = keys (nd t x) \<and>
        vals (nd t' x) = vals (nd t x) \<and> hk t' x = hk t x" by simp
  qed
  have "base t' Bs"
  proof (rule base_cong [OF b])
    show "\<forall>x \<in> set (hd Bs). is_leaf (nd t' x) = is_leaf (nd t x) \<and>
        keys (nd t' x) = keys (nd t x) \<and> vals (nd t' x) = vals (nd t x) \<and> hk t' x = hk t x"
      by (rule L0v)
  qed (use old ids R(2) in auto)
  moreover have "?n \<notin> set (concat Bs)" using ids by auto
  moreover have "linked t' [?n] None" by (simp add: R(6) new_node_def)
  moreover have "hd (Bs @ [[?n]]) = hd Bs" using Bs by (cases Bs0) simp_all
  ultimately have "base t' (Bs @ [[?n]])" using R(2) unfolding base_def by auto
  moreover have "top_ok t' (Bs @ [[?n]])" by (simp add: top_ok_def R(1,6) new_node_def)
  moreover have "entries t' (hd Bs) = entries t (hd Bs)"
    using L0v by (intro entries_cong) simp
  ultimately show ?thesis using s' old by (simp add: shape_def)
qed

section \<open>The cascade\<close>

text \<open>The fill of the nodes: no node but those of \<open>E\<close> is overfull, the nodes of \<open>Hs\<close> are half full.\<close>

definition fits :: "btree \<Rightarrow> node_id set \<Rightarrow> node_id list \<Rightarrow> bool" where
  "fits t E L \<longleftrightarrow> (\<forall>x \<in> set L. x \<notin> E \<longrightarrow> length (keys (nd t x)) \<le> node_capacity t)"

definition half :: "btree \<Rightarrow> node_id list \<Rightarrow> bool" where
  "half t L \<longleftrightarrow> (\<forall>x \<in> set L. node_capacity t div 2 \<le> length (keys (nd t x)))"

lemma fill_simps [simp]:
  "fits t E (L @ M) \<longleftrightarrow> fits t E L \<and> fits t E M" "half t (L @ M) \<longleftrightarrow> half t L \<and> half t M"
  "fits t E []" "half t []"
  "fits t E (x # L) \<longleftrightarrow> (x \<notin> E \<longrightarrow> length (keys (nd t x)) \<le> node_capacity t) \<and> fits t E L"
  "half t (x # L) \<longleftrightarrow> node_capacity t div 2 \<le> length (keys (nd t x)) \<and> half t L"
  by (auto simp: fits_def half_def)

lemma fill_cong:
  assumes "\<forall>x \<in> set L. keys (nd t' x) = keys (nd t x)" and "node_capacity t' = node_capacity t"
  shows "fits t' E L = fits t E L" "half t' L = half t L"
  using assms by (simp_all add: fits_def half_def)

definition pend_ok :: "btree \<Rightarrow> node_id list list \<Rightarrow> node_id list list \<Rightarrow> node_id \<Rightarrow> node_id \<Rightarrow> bool" where
  "pend_ok t Bs Us l r \<longleftrightarrow> pend t Bs Us l r \<and> fits t {} (concat (Bs @ Us)) \<and> half t (concat (Bs @ butlast Us)) \<and>
     (Us \<noteq> [] \<longrightarrow> keys (nd t (root t)) \<noteq> []) \<and> 1 \<le> node_capacity t"

definition same_limits :: "btree \<Rightarrow> btree \<Rightarrow> bool" where
  "same_limits t t' \<longleftrightarrow> tsize t' = tsize t \<and> node_capacity t' = node_capacity t \<and> max_nodes t' = max_nodes t"

text \<open>What the cascade leaves: the whole shape, or, when the arena is full, a tree that reads the same.\<close>

definition cascaded :: "btree \<Rightarrow> node_id list list \<Rightarrow> nat \<Rightarrow> exn option \<Rightarrow> btree \<Rightarrow> node_id list list \<Rightarrow> bool" where
  "cascaded t Bs h e t' Us' \<longleftrightarrow> entries t' (hd Bs) = entries t (hd Bs) \<and> same_limits t t' \<and>
     length (nodes t) \<le> length (nodes t') \<and> length (nodes t') \<le> length (nodes t) + h \<and>
     (if e = None
      then shape t' (Bs @ Us') \<and> fits t' {} (concat (Bs @ Us')) \<and> half t' (concat (Bs @ butlast Us')) \<and>
        Us' \<noteq> [] \<and> keys (nd t' (root t')) \<noteq> [] \<and> length Us' \<le> h
      else e = Some LengthError \<and> max_nodes t \<le> length (nodes t') \<and>
        readable t' (Bs @ Us') \<and> leaves_ok t' None (hd Bs))"

lemma pend_leaves_ok: "pend t Bs Us l r \<Longrightarrow> leaves_ok t None (hd Bs)"
  by (cases Bs) (auto simp: pend_def base_def)

lemma shape_leaves_ok: "shape t (Bs @ Us) \<Longrightarrow> Bs \<noteq> [] \<Longrightarrow> leaves_ok t None (hd Bs)"
  by (cases Bs) (auto simp: shape_def base_def)

lemma split_internal_keys:
  assumes wf: "shape t (Bs @ D # U # Us)" and p: "p \<in> set U" and sp: "split_internal t p = Inr ((q, sep), t2)"
  defines "n \<equiv> length (keys (nd t p))"
  shows "q = length (nodes t) \<and> length (nodes t2) = Suc (length (nodes t)) \<and> root t2 = root t \<and> same_limits t t2 \<and>
    length (keys (nd t2 p)) = n div 2 \<and> length (keys (nd t2 q)) = n - n div 2 - 1 \<and>
    (\<forall>j < length (nodes t). j \<noteq> p \<longrightarrow> keys (nd t2 j) = keys (nd t j))"
proof -
  from p obtain U1 U2 where U: "U = U1 @ p # U2" by (auto simp: in_set_conv_decomp)
  have b: "base t (Bs @ D # U # Us)" and "lnk t D (U1 @ p # U2)"
    using wf by (auto simp: shape_def successively_append_iff U)
  note at = knows_at [OF this(2)]
  have pn: "p < length (nodes t)" and cn: "\<forall>c \<in> set (children (nd t p)). c < length (nodes t)"
    using b at U by (auto simp: base_def)
  note R = split_internal_result [OF sp pn cn]
  show ?thesis using R(1,3-7) R(8) [OF pn] R(8) R(9) by (auto simp: Let_def n_def same_limits_def)
qed

lemma split_internal_error: "split_internal t p = Inl e \<Longrightarrow> e = LengthError \<and> max_nodes t \<le> length (nodes t)"
  by (auto simp: split_internal_def new_internal_push Let_def bind_res_def split: if_splits)

lemma grow_root_error: "grow_root t l r sep = Inl e \<Longrightarrow> e = LengthError \<and> max_nodes t \<le> length (nodes t)"
  by (auto simp: grow_root_def new_internal_push Let_def bind_res_def split: if_splits)

lemma cascade_step:
  assumes ok: "pend_ok t Bs (U # Us) l r" and sep: "hk t l = Some sep" and p: "p \<in> set U" "l \<in> set (children (nd t p))"
    and over: "node_capacity t < length (keys (nd (splice_child t p l r sep) p))"
    and sp: "split_internal (splice_child t p l r sep) p = Inr ((q, sep'), t2)"
  shows "\<exists>U'. pend_ok t2 (Bs @ [U']) Us p q \<and> hk t2 p = Some sep' \<and> entries t2 (hd Bs) = entries t (hd Bs) \<and>
    same_limits t t2 \<and> length (nodes t2) = Suc (length (nodes t))"
proof -
  let ?t1 = "splice_child t p l r sep" and ?c = "node_capacity t"
  have pend: "pend t Bs (U # Us) l r" using ok by (simp add: pend_ok_def)
  note S = splice_shape [OF pend sep p]
  obtain Bs0 D where Bs: "Bs = Bs0 @ [D]" using pend by (cases Bs rule: rev_cases) (auto simp: pend_def)
  from p(1) obtain U1 U2 where U: "U = U1 @ p # U2" by (auto simp: in_set_conv_decomp)
  have wf1: "shape ?t1 (Bs0 @ D # U # Us)" using S Bs by simp
  have kp: "keys (nd ?t1 p) \<noteq> []" using over by auto
  have P: "pend t2 (Bs @ [U1 @ p # q # U2]) Us p q" "hk t2 p = Some sep'" "entries t2 (hd Bs) = entries ?t1 (hd Bs)"
    using split_internal_pend [OF wf1 [unfolded U] sp kp] Bs by simp_all
  note K = split_internal_keys [OF wf1 p(1) sp]
  have n: "length (keys (nd ?t1 p)) = Suc ?c"
  proof -
    have "length (keys (nd t p)) \<le> ?c" using ok p(1) by (auto simp: pend_ok_def fits_def)
    then show ?thesis using over S by simp
  qed
  have keep: "\<forall>j < length (nodes t). j \<noteq> p \<longrightarrow> keys (nd t2 j) = keys (nd t j)" using K S by simp
  have cap: "node_capacity t2 = ?c" using K by (simp add: same_limits_def)
  have b: "base t (Bs @ U # Us)" using pend by (simp add: pend_def)
  have ids: "\<forall>j \<in> set (concat Bs @ U @ concat Us). j < length (nodes t)" and ds: "distinct (concat Bs @ U @ concat Us)"
    using b by (auto simp: base_def)
  have kk: "\<forall>j \<in> set (concat Bs @ U1 @ U2 @ concat Us). keys (nd t2 j) = keys (nd t j)"
  proof
    fix j assume j: "j \<in> set (concat Bs @ U1 @ U2 @ concat Us)"
    moreover have "p \<notin> set (concat Bs @ U1 @ U2 @ concat Us)" using ds U by simp
    ultimately have "j \<noteq> p" by blast
    moreover have "j < length (nodes t)" using ids j U by auto
    ultimately show "keys (nd t2 j) = keys (nd t j)" using keep by blast
  qed
  have F: "fits t2 {} V = fits t {} V" "half t2 V = half t V" if "set V \<subseteq> set (concat Bs @ U1 @ U2 @ concat Us)" for V
    using that kk cap by (auto intro!: fill_cong)
  have V: "fits t {} (concat Bs @ U1 @ U2 @ concat Us)" "half t (concat Bs)" "half t (concat (butlast Us))"
    "Us \<noteq> [] \<Longrightarrow> half t (U1 @ U2)"
    using ok by (cases "Us = []"; simp add: pend_ok_def U)+
  have two: "length (keys (nd t2 p)) \<le> ?c" "length (keys (nd t2 q)) \<le> ?c"
    "?c div 2 \<le> length (keys (nd t2 p))" "?c div 2 \<le> length (keys (nd t2 q))"
  proof -
    have "length (keys (nd t2 p)) = Suc ?c div 2" "length (keys (nd t2 q)) = Suc ?c - Suc ?c div 2 - 1"
      using K unfolding n by blast+
    then show "length (keys (nd t2 p)) \<le> ?c" "length (keys (nd t2 q)) \<le> ?c"
      "?c div 2 \<le> length (keys (nd t2 p))" "?c div 2 \<le> length (keys (nd t2 q))"
      using ok unfolding pend_ok_def by linarith+
  qed
  have U12: "Us = [] \<Longrightarrow> U1 = [] \<and> U2 = []"
    using pend U by (auto simp: pend_def above_def top_ok_def append_eq_Cons_conv)
  have "half t2 (U1 @ U2)" using F(2) [of "U1 @ U2"] V(4) U12 by (cases "Us = []") auto
  moreover have "half t2 (concat Bs)" "fits t2 {} (concat Bs @ U1 @ U2 @ concat Us)"
    using F(2) [of "concat Bs"] F(1) [of "concat Bs @ U1 @ U2 @ concat Us"] V(1,2) by auto
  moreover have "half t2 (concat (butlast Us))"
    using F(2) [of "concat (butlast Us)"] V(3) in_concat_butlast [of _ Us] by auto
  moreover have "keys (nd t2 (root t2)) \<noteq> []" if "Us \<noteq> []"
  proof -
    have "root t \<in> set (last Us)" using pend that by (auto simp: pend_def above_def top_ok_def)
    then have "root t \<in> set (concat Us)" using that by (auto intro!: bexI [of _ "last Us"])
    then have "keys (nd t2 (root t)) = keys (nd t (root t))" using kk by auto
    then show ?thesis using ok K by (simp add: pend_ok_def)
  qed
  ultimately have "pend_ok t2 (Bs @ [U1 @ p # q # U2]) Us p q"
    using P(1) two cap ok by (simp add: pend_ok_def)
  then show ?thesis using P S K by (intro exI [of _ "U1 @ p # q # U2"]) (simp add: same_limits_def)
qed

lemma same_limits_trans [trans]: "same_limits t u \<Longrightarrow> same_limits u v \<Longrightarrow> same_limits t v"
  by (simp add: same_limits_def)

lemma cascade_done:
  assumes ok: "pend_ok t Bs (U # Us) l r" and sep: "hk t l = Some sep" and p: "p \<in> set U" "l \<in> set (children (nd t p))"
    and fit: "length (keys (nd (splice_child t p l r sep) p)) \<le> node_capacity t"
  shows "cascaded t Bs (length (U # Us) + 1) None (splice_child t p l r sep) (U # Us)"
proof -
  let ?t1 = "splice_child t p l r sep"
  have pend: "pend t Bs (U # Us) l r" using ok by (simp add: pend_ok_def)
  note S = splice_shape [OF pend sep p]
  have le: "length (keys (nd t j)) \<le> length (keys (nd ?t1 j))" for j using S by (cases "j = p") auto
  have "length (keys (nd ?t1 j)) \<le> node_capacity t" if "length (keys (nd t j)) \<le> node_capacity t" for j
    using that S fit by (cases "j = p") auto
  then have "fits ?t1 {} V" if "fits t {} V" for V using that by (simp add: fits_def)
  moreover have "half ?t1 V" if "half t V" for V
    using that le by (auto simp: half_def intro: le_trans)
  moreover have "keys (nd ?t1 (root t)) \<noteq> []"
    using le [of "root t"] ok by (auto simp: pend_ok_def)
  ultimately show ?thesis
    using ok S by (auto simp: cascaded_def same_limits_def pend_ok_def)
qed

theorem splice_up_cascades:
  assumes "pend_ok t Bs Us l r" and "hk t l = Some sep"
  shows "\<exists>e t' Us'. splice_up t (parent_hint (nd t l)) l r sep = Some (e, t') \<and>
    cascaded t Bs (length Us + 1) e t' Us'"
  using assms
proof (induction Us arbitrary: t Bs l r sep)
  case Nil
  then have pend: "pend t Bs [] l r" by (simp add: pend_ok_def)
  then have l: "root t = l" "parent_hint (nd t l) = None"
    by (auto simp: pend_def above_def append_eq_Cons_conv)
  show ?case
  proof (cases "grow_root t l r sep")
    case (Inl e)
    then have "splice_up t (parent_hint (nd t l)) l r sep = Some (Some e, t)"
      using l by (simp add: splice_up.simps)
    moreover have "cascaded t Bs 1 (Some e) t []"
      using grow_root_error [OF Inl] pend_readable [OF pend] pend_leaves_ok [OF pend]
      by (simp add: cascaded_def same_limits_def)
    ultimately show ?thesis by auto
  next
    case (Inr t')
    then have s: "splice_up t (parent_hint (nd t l)) l r sep = Some (None, t')"
      using l by (simp add: splice_up.simps)
    note G = grow_root_shape [OF pend Nil(2) Inr]
    have ids: "\<forall>j \<in> set (concat Bs). j < length (nodes t)" and ne: "Bs \<noteq> []"
      using pend by (auto simp: pend_def base_def)
    obtain Bs0 D where Bs: "Bs = Bs0 @ [D]" using ne by (cases Bs rule: rev_cases) auto
    have "l \<in> set (last Bs)" "r \<in> set (last Bs)" "l \<noteq> r"
      using pend Bs by (auto simp: pend_def base_def)
    then have "l < length (nodes t)" "r < length (nodes t)" "l \<noteq> r"
      using ids ne last_in_set [of Bs] by auto
    note R = grow_root_nd [OF Inr this]
    have eq: "fits t' {} (concat Bs)" "half t' (concat Bs)"
      using Nil(1) G ids fill_cong [of "concat Bs" t' t] R(4) by (simp_all add: pend_ok_def)
    then have "cascaded t Bs 1 None t' [[length (nodes t)]]"
      using G R Nil(1) by (simp add: cascaded_def same_limits_def pend_ok_def)
    then show ?thesis using s by auto
  qed
next
  case (Cons U Us)
  have pend: "pend t Bs (U # Us) l r" using Cons.prems by (simp add: pend_ok_def)
  obtain p where p: "p \<in> set U" "l \<in> set (children (nd t p))" "parent_hint (nd t l) = Some p"
    using pend_parent [OF pend] by blast
  let ?t1 = "splice_child t p l r sep"
  note S = splice_shape [OF pend Cons.prems(2) p(1,2)]
  have mr: "move_right_to_child t p l = Some p" using p(2) by (simp add: move_right_to_child.simps)
  have eq: "splice_up t (parent_hint (nd t l)) l r sep =
      (if length (keys (nd ?t1 p)) \<le> node_capacity t then Some (None, ?t1)
       else (case split_internal ?t1 p of Inl e \<Rightarrow> Some (Some e, ?t1)
         | Inr ((r', s'), t2) \<Rightarrow> splice_up t2 (parent_hint (nd t2 p)) p r' s'))"
    by (subst splice_up.simps) (simp add: p(3) mr Let_def)
  show ?case
  proof (cases "length (keys (nd ?t1 p)) \<le> node_capacity t")
    case True
    then show ?thesis using eq cascade_done [OF Cons.prems p(1,2)] by auto
  next
    case over: False
    show ?thesis
    proof (cases "split_internal ?t1 p")
      case (Inl e)
      have "cascaded t Bs (length (U # Us) + 1) (Some e) ?t1 (U # Us)"
        using split_internal_error [OF Inl] S shape_readable [of ?t1 "Bs @ U # Us"] shape_leaves_ok [of ?t1 Bs "U # Us"] pend
        by (simp add: cascaded_def same_limits_def pend_def)
      then show ?thesis using eq over Inl by auto
    next
      case (Inr x)
      obtain q s' t2 where x: "x = ((q, s'), t2)" by (metis surj_pair)
      then obtain U' where U': "pend_ok t2 (Bs @ [U']) Us p q" "hk t2 p = Some s'"
        "entries t2 (hd Bs) = entries t (hd Bs)" "same_limits t t2" "length (nodes t2) = Suc (length (nodes t))"
        using cascade_step [OF Cons.prems p(1,2)] over Inr by (meson not_le)
      from Cons.IH [OF U'(1,2)] obtain e t' Us' where
        IH: "splice_up t2 (parent_hint (nd t2 p)) p q s' = Some (e, t')"
          "cascaded t2 (Bs @ [U']) (length Us + 1) e t' Us'" by blast
      have "Bs \<noteq> []" using pend by (simp add: pend_def)
      then have "cascaded t Bs (length (U # Us) + 1) e t' (U' # Us')"
        using IH(2) U' by (auto simp: cascaded_def same_limits_def)
      then show ?thesis using eq over Inr x IH(1) by auto
    qed
  qed
qed

section \<open>The whole insertion\<close>

definition tree_ok :: "btree \<Rightarrow> node_id list list \<Rightarrow> bool" where
  "tree_ok t Ls \<longleftrightarrow> shape t Ls \<and> fits t {} (concat Ls) \<and> half t (concat (butlast Ls)) \<and>
     (tl Ls \<noteq> [] \<longrightarrow> keys (nd t (root t)) \<noteq> []) \<and> tsize t = length (entries t (hd Ls)) \<and> 1 \<le> node_capacity t"

text \<open>What an insertion leaves behind, the exception included: the entry is in the tree in both cases.\<close>

definition inserted :: "btree \<Rightarrow> node_id list list \<Rightarrow> u64 \<Rightarrow> internal_id \<Rightarrow> exn option \<Rightarrow> btree \<Rightarrow> node_id list list \<Rightarrow> bool" where
  "inserted t Ls key rid e t' Ls' \<longleftrightarrow> entries t' (hd Ls') = insort_key fst (key, rid) (entries t (hd Ls)) \<and>
     tsize t' = Suc (tsize t) \<and> node_capacity t' = node_capacity t \<and> max_nodes t' = max_nodes t \<and>
     length (nodes t) \<le> length (nodes t') \<and> length (nodes t') \<le> length (nodes t) + length Ls + 1 \<and>
     (if e = None then tree_ok t' Ls' \<and> length Ls' \<le> Suc (length Ls)
      else e = Some LengthError \<and> max_nodes t \<le> length (nodes t') \<and> readable t' Ls' \<and> leaves_ok t' None (hd Ls'))"

lemma split_leaf_error: "split_leaf t p = Inl e \<Longrightarrow> e = LengthError \<and> max_nodes t \<le> length (nodes t)"
  by (auto simp: split_leaf_def new_leaf_push Let_def bind_res_def split: if_splits)

theorem bt_insert_inserted:
  assumes ok: "tree_ok t Ls"
  shows "\<exists>e t' Ls'. bt_insert t key rid = Some (e, t') \<and> inserted t Ls key rid e t' Ls'"
proof -
  have shp: "shape t Ls" using ok by (simp add: tree_ok_def)
  then obtain D Us where Ls: "Ls = D # Us" by (cases Ls) (auto simp: shape_def base_def)
  from descend_readable [OF shape_readable [OF shp], of key] Ls obtain A x B where
    D: "D = A @ x # B" and A: "passed t key A" and x: "hi_ok (hk t x) key"
    and d: "descend_locked t (root t) key = Some x" by auto
  let ?t1 = "leaf_insert t x key rid" and ?c = "node_capacity t"
  have S: "shape ?t1 (D # Us)" "entries ?t1 D = insort_key fst (key, rid) (entries t D)"
    using leaf_insert_shape [OF shp [unfolded Ls] D A x, of rid] by simp_all
  have xn: "x < length (nodes t)" and ds: "distinct (D @ concat Us)"
    and ids: "\<forall>j \<in> set (D @ concat Us). j < length (nodes t)"
    using shp Ls D by (auto simp: shape_def base_def)
  have k1: "keys (nd ?t1 j) = (if j = x then insert_at (lower_bound key (keys (nd t x))) key (keys (nd t x)) else keys (nd t j))" for j
    using leaf_insert_nd [OF xn] by simp
  then have le: "length (keys (nd t j)) \<le> length (keys (nd ?t1 j))" for j by simp
  have half1: "half ?t1 V" if "half t V" for V using that le by (auto simp: half_def intro: le_trans)
  have fits1: "fits ?t1 {x} V" if "fits t {} V" for V using that k1 by (auto simp: fits_def)
  have len1: "Suc (tsize t) = length (entries ?t1 D)" using S(2) ok Ls by (simp add: tree_ok_def)
  show ?thesis
  proof (cases "length (keys (nd ?t1 x)) \<le> ?c")
    case True
    then have "bt_insert t key rid = Some (None, ?t1)" by (simp add: bt_insert_def d Let_def)
    moreover have "fits ?t1 {} (concat Ls)"
      using fits1 [of "concat Ls"] ok True by (auto simp: tree_ok_def fits_def)
    moreover have "keys (nd ?t1 (root t)) \<noteq> []" if "Us \<noteq> []"
      using le [of "root t"] ok that Ls by (auto simp: tree_ok_def)
    ultimately show ?thesis
      using ok S len1 half1 Ls
      by (intro exI [of _ None] exI [of _ ?t1] exI [of _ Ls]) (simp add: inserted_def tree_ok_def)
  next
    case over: False
    show ?thesis
    proof (cases "split_leaf ?t1 x")
      case (Inl e)
      then have "bt_insert t key rid = Some (Some e, ?t1)" using over by (simp add: bt_insert_def d Let_def)
      moreover have "inserted t Ls key rid (Some e) ?t1 Ls"
        using split_leaf_error [OF Inl] S Ls shape_readable [of ?t1 Ls] shape_leaves_ok [of ?t1 "[D]" Us]
        by (simp add: inserted_def)
      ultimately show ?thesis by blast
    next
      case (Inr y)
      obtain r s' t2 where y: "y = ((r, s'), t2)" by (metis surj_pair)
      have n: "length (keys (nd ?t1 x)) = Suc ?c"
      proof -
        have "length (keys (nd t x)) \<le> ?c" using ok Ls D by (auto simp: tree_ok_def fits_def)
        then show ?thesis using over k1 [of x] by simp
      qed
      have c1: "1 \<le> ?c" using ok by (simp add: tree_ok_def)
      have P: "pend t2 [A @ x # r # B] Us x r" "hk t2 x = Some s'" "entries t2 (A @ x # r # B) = entries ?t1 D"
        using split_leaf_pend [OF S(1) D Inr [unfolded y]] n c1 by simp_all
      have xn1: "x < length (nodes ?t1)" using xn by simp
      note R = split_leaf_result [OF Inr [unfolded y] xn1]
      have kk: "keys (nd t2 j) = keys (nd t j)" if "j \<in> set (A @ B @ concat Us)" for j
      proof -
        have "j \<noteq> x" "j < length (nodes t)" using that ds ids D by auto
        then show ?thesis using R(8) [of j] k1 [of j] by simp
      qed
      have two: "length (keys (nd t2 x)) = (Suc ?c + 1) div 2" "length (keys (nd t2 r)) = Suc ?c - (Suc ?c + 1) div 2"
        using R(8) [OF xn1] R(9) n by simp_all
      have F: "fits t2 {} V = fits t {} V" "half t2 V = half t V" if "set V \<subseteq> set (A @ B @ concat Us)" for V
        using that kk R(6) by (auto intro!: fill_cong)
      have fo: "fits t {} (A @ B @ concat Us)" "half t (concat (butlast Us))" "Us \<noteq> [] \<Longrightarrow> half t (A @ B)"
        using ok Ls D by (cases "Us = []"; simp add: tree_ok_def)+
      have "Us = [] \<Longrightarrow> A = [] \<and> B = []" using shp Ls D by (auto simp: shape_def top_ok_def append_eq_Cons_conv)
      then have "half t2 (A @ B)" using F(2) [of "A @ B"] fo(3) by (cases "Us = []") auto
      moreover have "half t2 (concat (butlast Us))"
        using F(2) [of "concat (butlast Us)"] fo(2) in_concat_butlast [of _ Us] by auto
      moreover have "fits t2 {} (A @ B @ concat Us)" using F(1) [of "A @ B @ concat Us"] fo(1) by simp
      moreover have "keys (nd t2 (root t2)) \<noteq> []" if "Us \<noteq> []"
      proof -
        have "root t \<in> set (last Us)" using shp that Ls by (auto simp: shape_def top_ok_def)
        then have "root t \<in> set (concat Us)" using that by (auto intro!: bexI [of _ "last Us"])
        then have "keys (nd t2 (root t)) = keys (nd t (root t))" using kk by auto
        then show ?thesis using ok R(4) Ls that by (simp add: tree_ok_def)
      qed
      ultimately have pok: "pend_ok t2 [A @ x # r # B] Us x r"
        using P(1) two R(6) c1 by (auto simp: pend_ok_def)
      from splice_up_cascades [OF pok P(2)] obtain e t' Us' where
        sp: "splice_up t2 (parent_hint (nd t2 x)) x r s' = Some (e, t')"
        and ca: "cascaded t2 [A @ x # r # B] (length Us + 1) e t' Us'" by blast
      have "bt_insert t key rid = Some (e, t')" using over Inr y sp by (simp add: bt_insert_def d Let_def)
      moreover have "inserted t Ls key rid e t' ((A @ x # r # B) # Us')"
        using ca P S R(3,5-7) Ls len1 c1
        by (auto simp: inserted_def cascaded_def same_limits_def tree_ok_def)
      ultimately show ?thesis by blast
    qed
  qed
qed

end
