(* ===== verification/BPlus_Siblings.thy ===== *)
theory BPlus_Siblings
  imports BPlus_Insert
begin

text \<open>
  What rebalancing does to two adjacent siblings: a redistribution between them, from the
  right or from the left, and a merge. All are instances of one lemma on replacing adjacent
  children of a node, and all keep the shape of the tree and the entries of its leaves.
\<close>

section \<open>Replacing adjacent children of a node\<close>

lemma segment_unique:
  assumes "A @ M @ B = A' @ M @ B'" and "M \<noteq> []" and "distinct (A @ M @ B)"
  shows "A = A' \<and> B = B'"
proof -
  from assms(2) obtain m M1 where M: "M = m # M1" by (cases M) auto
  have "A @ m # (M1 @ B) = A' @ m # (M1 @ B')" using assms(1) M by simp
  moreover have "m \<notin> set A" "m \<notin> set (M1 @ B)" using assms(3) M by auto
  ultimately have "A = A' \<and> M1 @ B = M1 @ B'" by (metis append_Cons_eq_iff)
  then show ?thesis by simp
qed

lemma linked_last: "linked t M e \<Longrightarrow> M \<noteq> [] \<Longrightarrow> right_link (nd t (last M)) = e"
  by (induction M) (auto split: list.splits if_splits)

text \<open>
  The segment \<open>M\<close> of the children of \<open>p\<close> becomes \<open>M'\<close>. Below it either the leaves hold the same
  entries within the same bounds or the inner nodes know the same children.
\<close>

lemma replace_segment:
  assumes sh: "shape t (Bs @ V # U # Us)" and V: "V = A @ M @ B" and p: "p \<in> set U"
    and C: "children (nd t p) = C1 @ M @ C2" and ne: "M \<noteq> []" "M' \<noteq> []"
    and M': "set M' \<subseteq> set M" "distinct M'"
    and frame: "\<And>j. j < length (nodes t) \<Longrightarrow> j \<notin> set M \<Longrightarrow> j \<noteq> p \<Longrightarrow> same_inner t t' [j] \<and> vals (nd t' j) = vals (nd t j)"
    and links: "\<And>j. j < length (nodes t) \<Longrightarrow> j \<notin> set M \<Longrightarrow> right_link (nd t' j) = right_link (nd t j)"
    and hints: "\<And>j. j < length (nodes t) \<Longrightarrow> Bs = [] \<or> j \<notin> set (known t M) \<Longrightarrow>
      parent_hint (nd t' j) = parent_hint (nd t j)"
    and tree: "length (nodes t') = length (nodes t)" "root t' = root t"
    and pp: "is_leaf (nd t' p) = is_leaf (nd t p)" "hk t' p = hk t p" "children (nd t' p) = C1 @ M' @ C2"
      "map (hk t') (C1 @ M' @ C2) = map Some (keys (nd t' p)) @ [hk t p]"
    and seg: "linked t' M' (right_link (nd t (last M)))" "hk t' (last M') = hk t (last M)"
      "hd M' = hd M"
    and low: "if Bs = [] then leaves_ok t' (lo_at t A) M' \<and> entries t' M' = entries t M
      else (\<forall>x \<in> set M'. inode_ok t' (hk t') x) \<and> known t' M' = known t M"
  shows "shape t' (Bs @ (A @ M' @ B) # U # Us) \<and>
    entries t' (hd (Bs @ [A @ M' @ B])) = entries t (hd (Bs @ [V]))"
proof -
  let ?V' = "A @ M' @ B"
  have b: "base t (Bs @ V # U # Us)" and s: "successively (lnk t) (Bs @ [V])" and kU: "lnk t V U"
    and ab: "above t (hk t) U Us"
    using sh shape_split [of "Bs @ [V, U]" t Us] by (simp_all add: successively_append_iff)
  have ds: "distinct (concat Bs @ V @ U @ concat Us)"
    and ids: "\<forall>j \<in> set (concat Bs @ V @ U @ concat Us). j < length (nodes t)"
    using b by (auto simp: base_def)
  from p obtain U1 U2 where U: "U = U1 @ p # U2" by (auto simp: in_set_conv_decomp)
  note at = knows_at [OF kU [unfolded U]]
  have "distinct V" using ds by simp
  then have dV: "distinct (A @ M @ B)" using V by (simp only:)
  have "A @ M @ B = (known t U1 @ C1) @ M @ (C2 @ known t U2)" using at C V by simp
  from segment_unique [OF this ne(1) dV] have AB: "A = known t U1 @ C1" "B = C2 @ known t U2" by simp_all
  let ?R = "concat Bs @ A @ B @ U1 @ U2 @ concat Us"
  have R: "j < length (nodes t) \<and> j \<notin> set M \<and> j \<noteq> p" if "j \<in> set ?R" for j
    using that ids ds V U by (auto simp del: set_concat)
  have inner: "same_inner t t' W" if "set W \<subseteq> set ?R" for W
    unfolding same_inner_def
  proof
    fix x assume "x \<in> set W"
    then have "x \<in> set ?R" using that by blast
    with R frame [of x] show "is_leaf (nd t' x) = is_leaf (nd t x) \<and> keys (nd t' x) = keys (nd t x) \<and>
        children (nd t' x) = children (nd t x) \<and> hk t' x = hk t x" by auto
  qed
  have same: "hk t' j = hk t j \<and> vals (nd t' j) = vals (nd t j) \<and> right_link (nd t' j) = right_link (nd t j)"
    if "j \<in> set ?R" for j
    using R [OF that] frame [of j] links [of j] by simp
  have kM: "set (known t M) \<subseteq> set (last Bs)" "distinct (known t A @ known t M @ known t B)"
    "last Bs = known t A @ known t M @ known t B" if "Bs \<noteq> []"
  proof -
    have "lnk t (last Bs) V" using s that by (simp add: successively_append_iff)
    then show eq: "last Bs = known t A @ known t M @ known t B" using V by (simp add: knows_def)
    then show "set (known t M) \<subseteq> set (last Bs)" by auto
    have "distinct (last Bs)" using ds that by (metis append_butlast_last_id concat.simps concat_append distinct_append append_Nil2)
    then show "distinct (known t A @ known t M @ known t B)" using eq by simp
  qed
  have dis: "j \<notin> set (known t M)" if "Bs \<noteq> []" "j \<in> set (concat (butlast Bs) @ V @ U @ concat Us)" for j
  proof -
    obtain Bs0 D where Bs: "Bs = Bs0 @ [D]" using \<open>Bs \<noteq> []\<close> by (cases Bs rule: rev_cases) auto
    then have "set D \<inter> set (concat Bs0 @ V @ U @ concat Us) = {}" using ds by (auto simp del: set_concat)
    then show ?thesis using kM(1) that Bs by auto
  qed
  have hint: "parent_hint (nd t' j) = parent_hint (nd t j)"
    if "j \<in> set (concat (butlast Bs) @ V @ U @ concat Us)" for j
  proof (rule hints)
    show "j < length (nodes t)" using that ids by (auto dest: in_set_butlastD)
    show "Bs = [] \<or> j \<notin> set (known t M)" using dis that by blast
  qed
  have "inode_ok t' (hk t') p"
    using at pp C hint [of _] ne V AB M' unfolding inode_ok_def
    by (auto simp del: map_append)
  moreover have "knows t' (hk t') (known t U1) U1" "knows t' (hk t') (known t U2) U2"
    by (rule knows_cong [where H = "hk t", OF inner]; use at same hint AB V in \<open>auto\<close>)+
  ultimately have k': "lnk t' ?V' U" using pp(3) by (auto simp: knows_def U AB)
  have ab': "above t' (hk t') U Us"
  proof (rule above_cong [OF ab])
    show "\<forall>c \<in> set U. hk t' c = hk t c \<and> parent_hint (nd t' c) = parent_hint (nd t c)"
      using same hint pp(2) U by auto
    show "same_inner t t' (concat Us)" by (rule inner) auto
    show "\<forall>x \<in> set (concat Us). parent_hint (nd t' x) = parent_hint (nd t x)" using hint by auto
  qed (rule tree(2))
  have s': "successively (lnk t') (Bs @ [?V'])"
  proof (cases "Bs = []")
    case False
    then obtain Bs0 D where Bs: "Bs = Bs0 @ [D]" by (cases Bs rule: rev_cases) auto
    have "successively (lnk t') Bs"
    proof (rule successively_lnk_cong)
      show "successively (lnk t) Bs" using s by (simp add: successively_append_iff)
      show "\<forall>x \<in> set (concat Bs). hk t' x = hk t x" using same by auto
      show "\<forall>x \<in> set (concat (butlast Bs)). parent_hint (nd t' x) = parent_hint (nd t x)" using hint by auto
      show "same_inner t t' (concat (tl Bs))" by (rule inner) (cases Bs; auto)
    qed
    moreover have "lnk t' D ?V'"
    proof -
      have D: "D = known t A @ known t M @ known t B" using kM(3) [OF False] Bs by simp
      have DV: "lnk t D V" using s Bs by (simp add: successively_append_iff)
      have h: "hk t' c = hk t c \<and> parent_hint (nd t' c) = parent_hint (nd t c)"
        if "c \<in> set (known t A) \<union> set (known t B)" for c
      proof -
        have "c \<notin> set (known t M)" "c \<in> set D" using that kM(2) [OF False] D by auto
        then show ?thesis using same [of c] hints [of c] ids Bs by auto
      qed
      have "knows t' (hk t') (known t A) A" "knows t' (hk t') (known t B) B"
        by (rule knows_cong [where H = "hk t", OF inner]; use DV V h in \<open>auto simp: knows_def\<close>)+
      then show ?thesis using low False D by (auto simp: knows_def)
    qed
    ultimately show ?thesis using Bs by (simp add: successively_append_iff)
  qed simp
  have lV: "linked t V None" using b by (simp add: base_def)
  then have lM: "right_link (nd t (last M)) = (case B of [] \<Rightarrow> None | y # _ \<Rightarrow> Some y)"
    using V ne linked_last by (auto simp: linked_append)
  obtain m M1 where m: "M = m # M1" using ne(1) by (cases M) auto
  have "linked t A (Some (hd M))" "linked t B None"
    using lV unfolding V linked_append m by simp_all
  moreover have "linked t' A e = linked t A e" "linked t' B e = linked t B e" for e
    using same by (auto intro!: linked_cong)
  ultimately have "linked t' A (Some (hd M))" "linked t' B None" by simp_all
  then have lV': "linked t' ?V' None"
    using seg(1,3) lM ne(2) by (cases M'; cases B) (auto simp: linked_append split: list.splits)
  have lk': "linked t' L None" if "L \<in> set (Bs @ ?V' # U # Us)" for L
  proof (cases "L = ?V'")
    case False
    then have "linked t L None" "\<forall>x \<in> set L. right_link (nd t' x) = right_link (nd t x)"
    proof -
      have L: "L \<in> set Bs \<or> L = U \<or> L \<in> set Us" using that False by auto
      then show "linked t L None" using b by (auto simp: base_def)
      show "\<forall>x \<in> set L. right_link (nd t' x) = right_link (nd t x)"
      proof
        fix x assume "x \<in> set L"
        then have "x \<in> set (concat Bs @ U @ concat Us)" using L by auto
        then have "x < length (nodes t)" "x \<notin> set M" using ids ds V by (auto simp del: set_concat)
        then show "right_link (nd t' x) = right_link (nd t x)" by (rule links)
      qed
    qed
    then show ?thesis using linked_cong [of L t' t None] by simp
  qed (use lV' in simp)
  let ?L = "hd (Bs @ [V])" and ?L' = "hd (Bs @ [?V'])"
  have L: "leaves_ok t None ?L" "hk t (last ?L) = None" "hd (Bs @ V # U # Us) = ?L" "hd (Bs @ ?V' # U # Us) = ?L'"
    using b by (cases Bs; simp add: base_def)+
  have leaf: "leaves_ok t' None ?L' \<and> hk t' (last ?L') = None \<and> entries t' ?L' = entries t ?L"
  proof (cases "Bs = []")
    case True
    have oA: "leaves_ok t' None A = leaves_ok t None A" "leaves_ok t' lo B = leaves_ok t lo B" for lo
      using inner [of A] inner [of B] same by (auto simp: same_inner_def intro!: leaves_ok_cong)
    have hA: "map (hk t') A = map (hk t) A" using same by simp
    have lo: "last (lo_at t A # map (hk t') M') = last (lo_at t A # map (hk t) M)"
      using seg(2) ne by (simp add: last_map)
    have "leaves_ok t None (A @ M @ B)" using L(1) True V by simp
    then have "leaves_ok t' None ?V'"
      using True low seg(2) ne same unfolding leaves_ok_append_iff hA oA by (auto simp: last_map)
    moreover have "hk t' (last ?V') = None" using L(2) True V seg(2) ne same by (cases B rule: rev_cases) auto
    moreover have "entries t' A = entries t A" "entries t' B = entries t B"
      using inner [of A] inner [of B] same by (auto simp: same_inner_def intro!: entries_cong)
    ultimately show ?thesis using True low V by simp
  next
    case False
    then have eq: "?L' = hd Bs" "?L = hd Bs" and sub: "set (hd Bs) \<subseteq> set ?R" by (cases Bs; auto)+
    have *: "\<forall>x \<in> set (hd Bs). is_leaf (nd t' x) = is_leaf (nd t x) \<and> keys (nd t' x) = keys (nd t x) \<and>
        vals (nd t' x) = vals (nd t x) \<and> hk t' x = hk t x"
    proof
      fix x assume "x \<in> set (hd Bs)"
      then have "x \<in> set ?R" "same_inner t t' [x]" using sub inner [OF sub] by (blast, simp add: same_inner_def)
      then show "is_leaf (nd t' x) = is_leaf (nd t x) \<and> keys (nd t' x) = keys (nd t x) \<and>
          vals (nd t' x) = vals (nd t x) \<and> hk t' x = hk t x" using same [of x] by simp
    qed
    have "hd Bs \<in> set Bs" using False by simp
    then have "hd Bs \<noteq> []" using b by (auto simp: base_def)
    then show ?thesis
      using leaves_ok_cong [OF *] L(1,2) * entries_cong [of "hd Bs" t' t] unfolding eq by auto
  qed
  have "distinct (concat Bs @ ?V' @ U @ concat Us)" using ds V M' by auto
  moreover have "\<forall>j \<in> set (concat Bs @ ?V' @ U @ concat Us). j < length (nodes t')"
    using ids V M' tree(1) by auto
  moreover have "\<forall>X \<in> set (Bs @ ?V' # U # Us). X \<noteq> []" using b ne by (simp add: base_def)
  ultimately have "base t' (Bs @ ?V' # U # Us)" using lk' leaf L(4) by (simp add: base_def)
  moreover have "successively (lnk t') (Bs @ [?V', U])" using s' k' by (simp add: successively_append_iff)
  ultimately have "shape t' (Bs @ ?V' # U # Us)" using ab' shape_split [of "Bs @ [?V', U]" t' Us] by simp
  then show ?thesis using leaf by simp
qed

section \<open>Two siblings\<close>

text \<open>What the shape says of two adjacent children \<open>l\<close> and \<open>r\<close> of \<open>p\<close>.\<close>

definition siblings :: "btree \<Rightarrow> node_id list list \<Rightarrow> node_id list \<Rightarrow> node_id \<Rightarrow> node_id list \<Rightarrow> node_id \<Rightarrow> node_id \<Rightarrow>
    node_id list \<Rightarrow> node_id list \<Rightarrow> node_id list \<Rightarrow> bool" where
  "siblings t Bs V p C1 l r C2 A B \<longleftrightarrow> V = A @ [l, r] @ B \<and> children (nd t p) = C1 @ l # r # C2 \<and>
     {p, l, r} \<subseteq> {..<length (nodes t)} \<and> p \<noteq> l \<and> p \<noteq> r \<and> l \<noteq> r \<and> distinct (C1 @ l # r # C2) \<and>
     p \<notin> set (C1 @ l # r # C2) \<and>
     right_link (nd t l) = Some r \<and> hk t l = Some (keys (nd t p) ! length C1) \<and>
     length C1 < length (keys (nd t p)) \<and> is_leaf (nd t p) = False \<and>
     map (hk t) (C1 @ l # r # C2) = map Some (keys (nd t p)) @ [hk t p] \<and>
     (if Bs = [] then leaves_ok t (lo_at t A) [l, r]
      else inode_ok t (hk t) l \<and> inode_ok t (hk t) r \<and> distinct (children (nd t l) @ children (nd t r)) \<and>
        set (children (nd t l) @ children (nd t r)) \<subseteq> {..<length (nodes t)} - {p, l, r})"

lemma siblingsI:
  assumes sh: "shape t (Bs @ V # U # Us)" and p: "p \<in> set U" and C: "children (nd t p) = C1 @ l # r # C2"
  shows "\<exists>A B. siblings t Bs V p C1 l r C2 A B"
proof -
  have b: "base t (Bs @ V # U # Us)" and s: "successively (lnk t) (Bs @ [V])" and kU: "lnk t V U"
    using sh shape_split [of "Bs @ [V, U]" t Us] by (simp_all add: successively_append_iff)
  have ds: "distinct (concat Bs @ V @ U @ concat Us)"
    and ids: "\<forall>j \<in> set (concat Bs @ V @ U @ concat Us). j < length (nodes t)"
    using b by (auto simp: base_def)
  from p obtain U1 U2 where U: "U = U1 @ p # U2" by (auto simp: in_set_conv_decomp)
  note at = knows_at [OF kU [unfolded U]]
  let ?A = "known t U1 @ C1" and ?B = "C2 @ known t U2"
  have V: "V = ?A @ [l, r] @ ?B" using at C by simp
  have ip: "inode_ok t (hk t) p" using at by simp
  have mp: "map (hk t) (C1 @ l # r # C2) = map Some (keys (nd t p)) @ [hk t p]"
    using ip C by (simp add: inode_ok_def)
  have lC: "length C1 < length (keys (nd t p))" using inode_ok_lengths [OF ip] C by simp
  have "hk t l = map (hk t) (C1 @ l # r # C2) ! length C1" by (simp add: nth_append)
  also have "\<dots> = Some (keys (nd t p) ! length C1)" unfolding mp using lC by (simp add: nth_append)
  finally have hl: "hk t l = Some (keys (nd t p) ! length C1)" .
  have "linked t V None" using b by (simp add: base_def)
  then have rl: "right_link (nd t l) = Some r" using V by (simp add: linked_append)
  have "distinct V" using ds by simp
  then have dC: "distinct (C1 @ l # r # C2)" using V by auto
  have pV: "p \<notin> set V" using ds U by auto
  have low: "if Bs = [] then leaves_ok t (lo_at t ?A) [l, r]
      else inode_ok t (hk t) l \<and> inode_ok t (hk t) r \<and> distinct (children (nd t l) @ children (nd t r)) \<and>
        set (children (nd t l) @ children (nd t r)) \<subseteq> {..<length (nodes t)} - {p, l, r}"
  proof (cases "Bs = []")
    case True
    then have "leaves_ok t None (?A @ [l, r] @ ?B)" using b V by (simp add: base_def)
    then have "leaves_ok t (lo_at t ?A) ([l, r] @ ?B)" unfolding leaves_ok_append_iff [of t None ?A] by blast
    then have "leaves_ok t (lo_at t ?A) [l, r]" unfolding leaves_ok_append_iff [of t _ "[l, r]"] by blast
    then show ?thesis using True by simp
  next
    case False
    then obtain Bs0 D where Bs: "Bs = Bs0 @ [D]" by (cases Bs rule: rev_cases) auto
    then have k: "lnk t D V" using s by (simp add: successively_append_iff)
    then have D: "D = known t ?A @ (children (nd t l) @ children (nd t r)) @ known t ?B"
      using V by (simp add: knows_def)
    have il: "inode_ok t (hk t) l" "inode_ok t (hk t) r" using k V by (simp_all add: knows_def)
    have "distinct D" using ds Bs by simp
    then have "distinct (children (nd t l) @ children (nd t r))" unfolding D distinct_append by blast
    moreover have "set D \<subseteq> {..<length (nodes t)} - {p, l, r}" using ids ds Bs V p by auto
    then have "set (children (nd t l) @ children (nd t r)) \<subseteq> {..<length (nodes t)} - {p, l, r}"
      using D by auto
    ultimately show ?thesis using False il by simp
  qed
  have "siblings t Bs V p C1 l r C2 ?A ?B"
    using V C dC pV mp lC hl rl low ids ip p unfolding siblings_def by (auto simp: inode_ok_def)
  then show ?thesis by blast
qed

lemma sep_update:
  assumes "map h (C1 @ l # R) = map Some ks @ [e]" and "length C1 < length ks" and "l \<notin> set C1" "l \<notin> set R"
  shows "map (h(l := Some s)) (C1 @ l # R) = map Some (ks[length C1 := s]) @ [e]"
proof -
  have "map (h(l := Some s)) (C1 @ l # R) = (map h (C1 @ l # R))[length C1 := Some s]"
    using assms(3,4) by (simp add: list_update_append)
  also have "\<dots> = map Some (ks[length C1 := s]) @ [e]"
    unfolding assms(1) using assms(2) by (simp add: list_update_append map_update)
  finally show ?thesis .
qed

section \<open>Borrowing from the right\<close>

lemma borrow_right_nd:
  assumes S: "siblings t Bs V p C1 l r C2 A B" and leaf: "is_leaf (nd t l) \<longleftrightarrow> Bs = []"
  defines "t' \<equiv> borrow_from_right t p (length C1)"
  defines "s \<equiv> hd (keys (nd t r))"
  shows "length (nodes t') = length (nodes t)" "root t' = root t" "same_limits t t'"
    "nd t' p = (nd t p)\<lparr>keys := (keys (nd t p))[length C1 := s]\<rparr>"
    "nd t' l = (if Bs = [] then (nd t l)\<lparr>keys := keys (nd t l) @ [s], vals := vals (nd t l) @ [hd (vals (nd t r))], high_key := Some s\<rparr>
      else (nd t l)\<lparr>keys := keys (nd t l) @ [keys (nd t p) ! length C1], children := children (nd t l) @ [hd (children (nd t r))],
        high_key := Some s\<rparr>)"
    "nd t' r = (if Bs = [] then (nd t r)\<lparr>keys := tl (keys (nd t r)), vals := tl (vals (nd t r))\<rparr>
      else (nd t r)\<lparr>keys := tl (keys (nd t r)), children := tl (children (nd t r))\<rparr>)"
    "\<And>j. j \<notin> {p, l, r} \<Longrightarrow> nd t' j = (if Bs \<noteq> [] \<and> j = hd (children (nd t r)) then (nd t j)\<lparr>parent_hint := Some l\<rparr> else nd t j)"
proof -
  have C: "children (nd t p) ! length C1 = l" "children (nd t p) ! (length C1 + 1) = r"
    using S by (simp_all add: siblings_def nth_append)
  have m: "hd (children (nd t r)) \<notin> {p, l, r}" "hd (children (nd t r)) < length (nodes t)" if "Bs \<noteq> []"
  proof -
    have "children (nd t r) \<noteq> []" and sub: "set (children (nd t r)) \<subseteq> {..<length (nodes t)} - {p, l, r}"
      using S that by (auto simp: siblings_def inode_ok_def)
    then have "hd (children (nd t r)) \<in> {..<length (nodes t)} - {p, l, r}" by (meson hd_in_set subsetD)
    then show "hd (children (nd t r)) \<notin> {p, l, r}" "hd (children (nd t r)) < length (nodes t)" by auto
  qed
  have ne: "p \<noteq> l" "p \<noteq> r" "l \<noteq> r" "p < length (nodes t)" "l < length (nodes t)" "r < length (nodes t)"
    using S by (auto simp: siblings_def)
  show "length (nodes t') = length (nodes t)" "root t' = root t" "same_limits t t'"
    by (simp_all add: t'_def borrow_from_right_def Let_def same_limits_def)
  show "nd t' p = (nd t p)\<lparr>keys := (keys (nd t p))[length C1 := s]\<rparr>"
    using ne m leaf C unfolding t'_def s_def
    by (cases "Bs = []") (simp_all add: borrow_from_right_def Let_def nd_upd_node)
  show "nd t' l = (if Bs = [] then (nd t l)\<lparr>keys := keys (nd t l) @ [s], vals := vals (nd t l) @ [hd (vals (nd t r))], high_key := Some s\<rparr>
      else (nd t l)\<lparr>keys := keys (nd t l) @ [keys (nd t p) ! length C1], children := children (nd t l) @ [hd (children (nd t r))],
        high_key := Some s\<rparr>)"
    using ne m leaf C unfolding t'_def s_def
    by (cases "Bs = []") (simp_all add: borrow_from_right_def Let_def nd_upd_node)
  show "nd t' r = (if Bs = [] then (nd t r)\<lparr>keys := tl (keys (nd t r)), vals := tl (vals (nd t r))\<rparr>
      else (nd t r)\<lparr>keys := tl (keys (nd t r)), children := tl (children (nd t r))\<rparr>)"
    using ne m leaf C unfolding t'_def s_def
    by (cases "Bs = []") (simp_all add: borrow_from_right_def Let_def nd_upd_node)
  fix j assume "j \<notin> {p, l, r}"
  then show "nd t' j = (if Bs \<noteq> [] \<and> j = hd (children (nd t r)) then (nd t j)\<lparr>parent_hint := Some l\<rparr> else nd t j)"
    using ne m leaf C unfolding t'_def s_def
    by (cases "Bs = []") (simp_all add: borrow_from_right_def Let_def nd_upd_node)
qed

lemma siblings_low:
  assumes "siblings t Bs V p C1 l r C2 A B"
  shows "Bs = [] \<Longrightarrow> leaves_ok t (lo_at t A) [l, r]"
    and "Bs \<noteq> [] \<Longrightarrow> inode_ok t (hk t) l \<and> inode_ok t (hk t) r \<and> distinct (children (nd t l) @ children (nd t r)) \<and>
        set (children (nd t l) @ children (nd t r)) \<subseteq> {..<length (nodes t)} - {p, l, r}"
proof -
  have "if Bs = [] then leaves_ok t (lo_at t A) [l, r]
      else inode_ok t (hk t) l \<and> inode_ok t (hk t) r \<and> distinct (children (nd t l) @ children (nd t r)) \<and>
        set (children (nd t l) @ children (nd t r)) \<subseteq> {..<length (nodes t)} - {p, l, r}"
    using assms unfolding siblings_def by blast
  then show "Bs = [] \<Longrightarrow> leaves_ok t (lo_at t A) [l, r]"
    and "Bs \<noteq> [] \<Longrightarrow> inode_ok t (hk t) l \<and> inode_ok t (hk t) r \<and> distinct (children (nd t l) @ children (nd t r)) \<and>
        set (children (nd t l) @ children (nd t r)) \<subseteq> {..<length (nodes t)} - {p, l, r}"
    by (simp_all only: if_True if_False)
qed

lemma siblings_leaf: "siblings t Bs V p C1 l r C2 A B \<Longrightarrow>
    (is_leaf (nd t l) \<longleftrightarrow> Bs = []) \<and> (is_leaf (nd t r) \<longleftrightarrow> Bs = [])"
  by (auto simp: siblings_def inode_ok_def split: if_splits)

lemma siblings_separator:
  assumes "siblings t Bs V p C1 l r C2 A B"
  shows "map ((hk t)(l := Some s)) (C1 @ [l, r] @ C2) = map Some ((keys (nd t p))[length C1 := s]) @ [hk t p]"
  using assms sep_update [of "hk t" C1 l "r # C2" "keys (nd t p)" "hk t p" s]
  by (auto simp: siblings_def)

definition moved_keys :: "btree \<Rightarrow> btree \<Rightarrow> node_id \<Rightarrow> node_id \<Rightarrow> bool" where
  "moved_keys t t' u r \<longleftrightarrow> length (keys (nd t' u)) = Suc (length (keys (nd t u))) \<and>
     length (keys (nd t' r)) = length (keys (nd t r)) - 1 \<and>
     (\<forall>j. j \<noteq> u \<and> j \<noteq> r \<longrightarrow> length (keys (nd t' j)) = length (keys (nd t j)))"

theorem borrow_right_shape:
  assumes sh: "shape t (Bs @ V # U # Us)" and p: "p \<in> set U" and C: "children (nd t p) = C1 @ l # r # C2"
    and kr: "keys (nd t r) \<noteq> []"
  defines "t' \<equiv> borrow_from_right t p (length C1)"
  shows "shape t' (Bs @ V # U # Us) \<and> entries t' (hd (Bs @ [V])) = entries t (hd (Bs @ [V])) \<and>
    same_limits t t' \<and> root t' = root t \<and> moved_keys t t' l r"
proof -
  obtain A B where S: "siblings t Bs V p C1 l r C2 A B" using siblingsI [OF sh p C] by blast
  note lf = siblings_leaf [OF S]
  note R = borrow_right_nd [OF S conjunct1 [OF lf], folded t'_def]
  obtain s ks where ks: "keys (nd t r) = s # ks" using kr by (cases "keys (nd t r)") auto
  have S': "V = A @ [l, r] @ B" "p \<noteq> l" "p \<noteq> r" "l \<noteq> r" "right_link (nd t l) = Some r"
    "hk t l = Some (keys (nd t p) ! length C1)" "length C1 < length (keys (nd t p))"
    using S by (simp_all add: siblings_def)
  have s: "hd (keys (nd t r)) = s" using ks by simp
  have hk': "hk t' j = ((hk t)(l := Some s)) j" for j
  proof (cases "j \<in> {p, l, r}")
    case True
    then show ?thesis using R(4-6) S' s by auto
  next
    case False
    then show ?thesis using R(7) [OF False] by simp
  qed
  have sep: "map (hk t') (C1 @ [l, r] @ C2) = map Some (keys (nd t' p)) @ [hk t p]"
    using siblings_separator [OF S, of s] R(4) s hk' by (simp cong: map_cong)
  have low: "if Bs = [] then leaves_ok t' (lo_at t A) [l, r] \<and> entries t' [l, r] = entries t [l, r]
      else (\<forall>x \<in> set [l, r]. inode_ok t' (hk t') x) \<and> known t' [l, r] = known t [l, r]"
  proof (cases "Bs = []")
    case True
    then have "leaves_ok t (lo_at t A) [l, r]" by (rule siblings_low [OF S])
    then obtain lw where lw: "lo_at t A = lw" and lo: "leaves_ok t lw [l, r]" by blast
    then obtain v vs where vs: "vals (nd t r) = v # vs" using ks by (cases "vals (nd t r)") auto
    obtain h where h: "hk t l = Some h" using S' by simp
    have sb: "h \<le> s" "\<forall>k \<in> set ks. s \<le> k" using lo ks h by auto
    have kl: "\<forall>k \<in> set (keys (nd t l)). k \<le> s" using lo h sb(1) by auto
    moreover have "lo_ok (lw) s" using lo h sb(1) by (cases "lw") auto
    moreover have "lo_le (lw) (Some s)" using lo h sb(1) by (cases "lw") auto
    moreover have "lo_le (Some s) (hk t r)" using lo ks by (cases "hk t r") auto
    ultimately show ?thesis
      unfolding lw using True lo R(5,6) S' ks vs sb(2)
      by (auto simp: sorted_append leaf_entries_def)
  next
    case False
    then have il: "inode_ok t (hk t) l" "inode_ok t (hk t) r" and dc: "distinct (children (nd t l) @ children (nd t r))"
      and sub: "set (children (nd t l) @ children (nd t r)) \<subseteq> {..<length (nodes t)} - {p, l, r}"
      using siblings_low(2) [OF S] by blast+
    obtain m cs where cs: "children (nd t r) = m # cs" using il(2) by (cases "children (nd t r)") (auto simp: inode_ok_def)
    have "map (hk t) (m # cs) = Some s # map Some ks @ [hk t r]" using il(2) ks cs by (simp add: inode_ok_def)
    then have m: "hk t m = Some s" "map (hk t) cs = map Some ks @ [hk t r]" by simp_all
    have hc: "map (hk t') xs = map (hk t) xs" if "l \<notin> set xs" for xs using that hk' by auto
    have lc: "l \<notin> set (children (nd t l) @ children (nd t r))" using sub by auto
    have hint: "parent_hint (nd t' c) = (if c = m then Some l else parent_hint (nd t c))"
      if "c \<in> set (children (nd t l) @ children (nd t r))" for c
    proof -
      have "c \<notin> {p, l, r}" using that sub by blast
      then show ?thesis using R(7) [of c] False cs by simp
    qed
    have lc': "l \<notin> set (children (nd t l) @ [m])" "l \<notin> set cs" using lc cs by auto
    have "inode_ok t' (hk t') l"
      using il(1) R(5) False cs ks hc [OF lc'(1)] m hint dc hk' [of l] S' s
      by (auto simp: inode_ok_def)
    moreover have "inode_ok t' (hk t') r"
      using il(2) R(6) False cs ks hc [OF lc'(2)] m hint dc hk' [of r] S' s
      by (auto simp: inode_ok_def)
    ultimately show ?thesis using False R(5,6) cs by simp
  qed
  have "shape t' (Bs @ (A @ [l, r] @ B) # U # Us) \<and>
      entries t' (hd (Bs @ [A @ [l, r] @ B])) = entries t (hd (Bs @ [V]))"
  proof (rule replace_segment [where M = "[l, r]" and p = p and ?C1.0 = C1 and ?C2.0 = C2])
    show "same_inner t t' [j] \<and> vals (nd t' j) = vals (nd t j)"
      if "j < length (nodes t)" "j \<notin> set [l, r]" "j \<noteq> p" for j
      using R(7) [of j] that by auto
    show "right_link (nd t' j) = right_link (nd t j)" if "j < length (nodes t)" "j \<notin> set [l, r]" for j
      using R(4) R(7) [of j] that by (cases "j = p") auto
    show "parent_hint (nd t' j) = parent_hint (nd t j)"
      if "j < length (nodes t)" "Bs = [] \<or> j \<notin> set (known t [l, r])" for j
    proof (cases "j \<in> {p, l, r}")
      case True
      then show ?thesis using R(4-6) by auto
    next
      case False
      have "hd (children (nd t r)) \<in> set (known t [l, r])" if "Bs \<noteq> []"
        using S that by (auto simp: siblings_def inode_ok_def)
      then show ?thesis using R(7) [OF False] that by auto
    qed
    show "linked t' [l, r] (right_link (nd t (last [l, r])))"
      using R(5,6) S' by simp
    show "map (hk t') (C1 @ [l, r] @ C2) = map Some (keys (nd t' p)) @ [hk t p]" by (rule sep)
    show "hk t' p = hk t p" "hk t' (last [l, r]) = hk t (last [l, r])" using hk' S' by simp_all
  qed (use sh S' p C low R(1,2,4) in simp_all)
  moreover have "length (keys (nd t' j)) = length (keys (nd t j))" if "j \<noteq> l" "j \<noteq> r" for j
    using R(4) R(7) [of j] that by (cases "j = p") auto
  ultimately show ?thesis using R(2,3,5,6) S' by (simp add: moved_keys_def)
qed

section \<open>Borrowing from the left\<close>

lemma borrow_left_nd:
  assumes S: "siblings t Bs V p C1 l r C2 A B"
  defines "t' \<equiv> borrow_from_left t p (Suc (length C1))"
  defines "s \<equiv> (if Bs = [] then last (butlast (keys (nd t l))) else last (keys (nd t l)))"
  shows "length (nodes t') = length (nodes t)" "root t' = root t" "same_limits t t'"
    "nd t' p = (nd t p)\<lparr>keys := (keys (nd t p))[length C1 := s]\<rparr>"
    "nd t' l = (if Bs = [] then (nd t l)\<lparr>keys := butlast (keys (nd t l)), vals := butlast (vals (nd t l)), high_key := Some s\<rparr>
      else (nd t l)\<lparr>keys := butlast (keys (nd t l)), children := butlast (children (nd t l)), high_key := Some s\<rparr>)"
    "nd t' r = (if Bs = [] then (nd t r)\<lparr>keys := last (keys (nd t l)) # keys (nd t r), vals := last (vals (nd t l)) # vals (nd t r)\<rparr>
      else (nd t r)\<lparr>keys := keys (nd t p) ! length C1 # keys (nd t r), children := last (children (nd t l)) # children (nd t r)\<rparr>)"
    "\<And>j. j \<notin> {p, l, r} \<Longrightarrow> nd t' j = (if Bs \<noteq> [] \<and> j = last (children (nd t l)) then (nd t j)\<lparr>parent_hint := Some r\<rparr> else nd t j)"
proof -
  have C: "children (nd t p) ! Suc (length C1) = r" "children (nd t p) ! length C1 = l"
    using S by (simp_all add: siblings_def nth_append)
  have leaf: "is_leaf (nd t r) \<longleftrightarrow> Bs = []" using siblings_leaf [OF S] by blast
  have m: "last (children (nd t l)) \<notin> {p, l, r}" "last (children (nd t l)) < length (nodes t)" if "Bs \<noteq> []"
  proof -
    have "children (nd t l) \<noteq> []" and sub: "set (children (nd t l)) \<subseteq> {..<length (nodes t)} - {p, l, r}"
      using siblings_low(2) [OF S that] by (auto simp: inode_ok_def)
    then have "last (children (nd t l)) \<in> {..<length (nodes t)} - {p, l, r}" by (meson last_in_set subsetD)
    then show "last (children (nd t l)) \<notin> {p, l, r}" "last (children (nd t l)) < length (nodes t)" by auto
  qed
  have ne: "p \<noteq> l" "p \<noteq> r" "l \<noteq> r" "p < length (nodes t)" "l < length (nodes t)" "r < length (nodes t)"
    using S by (auto simp: siblings_def)
  show "length (nodes t') = length (nodes t)" "root t' = root t" "same_limits t t'"
    by (simp_all add: t'_def borrow_from_left_def Let_def same_limits_def)
  show "nd t' p = (nd t p)\<lparr>keys := (keys (nd t p))[length C1 := s]\<rparr>"
    using ne m leaf C unfolding t'_def s_def
    by (cases "Bs = []") (simp_all add: borrow_from_left_def Let_def nd_upd_node)
  show "nd t' l = (if Bs = [] then (nd t l)\<lparr>keys := butlast (keys (nd t l)), vals := butlast (vals (nd t l)), high_key := Some s\<rparr>
      else (nd t l)\<lparr>keys := butlast (keys (nd t l)), children := butlast (children (nd t l)), high_key := Some s\<rparr>)"
    using ne m leaf C unfolding t'_def s_def
    by (cases "Bs = []") (simp_all add: borrow_from_left_def Let_def nd_upd_node)
  show "nd t' r = (if Bs = [] then (nd t r)\<lparr>keys := last (keys (nd t l)) # keys (nd t r), vals := last (vals (nd t l)) # vals (nd t r)\<rparr>
      else (nd t r)\<lparr>keys := keys (nd t p) ! length C1 # keys (nd t r), children := last (children (nd t l)) # children (nd t r)\<rparr>)"
    using ne m leaf C unfolding t'_def s_def
    by (cases "Bs = []") (simp_all add: borrow_from_left_def Let_def nd_upd_node)
  fix j assume "j \<notin> {p, l, r}"
  then show "nd t' j = (if Bs \<noteq> [] \<and> j = last (children (nd t l)) then (nd t j)\<lparr>parent_hint := Some r\<rparr> else nd t j)"
    using ne m leaf C unfolding t'_def s_def
    by (cases "Bs = []") (simp_all add: borrow_from_left_def Let_def nd_upd_node)
qed

theorem borrow_left_shape:
  assumes sh: "shape t (Bs @ V # U # Us)" and p: "p \<in> set U" and C: "children (nd t p) = C1 @ l # r # C2"
    and kl: "2 \<le> length (keys (nd t l))"
  defines "t' \<equiv> borrow_from_left t p (Suc (length C1))"
  shows "shape t' (Bs @ V # U # Us) \<and> entries t' (hd (Bs @ [V])) = entries t (hd (Bs @ [V])) \<and>
    same_limits t t' \<and> root t' = root t \<and> moved_keys t t' r l"
proof -
  obtain A B where S: "siblings t Bs V p C1 l r C2 A B" using siblingsI [OF sh p C] by blast
  note R = borrow_left_nd [OF S, folded t'_def]
  define s where "s = (if Bs = [] then last (butlast (keys (nd t l))) else last (keys (nd t l)))"
  note R = R [folded s_def]
  have S': "V = A @ [l, r] @ B" "p \<noteq> l" "p \<noteq> r" "l \<noteq> r" "right_link (nd t l) = Some r"
    "hk t l = Some (keys (nd t p) ! length C1)" "length C1 < length (keys (nd t p))"
    using S by (simp_all add: siblings_def)
  have hk': "hk t' j = ((hk t)(l := Some s)) j" for j
  proof (cases "j \<in> {p, l, r}")
    case True
    then show ?thesis using R(4-6) S' by auto
  next
    case False
    then show ?thesis using R(7) [OF False] by simp
  qed
  have sep: "map (hk t') (C1 @ [l, r] @ C2) = map Some (keys (nd t' p)) @ [hk t p]"
    using siblings_separator [OF S, of s] R(4) hk' by (simp cong: map_cong)
  have low: "if Bs = [] then leaves_ok t' (lo_at t A) [l, r] \<and> entries t' [l, r] = entries t [l, r]
      else (\<forall>x \<in> set [l, r]. inode_ok t' (hk t') x) \<and> known t' [l, r] = known t [l, r]"
  proof (cases "Bs = []")
    case True
    then have "leaves_ok t (lo_at t A) [l, r]" by (rule siblings_low [OF S])
    then obtain lw where lw: "lo_at t A = lw" and lo: "leaves_ok t lw [l, r]" by blast
    obtain ks b where ks: "keys (nd t l) = ks @ [b]" using kl by (cases "keys (nd t l)" rule: rev_cases) auto
    obtain vs v where vs: "vals (nd t l) = vs @ [v]" using ks lo by (cases "vals (nd t l)" rule: rev_cases) auto
    have kne: "ks \<noteq> []" using kl ks by auto
    have s: "s = last ks" using True ks by (simp add: s_def)
    obtain h where h: "hk t l = Some h" using S' by simp
    have so: "sorted ks" "\<forall>k \<in> set ks. k \<le> b" using lo ks by (auto simp: sorted_append)
    then have sk: "\<forall>k \<in> set ks. k \<le> s" "s \<in> set ks" "s \<le> b" using sorted_last_max s kne by auto
    have bh: "b \<le> h" using lo h ks by simp
    have br: "\<forall>k \<in> set (keys (nd t r)). b \<le> k" using lo h bh by (auto intro: order_trans)
    have "hi_ok (hk t r) b" "ole (Some s) (hk t r)"
      using lo h bh sk(3) by (cases "hk t r"; auto intro: order_trans)+
    moreover have "lo_le lw (Some s)" using lo ks sk(2) by (cases lw) auto
    moreover have "\<forall>k \<in> set (keys (nd t r)). s \<le> k" using br sk(3) by (auto intro: order_trans)
    ultimately show ?thesis
      unfolding lw using True lo R(5,6) S' ks vs so sk br
      by (auto simp: sorted_append leaf_entries_def)
  next
    case False
    then have il: "inode_ok t (hk t) l" "inode_ok t (hk t) r" and dc: "distinct (children (nd t l) @ children (nd t r))"
      and sub: "set (children (nd t l) @ children (nd t r)) \<subseteq> {..<length (nodes t)} - {p, l, r}"
      using siblings_low(2) [OF S] by blast+
    obtain cs m where cs: "children (nd t l) = cs @ [m]" using il(1) by (cases "children (nd t l)" rule: rev_cases) (auto simp: inode_ok_def)
    obtain ks where ks: "keys (nd t l) = ks @ [s]"
      using False kl unfolding s_def by (cases "keys (nd t l)" rule: rev_cases) auto
    have "map (hk t) (cs @ [m]) = (map Some ks @ [Some s]) @ [hk t l]" using il(1) ks cs by (simp add: inode_ok_def)
    then have m: "hk t m = hk t l" "map (hk t) cs = map Some ks @ [Some s]" by simp_all
    have hc: "map (hk t') xs = map (hk t) xs" if "l \<notin> set xs" for xs using that hk' by auto
    have lc: "l \<notin> set (children (nd t l) @ children (nd t r))" using sub by auto
    have hint: "parent_hint (nd t' c) = (if c = m then Some r else parent_hint (nd t c))"
      if "c \<in> set (children (nd t l) @ children (nd t r))" for c
    proof -
      have "c \<notin> {p, l, r}" using that sub by blast
      then show ?thesis using R(7) [of c] False cs by simp
    qed
    have lc': "l \<notin> set (m # children (nd t r))" "l \<notin> set cs" using lc cs by auto
    have "cs \<noteq> []" using m(2) by auto
    then have "inode_ok t' (hk t') l"
      using il(1) R(5) False cs ks hc [OF lc'(2)] m hint dc hk' [of l] S'
      by (auto simp: inode_ok_def)
    moreover have "inode_ok t' (hk t') r"
      using il(2) R(6) False cs ks hc [OF lc'(1)] m hint dc hk' [of r] S'
      by (auto simp: inode_ok_def)
    ultimately show ?thesis using False R(5,6) cs by simp
  qed
  have "shape t' (Bs @ (A @ [l, r] @ B) # U # Us) \<and>
      entries t' (hd (Bs @ [A @ [l, r] @ B])) = entries t (hd (Bs @ [V]))"
  proof (rule replace_segment [where M = "[l, r]" and p = p and ?C1.0 = C1 and ?C2.0 = C2])
    show "same_inner t t' [j] \<and> vals (nd t' j) = vals (nd t j)"
      if "j < length (nodes t)" "j \<notin> set [l, r]" "j \<noteq> p" for j
      using R(7) [of j] that by auto
    show "right_link (nd t' j) = right_link (nd t j)" if "j < length (nodes t)" "j \<notin> set [l, r]" for j
      using R(4) R(7) [of j] that by (cases "j = p") auto
    show "parent_hint (nd t' j) = parent_hint (nd t j)"
      if "j < length (nodes t)" "Bs = [] \<or> j \<notin> set (known t [l, r])" for j
    proof (cases "j \<in> {p, l, r}")
      case True
      then show ?thesis using R(4-6) by auto
    next
      case False
      have "last (children (nd t l)) \<in> set (known t [l, r])" if "Bs \<noteq> []"
        using siblings_low(2) [OF S that] by (auto simp: inode_ok_def)
      then show ?thesis using R(7) [OF False] that by auto
    qed
    show "linked t' [l, r] (right_link (nd t (last [l, r])))"
      using R(5,6) S' by simp
    show "map (hk t') (C1 @ [l, r] @ C2) = map Some (keys (nd t' p)) @ [hk t p]" by (rule sep)
    show "hk t' p = hk t p" "hk t' (last [l, r]) = hk t (last [l, r])" using hk' S' by simp_all
  qed (use sh S' p C low R(1,2,4) in simp_all)
  moreover have "length (keys (nd t' j)) = length (keys (nd t j))" if "j \<noteq> l" "j \<noteq> r" for j
    using R(4) R(7) [of j] that by (cases "j = p") auto
  ultimately show ?thesis using R(2,3,5,6) S' by (simp add: moved_keys_def)
qed

section \<open>Merging\<close>

lemma merge_nd:
  assumes S: "siblings t Bs V p C1 l r C2 A B"
  defines "t' \<equiv> merge_with_right t p (length C1)"
  shows "length (nodes t') = length (nodes t)" "root t' = root t" "same_limits t t'"
    "nd t' p = (nd t p)\<lparr>keys := erase_at (length C1) (keys (nd t p)), children := C1 @ [l] @ C2\<rparr>"
    "nd t' l = (if Bs = [] then (nd t l)\<lparr>keys := keys (nd t l) @ keys (nd t r), vals := vals (nd t l) @ vals (nd t r),
        right_link := right_link (nd t r), high_key := hk t r\<rparr>
      else (nd t l)\<lparr>keys := keys (nd t l) @ [keys (nd t p) ! length C1] @ keys (nd t r),
        children := children (nd t l) @ children (nd t r), right_link := right_link (nd t r), high_key := hk t r\<rparr>)"
    "\<And>j. j \<notin> {p, l} \<Longrightarrow> nd t' j = (if Bs \<noteq> [] \<and> j \<in> set (children (nd t r)) then (nd t j)\<lparr>parent_hint := Some l\<rparr> else nd t j)"
proof -
  have C: "children (nd t p) ! (length C1 + 1) = r" "children (nd t p) ! length C1 = l"
    "erase_at (length C1 + 1) (children (nd t p)) = C1 @ [l] @ C2"
    using S by (simp_all add: siblings_def nth_append erase_at_def)
  have leaf: "is_leaf (nd t l) \<longleftrightarrow> Bs = []" using siblings_leaf [OF S] by blast
  have m: "p \<notin> set (children (nd t r))" "l \<notin> set (children (nd t r))"
      "\<forall>c \<in> set (children (nd t r)). c < length (nodes t)" if "Bs \<noteq> []"
    using siblings_low(2) [OF S that] by auto
  have ne: "p \<noteq> l" "p < length (nodes t)" "l < length (nodes t)" using S by (auto simp: siblings_def)
  show "length (nodes t') = length (nodes t)" "root t' = root t" "same_limits t t'"
    by (simp_all add: t'_def merge_with_right_def Let_def same_limits_def)
  show "nd t' p = (nd t p)\<lparr>keys := erase_at (length C1) (keys (nd t p)), children := C1 @ [l] @ C2\<rparr>"
    using ne m leaf C unfolding t'_def
    by (cases "Bs = []") (simp_all add: merge_with_right_def Let_def nd_upd_node nd_set_hints)
  show "nd t' l = (if Bs = [] then (nd t l)\<lparr>keys := keys (nd t l) @ keys (nd t r), vals := vals (nd t l) @ vals (nd t r),
        right_link := right_link (nd t r), high_key := hk t r\<rparr>
      else (nd t l)\<lparr>keys := keys (nd t l) @ [keys (nd t p) ! length C1] @ keys (nd t r),
        children := children (nd t l) @ children (nd t r), right_link := right_link (nd t r), high_key := hk t r\<rparr>)"
    using ne m leaf C unfolding t'_def
    by (cases "Bs = []") (simp_all add: merge_with_right_def Let_def nd_upd_node nd_set_hints)
  fix j assume "j \<notin> {p, l}"
  then show "nd t' j = (if Bs \<noteq> [] \<and> j \<in> set (children (nd t r)) then (nd t j)\<lparr>parent_hint := Some l\<rparr> else nd t j)"
    using ne m leaf C unfolding t'_def
    by (cases "Bs = []") (auto simp add: merge_with_right_def Let_def nd_upd_node nd_set_hints)
qed

theorem merge_shape:
  assumes sh: "shape t (Bs @ V # U # Us)" and p: "p \<in> set U" and C: "children (nd t p) = C1 @ l # r # C2"
  defines "t' \<equiv> merge_with_right t p (length C1)"
  shows "\<exists>A B. V = A @ [l, r] @ B \<and> l \<noteq> r \<and> p \<noteq> l \<and> p \<noteq> r \<and> shape t' (Bs @ (A @ [l] @ B) # U # Us) \<and>
    entries t' (hd (Bs @ [A @ [l] @ B])) = entries t (hd (Bs @ [V])) \<and>
    same_limits t t' \<and> root t' = root t \<and>
    length (keys (nd t' l)) = length (keys (nd t l)) + length (keys (nd t r)) + (if Bs = [] then 0 else 1) \<and>
    Suc (length (keys (nd t' p))) = length (keys (nd t p)) \<and>
    (\<forall>j. j \<noteq> l \<and> j \<noteq> p \<longrightarrow> keys (nd t' j) = keys (nd t j) \<and> children (nd t' j) = children (nd t j))"
proof -
  obtain A B where S: "siblings t Bs V p C1 l r C2 A B" using siblingsI [OF sh p C] by blast
  note R = merge_nd [OF S, folded t'_def]
  have S': "V = A @ [l, r] @ B" "p \<noteq> l" "p \<noteq> r" "l \<noteq> r" "right_link (nd t l) = Some r"
    "hk t l = Some (keys (nd t p) ! length C1)" "length C1 < length (keys (nd t p))"
    "l \<notin> set C1" "l \<notin> set C2"
    "map (hk t) (C1 @ l # r # C2) = map Some (keys (nd t p)) @ [hk t p]"
    using S unfolding siblings_def by auto
  have hk': "hk t' j = ((hk t)(l := hk t r)) j" for j
  proof (cases "j \<in> {p, l}")
    case True
    then show ?thesis using R(4,5) S' by auto
  next
    case False
    then show ?thesis using R(6) [OF False] by simp
  qed
  have sep: "map (hk t') (C1 @ [l] @ C2) = map Some (keys (nd t' p)) @ [hk t p]"
  proof -
    have "map (hk t') (C1 @ [l] @ C2) = map (hk t) C1 @ hk t r # map (hk t) C2" using hk' S'(8,9) by auto
    also have "\<dots> = erase_at (length C1) (map (hk t) (C1 @ l # r # C2))" by (simp add: erase_at_def)
    also have "\<dots> = map Some (erase_at (length C1) (keys (nd t p))) @ [hk t p]"
      unfolding S'(10) using S'(7) by (simp add: erase_at_def map_erase_at take_map drop_map)
    finally show ?thesis by (simp add: R(4))
  qed
  have low: "if Bs = [] then leaves_ok t' (lo_at t A) [l] \<and> entries t' [l] = entries t [l, r]
      else (\<forall>x \<in> set [l]. inode_ok t' (hk t') x) \<and> known t' [l] = known t [l, r]"
  proof (cases "Bs = []")
    case True
    then have "leaves_ok t (lo_at t A) [l, r]" by (rule siblings_low [OF S])
    then obtain lw where lw: "lo_at t A = lw" and lo: "leaves_ok t lw [l, r]" by blast
    obtain h where h: "hk t l = Some h" using S' by simp
    have b: "\<forall>k \<in> set (keys (nd t l)). k \<le> h" "\<forall>k \<in> set (keys (nd t r)). h \<le> k" "ole (Some h) (hk t r)"
      using lo h by auto
    then have "\<forall>k \<in> set (keys (nd t l)). hi_ok (hk t r) k" by (cases "hk t r") (auto intro: order_trans)
    moreover have "\<forall>k \<in> set (keys (nd t r)). lo_ok lw k" using lo h b(2) by (cases lw) (auto intro: order_trans)
    moreover have "lo_le lw (hk t r)" using lo h b(3) by (cases lw; cases "hk t r") (auto intro: order_trans)
    ultimately show ?thesis
      unfolding lw using True lo R(5) b by (auto simp: sorted_append leaf_entries_def intro: order_trans)
  next
    case False
    then have il: "inode_ok t (hk t) l" "inode_ok t (hk t) r"
      and sub: "set (children (nd t l) @ children (nd t r)) \<subseteq> {..<length (nodes t)} - {p, l, r}"
      and dc: "distinct (children (nd t l) @ children (nd t r))"
      using siblings_low(2) [OF S] by blast+
    have "l \<notin> set (children (nd t l) @ children (nd t r))" using sub by auto
    then have hc: "map (hk t') (children (nd t l) @ children (nd t r)) = map (hk t) (children (nd t l) @ children (nd t r))"
      using hk' by auto
    have hint: "parent_hint (nd t' c) = Some l" if "c \<in> set (children (nd t l) @ children (nd t r))" for c
    proof -
      have "c \<notin> {p, l}" using that sub by blast
      then show ?thesis using R(6) [of c] False that il(1) by (auto simp: inode_ok_def)
    qed
    have "inode_ok t' (hk t') l"
      using il R(5) False hc hint hk' [of l] S' by (auto simp: inode_ok_def)
    then show ?thesis using False R(5) by simp
  qed
  have "shape t' (Bs @ (A @ [l] @ B) # U # Us) \<and>
      entries t' (hd (Bs @ [A @ [l] @ B])) = entries t (hd (Bs @ [V]))"
  proof (rule replace_segment [where M = "[l, r]" and p = p and ?C1.0 = C1 and ?C2.0 = C2])
    show "same_inner t t' [j] \<and> vals (nd t' j) = vals (nd t j)"
      if "j < length (nodes t)" "j \<notin> set [l, r]" "j \<noteq> p" for j
      using R(6) [of j] that by auto
    show "right_link (nd t' j) = right_link (nd t j)" if "j < length (nodes t)" "j \<notin> set [l, r]" for j
      using R(4) R(6) [of j] that by (cases "j = p") auto
    show "parent_hint (nd t' j) = parent_hint (nd t j)"
      if "j < length (nodes t)" "Bs = [] \<or> j \<notin> set (known t [l, r])" for j
    proof (cases "j \<in> {p, l}")
      case True
      then show ?thesis using R(4,5) by auto
    next
      case False
      then show ?thesis using R(6) [OF False] that by auto
    qed
    show "linked t' [l] (right_link (nd t (last [l, r])))" using R(5) S' by simp
    show "map (hk t') (C1 @ [l] @ C2) = map Some (keys (nd t' p)) @ [hk t p]" by (rule sep)
    show "hk t' p = hk t p" "hk t' (last [l]) = hk t (last [l, r])" using hk' S' by simp_all
  qed (use sh S' p C low R(1,2,4) in simp_all)
  moreover have "keys (nd t' j) = keys (nd t j) \<and> children (nd t' j) = children (nd t j)" if "j \<noteq> l" "j \<noteq> p" for j
    using R(6) [of j] that by auto
  moreover have "Suc (length (keys (nd t' p))) = length (keys (nd t p))"
    using R(4) S'(7) by (simp add: erase_at_length)
  ultimately show ?thesis using R(2,3,5) S' by (intro exI [of _ A] exI [of _ B]) simp
qed

end
