(* ===== verification/BPlus_Remove.thy ===== *)
theory BPlus_Remove
  imports BPlus_Siblings
begin

text \<open>
  Removal takes out exactly the named pair and keeps the shape of the tree: the loop that
  rebalances up the path of ancestors, the walk to the leaf that holds the pair, and the
  erasure.
\<close>

section \<open>The rebalancing loop\<close>

fun ispath :: "btree \<Rightarrow> node_id \<Rightarrow> node_id list list \<Rightarrow> node_id list \<Rightarrow> bool" where
  "ispath t c [] path = (path = [] \<and> c = root t)"
| "ispath t c (U # Us) path = (\<exists>p ps. path = p # ps \<and> p \<in> set U \<and> c \<in> set (children (nd t p)) \<and> ispath t p Us ps)"

lemma ispath_cong:
  "\<forall>x \<in> set (concat Us). children (nd t' x) = children (nd t x) \<Longrightarrow> root t' = root t \<Longrightarrow>
     ispath t c Us path \<Longrightarrow> ispath t' c Us path"
  by (induction Us arbitrary: c path) auto

definition filled :: "btree \<Rightarrow> node_id list list \<Rightarrow> bool" where
  "filled t Ls \<longleftrightarrow> shape t Ls \<and> fits t {} (concat Ls) \<and> half t (concat (butlast Ls)) \<and>
     (tl Ls \<noteq> [] \<longrightarrow> keys (nd t (root t)) \<noteq> [])"

text \<open>The state of the loop: the node \<open>u\<close> of the level \<open>V\<close> may have lost one key too many.\<close>

definition lacking :: "btree \<Rightarrow> node_id list list \<Rightarrow> node_id list \<Rightarrow> node_id list list \<Rightarrow> node_id \<Rightarrow> node_id list \<Rightarrow> bool" where
  "lacking t Bs V Us u path \<longleftrightarrow> shape t (Bs @ V # Us) \<and> u \<in> set V \<and> ispath t u Us path \<and>
     fits t {} (concat (Bs @ V # Us)) \<and> half t (concat Bs) \<and> 2 \<le> node_capacity t \<and>
     (Us \<noteq> [] \<longrightarrow> half t (filter (\<lambda>x. x \<noteq> u) V) \<and> half t (concat (butlast Us)) \<and>
        keys (nd t (root t)) \<noteq> [] \<and> node_capacity t div 2 \<le> Suc (length (keys (nd t u))))"

definition rebalanced :: "btree \<Rightarrow> node_id list list \<Rightarrow> node_id list \<Rightarrow> btree option \<Rightarrow> bool" where
  "rebalanced t Bs V r \<longleftrightarrow> (\<exists>t' Ls'. r = Some t' \<and> filled t' Ls' \<and> same_limits t t' \<and>
     entries t' (hd Ls') = entries t (hd (Bs @ [V])))"

lemma lacking_half:
  assumes "lacking t Bs V Us u path" and "Us \<noteq> []" and "node_capacity t div 2 \<le> length (keys (nd t u))"
  shows "filled t (Bs @ V # Us)"
proof -
  have "half t V" using assms by (auto simp: lacking_def half_def)
  then show ?thesis using assms(1,2) by (auto simp: lacking_def filled_def butlast_append)
qed

text \<open>A redistribution between \<open>u\<close> and a sibling with keys to spare ends the loop.\<close>

lemma moved_filled:
  assumes L: "lacking t Bs V Us u path" and U: "Us \<noteq> []" and short: "length (keys (nd t u)) < node_capacity t div 2"
    and sh: "shape t' (Bs @ V # Us)" and sl: "same_limits t t'" and rt: "root t' = root t"
    and mv: "moved_keys t t' u s" and spare: "node_capacity t div 2 < length (keys (nd t s))"
    and fs: "length (keys (nd t s)) \<le> node_capacity t" and us: "u \<noteq> s"
  shows "filled t' (Bs @ V # Us)"
proof -
  have c: "node_capacity t' = node_capacity t" using sl by (simp add: same_limits_def)
  have k: "length (keys (nd t' j)) \<le> node_capacity t" if "length (keys (nd t j)) \<le> node_capacity t" for j
    using that mv short fs unfolding moved_keys_def by (cases "j = u"; cases "j = s") auto
  have h: "node_capacity t div 2 \<le> length (keys (nd t' j))"
    if "node_capacity t div 2 \<le> length (keys (nd t j)) \<or> j = u" for j
    using that mv spare L U us unfolding moved_keys_def lacking_def by (cases "j = u"; cases "j = s") auto
  have "fits t' {} (concat (Bs @ V # Us))"
    using L k unfolding lacking_def fits_def c by blast
  moreover have "half t' (concat Bs)" "half t' V" "half t' (concat (butlast Us))"
    using L U h unfolding lacking_def half_def c by auto
  moreover have "keys (nd t' (root t)) \<noteq> []"
  proof (cases "root t = s")
    case True
    then show ?thesis using mv spare L us by (auto simp: moved_keys_def lacking_def)
  next
    case False
    then show ?thesis using mv L U unfolding moved_keys_def lacking_def
      by (cases "root t = u") (metis list.size(3) length_0_conv nat.distinct(1), metis length_0_conv)
  qed
  ultimately show ?thesis using sh U rt by (simp add: filled_def butlast_append)
qed

text \<open>A merge moves the lack up to the parent.\<close>

lemma merge_lacking:
  assumes L: "lacking t Bs V (U # Us) u (p # ps)" and short: "length (keys (nd t u)) < node_capacity t div 2"
    and C: "children (nd t p) = C1 @ l # r # C2" and u: "u = l \<and> s = r \<or> u = r \<and> s = l"
    and full: "length (keys (nd t s)) \<le> node_capacity t div 2"
  defines "t' \<equiv> merge_with_right t p (length C1)"
  shows "\<exists>V'. lacking t' (Bs @ [V']) U Us p ps \<and> same_limits t t' \<and>
    entries t' (hd (Bs @ [V'])) = entries t (hd (Bs @ [V]))"
proof -
  let ?c = "node_capacity t"
  have sh: "shape t (Bs @ V # U # Us)" and p: "p \<in> set U" and path: "ispath t p Us ps"
    using L by (auto simp: lacking_def)
  obtain A B where M: "V = A @ [l, r] @ B" "l \<noteq> r" "p \<noteq> l" "p \<noteq> r" "shape t' (Bs @ (A @ [l] @ B) # U # Us)"
    "entries t' (hd (Bs @ [A @ [l] @ B])) = entries t (hd (Bs @ [V]))" "same_limits t t'" "root t' = root t"
    "length (keys (nd t' l)) = length (keys (nd t l)) + length (keys (nd t r)) + (if Bs = [] then 0 else 1)"
    "Suc (length (keys (nd t' p))) = length (keys (nd t p))"
    "\<forall>j. j \<noteq> l \<and> j \<noteq> p \<longrightarrow> keys (nd t' j) = keys (nd t j) \<and> children (nd t' j) = children (nd t j)"
    using merge_shape [OF sh p C, folded t'_def] by blast
  let ?V' = "A @ [l] @ B"
  have c: "node_capacity t' = ?c" using M(7) by (simp add: same_limits_def)
  have ds: "distinct (concat Bs @ V @ U @ concat Us)" using sh by (auto simp: shape_def base_def)
  have dl: "l \<notin> set A" "l \<notin> set B" "r \<notin> set A" "r \<notin> set B" using ds M(1) by auto
  have up: "l \<notin> set (concat Bs @ U @ concat Us)" "p \<notin> set (concat Bs @ V @ concat Us)"
  proof -
    have "set V \<inter> set (concat Bs @ U @ concat Us) = {}" "set U \<inter> set (concat Bs @ V @ concat Us) = {}"
      using ds by (auto simp del: set_concat)
    then show "l \<notin> set (concat Bs @ U @ concat Us)" "p \<notin> set (concat Bs @ V @ concat Us)"
      using M(1) p by auto
  qed
  have keep: "keys (nd t' j) = keys (nd t j)" if "j \<in> set (concat Bs @ A @ B @ concat Us) \<or> j \<in> set U \<and> j \<noteq> p" for j
  proof -
    have "j \<noteq> l \<and> j \<noteq> p" using that up dl M(1) by auto
    then show ?thesis using M(11) by blast
  qed
  have F: "fits t' {} W = fits t {} W" "half t' W = half t W" if "set W \<subseteq> set (concat Bs @ A @ B @ concat Us)" for W
    using that keep c by (auto intro!: fill_cong)
  have Lf: "fits t {} (concat Bs)" "fits t {} A" "fits t {} B" "fits t {} U" "fits t {} (concat Us)" "half t (concat Bs)"
    using L M(1) by (simp_all add: lacking_def)
  have Lh: "half t (filter (\<lambda>x. x \<noteq> u) V)" "Us \<noteq> [] \<Longrightarrow> half t U" "Us \<noteq> [] \<Longrightarrow> half t (concat (butlast Us))"
    "keys (nd t (root t)) \<noteq> []" "2 \<le> ?c"
    using L by (auto simp: lacking_def)
  have hAB: "half t A" "half t B" "?c div 2 \<le> length (keys (nd t s))"
    using Lh(1) M(1,2) u dl by (auto simp: half_def)
  have ll: "?c div 2 \<le> length (keys (nd t' l))" "length (keys (nd t' l)) \<le> ?c"
    using M(9) u short full hAB(3) Lh(5) by auto
  have fU: "fits t' {} U" using Lf(4) keep M(10) c unfolding fits_def by (metis Suc_leD empty_iff)
  have "fits t' {} (concat ((Bs @ [?V']) @ U # Us))"
    using F(1) [of "concat Bs"] F(1) [of A] F(1) [of B] F(1) [of "concat Us"] Lf ll(2) fU c by auto
  moreover have "half t' (concat (Bs @ [?V']))"
    using F(2) [of "concat Bs"] F(2) [of A] F(2) [of B] Lf(6) hAB ll(1) c by auto
  moreover have "ispath t' p Us ps"
  proof (rule ispath_cong [OF _ M(8) path])
    show "\<forall>x \<in> set (concat Us). children (nd t' x) = children (nd t x)"
    proof
      fix x assume "x \<in> set (concat Us)"
      then have "x \<noteq> l \<and> x \<noteq> p" using up by auto
      then show "children (nd t' x) = children (nd t x)" using M(11) by blast
    qed
  qed
  moreover have "half t' (filter (\<lambda>x. x \<noteq> p) U) \<and> half t' (concat (butlast Us)) \<and> keys (nd t' (root t')) \<noteq> [] \<and>
      node_capacity t' div 2 \<le> Suc (length (keys (nd t' p)))" if "Us \<noteq> []"
  proof (intro conjI)
    show "half t' (filter (\<lambda>x. x \<noteq> p) U)" using Lh(2) [OF that] keep c by (simp add: half_def)
    show "half t' (concat (butlast Us))"
      using F(2) [of "concat (butlast Us)"] Lh(3) [OF that] in_concat_butlast [of _ Us] by auto
    have "root t \<in> set (last Us)" using sh that by (simp add: shape_def top_ok_def)
    then have "root t \<in> set (concat Us)" using that by (auto intro!: bexI [of _ "last Us"])
    then have "keys (nd t' (root t)) = keys (nd t (root t))" using keep by auto
    then show "keys (nd t' (root t')) \<noteq> []" using Lh(4) M(8) by simp
    show "node_capacity t' div 2 \<le> Suc (length (keys (nd t' p)))"
      using Lh(2) [OF that] p M(10) c by (simp add: half_def)
  qed
  ultimately have "lacking t' (Bs @ [?V']) U Us p ps"
    using M(5) p Lh(5) c by (simp add: lacking_def)
  then show ?thesis using M(6,7) by blast
qed

text \<open>At the root: an internal root without keys hands over to its only child.\<close>

lemma collapse_filled:
  assumes L: "lacking t Bs V [] u []" 
  shows "rebalanced t Bs V (rebalance_after_erase t [] u)"
proof -
  have sh: "shape t (Bs @ [V])" and u: "u = root t" using L by (auto simp: lacking_def)
  then have V: "V = [root t]" by (simp add: shape_def top_ok_def)
  show ?thesis
  proof (cases "\<not> is_leaf (nd t u) \<and> keys (nd t u) = []")
    case False
    have "keys (nd t u) \<noteq> []" if "Bs \<noteq> []"
    proof -
      have "\<not> is_leaf (nd t u)"
        using sh that V u by (auto simp: shape_def successively_append_iff knows_def inode_ok_def)
      then show ?thesis using False by simp
    qed
    then have "filled t (Bs @ [V])" using L u V
      by (cases Bs) (auto simp: lacking_def filled_def butlast_append)
    then show ?thesis using False by (auto simp: rebalanced_def same_limits_def)
  next
    case True
    then obtain Bs0 D where Bs: "Bs = Bs0 @ [D]"
    proof (cases Bs rule: rev_cases)
      case Nil
      then have "is_leaf (nd t u)" using sh V u base_leaves [of t "[V]" u] by (simp add: shape_def)
      then show ?thesis using True by simp
    qed (use that in auto)
    have b: "base t (Bs @ [V])" and s: "successively (lnk t) Bs" and k: "lnk t D [u]"
      using sh Bs V u by (auto simp: shape_def successively_append_iff)
    have iu: "inode_ok t (hk t) u" and D: "D = children (nd t u)" using k by (simp_all add: knows_def)
    obtain c where c: "children (nd t u) = [c]" "hk t c = hk t u"
      using iu True by (cases "children (nd t u)") (auto simp: inode_ok_def)
    have "bounds (map (hk t) V)"
      using levels_bounds [of t "Bs @ [V]"] base_bounds [OF b] b sh by (auto simp: shape_def base_def)
    then have hc: "hk t c = None" using V u c(2) by (simp add: bounds_Cons)
    have "linked t [c] None" using b Bs D c by (simp add: base_def)
    then have rc: "right_link (nd t c) = None" by simp
    have cn: "c < length (nodes t)" using b Bs D c by (simp add: base_def)
    define t' where "t' = (upd_node c (\<lambda>n. n\<lparr>high_key := None, right_link := None, parent_hint := None\<rparr>) t)\<lparr>root := c\<rparr>"
    have eq: "rebalance_after_erase t [] u = Some t'" using True c(1) by (simp add: t'_def Let_def)
    have n': "nd t' j = (if j = c then (nd t c)\<lparr>parent_hint := None\<rparr> else nd t j)" for j
      using cn hc rc by (simp add: t'_def nd_upd_node)
    have f': "length (nodes t') = length (nodes t)" "root t' = c" "same_limits t t'"
      by (simp_all add: t'_def same_limits_def)
    have dc: "distinct (concat Bs0 @ [c])" using b Bs D c by (auto simp: base_def)
    have "base t Bs" using b Bs by (cases Bs0) (auto simp: base_def)
    then have "base t' Bs" by (rule base_cong) (auto simp: n' f')
    moreover have "successively (lnk t') Bs"
    proof (rule successively_lnk_cong [OF s])
      have "c \<notin> set (concat (butlast Bs))" using dc Bs by simp
      then show "\<forall>x \<in> set (concat (butlast Bs)). parent_hint (nd t' x) = parent_hint (nd t x)"
        by (auto simp: n' simp del: set_concat)
    qed (simp_all add: n' same_inner_def)
    ultimately have sh': "shape t' Bs" using Bs D c(1) f'(2) n' by (simp add: shape_def top_ok_def)
    have ff: "fits t' {} W = fits t {} W" "half t' W = half t W" for W
      using f'(3) by (auto simp: n' same_limits_def intro!: fill_cong)
    have "half t (concat Bs)" "2 \<le> node_capacity t" using L by (simp_all add: lacking_def)
    then have "keys (nd t c) \<noteq> []" using Bs D c(1) by auto
    then have "filled t' Bs"
      using L sh' Bs f'(2) n' ff by (simp add: filled_def lacking_def)
    moreover have "entries t' (hd Bs) = entries t (hd (Bs @ [V]))"
      using Bs by (cases Bs0) (auto simp: n' intro!: entries_cong)
    ultimately show ?thesis using eq f'(3) by (auto simp: rebalanced_def)
  qed
qed

theorem rebalance_filled:
  assumes "lacking t Bs V Us u path"
  shows "rebalanced t Bs V (rebalance_after_erase t path u)"
  using assms
proof (induction path arbitrary: t Bs V Us u)
  case Nil
  then have "Us = []" by (cases Us) (auto simp: lacking_def)
  then show ?case using Nil collapse_filled by simp
next
  case (Cons p ps)
  then obtain U Us' where Us: "Us = U # Us'" by (cases Us) (auto simp: lacking_def)
  note L = Cons.prems [unfolded Us]
  let ?m = "node_capacity t div 2"
  have sh: "shape t (Bs @ V # U # Us')" and p: "p \<in> set U" and uc: "u \<in> set (children (nd t p))"
    and uV: "u \<in> set V"
    using L by (auto simp: lacking_def)
  from uc obtain C1 C2 where C: "children (nd t p) = C1 @ u # C2" "u \<notin> set C1"
    by (meson split_list_first)
  have ci: "child_position (nd t p) u = length C1" using C by (simp add: child_position_def)
  have hl: "filled t (Bs @ V # U # Us') \<Longrightarrow> rebalanced t Bs V (Some t)"
    by (cases Bs) (auto simp: rebalanced_def same_limits_def)
  have fin: "rebalanced t Bs V (Some t')"
    if "filled t' (Bs @ V # U # Us')" "same_limits t t'" "entries t' (hd (Bs @ [V])) = entries t (hd (Bs @ [V]))" for t'
    using that by (cases Bs) (auto simp: rebalanced_def)
  have up: "rebalanced t Bs V (rebalance_after_erase t' ps p)"
    if "\<exists>V'. lacking t' (Bs @ [V']) U Us' p ps \<and> same_limits t t' \<and>
      entries t' (hd (Bs @ [V'])) = entries t (hd (Bs @ [V]))" for t'
  proof -
    from that obtain V' where V': "lacking t' (Bs @ [V']) U Us' p ps" "same_limits t t'"
      "entries t' (hd (Bs @ [V'])) = entries t (hd (Bs @ [V]))" by blast
    from Cons.IH [OF V'(1)] show ?thesis
      using V'(2,3) unfolding rebalanced_def by (cases Bs) (auto intro: same_limits_trans)
  qed
  have fitV: "length (keys (nd t x)) \<le> node_capacity t" if "x \<in> set V" for x
    using L that by (auto simp: lacking_def fits_def)
  have kp: "keys (nd t p) \<noteq> []"
  proof (cases "Us' = []")
    case True
    then have "p = root t" using L by (auto simp: lacking_def)
    then show ?thesis using L by (auto simp: lacking_def)
  next
    case False
    then have "?m \<le> length (keys (nd t p))" "2 \<le> node_capacity t" using L p by (auto simp: lacking_def half_def)
    then show ?thesis by auto
  qed
  have kU: "lnk t V U" using sh by (auto simp: shape_def successively_append_iff split: if_splits)
  then have lp: "length (children (nd t p)) = Suc (length (keys (nd t p)))" and cV: "set (children (nd t p)) \<subseteq> set V"
    using p inode_ok_lengths by (auto simp: knows_def known_def)
  show ?case
  proof (cases "?m \<le> length (keys (nd t u))")
    case True
    then show ?thesis using hl lacking_half [OF L] by simp
  next
    case False
    then have short: "length (keys (nd t u)) < ?m" by simp
    have len: "length (children (nd t p)) = Suc (length C1 + length C2)" using C by simp
    let ?cs = "children (nd t p)" and ?ci = "length C1"
    have eq: "rebalance_after_erase t (p # ps) u =
        (if C2 \<noteq> [] \<and> ?m < length (keys (nd t (?cs ! (?ci + 1)))) then Some (borrow_from_right t p ?ci)
         else if C1 \<noteq> [] \<and> ?m < length (keys (nd t (?cs ! (?ci - 1)))) then Some (borrow_from_left t p ?ci)
         else if C2 \<noteq> [] then rebalance_after_erase (merge_with_right t p ?ci) ps p
         else if C1 \<noteq> [] then rebalance_after_erase (merge_with_right t p (?ci - 1)) ps p else None)"
      using short len by (simp add: ci Let_def)
    have right: "?cs ! (?ci + 1) = r \<and> ?cs = C1 @ u # r # C2' \<and> r \<in> set V \<and> r \<noteq> u" if "C2 = r # C2'" for r C2'
    proof -
      have cs: "?cs = C1 @ u # r # C2'" using C that by simp
      then obtain A B where "siblings t Bs V p C1 u r C2' A B" using siblingsI [OF sh p] by blast
      then have "r \<noteq> u" by (auto simp: siblings_def)
      then show ?thesis using cs cV by (simp add: nth_append)
    qed
    have left: "?cs ! (?ci - 1) = l \<and> ?cs = C1' @ l # u # C2 \<and> l \<in> set V \<and> l \<noteq> u \<and> ?ci = Suc (length C1')"
      if "C1 = C1' @ [l]" for l C1'
      using C cV that by (auto simp: nth_append)
    have half_sib: "?m \<le> length (keys (nd t x))" if "x \<in> set V" "x \<noteq> u" for x
      using L that by (auto simp: lacking_def half_def)
    have kx: "2 \<le> length (keys (nd t x))" if "?m < length (keys (nd t x))" for x
      using that L by (auto simp: lacking_def)
    consider (br) r C2' where "C2 = r # C2'" "?m < length (keys (nd t r))"
      | (bl) l C1' where "C1 = C1' @ [l]" "?m < length (keys (nd t l))"
          "C2 = [] \<or> \<not> ?m < length (keys (nd t (?cs ! (?ci + 1))))"
      | (mr) r C2' where "C2 = r # C2'" "\<not> ?m < length (keys (nd t r))"
          "C1 = [] \<or> \<not> ?m < length (keys (nd t (?cs ! (?ci - 1))))"
      | (ml) l C1' where "C1 = C1' @ [l]" "\<not> ?m < length (keys (nd t l))" "C2 = []"
    proof -
      have "C1 \<noteq> [] \<or> C2 \<noteq> []" using len lp kp by auto
      then show ?thesis
        using that right left by (cases C2; cases C1 rule: rev_cases) (auto simp del: not_less)
    qed
    then show ?thesis
    proof cases
      case br
      note R = right [OF br(1)]
      have ne: "keys (nd t r) \<noteq> []" using br(2) by auto
      note S = borrow_right_shape [OF sh p conjunct1 [OF conjunct2 [OF R]] ne]
      have "filled (borrow_from_right t p ?ci) (Bs @ V # U # Us')"
        by (rule moved_filled [OF L _ short, of _ r]) (use S R br(2) fitV in auto)
      then have "rebalanced t Bs V (Some (borrow_from_right t p ?ci))" using fin S by blast
      moreover have "rebalance_after_erase t (p # ps) u = Some (borrow_from_right t p ?ci)"
        unfolding eq using br conjunct1 [OF R] by simp
      ultimately show ?thesis by simp
    next
      case bl
      note R = left [OF bl(1)]
      note S = borrow_left_shape [OF sh p conjunct1 [OF conjunct2 [OF R]] kx [OF bl(2)]]
      have ci': "Suc (length C1') = ?ci" using bl(1) by simp
      note S = S [unfolded ci']
      have "filled (borrow_from_left t p ?ci) (Bs @ V # U # Us')"
        by (rule moved_filled [OF L _ short, of _ l]) (use S R bl(2) fitV in auto)
      then have "rebalanced t Bs V (Some (borrow_from_left t p ?ci))" using fin S by blast
      moreover have "rebalance_after_erase t (p # ps) u = Some (borrow_from_left t p ?ci)"
        unfolding eq using bl conjunct1 [OF R] by auto
      ultimately show ?thesis by simp
    next
      case mr
      note R = right [OF mr(1)]
      have "rebalanced t Bs V (rebalance_after_erase (merge_with_right t p ?ci) ps p)"
        by (rule up) (rule merge_lacking [OF L short conjunct1 [OF conjunct2 [OF R]]], use mr(2) in auto)
      moreover have "rebalance_after_erase t (p # ps) u = rebalance_after_erase (merge_with_right t p ?ci) ps p"
        unfolding eq using mr conjunct1 [OF R] by auto
      ultimately show ?thesis by simp
    next
      case ml
      note R = left [OF ml(1)]
      have "rebalanced t Bs V (rebalance_after_erase (merge_with_right t p (length C1')) ps p)"
        by (rule up) (rule merge_lacking [OF L short conjunct1 [OF conjunct2 [OF R]]], use ml(2) in auto)
      moreover have "rebalance_after_erase t (p # ps) u = rebalance_after_erase (merge_with_right t p (length C1')) ps p"
        unfolding eq using ml R by auto
      ultimately show ?thesis by simp
    qed
  qed
qed

section \<open>The way to the leaf\<close>

lemma lower_bound_nth: "lower_bound k xs < length xs \<Longrightarrow> k \<le> xs ! lower_bound k xs"
  unfolding lower_bound_def using nth_length_takeWhile [of "\<lambda>x. x < k" xs] by (simp add: not_less)

lemma shape_level:
  assumes "shape t (Rs @ D # U # Us)"
  shows "lnk t D U" and "bounds (map (hk t) D)"
proof -
  have b: "base t (Rs @ D # U # Us)" and s: "successively (lnk t) (Rs @ D # U # Us)"
    using assms by (simp_all add: shape_def)
  from s show "lnk t D U" by (simp add: successively_append_iff)
  show "bounds (map (hk t) D)" using levels_bounds [OF s base_bounds [OF b]] b by (simp add: base_def)
qed

lemma descend_path_leaf:
  assumes "shape t (rev Ds @ U # Us)" and "U = A @ c # B" and "passed t k A" and "hi_ok (hk t c) k"
    and "ispath t c Us path"
  shows "\<exists>path' x A' B'. descend_path t c k path = Some (path', x) \<and> hd (rev Ds @ U # Us) = A' @ x # B' \<and>
    passed t k A' \<and> hi_ok (hk t x) k \<and> ispath t x (tl (rev Ds @ U # Us)) path'"
  using assms
proof (induction Ds arbitrary: U Us A c B path)
  case Nil
  then have "is_leaf (nd t c)" using base_leaves [of t "U # Us" c] by (simp add: shape_def)
  then show ?case using Nil by (simp add: descend_path.simps) blast
next
  case (Cons D Ds)
  have sh: "shape t (rev Ds @ D # U # Us)" using Cons.prems(1) by simp
  note k = shape_level [OF sh]
  have "rlink t D (A @ c # B)" using knows_rlink [OF k] Cons.prems(2) by simp
  note st = child_step [OF this Cons.prems(3,4)]
  let ?i = "child_index (nd t c) k"
  let ?d = "children (nd t c) ! ?i"
  obtain P Q where PQ: "D = P @ ?d # Q" "passed t k P" using st by blast
  have ic: "inode_ok t (hk t) c" using k(1) Cons.prems(2) by (simp add: knows_def)
  have "hk t ?d = (map (hk t) (children (nd t c))) ! ?i" using st by simp
  also have "\<dots> = (map Some (keys (nd t c)) @ [hk t c]) ! ?i" using ic by (simp add: inode_ok_def)
  finally have hd': "hk t ?d = (if ?i < length (keys (nd t c)) then Some (keys (nd t c) ! ?i) else hk t c)"
    using inode_ok_lengths [OF ic] st by (auto simp: nth_append less_Suc_eq)
  then have "hi_ok (hk t ?d) k"
    using Cons.prems(4) lower_bound_nth [of k "keys (nd t c)"] by (auto simp: child_index_def)
  moreover have "ispath t ?d (U # Us) (c # path)" using Cons.prems(2,5) st by simp
  moreover have "descend_path t c k path = descend_path t ?d k (c # path)"
    using st by (subst descend_path.simps) simp
  ultimately show ?case using Cons.IH [OF sh PQ] by simp
qed

section \<open>The next leaf\<close>

lemma known_pow_append: "(known t ^^ n) (U @ V) = (known t ^^ n) U @ (known t ^^ n) V"
  by (induction n arbitrary: U V) (simp_all add: funpow_swap1)

lemma known_pow_Nil [simp]: "(known t ^^ n) [] = []"
  by (induction n) simp_all

lemma leaf_level:
  "shape t (rev Ds @ U # Us) \<Longrightarrow> hd (rev Ds @ U # Us) = (known t ^^ length Ds) U"
proof (induction Ds arbitrary: U Us)
  case (Cons D Ds)
  have sh: "shape t (rev Ds @ D # U # Us)" using Cons.prems by simp
  then have "known t U = D" using shape_level(1) by (simp add: knows_def)
  then show ?case using Cons.IH [OF sh] by (simp add: funpow_swap1)
qed simp

lemma leftmost_path_leaf:
  assumes "shape t (rev Ds @ U # Us)" and "c \<in> set U" and "ispath t c Us path"
  shows "\<exists>path' y L. leftmost_path t c path = Some (path', y) \<and> (known t ^^ length Ds) [c] = y # L \<and>
    ispath t y (tl (rev Ds @ U # Us)) path'"
  using assms
proof (induction Ds arbitrary: U Us c path)
  case Nil
  then have "is_leaf (nd t c)" using base_leaves [of t "U # Us" c] by (simp add: shape_def)
  then show ?case using Nil by (simp add: leftmost_path.simps)
next
  case (Cons D Ds)
  have sh: "shape t (rev Ds @ D # U # Us)" using Cons.prems(1) by simp
  have k: "lnk t D U" using shape_level [OF sh] by simp
  then have ic: "inode_ok t (hk t) c" using Cons.prems(2) by (simp add: knows_def)
  then obtain d ds where d: "children (nd t c) = d # ds" by (cases "children (nd t c)") (auto simp: inode_ok_def)
  have "d \<in> set D" using k Cons.prems(2) d by (auto simp: knows_def known_def intro!: bexI [of _ c])
  moreover have "ispath t d (U # Us) (c # path)" using Cons.prems d by simp
  ultimately obtain path' y L where
    IH: "leftmost_path t d (c # path) = Some (path', y)" "(known t ^^ length Ds) [d] = y # L"
      "ispath t y (tl (rev Ds @ D # U # Us)) path'"
    using Cons.IH [OF sh] by blast
  have "leftmost_path t c path = leftmost_path t d (c # path)"
    using ic d by (subst leftmost_path.simps) (simp add: inode_ok_def)
  moreover have "(known t ^^ length (D # Ds)) [c] = (known t ^^ length Ds) [d] @ (known t ^^ length Ds) ds"
    using d known_pow_append [of "length Ds" t "[d]" ds] by (simp add: funpow_swap1)
  ultimately show ?case using IH by simp
qed

lemma advance_leaf:
  assumes "shape t (rev Ds @ U # Us)" and "U = A @ c # B" and "ispath t c Us path"
  shows "if B = [] then advance_to_next_leaf t path c = Some None
    else (\<exists>path' y L. advance_to_next_leaf t path c = Some (Some (path', y)) \<and>
      (known t ^^ length Ds) B = y # L \<and> ispath t y (tl (rev Ds @ U # Us)) path')"
  using assms
proof (induction Us arbitrary: Ds U A c B path)
  case Nil
  then have "path = []" "B = []" by (auto simp: shape_def top_ok_def append_eq_Cons_conv)
  then show ?case by simp
next
  case (Cons U' Us)
  obtain p ps where p: "path = p # ps" "p \<in> set U'" "c \<in> set (children (nd t p))" "ispath t p Us ps"
    using Cons.prems(3) by auto
  have k: "lnk t U U'" using shape_level [OF Cons.prems(1)] by simp
  from p(2) obtain U1 U2 where U': "U' = U1 @ p # U2" by (auto simp: in_set_conv_decomp)
  from p(3) obtain C1 C2 where C: "children (nd t p) = C1 @ c # C2" "c \<notin> set C1" by (meson split_list_first)
  have eq: "A @ c # B = (known t U1 @ C1) @ c # (C2 @ known t U2)"
    using k U' C Cons.prems(2) by (simp add: knows_def)
  have "distinct U" using Cons.prems(1) by (simp add: shape_def base_def)
  then have "c \<notin> set A" "c \<notin> set B" unfolding Cons.prems(2) by auto
  then have B: "B = C2 @ known t U2"
    using eq append_Cons_eq_iff [of c A B "known t U1 @ C1" "C2 @ known t U2"] by simp
  have ci: "child_position (nd t p) c = length C1" using C by (simp add: child_position_def)
  show ?case
  proof (cases C2)
    case Nil
    have step: "advance_to_next_leaf t path c = advance_to_next_leaf t ps p"
      using p(1) ci C Nil by simp
    have sh: "shape t (rev (U # Ds) @ U' # Us)" using Cons.prems(1) by simp
    have kB: "known t U2 = B" using B Nil by simp
    have ne: "B = [] \<longleftrightarrow> U2 = []"
      using kB k U' by (cases U2) (auto simp: knows_def inode_ok_def)
    show ?thesis
      using Cons.IH [OF sh U' p(4)] step ne kB by (auto simp: funpow_swap1 split: if_splits)
  next
    case (Cons d C2')
    have dU: "d \<in> set U" using B Cons Cons.prems(2) by simp
    have "ispath t d (U' # Us) (p # ps)" using p C Cons by simp
    then obtain path' y L where
      "leftmost_path t d (p # ps) = Some (path', y)" "(known t ^^ length Ds) [d] = y # L"
        "ispath t y (tl (rev Ds @ U # U' # Us)) path'"
      using leftmost_path_leaf [OF Cons.prems(1) dU] by blast
    moreover have "(known t ^^ length Ds) B = (known t ^^ length Ds) [d] @ (known t ^^ length Ds) (C2' @ known t U2)"
      using known_pow_append [of "length Ds" t "[d]" "C2' @ known t U2"] B Cons by simp
    moreover have "advance_to_next_leaf t path c = map_option Some (leftmost_path t d (p # ps))"
      using p(1) ci C Cons by (simp add: nth_append)
    ultimately show ?thesis using B Cons by simp
  qed
qed

section \<open>The entry in its leaf\<close>

lemma find_pos_append_iff: "find_pos x (xs @ ys) = (if x \<in> set xs then find_pos x xs else length xs + find_pos x ys)"
  by (induction xs) (auto simp: find_pos_def)

lemma erase_at_find_pos: "x \<in> set xs \<Longrightarrow> erase_at (find_pos x xs) xs = remove1 x xs"
  by (induction xs) (auto simp: find_pos_def erase_at_def)

lemma sorted_parts:
  assumes "sorted xs"
  shows "\<exists>as n bs. xs = as @ replicate n k @ bs \<and> (\<forall>a \<in> set as. a < k) \<and> (\<forall>b \<in> set bs. k < b) \<and>
    lower_bound k xs = length as \<and> upper_bound k xs = length as + n"
  using assms
proof (induction xs)
  case Nil
  show ?case by (intro exI [of _ "[]"] exI [of _ 0]) (simp add: lower_bound_def upper_bound_def)
next
  case (Cons x xs)
  then obtain as n bs where IH: "xs = as @ replicate n k @ bs" "\<forall>a \<in> set as. a < k" "\<forall>b \<in> set bs. k < b"
    "lower_bound k xs = length as" "upper_bound k xs = length as + n" by auto
  consider "x < k" | "x = k" | "k < x" by fastforce
  then show ?case
  proof cases
    case 1
    then show ?thesis using IH
      by (intro exI [of _ "x # as"] exI [of _ n] exI [of _ bs]) (auto simp: lower_bound_def upper_bound_def)
  next
    case 2
    then have "as = []" using Cons.prems IH by (cases as) auto
    then show ?thesis using 2 IH
      by (intro exI [of _ "[]"] exI [of _ "Suc n"] exI [of _ bs]) (auto simp: lower_bound_def upper_bound_def)
  next
    case 3
    then have "as = []" "n = 0" using Cons.prems IH by (cases as; cases n; auto)+
    then show ?thesis using 3 IH
      by (intro exI [of _ "[]"] exI [of _ 0] exI [of _ "x # bs"]) (auto simp: lower_bound_def upper_bound_def)
  qed
qed

lemma entry_position_find:
  assumes "length (vals (nd t x)) = length (keys (nd t x))" and "sorted (keys (nd t x))"
  shows "entry_position (nd t x) key rid = (if (key, rid) \<in> set (leaf_entries t x)
    then Some (find_pos (key, rid) (leaf_entries t x)) else None)"
proof -
  obtain as n bs where K: "keys (nd t x) = as @ replicate n key @ bs" "\<forall>a \<in> set as. a < key" "\<forall>b \<in> set bs. key < b"
    "lower_bound key (keys (nd t x)) = length as" "upper_bound key (keys (nd t x)) = length as + n"
    using sorted_parts [OF assms(2), of key] by blast
  define va vn vb where "va = take (length as) (vals (nd t x))" and "vn = take n (drop (length as) (vals (nd t x)))"
    and "vb = drop (length as + n) (vals (nd t x))"
  have V: "vals (nd t x) = va @ vn @ vb"
    unfolding va_def vn_def vb_def by (metis add.commute append_take_drop_id drop_drop)
  have len: "length va = length as" "length vn = n" "length vb = length bs"
    using assms(1) K(1) by (simp_all add: va_def vn_def vb_def)
  have es: "leaf_entries t x = zip as va @ zip (replicate n key) vn @ zip bs vb"
    using K(1) V len by (simp add: leaf_entries_def)
  have a: "(key, rid) \<notin> set (zip as va)" "(key, rid) \<notin> set (zip bs vb)"
    using K(2,3) by (auto dest: set_zip_leftD)
  have "zip (replicate n key) vn = map (Pair key) vn" using len(2) by (simp add: zip_replicate1)
  moreover have "find_pos (key, rid) (map (Pair key) vn) = find_pos rid vn"
    by (simp add: find_pos_def takeWhile_map comp_def)
  ultimately have "find_pos (key, rid) (leaf_entries t x) = length as + find_pos rid vn" if "rid \<in> set vn"
    using that a len by (simp add: es find_pos_append_iff)
  moreover have "(key, rid) \<in> set (leaf_entries t x) \<longleftrightarrow> rid \<in> set vn"
    using a len \<open>zip (replicate n key) vn = map (Pair key) vn\<close> by (auto simp: es)
  moreover have "find_pos rid vn < n \<longleftrightarrow> rid \<in> set vn"
    using find_pos_less [of rid vn] find_pos_eq_length [of rid vn] len(2) by auto
  moreover have "take n (drop (length as) (vals (nd t x))) = vn" by (simp add: vn_def)
  ultimately show ?thesis using K(4,5) by (auto simp: entry_position_def Let_def)
qed

definition erase_entry :: "btree \<Rightarrow> node_id \<Rightarrow> nat \<Rightarrow> btree" where
  "erase_entry t cur pos = (upd_node cur (\<lambda>leaf. leaf\<lparr>keys := erase_at pos (keys leaf),
     vals := erase_at pos (vals leaf)\<rparr>) t)\<lparr>tsize := tsize t - 1\<rparr>"

lemma erase_entry_fields [simp]:
  "root (erase_entry t x pos) = root t" "tsize (erase_entry t x pos) = tsize t - 1"
  "node_capacity (erase_entry t x pos) = node_capacity t" "max_nodes (erase_entry t x pos) = max_nodes t"
  "length (nodes (erase_entry t x pos)) = length (nodes t)"
  by (simp_all add: erase_entry_def)

lemma sorted_erase_at: "sorted xs \<Longrightarrow> sorted (erase_at i xs)"
proof (cases "i < length xs")
  case True
  assume "sorted xs"
  then have "sorted (take i xs @ xs ! i # drop (Suc i) xs)" using True by (simp add: id_take_nth_drop [symmetric])
  then show ?thesis by (simp add: erase_at_def sorted_append)
qed (simp add: erase_at_def)

lemma erase_entry_shape:
  assumes shp: "shape t (D # Us)" and D: "D = A @ x # B" and pos: "pos < length (keys (nd t x))"
  defines "t1 \<equiv> erase_entry t x pos"
  shows "shape t1 (D # Us) \<and>
    entries t1 D = entries t A @ erase_at pos (leaf_entries t x) @ entries t B \<and>
    length (keys (nd t1 x)) = length (keys (nd t x)) - 1 \<and>
    (\<forall>j. j \<noteq> x \<longrightarrow> nd t1 j = nd t j)"
proof -
  have b: "base t (D # Us)" and s: "above t (hk t) D Us" using shp shape_split [of "[D]" t Us] by simp_all
  have lk: "leaves_ok t None D" and xn: "x < length (nodes t)" and ds: "distinct (D @ concat Us)"
    using b D by (auto simp: base_def)
  have nd1: "nd t1 j = (if j = x then (nd t x)\<lparr>keys := erase_at pos (keys (nd t x)),
      vals := erase_at pos (vals (nd t x))\<rparr> else nd t j)" for j
    using xn by (simp add: t1_def erase_entry_def nd_upd_node)
  have rt: "root t1 = root t" "length (nodes t1) = length (nodes t)" by (simp_all add: t1_def)
  have nAB: "nd t1 y = nd t y" if "y \<in> set A \<union> set B" for y
    using that ds D nd1 [of y] by (auto split: if_splits)
  have hkA: "map (hk t1) A = map (hk t) A" by (simp add: nd1)
  have cA: "leaves_ok t1 None A = leaves_ok t None A" "leaves_ok t1 lo B = leaves_ok t lo B" for lo
    using nAB by (auto intro!: leaves_ok_cong)
  note lx = length_leaf [OF lk, of x]
  have lv: "length (vals (nd t x)) = length (keys (nd t x))" "sorted (keys (nd t x))" using lx D by auto
  have "sorted (erase_at pos (keys (nd t x)))" using lv(2) by (rule sorted_erase_at)
  moreover have "set (erase_at pos (keys (nd t x))) \<subseteq> set (keys (nd t x))"
    by (auto simp: erase_at_def dest: in_set_takeD in_set_dropD)
  ultimately have "leaves_ok t1 None D"
    using lk lv pos unfolding D leaves_ok_append_iff hkA cA by (auto simp: nd1 cA erase_at_length)
  moreover have "linked t1 L e = linked t L e" for L e by (rule linked_cong) (simp add: nd1)
  moreover have "hk t1 j = hk t j" for j by (simp add: nd1)
  ultimately have b1: "base t1 (D # Us)" using b rt by (simp add: base_def)
  have "above t1 (hk t1) D Us"
  proof (rule above_frame [OF s])
    have "x \<notin> set (concat Us)" using ds D by simp
    then show "\<forall>u \<in> set (concat Us). nd t1 u = nd t u" using nd1 by metis
  qed (simp_all add: nd1 rt)
  then have "shape t1 (D # Us)" using b1 shape_split [of "[D]" t1 Us] by simp
  moreover have "entries t1 A = entries t A" "entries t1 B = entries t B"
    using nAB by (auto intro!: entries_cong)
  moreover have "leaf_entries t1 x = erase_at pos (leaf_entries t x)"
    using lv by (simp add: leaf_entries_def nd1 zip_erase_at)
  ultimately show ?thesis using pos nd1 by (simp add: D erase_at_length)
qed

section \<open>The whole removal\<close>

definition removed :: "btree \<Rightarrow> node_id list list \<Rightarrow> u64 \<Rightarrow> internal_id \<Rightarrow> bool \<Rightarrow> btree \<Rightarrow> node_id list list \<Rightarrow> bool" where
  "removed t Ls key rid found t' Ls' \<longleftrightarrow> (found \<longleftrightarrow> (key, rid) \<in> set (entries t (hd Ls))) \<and> tree_ok t' Ls' \<and>
     entries t' (hd Ls') = remove1 (key, rid) (entries t (hd Ls)) \<and>
     node_capacity t' = node_capacity t \<and> max_nodes t' = max_nodes t"

lemma tree_ok_filled: "tree_ok t Ls \<longleftrightarrow> filled t Ls \<and> tsize t = length (entries t (hd Ls)) \<and> 1 \<le> node_capacity t"
  by (auto simp: tree_ok_def filled_def)

lemma erase_and_rebalance:
  assumes ok: "tree_ok t (D # Us)" and c2: "2 \<le> node_capacity t" and D: "D = A @ x # B"
    and path: "ispath t x Us path" and fst: "(key, rid) \<notin> set (entries t A)"
    and here: "(key, rid) \<in> set (leaf_entries t x)"
  shows "\<exists>t' Ls'. rebalance_after_erase (erase_entry t x (find_pos (key, rid) (leaf_entries t x))) path x = Some t' \<and>
    removed t (D # Us) key rid True t' Ls'"
proof -
  let ?pos = "find_pos (key, rid) (leaf_entries t x)"
  let ?t1 = "erase_entry t x ?pos"
  have shp: "shape t (D # Us)" using ok by (simp add: tree_ok_def)
  have "leaves_ok t None D" using shp by (simp add: shape_def base_def)
  then have lv: "length (vals (nd t x)) = length (keys (nd t x))" using length_leaf [of t None D x] D by simp
  then have pos: "?pos < length (keys (nd t x))"
    using find_pos_less [OF here] by (simp add: leaf_entries_def)
  note E = erase_entry_shape [OF shp D pos]
  have keep: "nd ?t1 j = nd t j" if "j \<noteq> x" for j using E that by blast
  have le: "length (keys (nd ?t1 j)) \<le> length (keys (nd t j))" for j using E keep by (cases "j = x") auto
  have ds: "x \<notin> set (concat Us)" using shp D by (auto simp: shape_def base_def)
  have fits: "fits ?t1 {} (concat (D # Us))"
    using ok le unfolding tree_ok_def fits_def erase_entry_fields by (meson le_trans)
  have "ispath ?t1 x Us path"
  proof (rule ispath_cong [OF _ _ path])
    show "\<forall>j \<in> set (concat Us). children (nd ?t1 j) = children (nd t j)"
      using ds keep by metis
  qed simp
  moreover have "half ?t1 (filter (\<lambda>y. y \<noteq> x) D) \<and> half ?t1 (concat (butlast Us)) \<and> keys (nd ?t1 (root ?t1)) \<noteq> [] \<and>
      node_capacity ?t1 div 2 \<le> Suc (length (keys (nd ?t1 x)))" if "Us \<noteq> []"
  proof (intro conjI)
    have h: "half t D" "half t (concat (butlast Us))" "keys (nd t (root t)) \<noteq> []"
      using ok that by (auto simp: tree_ok_def)
    show "half ?t1 (filter (\<lambda>y. y \<noteq> x) D)" using h(1) keep by (simp add: half_def)
    have "x \<notin> set (concat (butlast Us))" using ds in_concat_butlast by metis
    then show "half ?t1 (concat (butlast Us))" using h(2) keep unfolding half_def erase_entry_fields by metis
    have "root t \<in> set (last Us)" using shp that by (simp add: shape_def top_ok_def)
    then have "root t \<in> set (concat Us)" using that by (auto intro!: bexI [of _ "last Us"])
    then have "root t \<noteq> x" using ds by metis
    then show "keys (nd ?t1 (root ?t1)) \<noteq> []" using h(3) keep by simp
    show "node_capacity ?t1 div 2 \<le> Suc (length (keys (nd ?t1 x)))"
    proof -
      have "length (keys (nd ?t1 x)) = length (keys (nd t x)) - 1" using E by blast
      moreover have "node_capacity t div 2 \<le> length (keys (nd t x))" using h(1) D by (simp add: half_def)
      ultimately show ?thesis by simp
    qed
  qed
  ultimately have "lacking ?t1 [] D Us x path"
    using E D c2 fits by (simp add: lacking_def)
  from rebalance_filled [OF this] obtain t' Ls' where
    R: "rebalance_after_erase ?t1 path x = Some t'" "filled t' Ls'" "same_limits ?t1 t'"
      "entries t' (hd Ls') = entries ?t1 D" by (auto simp: rebalanced_def)
  have "entries ?t1 D = remove1 (key, rid) (entries t D)"
    using E here fst erase_at_find_pos [OF here] by (simp add: D remove1_append)
  moreover have "(key, rid) \<in> set (entries t D)" using here D by simp
  ultimately have "removed t (D # Us) key rid True t' Ls'"
    using R ok c2 by (auto simp: removed_def tree_ok_filled same_limits_def length_remove1)
  then show ?thesis using R(1) by blast
qed

lemma upper_bound_full: "upper_bound k xs = length xs \<longleftrightarrow> (\<forall>x \<in> set xs. x \<le> k)"
  by (induction xs) (auto simp: upper_bound_def)

theorem remove_from_removed:
  assumes ok: "tree_ok t (D # Us)" and c2: "2 \<le> node_capacity t"
    and "D = A @ x # B" and "ispath t x Us path" and "hi_ok (hk t x) key" and "(key, rid) \<notin> set (entries t A)"
  shows "\<exists>found t' Ls'. remove_from t key rid path x = Some (found, t') \<and> removed t (D # Us) key rid found t' Ls'"
  using assms(3-)
proof (induction B arbitrary: A x path rule: measure_induct_rule [of length])
  case (less B A x path)
  have shp: "shape t (D # Us)" using ok by (simp add: tree_ok_def)
  then have lk: "leaves_ok t None D" by (simp add: shape_def base_def)
  have lx: "length (vals (nd t x)) = length (keys (nd t x))" "sorted (keys (nd t x))"
    using length_leaf [OF lk, of x] less.prems(1) by auto
  note ep = entry_position_find [OF lx, of key rid]
  have gone: "removed t (D # Us) key rid False t (D # Us)" if "(key, rid) \<notin> set (entries t D)"
    using that ok by (simp add: removed_def remove1_idem)
  show ?case
  proof (cases "(key, rid) \<in> set (leaf_entries t x)")
    case True
    let ?t1 = "erase_entry t x (find_pos (key, rid) (leaf_entries t x))"
    from erase_and_rebalance [OF ok c2 less.prems(1,2,4) True] obtain t' Ls' where
      R: "rebalance_after_erase ?t1 path x = Some t'" "removed t (D # Us) key rid True t' Ls'" by blast
    have "remove_from t key rid path x = Some (True, t')"
      using R(1) True ep by (subst remove_from.simps) (simp add: erase_entry_def)
    then show ?thesis using R(2) by blast
  next
    case False
    have B: "(key, rid) \<in> set (entries t D) \<longleftrightarrow> (key, rid) \<in> set (entries t B)"
      using less.prems(1,4) False by simp
    have above: "\<forall>e \<in> set (entries t B). \<forall>k. hi_ok (hk t x) k \<longrightarrow> k \<le> fst e"
      using base_leaf_bounds [of t A x B] lk less.prems(1) by blast
    show ?thesis
    proof (cases "upper_bound key (keys (nd t x)) = length (keys (nd t x))")
      case nfull: False
      then obtain k where k: "k \<in> set (keys (nd t x))" "key < k" by (auto simp: upper_bound_full not_le)
      have "hi_ok (hk t x) k" using lk less.prems(1) k(1) by (auto simp: leaves_ok_append_iff)
      then have "(key, rid) \<notin> set (entries t B)" using above k(2) by fastforce
      moreover have "remove_from t key rid path x = Some (False, t)"
        using False ep nfull by (subst remove_from.simps) simp
      ultimately show ?thesis using gone B by blast
    next
      case full: True
      have adv: "if B = [] then advance_to_next_leaf t path x = Some None
        else (\<exists>path' y L. advance_to_next_leaf t path x = Some (Some (path', y)) \<and> B = y # L \<and> ispath t y Us path')"
        using advance_leaf [of t "[]" D Us A x B path] shp less.prems(1,2) by (cases "B = []") auto
      show ?thesis
      proof (cases B)
        case Nil
        then have "remove_from t key rid path x = Some (False, t)"
          using False ep full adv by (subst remove_from.simps) simp
        then show ?thesis using gone B Nil by auto
      next
        case (Cons y B')
        obtain path' where adv: "advance_to_next_leaf t path x = Some (Some (path', y))" "ispath t y Us path'"
          using adv Cons by auto
        have D: "D = (A @ [x]) @ y # B'" using less.prems(1) Cons by simp
        have step: "remove_from t key rid path x = (if keys (nd t y) = [] \<or> hd (keys (nd t y)) \<noteq> key then Some (False, t)
            else remove_from t key rid path' y)"
          using False ep full adv by (subst remove_from.simps) simp
        have "Us \<noteq> []" using shp D by (auto simp: shape_def top_ok_def)
        then have "half t D" using ok by (auto simp: tree_ok_def)
        then have "keys (nd t y) \<noteq> []" using D c2 by auto
        then obtain k ks where ks: "keys (nd t y) = k # ks" by (cases "keys (nd t y)") auto
        have yB: "leaf_entries t y = (k, hd (vals (nd t y))) # tl (leaf_entries t y)"
          using length_leaf [OF lk, of y] D ks by (cases "vals (nd t y)") (auto simp: leaf_entries_def)
        then have "(k, hd (vals (nd t y))) \<in> set (entries t B)" using Cons by (metis entries_simps(2) Un_iff list.set_intros(1) set_append)
        then have kk: "key \<le> k" using above less.prems(3) by fastforce
        show ?thesis
        proof (cases "k = key")
          case True
          then have "hi_ok (hk t y) key" using lk D ks by (auto simp: leaves_ok_append_iff)
          moreover have "(key, rid) \<notin> set (entries t (A @ [x]))" using less.prems(4) False by simp
          ultimately show ?thesis
            using less.IH [of B' "A @ [x]" y path'] D adv(2) Cons step ks True by simp
        next
          case neq: False
          then have "key < k" using kk by simp
          have hy: "hi_ok (hk t y) k" "\<forall>k' \<in> set (keys (nd t y)). k \<le> k'"
            using lk D ks by (auto simp: leaves_ok_append_iff)
          have "\<forall>e \<in> set (entries t B'). k \<le> fst e"
            using base_leaf_bounds [of t "A @ [x]" y B' k] lk D hy(1) by simp
          moreover have "\<forall>e \<in> set (leaf_entries t y). k \<le> fst e"
            using hy(2) leaf_entry_key by metis
          ultimately have "(key, rid) \<notin> set (entries t B)" using Cons \<open>key < k\<close> by fastforce
          then show ?thesis using gone B step ks neq by auto
        qed
      qed
    qed
  qed
qed

theorem bt_remove_removed:
  assumes ok: "tree_ok t Ls" and c2: "2 \<le> node_capacity t"
  shows "\<exists>found t' Ls'. bt_remove t key rid = Some (found, t') \<and> removed t Ls key rid found t' Ls'"
proof -
  have shp: "shape t Ls" using ok by (simp add: tree_ok_def)
  then obtain D Us where Ls: "Ls = D # Us" by (cases Ls) (auto simp: shape_def base_def)
  then obtain Ds where R: "Ls = rev Ds @ [[root t]]"
    using shp by (metis append_butlast_last_id list.distinct(1) rev_rev_ident shape_def top_ok_def)
  have "bounds (map (hk t) [root t])"
    using levels_bounds [of t Ls] base_bounds [of t Ls] shp R by (auto simp: shape_def base_def)
  then have "hi_ok (hk t (root t)) key" by (simp add: bounds_Cons)
  then obtain path x A B where d: "descend_path t (root t) key [] = Some (path, x)" and
    x: "D = A @ x # B" "passed t key A" "hi_ok (hk t x) key" "ispath t x Us path"
  proof -
    have "hd (rev Ds @ [[root t]]) = D" "tl (rev Ds @ [[root t]]) = Us" using R Ls by (metis list.sel)+
    then show ?thesis
      using descend_path_leaf [of t Ds "[root t]" "[]" "[]" "root t" "[]" key "[]"] shp R
        \<open>hi_ok (hk t (root t)) key\<close> that by auto
  qed
  have "leaves_ok t None D" using shp Ls by (simp add: shape_def base_def)
  then have "\<forall>e \<in> set (entries t A). fst e < key" using base_leaf_bounds [of t A x B key] x(1,2) by blast
  then have "(key, rid) \<notin> set (entries t A)" by fastforce
  then show ?thesis
    using remove_from_removed [OF ok [unfolded Ls] c2 x(1,4,3), of rid] d Ls by (simp add: bt_remove_def)
qed

end
