(* ===== verification/BPlus_Spec.thy ===== *)
theory BPlus_Spec
  imports BPlus_Remove
begin

text \<open>
  What the B-link tree promises to its users: a multimap from keys to row numbers, kept in
  ascending key order. The contract is the locale \<open>ordered_multimap\<close>; the tree provides it
  with the contents that a scan over the whole key range emits.
\<close>

section \<open>The contract\<close>

locale ordered_multimap =
  fixes ok :: "'t \<Rightarrow> bool"
    and contents :: "'t \<Rightarrow> (u64 \<times> internal_id) list"
    and ins :: "'t \<Rightarrow> u64 \<Rightarrow> internal_id \<Rightarrow> (exn option \<times> 't) option"
    and del :: "'t \<Rightarrow> u64 \<Rightarrow> internal_id \<Rightarrow> (bool \<times> 't) option"
    and rng :: "'t \<Rightarrow> u64 \<Rightarrow> u64 \<Rightarrow> (u64 \<times> internal_id) list option"
  assumes ascending: "ok t \<Longrightarrow> sorted (map fst (contents t))"
    and ins_ok: "ok t \<Longrightarrow> \<exists>e t'. ins t k v = Some (e, t') \<and> (e = None \<longrightarrow> ok t') \<and>
      contents t' = insort_key fst (k, v) (contents t)"
    and del_ok: "ok t \<Longrightarrow> \<exists>t'. del t k v = Some ((k, v) \<in> set (contents t), t') \<and> ok t' \<and>
      contents t' = remove1 (k, v) (contents t)"
    and rng_ok: "ok t \<Longrightarrow> rng t lo hi = Some (in_range lo hi (contents t))"
begin

lemma ins_contents: "ok t \<Longrightarrow> ins t k v = Some (e, t') \<Longrightarrow> contents t' = insort_key fst (k, v) (contents t)"
  using ins_ok [of t k v] by auto

lemma ins_mset: "ok t \<Longrightarrow> ins t k v = Some (e, t') \<Longrightarrow> mset (contents t') = add_mset (k, v) (mset (contents t))"
  using ins_contents by simp

lemma del_contents: "ok t \<Longrightarrow> del t k v = Some (b, t') \<Longrightarrow>
    ok t' \<and> b = ((k, v) \<in> set (contents t)) \<and> contents t' = remove1 (k, v) (contents t)"
  using del_ok [of t k v] by auto

lemma del_mset: "ok t \<Longrightarrow> del t k v = Some (b, t') \<Longrightarrow> mset (contents t') = mset (contents t) - {#(k, v)#}"
  using del_contents by simp

lemma remove1_insort_key: "remove1 x (insort_key f x xs) = xs"
proof -
  let ?i = "length (takeWhile (\<lambda>y. f y < f x) xs)"
  have "x \<notin> set (takeWhile (\<lambda>y. f y < f x) xs)" by (auto dest: set_takeWhileD)
  then have "x \<notin> set (take ?i xs)" by (simp add: takeWhile_eq_take [symmetric])
  then show ?thesis by (simp add: insort_key_insert_at insert_at_def remove1_append)
qed

lemma del_after_ins:
  assumes "ok t" and "ins t k v = Some (None, u)"
  shows "\<exists>u'. del u k v = Some (True, u') \<and> contents u' = contents t"
proof -
  have "ok u" using ins_ok [OF assms(1), of k v] assms(2) by auto
  moreover have "contents u = insort_key fst (k, v) (contents t)" using ins_contents assms by blast
  ultimately show ?thesis
    using del_ok [of u k v] by (auto simp: remove1_insort_key set_insort_key)
qed

lemma rng_sound_complete: "ok t \<Longrightarrow> rng t lo hi = Some es \<Longrightarrow>
    mset es = filter_mset (\<lambda>e. lo \<le> fst e \<and> fst e \<le> hi) (mset (contents t)) \<and> sorted (map fst es)"
  using rng_ok [of t lo hi] sorted_filter [OF ascending, of t "\<lambda>e. lo \<le> fst e \<and> fst e \<le> hi"]
  by (auto simp: in_range_def mset_filter)

end

section \<open>The tree provides it\<close>

definition bt_ok :: "btree \<Rightarrow> bool" where
  "bt_ok t \<longleftrightarrow> (\<exists>Ls. tree_ok t Ls) \<and> 2 \<le> node_capacity t"

text \<open>The contents of a tree, by a scan over all keys.\<close>

definition bt_contents :: "btree \<Rightarrow> (u64 \<times> internal_id) list" where
  "bt_contents t = (case bt_range t 0 (- 1) of None \<Rightarrow> [] | Some es \<Rightarrow> es)"

lemma word64_le_max: "k \<le> (- 1 :: u64)"
  by (rule word_n1_ge)

lemma bt_contents_entries:
  assumes "readable t Ls" and "leaves_ok t None (hd Ls)"
  shows "bt_contents t = entries t (hd Ls)" and "bt_range t lo hi = Some (in_range lo hi (bt_contents t))"
proof -
  show "bt_contents t = entries t (hd Ls)"
    using bt_range_readable [OF assms, of 0 "- 1"] word64_le_max
    by (simp add: bt_contents_def in_range_id word_n1_ge)
  then show "bt_range t lo hi = Some (in_range lo hi (bt_contents t))"
    using bt_range_readable [OF assms] by simp
qed

lemma tree_ok_leaves: "tree_ok t Ls \<Longrightarrow> readable t Ls \<and> leaves_ok t None (hd Ls)"
  using shape_readable by (simp add: tree_ok_def shape_def base_def)

lemma tree_ok_contents: "tree_ok t Ls \<Longrightarrow> bt_contents t = entries t (hd Ls)"
  using bt_contents_entries tree_ok_leaves by blast

lemma sorted_entries: "leaves_ok t lo L \<Longrightarrow> sorted (map fst (entries t L))"
proof (induction L arbitrary: lo)
  case (Cons x L)
  have x: "map fst (leaf_entries t x) = keys (nd t x)" "sorted (keys (nd t x))"
    using Cons.prems by (simp_all add: map_fst_leaf_entries)
  have "\<forall>k \<in> set (keys (nd t x)). \<forall>e \<in> set (entries t L). k \<le> fst e"
  proof (intro ballI)
    fix k e assume k: "k \<in> set (keys (nd t x))" and e: "e \<in> set (entries t L)"
    then have "L \<noteq> []" by auto
    then obtain h where h: "hk t x = Some h" using Cons.prems by auto
    then have "h \<le> fst e" using leaves_ok_above [of t "hk t x" L e] Cons.prems e by simp
    moreover have "k \<le> h" using Cons.prems k h by simp
    ultimately show "k \<le> fst e" by simp
  qed
  moreover have "sorted (map fst (entries t L))" using Cons.prems by (intro Cons.IH [of "hk t x"]) simp
  ultimately show ?case using x by (simp add: sorted_append)
qed simp

lemma inserted_contents:
  assumes "tree_ok t Ls" and "inserted t Ls key rid e t' Ls'"
  shows "bt_contents t' = insort_key fst (key, rid) (bt_contents t)"
proof -
  have "readable t' Ls' \<and> leaves_ok t' None (hd Ls')"
    using assms(2) tree_ok_leaves by (cases e) (auto simp: inserted_def)
  then have "bt_contents t' = entries t' (hd Ls')" using bt_contents_entries by blast
  then show ?thesis using assms tree_ok_contents by (simp add: inserted_def)
qed

interpretation bt: ordered_multimap bt_ok bt_contents bt_insert bt_remove bt_range
proof unfold_locales
  fix t k v lo hi assume "bt_ok t"
  then obtain Ls where ok: "tree_ok t Ls" and c2: "2 \<le> node_capacity t" by (auto simp: bt_ok_def)
  show "sorted (map fst (bt_contents t))"
    using tree_ok_contents [OF ok] tree_ok_leaves [OF ok] sorted_entries by metis
  show "bt_range t lo hi = Some (in_range lo hi (bt_contents t))"
    using tree_ok_leaves [OF ok] bt_contents_entries by blast
  from bt_insert_inserted [OF ok] obtain e t' Ls' where
    "bt_insert t k v = Some (e, t')" "inserted t Ls k v e t' Ls'" by blast
  then show "\<exists>e t'. bt_insert t k v = Some (e, t') \<and> (e = None \<longrightarrow> bt_ok t') \<and>
      bt_contents t' = insort_key fst (k, v) (bt_contents t)"
    using inserted_contents [OF ok] c2 by (auto simp: bt_ok_def inserted_def)
  from bt_remove_removed [OF ok c2] obtain f t' Ls' where
    "bt_remove t k v = Some (f, t')" "removed t Ls k v f t' Ls'" by blast
  then show "\<exists>t'. bt_remove t k v = Some ((k, v) \<in> set (bt_contents t), t') \<and> bt_ok t' \<and>
      bt_contents t' = remove1 (k, v) (bt_contents t)"
    using c2 tree_ok_contents [OF ok] tree_ok_contents [of t' Ls'] by (auto simp: bt_ok_def removed_def)
qed

text \<open>The empty tree.\<close>

lemma make_btree_ok:
  assumes "make_btree cap maxn = Inr t" and "2 \<le> cap"
  shows "bt_ok t \<and> bt_contents t = [] \<and> tsize t = 0 \<and> node_capacity t = cap \<and> max_nodes t = maxn \<and>
    length (nodes t) = 1 \<and> bt_height t = Some 1"
proof -
  have t: "t = \<lparr>nodes = [new_node], root = 0, tsize = 0, node_capacity = cap, max_nodes = maxn\<rparr>"
    using assms(1) by (auto simp: make_btree_def new_leaf_def bind_res_def new_node_def split: if_splits)
  have ok: "tree_ok t [[0]]"
    using assms(2) by (simp add: t tree_ok_def shape_def base_def top_ok_def nd_def new_node_def leaf_entries_def)
  moreover have "entries t [0] = []" by (simp add: t nd_def new_node_def leaf_entries_def)
  moreover have "bt_height t = Some 1"
    by (simp add: bt_height_def height_from.simps t nd_def new_node_def)
  ultimately show ?thesis using tree_ok_contents [OF ok] assms(2) t by (auto simp: bt_ok_def)
qed

section \<open>Balance\<close>

text \<open>Every path from the root to a leaf passes all levels.\<close>

lemma height_from_levels:
  assumes "shape t (rev Ds @ U # Us)" and "c \<in> set U"
  shows "height_from t c h = Some (h + length Ds)"
  using assms
proof (induction Ds arbitrary: U Us c h)
  case Nil
  then have "is_leaf (nd t c)" using base_leaves [of t "U # Us" c] by (simp add: shape_def)
  then show ?case by (simp add: height_from.simps)
next
  case (Cons D Ds)
  have sh: "shape t (rev Ds @ D # U # Us)" using Cons.prems(1) by simp
  have k: "lnk t D U" using shape_level [OF sh] by simp
  then have ic: "inode_ok t (hk t) c" using Cons.prems(2) by (simp add: knows_def)
  then obtain d ds where d: "children (nd t c) = d # ds" by (cases "children (nd t c)") (auto simp: inode_ok_def)
  have "d \<in> set D" using k Cons.prems(2) d by (auto simp: knows_def known_def intro!: bexI [of _ c])
  then have "height_from t d (h + 1) = Some (h + 1 + length Ds)" using Cons.IH [OF sh] by blast
  then show ?case using ic d by (subst height_from.simps) (simp add: inode_ok_def)
qed

text \<open>
  A way down from the root: each node is a child of the one before. In a balanced tree of height
  \<open>h\<close> it has at most \<open>h\<close> nodes, ends in a leaf just when it has \<open>h\<close>, and can go on otherwise.
\<close>

definition way_down :: "btree \<Rightarrow> node_id list \<Rightarrow> bool" where
  "way_down t p \<longleftrightarrow> p \<noteq> [] \<and> hd p = root t \<and> successively (\<lambda>x y. \<not> is_leaf (nd t x) \<and> y \<in> set (children (nd t x))) p"

definition balanced :: "btree \<Rightarrow> nat \<Rightarrow> bool" where
  "balanced t h \<longleftrightarrow> (\<forall>p. way_down t p \<longrightarrow> length p \<le> h \<and> (is_leaf (nd t (last p)) \<longleftrightarrow> length p = h) \<and>
     (length p < h \<longrightarrow> children (nd t (last p)) \<noteq> []))"

lemma way_levels:
  assumes "shape t (rev Ds @ U # Us)" and "c \<in> set U"
    and "successively (\<lambda>x y. \<not> is_leaf (nd t x) \<and> y \<in> set (children (nd t x))) (c # p)"
  shows "length p \<le> length Ds \<and> (is_leaf (nd t (last (c # p))) \<longleftrightarrow> length p = length Ds) \<and>
    (length p < length Ds \<longrightarrow> children (nd t (last (c # p))) \<noteq> [])"
  using assms
proof (induction Ds arbitrary: U Us c p)
  case Nil
  then have "is_leaf (nd t c)" using base_leaves [of t "U # Us" c] by (simp add: shape_def)
  then show ?case using Nil.prems(3) by (cases p) simp_all
next
  case (Cons D Ds)
  have sh: "shape t (rev Ds @ D # U # Us)" using Cons.prems(1) by simp
  have k: "lnk t D U" using shape_level [OF sh] by simp
  then have ic: "inode_ok t (hk t) c" using Cons.prems(2) by (simp add: knows_def)
  show ?case
  proof (cases p)
    case Nil
    then show ?thesis using ic by (simp add: inode_ok_def)
  next
    case (Cons d q)
    then have "d \<in> set D" using k Cons.prems(2,3) by (auto simp: knows_def known_def intro!: bexI [of _ c])
    from Cons.IH [OF sh this, of q] show ?thesis using Cons.prems(3) Cons by simp
  qed
qed

lemma shape_rev: "shape t Ls \<Longrightarrow> Ls = rev (rev (butlast Ls)) @ [[root t]]"
  using append_butlast_last_id [of Ls] by (simp add: shape_def base_def top_ok_def)

lemma tree_height: "shape t Ls \<Longrightarrow> bt_height t = Some (length Ls)"
proof -
  assume sh: "shape t Ls"
  then have ne: "Ls \<noteq> []" by (simp add: shape_def base_def)
  have "height_from t (root t) 1 = Some (1 + length (rev (butlast Ls)))"
    by (rule height_from_levels [of t "rev (butlast Ls)" "[root t]" "[]"]) (use shape_rev [OF sh] sh in simp_all)
  then show ?thesis using ne by (cases Ls) (simp_all add: bt_height_def)
qed

lemma tree_balanced: "shape t Ls \<Longrightarrow> balanced t (length Ls)"
  unfolding balanced_def way_down_def
proof (intro allI impI, elim conjE)
  fix p assume sh: "shape t Ls" and p: "p \<noteq> []" "hd p = root t"
    and s: "successively (\<lambda>x y. \<not> is_leaf (nd t x) \<and> y \<in> set (children (nd t x))) p"
  obtain q where q: "p = root t # q" using p by (cases p) auto
  have len: "length Ls = Suc (length (rev (butlast Ls)))" using sh by (cases Ls) (simp_all add: shape_def base_def)
  from way_levels [of t "rev (butlast Ls)" "[root t]" "[]" "root t" q] show "length p \<le> length Ls \<and>
      (is_leaf (nd t (last p)) \<longleftrightarrow> length p = length Ls) \<and> (length p < length Ls \<longrightarrow> children (nd t (last p)) \<noteq> [])"
    using shape_rev [OF sh] sh s unfolding q len by simp
qed

text \<open>A level of \<open>n\<close> nodes, all at least half full, stands over many entries.\<close>

lemma level_entries:
  assumes "shape t (rev Ds @ U # Us)" and "half t (concat (rev Ds @ [U]))"
  shows "length U * (node_capacity t div 2 + 1) ^ length Ds * (node_capacity t div 2) \<le>
    length (entries t (hd (rev Ds @ U # Us)))"
  using assms
proof (induction Ds arbitrary: U Us)
  case Nil
  then have "leaves_ok t None U" "half t U" by (simp_all add: shape_def base_def)
  then have "\<forall>x \<in> set U. node_capacity t div 2 \<le> length (leaf_entries t x)"
    using length_leaf [of t None U] by (auto simp: half_def leaf_entries_def)
  then have "length U * (node_capacity t div 2) \<le> length (entries t U)"
    by (induction U) (auto simp: add_mono)
  then show ?case by simp
next
  case (Cons D Ds)
  let ?m = "node_capacity t div 2"
  have sh: "shape t (rev Ds @ D # U # Us)" using Cons.prems(1) by simp
  have k: "lnk t D U" using shape_level [OF sh] by simp
  have "\<forall>x \<in> set U. ?m + 1 \<le> length (children (nd t x))"
    using k Cons.prems(2) inode_ok_lengths by (auto simp: knows_def half_def)
  then have "length U * (?m + 1) \<le> length (known t U)"
    by (induction U) (auto simp: add_mono)
  then have "length U * (?m + 1) \<le> length D" using k by (simp add: knows_def)
  then have "length U * (?m + 1) * ((?m + 1) ^ length Ds * ?m) \<le> length D * ((?m + 1) ^ length Ds * ?m)"
    by (rule mult_le_mono1)
  also have "\<dots> \<le> length (entries t (hd (rev Ds @ D # U # Us)))"
    using Cons.IH [OF sh] Cons.prems(2) by (simp add: mult.assoc)
  finally show ?case by (simp add: algebra_simps)
qed

lemma tree_size_bound:
  assumes ok: "tree_ok t Ls" and two: "2 \<le> length Ls"
  shows "2 * (node_capacity t div 2 + 1) ^ (length Ls - 2) * (node_capacity t div 2) \<le> length (entries t (hd Ls))"
proof -
  have sh: "shape t Ls" using ok by (simp add: tree_ok_def)
  have "length (butlast Ls) \<noteq> 0" using two by simp
  then obtain Ls0 D where "butlast Ls = Ls0 @ [D]" by (cases "butlast Ls" rule: rev_cases) auto
  then have Ls: "Ls = rev (rev Ls0) @ D # [[root t]]" using shape_rev [OF sh] by simp
  have sh': "shape t (rev (rev Ls0) @ D # [[root t]])" using sh Ls by simp
  note k = shape_level [OF sh']
  have "keys (nd t (root t)) \<noteq> []" using ok Ls by (cases Ls0) (auto simp: tree_ok_def)
  then have "2 \<le> length (children (nd t (root t)))"
    using k(1) inode_ok_lengths by (cases "keys (nd t (root t))") (auto simp: knows_def)
  then have D: "2 \<le> length D" using k(1) by (simp add: knows_def)
  have "half t (concat (rev (rev Ls0) @ [D]))" using ok Ls by (simp add: tree_ok_def butlast_append)
  from level_entries [OF sh' this] have
    "length D * (node_capacity t div 2 + 1) ^ length Ls0 * (node_capacity t div 2) \<le> length (entries t (hd Ls))"
    using Ls by simp
  moreover have "2 * (node_capacity t div 2 + 1) ^ length Ls0 * (node_capacity t div 2) \<le>
      length D * (node_capacity t div 2 + 1) ^ length Ls0 * (node_capacity t div 2)"
    using D by (intro mult_le_mono1)
  moreover have "length Ls - 2 = length Ls0" using Ls by simp
  ultimately show ?thesis by (simp only:)
qed

section \<open>What holds of the code\<close>

text \<open>A sequence of calls; an exception ends it.\<close>

datatype bt_op = BtInsert u64 internal_id | BtRemove u64 internal_id

fun bt_run :: "bt_op list \<Rightarrow> btree \<Rightarrow> (exn option \<times> btree) option" where
  "bt_run [] t = Some (None, t)"
| "bt_run (BtInsert k v # ops) t = Option.bind (bt_insert t k v)
     (\<lambda>(e, t'). case e of None \<Rightarrow> bt_run ops t' | Some x \<Rightarrow> Some (Some x, t'))"
| "bt_run (BtRemove k v # ops) t = Option.bind (bt_remove t k v) (\<lambda>(_, t'). bt_run ops t')"

text \<open>The same sequence on a sorted list of pairs.\<close>

fun list_run :: "bt_op list \<Rightarrow> (u64 \<times> internal_id) list \<Rightarrow> (u64 \<times> internal_id) list" where
  "list_run [] es = es"
| "list_run (BtInsert k v # ops) es = list_run ops (insort_key fst (k, v) es)"
| "list_run (BtRemove k v # ops) es = list_run ops (remove1 (k, v) es)"

lemma bt_ok_tsize: "bt_ok t \<Longrightarrow> tsize t = length (bt_contents t)"
proof -
  assume "bt_ok t"
  then obtain Ls where ok: "tree_ok t Ls" by (auto simp: bt_ok_def)
  then show ?thesis using tree_ok_contents [OF ok] by (simp add: tree_ok_def)
qed

lemma bt_insert_error:
  assumes "bt_ok t" and "bt_insert t k v = Some (e, t')"
  shows "tsize t' = Suc (tsize t) \<and> (e = None \<or> e = Some LengthError \<and> max_nodes t \<le> length (nodes t'))"
proof -
  from assms(1) obtain Ls where "tree_ok t Ls" by (auto simp: bt_ok_def)
  from bt_insert_inserted [OF this, of k v] show ?thesis
    using assms(2) by (auto simp: inserted_def split: if_splits)
qed

lemma bt_run_contents:
  "bt_ok t \<Longrightarrow> \<exists>e t'. bt_run ops t = Some (e, t') \<and>
     (if e = None then bt_ok t' \<and> bt_contents t' = list_run ops (bt_contents t) else e = Some LengthError)"
proof (induction ops arbitrary: t)
  case (Cons op ops)
  show ?case
  proof (cases op)
    case (BtInsert k v)
    from bt.ins_ok [OF Cons.prems, of k v] obtain e t' where
      i: "bt_insert t k v = Some (e, t')" "e = None \<longrightarrow> bt_ok t'" "bt_contents t' = insort_key fst (k, v) (bt_contents t)"
      by blast
    show ?thesis
    proof (cases e)
      case None
      then have "bt_ok t'" using i(2) by simp
      from Cons.IH [OF this] obtain e' t'' where "bt_run ops t' = Some (e', t'')"
        "if e' = None then bt_ok t'' \<and> bt_contents t'' = list_run ops (bt_contents t') else e' = Some LengthError"
        by blast
      then show ?thesis using i(1,3) BtInsert None by (intro exI [of _ e'] exI [of _ t'']) simp
    next
      case (Some x)
      then show ?thesis using i bt_insert_error [OF Cons.prems i(1)] BtInsert by auto
    qed
  next
    case (BtRemove k v)
    from bt.del_ok [OF Cons.prems, of k v] obtain t' where
      d: "bt_remove t k v = Some ((k, v) \<in> set (bt_contents t), t')" "bt_ok t'" "bt_contents t' = remove1 (k, v) (bt_contents t)"
      by blast
    from Cons.IH [OF d(2)] obtain e' t'' where "bt_run ops t' = Some (e', t'')"
      "if e' = None then bt_ok t'' \<and> bt_contents t'' = list_run ops (bt_contents t') else e' = Some LengthError"
      by blast
    then show ?thesis using d BtRemove by (intro exI [of _ e'] exI [of _ t'']) simp
  qed
qed simp

text \<open>
  C5: any sequence of insertions and removals on a fresh tree of node capacity at least two
  returns, every range query afterwards emits exactly the pairs in range of the sequence run on
  a sorted list, in ascending order, and the size is their number; the only exception is the
  \<open>length_error\<close> that the full arena throws.
\<close>

theorem bt_run_refines_list:
  assumes "make_btree cap maxn = Inr t" and "2 \<le> cap"
  shows "\<exists>e t'. bt_run ops t = Some (e, t') \<and>
    (if e = None then (\<forall>lo hi. bt_range t' lo hi = Some (in_range lo hi (list_run ops []))) \<and>
        tsize t' = length (list_run ops [])
     else e = Some LengthError)"
proof -
  note ok = make_btree_ok [OF assms]
  then obtain e t' where r: "bt_run ops t = Some (e, t')"
    "if e = None then bt_ok t' \<and> bt_contents t' = list_run ops [] else e = Some LengthError"
    using bt_run_contents [of t ops] by auto
  then show ?thesis using bt.rng_ok [of t'] bt_ok_tsize [of t'] by (cases e) auto
qed

theorem bt_run_refines_list_witness:
  "\<exists>t e t'. make_btree 2 8 = Inr t \<and> bt_run [BtInsert 5 0, BtInsert 3 1, BtRemove 5 0] t = Some (e, t') \<and>
    (if e = None then (\<forall>lo hi. bt_range t' lo hi = Some (in_range lo hi (list_run [BtInsert 5 0, BtInsert 3 1, BtRemove 5 0] []))) \<and>
        tsize t' = length (list_run [BtInsert 5 0, BtInsert 3 1, BtRemove 5 0] [])
     else e = Some LengthError)"
proof -
  obtain t where t: "make_btree 2 8 = Inr t" by (simp add: make_btree_def new_leaf_def)
  show ?thesis using bt_run_refines_list [OF t, of "[BtInsert 5 0, BtInsert 3 1, BtRemove 5 0]"] t by auto
qed

text \<open>
  C21: an insertion always returns and adds exactly the pair, at its place in key order;
  when it throws, the arena is full, and the pair is in the tree all the same and every
  query answers with it.
\<close>

theorem bt_insert_exact:
  assumes "bt_ok t"
  shows "\<exists>e t'. bt_insert t k v = Some (e, t') \<and> tsize t' = Suc (tsize t) \<and>
    (\<forall>lo hi. bt_range t' lo hi = Some (in_range lo hi (insort_key fst (k, v) (bt_contents t)))) \<and>
    (if e = None then bt_ok t' else e = Some LengthError \<and> max_nodes t \<le> length (nodes t'))"
proof -
  from assms obtain Ls where ok: "tree_ok t Ls" by (auto simp: bt_ok_def)
  from bt_insert_inserted [OF ok, of k v] obtain e t' Ls' where
    i: "bt_insert t k v = Some (e, t')" "inserted t Ls k v e t' Ls'" by blast
  have "readable t' Ls' \<and> leaves_ok t' None (hd Ls')"
    using i(2) tree_ok_leaves by (cases e) (auto simp: inserted_def)
  then have "bt_range t' lo hi = Some (in_range lo hi (bt_contents t'))" for lo hi
    using bt_contents_entries by blast
  moreover have "bt_contents t' = insort_key fst (k, v) (bt_contents t)" using inserted_contents [OF ok i(2)] .
  moreover have "e = None \<Longrightarrow> bt_ok t'" using i(2) assms by (auto simp: bt_ok_def inserted_def)
  ultimately show ?thesis using i bt_insert_error [OF assms i(1)] by auto
qed

theorem bt_insert_exact_witness:
  "\<exists>t e t'. make_btree 2 1 = Inr t \<and> bt_insert t 5 7 = Some (e, t') \<and> tsize t' = Suc (tsize t) \<and>
    (\<forall>lo hi. bt_range t' lo hi = Some (in_range lo hi (insort_key fst (5, 7) (bt_contents t)))) \<and>
    (if e = None then bt_ok t' else e = Some LengthError \<and> max_nodes t \<le> length (nodes t'))"
proof -
  obtain t where t: "make_btree 2 1 = Inr t" by (simp add: make_btree_def new_leaf_def)
  have "bt_ok t" using make_btree_ok [OF t] by simp
  from bt_insert_exact [OF this, of 5 7] show ?thesis using t by blast
qed

text \<open>
  C22: a removal always returns, tells whether the pair was present, takes out one copy of
  exactly this pair, and leaves a tree in which every query is exact.
\<close>

theorem bt_remove_exact:
  assumes "bt_ok t"
  shows "\<exists>t'. bt_remove t k v = Some ((k, v) \<in> set (bt_contents t), t') \<and> bt_ok t' \<and>
    (\<forall>lo hi. bt_range t' lo hi = Some (in_range lo hi (remove1 (k, v) (bt_contents t)))) \<and>
    tsize t' = length (remove1 (k, v) (bt_contents t))"
proof -
  from bt.del_ok [OF assms, of k v] obtain t' where
    d: "bt_remove t k v = Some ((k, v) \<in> set (bt_contents t), t')" "bt_ok t'" "bt_contents t' = remove1 (k, v) (bt_contents t)"
    by blast
  then show ?thesis using bt.rng_ok [OF d(2)] bt_ok_tsize [OF d(2)] by auto
qed

theorem bt_remove_exact_witness:
  "\<exists>t t'. make_btree 2 8 = Inr t \<and>
    bt_remove t 5 7 = Some ((5, 7) \<in> set (bt_contents t), t') \<and> bt_ok t' \<and>
    (\<forall>lo hi. bt_range t' lo hi = Some (in_range lo hi (remove1 (5, 7) (bt_contents t)))) \<and>
    tsize t' = length (remove1 (5, 7) (bt_contents t))"
proof -
  obtain t where t: "make_btree 2 8 = Inr t" by (simp add: make_btree_def new_leaf_def)
  have "bt_ok t" using make_btree_ok [OF t] by simp
  from bt_remove_exact [OF this, of 5 7] show ?thesis using t by blast
qed

text \<open>
  C23: between the two steps of a split, when no parent knows the new leaf yet, a range query
  already answers with all entries, those moved to the new leaf and the inserted one included.
\<close>

theorem range_during_split:
  assumes "bt_ok t" and "descend_locked t (root t) k = Some cur"
    and "split_leaf (leaf_insert t cur k v) cur = Inr ((right, sep), t2)"
    and "2 \<le> length (keys (nd (leaf_insert t cur k v) cur))"
  shows "bt_range t2 lo hi = Some (in_range lo hi (insort_key fst (k, v) (bt_contents t)))"
proof -
  from assms(1) obtain Ls where ok: "tree_ok t Ls" by (auto simp: bt_ok_def)
  then have shp: "shape t Ls" by (simp add: tree_ok_def)
  then obtain D Us where Ls: "Ls = D # Us" by (cases Ls) (auto simp: shape_def base_def)
  from descend_readable [OF shape_readable [OF shp], of k] Ls assms(2) obtain A B where
    D: "D = A @ cur # B" and A: "passed t k A" and x: "hi_ok (hk t cur) k" by auto
  note S = leaf_insert_shape [OF shp [unfolded Ls] D A x, of v]
  note P = split_leaf_pend [OF conjunct1 [OF S] D assms(3,4)]
  then have p: "pend t2 [A @ cur # right # B] Us cur right" by blast
  have "bt_range t2 lo hi = Some (in_range lo hi (entries t2 (A @ cur # right # B)))"
    using bt_range_readable [OF pend_readable [OF p]] pend_leaves_ok [OF p] by simp
  moreover have "entries t2 (A @ cur # right # B) = insort_key fst (k, v) (bt_contents t)"
    using P S tree_ok_contents [OF ok] Ls by simp
  ultimately show ?thesis by metis
qed

theorem range_during_split_witness:
  "\<exists>t t2. (\<exists>t0. make_btree 2 8 = Inr t0 \<and> bt_insert t0 5 7 = Some (None, t)) \<and>
    split_leaf (leaf_insert t 0 3 9) 0 = Inr ((1, 3), t2) \<and>
    bt_range t2 1 6 = Some (in_range 1 6 (insort_key fst (3, 9) (bt_contents t)))"
proof -
  let ?e = "\<lparr>nodes = [new_node], root = 0, tsize = 0, node_capacity = 2, max_nodes = 8\<rparr>"
  let ?t = "\<lparr>nodes = [new_node\<lparr>keys := [5], vals := [7]\<rparr>], root = 0, tsize = 1, node_capacity = 2, max_nodes = 8\<rparr>"
  have t0: "make_btree 2 8 = Inr ?e" by code_simp
  have t: "bt_insert ?e 5 7 = Some (None, ?t)" by code_simp
  have "bt_ok ?e" using make_btree_ok [OF t0] by simp
  then have ok: "bt_ok ?t" using bt.ins_ok [of ?e 5 7] t by auto
  have d: "descend_locked ?t (root ?t) 3 = Some 0" by code_simp
  have k: "2 \<le> length (keys (nd (leaf_insert ?t 0 3 9) 0))" by code_simp
  have "\<exists>t2. split_leaf (leaf_insert ?t 0 3 9) 0 = Inr ((1, 3), t2)"
    by (simp add: split_leaf_def new_leaf_def leaf_insert_def nd_def new_node_def upd_node_def insert_at_def
        lower_bound_def Let_def)
  then obtain t2 where s: "split_leaf (leaf_insert ?t 0 3 9) 0 = Inr ((1, 3), t2)" by blast
  from range_during_split [OF ok d s k, of 1 6] show ?thesis using t0 t s by blast
qed

text \<open>
  C24: the tree is balanced. Every way from the root down has at most as many nodes as the height
  that the code reports along its leftmost way, ends in a leaf just when it has that many and can
  be continued when it has fewer; so all leaves are equally deep. A tree of height \<open>h > 1\<close> holds
  at least \<open>2 (m + 1)^(h - 2) m\<close> entries, for \<open>m\<close> half the node capacity.
\<close>

theorem bt_height_bound:
  assumes "bt_ok t"
  shows "\<exists>h. bt_height t = Some h \<and> 1 \<le> h \<and> balanced t h \<and>
    (h = 1 \<or> 2 * (node_capacity t div 2 + 1) ^ (h - 2) * (node_capacity t div 2) \<le> tsize t)"
proof -
  from assms obtain Ls where ok: "tree_ok t Ls" by (auto simp: bt_ok_def)
  then have sh: "shape t Ls" by (simp add: tree_ok_def)
  then have "Ls \<noteq> []" by (simp add: shape_def base_def)
  then have l: "1 \<le> length Ls" by (cases Ls) auto
  then have "length Ls = 1 \<or> 2 * (node_capacity t div 2 + 1) ^ (length Ls - 2) * (node_capacity t div 2) \<le> tsize t"
    using tree_size_bound [OF ok] ok by (cases "length Ls = 1") (auto simp: tree_ok_def)
  then show ?thesis using tree_height [OF sh] tree_balanced [OF sh] l by blast
qed

text \<open>A tree of height two, with four entries in two leaves.\<close>

theorem bt_height_bound_witness:
  "\<exists>t0 t. make_btree 2 8 = Inr t0 \<and> bt_run [BtInsert 1 1, BtInsert 2 2, BtInsert 3 3, BtInsert 4 4] t0 = Some (None, t) \<and>
    bt_height t = Some 2 \<and> balanced t 2 \<and> length (children (nd t (root t))) = 2"
proof -
  let ?ops = "[BtInsert 1 1, BtInsert 2 2, BtInsert 3 3, BtInsert 4 4]"
  obtain t0 where t0: "make_btree 2 8 = Inr t0" by (simp add: make_btree_def new_leaf_def)
  have "(case make_btree 2 8 of Inr t \<Rightarrow> Option.bind (bt_run ?ops t) (\<lambda>(e, t). Some (e, bt_height t, length (children (nd t (root t)))))) =
      Some (None, Some 2, 2)" by code_simp
  then obtain t where t: "bt_run ?ops t0 = Some (None, t)" "bt_height t = Some 2" "length (children (nd t (root t))) = 2"
    by (auto simp: t0 bind_eq_Some_conv)
  have "bt_ok t0" using make_btree_ok [OF t0] by simp
  then have "bt_ok t" using bt_run_contents [of t0 ?ops] t(1) by auto
  from bt_height_bound [OF this] show ?thesis using t0 t by auto
qed

lemma bt_insert_room:
  assumes "bt_ok t" and "bt_height t = Some h" and "length (nodes t) + h + 1 < max_nodes t"
  shows "\<exists>t'. bt_insert t k v = Some (None, t') \<and> length (nodes t') \<le> length (nodes t) + h + 1"
proof -
  from assms(1) obtain Ls where ok: "tree_ok t Ls" by (auto simp: bt_ok_def)
  then have "length Ls = h" using tree_height assms(2) by (auto simp: tree_ok_def)
  then show ?thesis using bt_insert_inserted [OF ok, of k v] assms(3)
    by (auto simp: inserted_def split: if_splits)
qed

text \<open>
  An insertion throws only when the arena is nearly full: it uses at most one new node
  for every level and one for a new root, and with room for these it succeeds.
\<close>

theorem bt_insert_no_throw:
  assumes "bt_ok t" and "bt_height t = Some h" and "length (nodes t) + h + 1 < max_nodes t"
  shows "\<exists>t'. bt_insert t k v = Some (None, t') \<and> length (nodes t') \<le> length (nodes t) + h + 1"
  by (rule bt_insert_room [OF assms])

theorem bt_insert_no_throw_witness:
  "\<exists>t t'. make_btree 2 8 = Inr t \<and> bt_insert t 5 7 = Some (None, t') \<and> length (nodes t') \<le> length (nodes t) + 1 + 1"
proof -
  obtain t where t: "make_btree 2 8 = Inr t" by (simp add: make_btree_def new_leaf_def)
  note ok = make_btree_ok [OF t]
  have "bt_ok t" "bt_height t = Some 1" "length (nodes t) + 1 + 1 < max_nodes t" using ok by auto
  from bt_insert_no_throw [OF this, of 5 7] show ?thesis using t by blast
qed

text \<open>
  The capacity of at least two that \<open>bt_ok\<close> asks for is needed: with capacity one a leaf may
  become empty, and the search for a pair stops there although a later leaf holds it.
\<close>

lemma remove_misses_with_capacity_one:
  "Option.bind (bt_run [BtInsert 5 1, BtInsert 5 2, BtInsert 5 3, BtRemove 5 2]
      (case make_btree 1 64 of Inr t \<Rightarrow> t))
    (\<lambda>(_, t). Option.bind (bt_remove t 5 1) (\<lambda>(found, t'). Some (found, bt_contents t'))) =
   Some (False, [(5, 3), (5, 1)])"
  by code_simp

end
