(* ===== verification/Serialize.thy ===== *)
theory Serialize
  imports Prelude
begin

text \<open>
  \<open>include/serialize.h\<close>: little-endian serialization and the bounds-checked \<open>Reader\<close>.
  \<open>put\<close> appends the bytes of an integer to a buffer; a \<open>Reader\<close> is the bytes between its
  cursor and its end, and a read past the end is the exception \<open>RuntimeError\<close>. Lengths are
  compared as natural numbers: the code's test \<open>p_ + n > end_\<close> is on pointers and can wrap for a
  corrupt \<open>n\<close> near \<open>2 ^ 64\<close>, where it would read on; the model throws.

  The locale \<open>codec\<close> is the contract every writer/reader pair of the code has: reading
  what was written gives it back and stops where the writing stopped, and no proper prefix
  of a written value is accepted.
\<close>

section \<open>Fixed-width values\<close>

definition word_bytes :: "'a::len word \<Rightarrow> bytes" where
  "word_bytes w = map (\<lambda>i. ucast (drop_bit (8 * i) w)) [0..<LENGTH('a) div 8]"

fun word_of_bytes :: "bytes \<Rightarrow> 'a::len word" where
  "word_of_bytes [] = 0"
| "word_of_bytes (b # bs) = ucast b OR push_bit 8 (word_of_bytes bs)"

definition put :: "bytes \<Rightarrow> 'a::len word \<Rightarrow> bytes" where
  "put buf v = buf @ word_bytes v"

definition get :: "bytes \<Rightarrow> ('a::len word \<times> bytes) res" where
  "get r = (let n = LENGTH('a) div 8 in
     if length r < n then Inl RuntimeError
     else Inr (word_of_bytes (take n r), drop n r))"

section \<open>Length-prefixed values\<close>

text \<open>A \<open>float\<close> is its 32 raw bits.\<close>

type_synonym float32 = u32

definition put_floats :: "bytes \<Rightarrow> float32 list \<Rightarrow> bytes" where
  "put_floats buf v = put buf (of_nat (length v) :: u64) @ concat (map word_bytes v)"

definition put_bytes :: "bytes \<Rightarrow> bytes \<Rightarrow> bytes" where
  "put_bytes buf v = put buf (of_nat (length v) :: u64) @ v"

definition put_string :: "bytes \<Rightarrow> bytes \<Rightarrow> bytes" where
  "put_string buf s = put buf (of_nat (length s) :: u64) @ s"

text \<open>The first \<open>n\<close> elements, read one after the other.\<close>

fun get_many :: "nat \<Rightarrow> (bytes \<Rightarrow> ('a \<times> bytes) res) \<Rightarrow> bytes \<Rightarrow> ('a list \<times> bytes) res" where
  "get_many 0 g r = Inr ([], r)"
| "get_many (Suc n) g r =
     bind_res (g r) (\<lambda>(x, r'). bind_res (get_many n g r') (\<lambda>(xs, r''). Inr (x # xs, r'')))"

text \<open>
  \<open>std::vector<float> v(n)\<close> throws \<open>length_error\<close> when \<open>n\<close> exceeds the vector's
  \<open>max_size\<close>, \<open>2 ^ 61 - 1\<close> floats, before \<open>n * sizeof(float)\<close> could wrap.
\<close>

definition max_floats :: nat where
  "max_floats = 2 ^ 61 - 1"

definition get_floats :: "bytes \<Rightarrow> (float32 list \<times> bytes) res" where
  "get_floats r = bind_res (get r) (\<lambda>(n :: u64, r1).
     if max_floats < unat n then Inl LengthError
     else if length r1 < 4 * unat n then Inl RuntimeError
     else get_many (unat n) get r1)"

definition get_bytes :: "bytes \<Rightarrow> (bytes \<times> bytes) res" where
  "get_bytes r = bind_res (get r) (\<lambda>(n :: u64, r1).
     if length r1 < unat n then Inl RuntimeError
     else Inr (take (unat n) r1, drop (unat n) r1))"

definition get_string :: "bytes \<Rightarrow> (bytes \<times> bytes) res" where
  "get_string r = bind_res (get r) (\<lambda>(n :: u64, r1).
     if length r1 < unat n then Inl RuntimeError
     else Inr (take (unat n) r1, drop (unat n) r1))"

section \<open>The contract of a writer and its reader\<close>

text \<open>A proper prefix of a concatenation ends in the first part or in the second.\<close>

lemma prefix_of_append:
  assumes "p = take (length p) (a @ b)" and "length p < length (a @ b)"
  shows "length p < length a \<and> p = take (length p) a \<or>
    (\<exists>q. p = a @ q \<and> length q < length b \<and> q = take (length q) b)"
proof (cases "length p < length a")
  case False
  define q where "q = take (length p - length a) b"
  have "p = a @ q" using assms(1) False by (simp add: q_def)
  moreover have "length q < length b" using False assms(2) by (auto simp: q_def)
  moreover have "q = take (length q) b" by (simp add: q_def min_def)
  ultimately show ?thesis by blast
qed (use assms in simp)

locale codec =
  fixes enc :: "'a \<Rightarrow> bytes"
    and dec :: "bytes \<Rightarrow> ('a \<times> bytes) res"
    and ok :: "'a \<Rightarrow> bool"
  assumes dec_enc: "ok x \<Longrightarrow> dec (enc x @ rest) = Inr (x, rest)"
    and dec_short: "ok x \<Longrightarrow> length p < length (enc x) \<Longrightarrow> p = take (length p) (enc x) \<Longrightarrow> \<exists>e. dec p = Inl e"
begin

lemma dec_enc_exact: "ok x \<Longrightarrow> dec (enc x) = Inr (x, [])"
  using dec_enc [of x "[]"] by simp

lemma enc_inject:
  assumes "ok x" and "ok y" and "enc x @ r = enc y @ s"
  shows "x = y \<and> r = s"
proof -
  have "Inr (x, r) = dec (enc x @ r)" using assms(1) by (rule dec_enc [symmetric])
  also have "\<dots> = Inr (y, s)" unfolding assms(3) using assms(2) by (rule dec_enc)
  finally show ?thesis by simp
qed

lemma get_many_enc:
  "\<forall>x \<in> set xs. ok x \<Longrightarrow> get_many (length xs) dec (concat (map enc xs) @ rest) = Inr (xs, rest)"
  by (induction xs) (simp_all add: dec_enc)

lemma get_many_short:
  "\<forall>x \<in> set xs. ok x \<Longrightarrow> length p < length (concat (map enc xs)) \<Longrightarrow>
    p = take (length p) (concat (map enc xs)) \<Longrightarrow> \<exists>e. get_many (length xs) dec p = Inl e"
proof (induction xs arbitrary: p)
  case (Cons x xs)
  from Cons.prems have "length p < length (enc x) \<and> p = take (length p) (enc x) \<or>
      (\<exists>q. p = enc x @ q \<and> length q < length (concat (map enc xs)) \<and> q = take (length q) (concat (map enc xs)))"
    by (intro prefix_of_append) simp_all
  then show ?case
  proof (elim disjE exE conjE)
    assume "length p < length (enc x)" and "p = take (length p) (enc x)"
    then show ?thesis using dec_short Cons.prems(1) by fastforce
  next
    fix q
    assume "p = enc x @ q" and "length q < length (concat (map enc xs))" "q = take (length q) (concat (map enc xs))"
    then show ?thesis using Cons.IH [of q] Cons.prems(1) by (auto simp: dec_enc)
  qed
qed simp

end

section \<open>Fixed-width values satisfy it\<close>

lemma length_word_bytes [simp]: "length (word_bytes (w :: 'a::len word)) = LENGTH('a) div 8"
  by (simp add: word_bytes_def)

lemma bit_word_of_bytes:
  "bit (word_of_bytes bs :: 'a::len word) n \<longleftrightarrow>
     n < LENGTH('a) \<and> n div 8 < length bs \<and> bit (bs ! (n div 8)) (n mod 8)"
proof (induction bs arbitrary: n)
  case (Cons b bs)
  show ?case
  proof (cases "n < 8")
    case True
    then show ?thesis by (auto simp: bit_or_iff bit_ucast_iff bit_push_bit_iff)
  next
    case False
    then have "n div 8 = Suc ((n - 8) div 8)" "n mod 8 = (n - 8) mod 8"
      by (simp_all add: le_div_geq le_mod_geq)
    moreover have "\<not> bit b n" using False bit_imp_le_length [of b n] by auto
    ultimately show ?thesis using False
      by (auto simp: bit_or_iff bit_ucast_iff bit_push_bit_iff Cons.IH)
  qed
qed simp

lemma word_of_word_bytes:
  assumes "8 dvd LENGTH('a::len)"
  shows "word_of_bytes (word_bytes (w :: 'a word)) = w"
proof (rule bit_word_eqI)
  fix n assume n: "n < LENGTH('a)"
  then have "n div 8 < LENGTH('a) div 8"
    using assms by (intro less_mult_imp_div_less) simp
  moreover have "8 * (n div 8) + n mod 8 = n" by simp
  ultimately show "bit (word_of_bytes (word_bytes w) :: 'a word) n = bit w n"
    using n by (simp add: bit_word_of_bytes word_bytes_def bit_ucast_iff bit_drop_bit_eq)
qed

lemma codec_word:
  assumes "8 dvd LENGTH('a::len)"
  shows "codec word_bytes (get :: bytes \<Rightarrow> ('a word \<times> bytes) res) (\<lambda>_. True)"
  by unfold_locales (use word_of_word_bytes [OF assms] in \<open>auto simp: get_def Let_def\<close>)

interpretation u8c: codec word_bytes "get :: bytes \<Rightarrow> (u8 \<times> bytes) res" "\<lambda>_. True"
  by (rule codec_word) simp

interpretation u16c: codec word_bytes "get :: bytes \<Rightarrow> (u16 \<times> bytes) res" "\<lambda>_. True"
  by (rule codec_word) simp

interpretation u32c: codec word_bytes "get :: bytes \<Rightarrow> (u32 \<times> bytes) res" "\<lambda>_. True"
  by (rule codec_word) simp

interpretation u64c: codec word_bytes "get :: bytes \<Rightarrow> (u64 \<times> bytes) res" "\<lambda>_. True"
  by (rule codec_word) simp

section \<open>Length-prefixed values satisfy it\<close>

lemma foldl_appends: "(\<And>b x. f b x = b @ g x) \<Longrightarrow> foldl f buf xs = buf @ concat (map g xs)"
  by (induction xs arbitrary: buf) simp_all

lemma put_append: "put buf v = buf @ put [] v"
  and put_floats_append: "put_floats buf fs = buf @ put_floats [] fs"
  and put_bytes_append: "put_bytes buf bs = buf @ put_bytes [] bs"
  and put_string_append: "put_string buf bs = buf @ put_string [] bs"
  by (simp_all add: put_def put_floats_def put_bytes_def put_string_def)

lemma unat_of_nat_64: "n < 2 ^ 64 \<Longrightarrow> unat (of_nat n :: u64) = n"
  using take_bit_nat_eq_self [of n 64] by (simp add: unsigned_of_nat)

lemma get_short: "length p < LENGTH('a::len) div 8 \<Longrightarrow> (get p :: ('a word \<times> bytes) res) = Inl RuntimeError"
  by (simp add: get_def Let_def)

text \<open>A proper prefix of a length header and its body misses part of the header or of the body.\<close>

lemma prefix_of_header:
  assumes "p = take (length p) (word_bytes (n :: u64) @ body)" and "length p < 8 + length body"
  shows "length p < 8 \<or> (\<exists>q. p = word_bytes n @ q \<and> length q < length body)"
proof (cases "length p < 8")
  case False
  then have "p = word_bytes n @ take (length p - 8) body" using assms(1) by simp
  moreover have "length (take (length p - 8) body) < length body" using False assms(2) by auto
  ultimately show ?thesis by blast
qed simp

lemma codec_put_floats: "codec (put_floats []) get_floats (\<lambda>v. length v \<le> max_floats)"
proof unfold_locales
  fix v :: "float32 list" and rest
  assume ok: "length v \<le> max_floats"
  then have n: "unat (of_nat (length v) :: u64) = length v"
    by (intro unat_of_nat_64) (simp add: max_floats_def)
  have "length (concat (map word_bytes v)) = 4 * length v" by (induction v) simp_all
  then show "get_floats (put_floats [] v @ rest) = Inr (v, rest)"
    using u32c.get_many_enc [of v rest] ok by (simp add: get_floats_def put_floats_def put_def u64c.dec_enc n)
next
  fix v :: "float32 list" and p
  assume ok: "length v \<le> max_floats"
    and len: "length p < length (put_floats [] v)" and p: "p = take (length p) (put_floats [] v)"
  have n: "unat (of_nat (length v) :: u64) = length v"
    using ok by (intro unat_of_nat_64) (simp add: max_floats_def)
  have body: "length (concat (map word_bytes v)) = 4 * length v" by (induction v) simp_all
  from p len have "length p < 8 \<or>
      (\<exists>q. p = word_bytes (of_nat (length v) :: u64) @ q \<and> length q < length (concat (map word_bytes v)))"
    by (intro prefix_of_header) (simp_all add: put_floats_def put_def)
  then show "\<exists>e. get_floats p = Inl e"
    by (auto simp: get_floats_def get_short u64c.dec_enc n body)
qed

lemma codec_put_bytes: "codec (put_bytes []) get_bytes (\<lambda>v. length v < 2 ^ 64)"
proof unfold_locales
  show "get_bytes (put_bytes [] v @ rest) = Inr (v, rest)" if "length v < 2 ^ 64" for v rest
    using that by (simp add: get_bytes_def put_bytes_def put_def u64c.dec_enc unat_of_nat_64)
next
  fix v p :: bytes
  assume ok: "length v < 2 ^ 64"
    and len: "length p < length (put_bytes [] v)" and p: "p = take (length p) (put_bytes [] v)"
  from p len have "length p < 8 \<or> (\<exists>q. p = word_bytes (of_nat (length v) :: u64) @ q \<and> length q < length v)"
    by (intro prefix_of_header) (simp_all add: put_bytes_def put_def)
  then show "\<exists>e. get_bytes p = Inl e"
    using ok by (auto simp: get_bytes_def get_short u64c.dec_enc unat_of_nat_64)
qed

lemma get_string_bytes: "get_string = get_bytes"
  by (rule ext) (simp add: get_string_def get_bytes_def)

lemma put_string_bytes: "put_string = put_bytes"
  by (intro ext) (simp add: put_string_def put_bytes_def)

interpretation floatsc: codec "put_floats []" get_floats "\<lambda>v. length v \<le> max_floats"
  by (rule codec_put_floats)

interpretation bytesc: codec "put_bytes []" get_bytes "\<lambda>v. length v < 2 ^ 64"
  by (rule codec_put_bytes)

interpretation stringc: codec "put_string []" get_string "\<lambda>v. length v < 2 ^ 64"
  unfolding get_string_bytes put_string_bytes by (rule codec_put_bytes)

text \<open>
  A vector of floats written after any buffer content is read back exactly, whatever
  follows it, and a file cut anywhere inside it is an error.
\<close>

theorem floats_roundtrip:
  assumes "length v \<le> max_floats"
  shows "get_floats (drop (length buf) (put_floats buf v @ rest)) = Inr (v, rest) \<and>
    (\<forall>k < length (put_floats [] v). \<exists>e. get_floats (take k (put_floats [] v)) = Inl e)"
  using assms floatsc.dec_enc [OF assms, of rest] floatsc.dec_short [OF assms]
  by (simp add: put_floats_append [of buf])

theorem floats_roundtrip_witness:
  "get_floats (drop (length [7 :: u8]) (put_floats [7] [1, 2] @ [9])) = Inr ([1, 2], [9])"
proof -
  have ok: "length [1, 2 :: float32] \<le> max_floats" by (simp add: max_floats_def)
  show ?thesis using floats_roundtrip [OF ok, of "[7]" "[9]"] by blast
qed

end
