(* ===== verification/Values.thy ===== *)
theory Values
  imports Serialize
begin

text \<open>
  The data of \<open>include/metadata.h\<close> at the API boundary: attribute types, attribute values,
  the metadata record of a row, the declared schema and a filter predicate. A string is the
  list of its bytes; the \<open>uint64_t\<close> of a value holds an integer, a double or a Boolean.
\<close>

datatype attr_type = Null | Int64 | Float64 | Bool | Tag | Text

text \<open>The enumerators' values; \<open>attr_type_of\<close> is the \<open>switch\<close> over a byte read from a file.\<close>

definition attr_code :: "attr_type \<Rightarrow> u8" where
  "attr_code t = (case t of Null \<Rightarrow> 0 | Int64 \<Rightarrow> 1 | Float64 \<Rightarrow> 2 | Bool \<Rightarrow> 3 | Tag \<Rightarrow> 4 | Text \<Rightarrow> 5)"

definition attr_type_of :: "u8 \<Rightarrow> attr_type option" where
  "attr_type_of b = (if b = 0 then Some Null else if b = 1 then Some Int64 else if b = 2 then Some Float64
     else if b = 3 then Some Bool else if b = 4 then Some Tag else if b = 5 then Some Text else None)"

lemma attr_type_of_code [simp]: "attr_type_of (attr_code t) = Some t"
  by (cases t) (simp_all add: attr_type_of_def attr_code_def)

record attr_spec =
  attr_name :: bytes
  attr_kind :: attr_type
  indexed :: bool

record attr_value =
  vtype :: attr_type
  raw :: u64
  vtext :: bytes

definition attr_null :: attr_value where
  "attr_null = \<lparr>vtype = Null, raw = 0, vtext = []\<rparr>"

definition attr_int :: "u64 \<Rightarrow> attr_value" where
  "attr_int v = \<lparr>vtype = Int64, raw = v, vtext = []\<rparr>"

definition attr_float :: "u64 \<Rightarrow> attr_value" where
  "attr_float v = \<lparr>vtype = Float64, raw = v, vtext = []\<rparr>"

definition attr_bool :: "bool \<Rightarrow> attr_value" where
  "attr_bool v = \<lparr>vtype = Bool, raw = (if v then 1 else 0), vtext = []\<rparr>"

definition attr_tag :: "bytes \<Rightarrow> attr_value" where
  "attr_tag v = \<lparr>vtype = Tag, raw = 0, vtext = v\<rparr>"

definition attr_text :: "bytes \<Rightarrow> attr_value" where
  "attr_text v = \<lparr>vtype = Text, raw = 0, vtext = v\<rparr>"

record meta_record =
  attrs :: "attr_value list"
  payload :: bytes

definition empty_meta :: meta_record where
  "empty_meta = \<lparr>attrs = [], payload = []\<rparr>"

definition meta_empty :: "meta_record \<Rightarrow> bool" where
  "meta_empty m \<longleftrightarrow> attrs m = [] \<and> payload m = []"

datatype pred_kind = Eq | Range

record predicate =
  pattr :: nat
  pkind :: pred_kind
  eq_value :: attr_value
  lo_value :: attr_value
  hi_value :: attr_value

definition pred_eq :: "nat \<Rightarrow> attr_value \<Rightarrow> predicate" where
  "pred_eq a v = \<lparr>pattr = a, pkind = Eq, eq_value = v, lo_value = attr_null, hi_value = attr_null\<rparr>"

definition pred_range :: "nat \<Rightarrow> attr_value \<Rightarrow> attr_value \<Rightarrow> predicate" where
  "pred_range a lo hi = \<lparr>pattr = a, pkind = Range, eq_value = attr_null, lo_value = lo, hi_value = hi\<rparr>"

text \<open>A value whose fields are those its constructor function sets; what a round trip preserves.\<close>

definition value_canonical :: "attr_value \<Rightarrow> bool" where
  "value_canonical v \<longleftrightarrow> (case vtype v of
     Null \<Rightarrow> raw v = 0 \<and> vtext v = []
   | Tag \<Rightarrow> raw v = 0
   | Text \<Rightarrow> raw v = 0
   | _ \<Rightarrow> vtext v = [])"

lemma constructors_canonical [simp]:
  "value_canonical attr_null" "value_canonical (attr_int i)" "value_canonical (attr_float d)"
  "value_canonical (attr_bool b)" "value_canonical (attr_tag s)" "value_canonical (attr_text s)"
  by (simp_all add: value_canonical_def attr_null_def attr_int_def attr_float_def attr_bool_def
      attr_tag_def attr_text_def)

end
