(* ===== verification/Crc32c.thy ===== *)
theory Crc32c
  imports Prelude
begin

text \<open>
  \<open>src/crc32c.cpp\<close>: the table-driven CRC32C (Castagnoli) of the write-ahead log, its
  equality with the bit-serial definition of the checksum, and its power to detect errors:
  a change confined to four consecutive bytes always changes the checksum.
\<close>

section \<open>The code\<close>

definition kPoly :: u32 where
  "kPoly = 0x82F63B78"

definition crc_bit :: "u32 \<Rightarrow> u32" where
  "crc_bit crc = (if crc AND 1 \<noteq> 0 then drop_bit 1 crc XOR kPoly else drop_bit 1 crc)"

definition kTable :: "u32 list" where
  "kTable = map (\<lambda>i. (crc_bit ^^ 8) (of_nat i)) [0..<256]"

definition crc_update :: "u32 \<Rightarrow> u8 \<Rightarrow> u32" where
  "crc_update crc b = kTable ! unat ((crc XOR ucast b) AND 0xFF) XOR drop_bit 8 crc"

definition crc32c :: "bytes \<Rightarrow> u32" where
  "crc32c data = foldl crc_update 0xFFFFFFFF data XOR 0xFFFFFFFF"

section \<open>Linearity and injectivity of the register steps\<close>

lemma crc_bit_odd: "crc_bit c = (if odd c then drop_bit 1 c XOR kPoly else drop_bit 1 c)"
  by (simp add: crc_bit_def and_one_eq odd_iff_mod_2_eq_one)

lemma bit_crc_bit: "bit (crc_bit c) n \<longleftrightarrow> (bit c (Suc n) \<noteq> (odd c \<and> bit kPoly n))"
  by (simp add: crc_bit_odd bit_xor_iff bit_drop_bit_eq)

lemma crc_bit_xor: "crc_bit (a XOR b) = crc_bit a XOR crc_bit b"
  by (rule bit_eqI) (auto simp: bit_crc_bit bit_xor_iff even_xor_iff)

lemma crc_bits_xor: "(crc_bit ^^ n) (a XOR b) = (crc_bit ^^ n) a XOR (crc_bit ^^ n) b"
  by (induction n) (simp_all add: crc_bit_xor)

lemma xor_eq_0: "(a::'a::len word) XOR b = 0 \<longleftrightarrow> a = b"
proof
  assume "a XOR b = 0"
  then have "\<forall>n. \<not> bit (a XOR b) n" by simp
  then show "a = b" by (intro bit_eqI) (simp add: bit_xor_iff)
qed simp

lemma crc_bit_eq_0: 
  assumes "crc_bit c = 0"
  shows "c = 0"
proof -
  have *: "bit c (Suc n) \<longleftrightarrow> odd c \<and> bit kPoly n" for n
    using bit_crc_bit [of c n] assms by simp
  have "bit kPoly 31" by (simp add: kPoly_def)
  moreover have "\<not> bit c 32" using bit_imp_le_length [of c 32] by auto
  ultimately have "even c" using * [of 31] by simp
  show ?thesis
  proof (rule bit_eqI)
    show "bit c n = bit 0 n" for n
      using * \<open>even c\<close> by (cases n) (simp_all add: bit_0)
  qed
qed

lemma crc_bits_eq_0: "(crc_bit ^^ n) c = 0 \<Longrightarrow> c = 0"
  by (induction n) (auto dest: crc_bit_eq_0)

lemma xor_right_inject: "a XOR x = b XOR x \<longleftrightarrow> a = b" for a b x :: "'a::len word"
  unfolding bit_eq_iff bit_xor_iff by blast

lemma crc_bits_inject: "(crc_bit ^^ n) a = (crc_bit ^^ n) b \<longleftrightarrow> a = b"
  by (metis crc_bits_eq_0 crc_bits_xor xor_eq_0)

lemma crc_bits_high:
  "\<forall>k < n. \<not> bit c k \<Longrightarrow> (crc_bit ^^ n) c = drop_bit n c"
proof (induction n arbitrary: c)
  case (Suc n)
  have "even c" using Suc.prems by (auto simp: bit_0)
  then have "crc_bit c = drop_bit 1 c" by (simp add: crc_bit_odd)
  moreover have "\<forall>k < n. \<not> bit (drop_bit 1 c) k" using Suc.prems by (simp add: bit_drop_bit_eq)
  ultimately have "(crc_bit ^^ n) (crc_bit c) = drop_bit n (drop_bit 1 c)" using Suc.IH by simp
  then show ?case by (simp add: funpow_swap1)
qed simp

section \<open>The table is the bit-serial definition\<close>

lemma and_ff: "x AND 0xFF = take_bit 8 x" for x :: u32
proof -
  have "(0xFF :: u32) = mask 8" by (simp add: mask_eq_exp_minus_1)
  then show ?thesis by (simp only: take_bit_eq_mask)
qed

lemma unat_take_bit_8: "unat (take_bit 8 x) < 256" for x :: u32
  using take_bit_nat_less_exp [of 8 "unat x"] by (simp add: unsigned_take_bit_eq)

lemma kTable_nth: "kTable ! unat (take_bit 8 x) = (crc_bit ^^ 8) (take_bit 8 x)" for x :: u32
  using unat_take_bit_8 [of x] by (simp add: kTable_def)

lemma take_drop_xor: "x = take_bit 8 x XOR (x AND NOT (mask 8))" for x :: u32
  by (rule bit_eqI) (auto simp: bit_xor_iff bit_and_iff bit_not_iff bit_take_bit_iff bit_mask_iff)

lemma crc_update_bits: "crc_update crc b = (crc_bit ^^ 8) (crc XOR ucast b)"
proof -
  define x where "x = crc XOR ucast b"
  define h where "h = x AND NOT (mask 8)"
  have "x = take_bit 8 x XOR h" using take_drop_xor [of x] by (simp only: h_def)
  then have "(crc_bit ^^ 8) x = (crc_bit ^^ 8) (take_bit 8 x) XOR (crc_bit ^^ 8) h"
    by (metis crc_bits_xor)
  also have "(crc_bit ^^ 8) h = drop_bit 8 h"
    by (rule crc_bits_high) (simp add: h_def bit_and_iff bit_not_iff bit_mask_iff)
  also have "drop_bit 8 h = drop_bit 8 crc"
    by (rule bit_eqI)
      (auto simp: h_def x_def bit_drop_bit_eq bit_and_iff bit_not_iff bit_mask_iff bit_xor_iff
        bit_ucast_iff dest: bit_imp_le_length)
  finally show ?thesis
    unfolding crc_update_def and_ff kTable_nth x_def by simp
qed

text \<open>C29: the table-driven loop computes the bit-serial CRC32C with the polynomial \<open>kPoly\<close> of the
  code; \<open>crc32c_check\<close> below compares it with the check value of the standard.\<close>

theorem crc32c_bit_serial:
  "crc32c data = foldl (\<lambda>crc b. (crc_bit ^^ 8) (crc XOR ucast b)) 0xFFFFFFFF data XOR 0xFFFFFFFF"
  by (simp add: crc32c_def crc_update_bits [abs_def])

text \<open>The published check value of CRC32C, of the ASCII digits 1 to 9.\<close>

lemma funpow_8: "(f ^^ 8) x = f (f (f (f (f (f (f (f x)))))))"
  by (simp add: numeral_eq_Suc)

lemma crc_bit_div: "crc_bit c = (if even c then c div 2 else c div 2 XOR 0x82F63B78)"
  by (simp add: crc_bit_odd drop_bit_Suc kPoly_def)

lemma crc32c_check: "crc32c [0x31, 0x32, 0x33, 0x34, 0x35, 0x36, 0x37, 0x38, 0x39] = 0xE3069283"
  unfolding crc32c_def by (simp add: crc_update_bits crc_bit_div funpow_8)

section \<open>Error detection\<close>

lemma crc_update_inject: "crc_update c b = crc_update c' b' \<longleftrightarrow> c XOR ucast b = c' XOR ucast b'"
  by (simp add: crc_update_bits crc_bits_inject)

lemma crc_update_state_inject: "crc_update c b = crc_update c' b \<longleftrightarrow> c = c'"
  unfolding crc_update_inject by (rule xor_right_inject)

lemma crc_fold_inject: "foldl crc_update c bs = foldl crc_update c' bs \<longleftrightarrow> c = c'"
  by (induction bs arbitrary: c c') (simp_all add: crc_update_state_inject)

text \<open>Four bytes enter the register as one 32-bit word, least significant byte first.\<close>

definition le32 :: "u8 \<Rightarrow> u8 \<Rightarrow> u8 \<Rightarrow> u8 \<Rightarrow> u32" where
  "le32 a b c d = ucast a XOR push_bit 8 (ucast b) XOR push_bit 16 (ucast c) XOR push_bit 24 (ucast d)"

lemma crc_bits_push:
  assumes "n + 8 \<le> 32"
  shows "(crc_bit ^^ n) (push_bit n (ucast (b::u8))) = (ucast b :: u32)"
proof -
  have "(crc_bit ^^ n) (push_bit n (ucast b)) = drop_bit n (push_bit n (ucast b :: u32))"
    by (rule crc_bits_high) (simp add: bit_push_bit_iff)
  also have "\<dots> = ucast b"
    by (rule bit_eqI)
      (use assms in \<open>auto simp: bit_drop_bit_eq bit_push_bit_iff bit_ucast_iff dest: bit_imp_le_length\<close>)
  finally show ?thesis .
qed

lemma crc_four: "foldl crc_update s [a, b, c, d] = (crc_bit ^^ 32) (s XOR le32 a b c d)"
proof -
  have split16: "(crc_bit ^^ 16) x = (crc_bit ^^ 8) ((crc_bit ^^ 8) x)" for x
    using funpow_add [of 8 8 crc_bit] by (simp add: fun_eq_iff)
  have split24: "(crc_bit ^^ 24) x = (crc_bit ^^ 8) ((crc_bit ^^ 16) x)" for x
    using funpow_add [of 8 16 crc_bit] by (simp add: fun_eq_iff)
  have split32: "(crc_bit ^^ 32) x = (crc_bit ^^ 8) ((crc_bit ^^ 24) x)" for x
    using funpow_add [of 8 24 crc_bit] by (simp add: fun_eq_iff)
  note push = crc_bits_push [of 8] crc_bits_push [of 16, unfolded split16]
    crc_bits_push [of 24, unfolded split24 split16]
  show ?thesis
    unfolding split32 split24 split16 le32_def
    by (simp add: crc_update_bits crc_bits_xor push xor.assoc)
qed

lemma bit_le32:
  assumes "n < 8"
  shows "bit (le32 a b c d) n = bit a n" and "bit (le32 a b c d) (n + 8) = bit b n"
    and "bit (le32 a b c d) (n + 16) = bit c n" and "bit (le32 a b c d) (n + 24) = bit d n"
  using assms bit_imp_le_length [of a "n + 8"] bit_imp_le_length [of a "n + 16"]
    bit_imp_le_length [of a "n + 24"] bit_imp_le_length [of b "n + 8"]
    bit_imp_le_length [of b "n + 16"] bit_imp_le_length [of c "n + 8"]
  by (auto simp: le32_def bit_xor_iff bit_push_bit_iff bit_ucast_iff add.commute)

lemma le32_inject: "le32 a b c d = le32 a' b' c' d' \<longleftrightarrow> a = a' \<and> b = b' \<and> c = c' \<and> d = d'"
proof
  assume eq: "le32 a b c d = le32 a' b' c' d'"
  have "bit a n = bit a' n \<and> bit b n = bit b' n \<and> bit c n = bit c' n \<and> bit d n = bit d' n"
    if "n < 8" for n
    using bit_le32 [OF that, of a b c d] bit_le32 [OF that, of a' b' c' d'] eq by simp
  then show "a = a' \<and> b = b' \<and> c = c' \<and> d = d'" by (auto intro!: bit_word_eqI)
qed simp

lemma list_of_four:
  assumes "length xs = 4"
  obtains a b c d where "xs = [a, b, c, d]"
  using assms by (auto simp: numeral_eq_Suc length_Suc_conv)

lemma crc_window_inject:
  assumes "length w = length w'" and "length w \<le> 4" and "foldl crc_update s w = foldl crc_update s w'"
  shows "w = w'"
proof -
  define z where "z = replicate (4 - length w) (0::u8)"
  have "length (w @ z) = 4" "length (w' @ z) = 4" using assms(1,2) by (simp_all add: z_def)
  then obtain a b c d a' b' c' d' where w: "w @ z = [a, b, c, d]" "w' @ z = [a', b', c', d']"
    by (metis list_of_four)
  have "foldl crc_update s (w @ z) = foldl crc_update s (w' @ z)" using assms(3) by simp
  then have "s XOR le32 a b c d = s XOR le32 a' b' c' d'"
    unfolding w crc_four by (simp only: crc_bits_inject)
  then have "le32 a b c d = le32 a' b' c' d'" by (auto simp: bit_eq_iff bit_xor_iff)
  then have "w @ z = w' @ z" by (simp add: w le32_inject)
  then show ?thesis by simp
qed

text \<open>A change confined to at most four consecutive bytes always changes the checksum.\<close>

theorem crc32c_detects_bursts:
  assumes "length w = length w'" and "length w \<le> 4" and "w \<noteq> w'"
  shows "crc32c (p @ w @ q) \<noteq> crc32c (p @ w' @ q)"
proof
  assume "crc32c (p @ w @ q) = crc32c (p @ w' @ q)"
  then have "foldl crc_update (foldl crc_update 0xFFFFFFFF p) w =
      foldl crc_update (foldl crc_update 0xFFFFFFFF p) w'"
    by (simp only: crc32c_def foldl_append xor_right_inject crc_fold_inject)
  then show False using crc_window_inject [OF assms(1,2)] assms(3) by blast
qed

theorem crc32c_detects_bursts_witness: "crc32c ([1] @ [2, 3] @ [4]) \<noteq> crc32c ([1] @ [2, 7] @ [4])"
  using crc32c_detects_bursts [of "[2, 3]" "[2, 7]" "[1]" "[4]"] by simp

end
