(* ===== verification/Wal_Record.thy ===== *)
theory Wal_Record
  imports Values Crc32c
begin

text \<open>
  The record format of the write-ahead log, \<open>src/wal.cpp\<close> lines 17 to 194: the segment
  header and the length-prefixed, checksummed frames. A \<open>WalRecordType\<close> is its byte,
  because decoding casts any byte to it.
\<close>

section \<open>The header\<close>

definition kWalMagic :: u32 where "kWalMagic = 0x56444257"
definition kWalVersion :: u16 where "kWalVersion = 2"
definition kWalHeaderSize :: nat where "kWalHeaderSize = 32"

record wal_header =
  magic :: u32
  version :: u16
  hdim :: u32
  hmetric :: u8
  hschema_fp :: u64

definition encode_header :: "u32 \<Rightarrow> u8 \<Rightarrow> u64 \<Rightarrow> bytes" where
  "encode_header dm metric schema_fp =
     (let buf = put (put (put (put (put [] kWalMagic) kWalVersion) dm) metric) schema_fp
      in buf @ replicate (kWalHeaderSize - length buf) 0)"

text \<open>The positional read of \<open>wal.cpp\<close>; every use is below the length that was checked.\<close>

definition get_at :: "bytes \<Rightarrow> nat \<Rightarrow> 'a::len word" where
  "get_at data off = word_of_bytes (take (LENGTH('a) div 8) (drop off data))"

definition decode_header :: "bytes \<Rightarrow> wal_header option" where
  "decode_header data =
     (if length data < kWalHeaderSize then None
      else (let h = \<lparr>magic = get_at data 0, version = get_at data 4, hdim = get_at data 6,
              hmetric = get_at data 10, hschema_fp = get_at data 11\<rparr>
        in if magic h = kWalMagic \<and> version h = kWalVersion then Some h else None))"

section \<open>Records\<close>

record wal_record =
  rtype :: u8
  lsn :: u64
  ext_id :: u64
  vec :: "float32 list"
  meta :: meta_record

definition rt_insert :: u8 where "rt_insert = 1"
definition rt_delete :: u8 where "rt_delete = 2"
definition rt_update :: u8 where "rt_update = 3"
definition rt_checkpoint :: u8 where "rt_checkpoint = 4"
definition rt_set_meta :: u8 where "rt_set_meta = 5"

lemmas rt_defs = rt_insert_def rt_delete_def rt_update_def rt_checkpoint_def rt_set_meta_def

definition kBodyPrefix :: nat where "kBodyPrefix = 1 + 8 + 8"

definition carries_vector :: "u8 \<Rightarrow> bool" where
  "carries_vector t \<longleftrightarrow> t = rt_insert \<or> t = rt_update"

definition carries_meta :: "u8 \<Rightarrow> bool" where
  "carries_meta t \<longleftrightarrow> carries_vector t \<or> t = rt_set_meta"

definition put_attr :: "bytes \<Rightarrow> attr_value \<Rightarrow> bytes" where
  "put_attr body a =
     (let body = put body (attr_code (vtype a)) in
      if vtype a = Null then body
      else if vtype a = Tag \<or> vtype a = Text then put body (of_nat (length (vtext a)) :: u32) @ vtext a
      else put body (raw a))"

definition put_meta :: "bytes \<Rightarrow> meta_record \<Rightarrow> bytes" where
  "put_meta body m =
     (let body = put body (of_nat (length (attrs m)) :: u32);
          body = foldl put_attr body (attrs m);
          body = put body (of_nat (length (payload m)) :: u32)
      in body @ payload m)"

text \<open>The loops that read \<open>len\<close> single bytes.\<close>

definition get_byte :: "bytes \<Rightarrow> (u8 \<times> bytes) res" where
  "get_byte = get"

definition get_attr :: "bytes \<Rightarrow> (attr_value \<times> bytes) res" where
  "get_attr r = bind_res (get r) (\<lambda>(t :: u8, r). case attr_type_of t of
       None \<Rightarrow> Inl RuntimeError
     | Some Null \<Rightarrow> Inr (\<lparr>vtype = Null, raw = 0, vtext = []\<rparr>, r)
     | Some ty \<Rightarrow>
         if ty = Tag \<or> ty = Text
         then bind_res (get r) (\<lambda>(len :: u32, r). bind_res (get_many (unat len) get_byte r) (\<lambda>(s, r).
             Inr (\<lparr>vtype = ty, raw = 0, vtext = s\<rparr>, r)))
         else bind_res (get r) (\<lambda>(v :: u64, r). Inr (\<lparr>vtype = ty, raw = v, vtext = []\<rparr>, r)))"

definition get_meta :: "bytes \<Rightarrow> (meta_record \<times> bytes) res" where
  "get_meta r = bind_res (get r) (\<lambda>(n :: u32, r). bind_res (get_many (unat n) get_attr r) (\<lambda>(as, r).
     bind_res (get r) (\<lambda>(plen :: u32, r). bind_res (get_many (unat plen) get_byte r) (\<lambda>(p, r).
       Inr (\<lparr>attrs = as, payload = p\<rparr>, r)))))"

definition encode_body :: "wal_record \<Rightarrow> bytes" where
  "encode_body r =
     (let body = put (put (put [] (rtype r)) (lsn r)) (ext_id r);
          body = (if carries_vector (rtype r)
            then put body (of_nat (length (vec r)) :: u32) @ concat (map word_bytes (vec r)) else body)
      in if carries_meta (rtype r) then put_meta body (meta r) else body)"

definition encode_record :: "wal_record \<Rightarrow> bytes" where
  "encode_record r =
     (let body = encode_body r;
          len = (of_nat (length body) :: u32);
          crc = crc32c (put [] len @ body)
      in put (put [] len) crc @ body)"

text \<open>The body, read through a cursor; what follows the last field is not looked at.\<close>

definition decode_body :: "bytes \<Rightarrow> wal_record res" where
  "decode_body body =
     bind_res (get body) (\<lambda>(ty :: u8, r). bind_res (get r) (\<lambda>(l :: u64, r). bind_res (get r) (\<lambda>(e :: u64, r).
       bind_res (if carries_vector ty
           then bind_res (get r) (\<lambda>(n :: u32, r). get_many (unat n) get r) else Inr ([], r)) (\<lambda>(v, r).
         bind_res (if carries_meta ty then get_meta r else Inr (empty_meta, r)) (\<lambda>(m, _).
           Inr \<lparr>rtype = ty, lsn = l, ext_id = e, vec = v, meta = m\<rparr>)))))"

datatype decoded = Ok wal_record nat | Incomplete | BadCrc

definition decode_record :: "bytes \<Rightarrow> decoded" where
  "decode_record data =
     (if length data < 8 then Incomplete
      else (let len = (get_at data 0 :: u32); stored_crc = (get_at data 4 :: u32); n = unat len in
        if length data < 8 + n then Incomplete
        else (let body = take n (drop 8 data) in
          if crc32c (take 4 data @ body) \<noteq> stored_crc then BadCrc
          else if n < kBodyPrefix then BadCrc
          else (case decode_body body of Inl _ \<Rightarrow> BadCrc | Inr r \<Rightarrow> Ok r (8 + n)))))"

section \<open>Round trips\<close>

lemma get_at_put:
  "8 dvd LENGTH('a) \<Longrightarrow> length pre = off \<Longrightarrow> get_at (pre @ word_bytes w @ rest) off = w"
  for w :: "'a::len word"
  by (simp add: get_at_def word_of_word_bytes)

lemma get_byte_Cons: "get_byte (b # r) = Inr (b, r)"
  using u8c.dec_enc [of b r] by (simp add: get_byte_def word_bytes_def)

lemma get_many_byte:
  "get_many n get_byte r = (if length r < n then Inl RuntimeError else Inr (take n r, drop n r))"
proof (induction n arbitrary: r)
  case (Suc n)
  show ?case
  proof (cases r)
    case Nil
    then show ?thesis by (simp add: get_byte_def get_def)
  next
    case (Cons b s)
    then show ?thesis by (simp add: get_byte_Cons Suc.IH)
  qed
qed simp

lemma unat_of_nat_32: "n < 2 ^ 32 \<Longrightarrow> unat (of_nat n :: u32) = n"
  using take_bit_nat_eq_self [of n 32] by (simp add: unsigned_of_nat)

lemma get_many_byte_append [simp]: "length s = n \<Longrightarrow> get_many n get_byte (s @ rest) = Inr (s, rest)"
  by (simp add: get_many_byte)

subsection \<open>An attribute value\<close>

definition attr_ok :: "attr_value \<Rightarrow> bool" where
  "attr_ok a \<longleftrightarrow> value_canonical a \<and> length (vtext a) < 2 ^ 32"

lemma put_attr_append: "put_attr buf a = buf @ put_attr [] a"
  by (simp add: put_attr_def put_def Let_def)

lemma codec_attr: "codec (put_attr []) get_attr attr_ok"
proof unfold_locales
  show "get_attr (put_attr [] a @ rest) = Inr (a, rest)" if "attr_ok a" for a rest
    using that unfolding attr_ok_def value_canonical_def
    by (cases a; cases "vtype a")
      (simp_all add: get_attr_def put_attr_def put_def u8c.dec_enc u32c.dec_enc u64c.dec_enc unat_of_nat_32)
next
  fix a p
  assume ok: "attr_ok a" and len: "length p < length (put_attr [] a)" and p: "p = take (length p) (put_attr [] a)"
  define b where "b = (if vtype a = Null then [] else if vtype a = Tag \<or> vtype a = Text
      then word_bytes (of_nat (length (vtext a)) :: u32) @ vtext a else word_bytes (raw a))"
  have a: "put_attr [] a = word_bytes (attr_code (vtype a)) @ b"
    by (simp add: put_attr_def put_def b_def)
  from prefix_of_append [OF p [unfolded a] len [unfolded a]] show "\<exists>e. get_attr p = Inl e"
  proof (elim disjE exE conjE)
    assume "length p < length (word_bytes (attr_code (vtype a)))"
    then show ?thesis by (simp add: get_attr_def get_short)
  next
    fix q
    assume q: "p = word_bytes (attr_code (vtype a)) @ q" "length q < length b" "q = take (length q) b"
    show ?thesis
    proof (cases "vtype a = Tag \<or> vtype a = Text")
      case True
      then have b: "b = word_bytes (of_nat (length (vtext a)) :: u32) @ vtext a" by (auto simp: b_def)
      from prefix_of_append [OF q(3) [unfolded b] q(2) [unfolded b]] show ?thesis
        using True ok
        by (auto simp: get_attr_def q(1) u8c.dec_enc u32c.dec_enc get_short attr_ok_def unat_of_nat_32 get_many_byte)
    next
      case False
      then show ?thesis using q
        by (cases "vtype a") (auto simp: get_attr_def b_def u8c.dec_enc get_short split: if_splits)
    qed
  qed
qed

interpretation attrc: codec "put_attr []" get_attr attr_ok
  by (rule codec_attr)

subsection \<open>The metadata of a row\<close>

definition meta_ok :: "meta_record \<Rightarrow> bool" where
  "meta_ok m \<longleftrightarrow> (\<forall>a \<in> set (attrs m). attr_ok a) \<and> length (attrs m) < 2 ^ 32 \<and> length (payload m) < 2 ^ 32"

lemma foldl_put_attr: "foldl put_attr buf as = buf @ concat (map (put_attr []) as)"
proof (induction as arbitrary: buf)
  case (Cons a as)
  show ?case by (simp add: Cons.IH put_attr_append [of buf a])
qed simp

lemma put_meta_parts:
  "put_meta buf m = buf @ word_bytes (of_nat (length (attrs m)) :: u32) @ concat (map (put_attr []) (attrs m)) @
     word_bytes (of_nat (length (payload m)) :: u32) @ payload m"
  by (simp add: put_meta_def put_def foldl_put_attr Let_def)

lemma put_meta_append: "put_meta buf m = buf @ put_meta [] m"
  by (simp add: put_meta_parts)

lemma codec_meta: "codec (put_meta []) get_meta meta_ok"
proof unfold_locales
  show "get_meta (put_meta [] m @ rest) = Inr (m, rest)" if "meta_ok m" for m rest
    using that unfolding meta_ok_def
    by (simp add: get_meta_def put_meta_parts u32c.dec_enc unat_of_nat_32 attrc.get_many_enc)
next
  fix m p
  assume ok: "meta_ok m" and len: "length p < length (put_meta [] m)" and p: "p = take (length p) (put_meta [] m)"
  note n = ok [unfolded meta_ok_def]
  define N where "N = word_bytes (of_nat (length (attrs m)) :: u32)"
  define A where "A = concat (map (put_attr []) (attrs m))"
  define L where "L = word_bytes (of_nat (length (payload m)) :: u32)"
  have m: "put_meta [] m = N @ A @ L @ payload m" by (simp add: put_meta_parts N_def A_def L_def)
  from prefix_of_append [OF p [unfolded m] len [unfolded m]] show "\<exists>e. get_meta p = Inl e"
  proof (elim disjE exE conjE)
    assume "length p < length N"
    then show ?thesis by (simp add: get_meta_def get_short N_def)
  next
    fix q
    assume q: "p = N @ q" "length q < length (A @ L @ payload m)" "q = take (length q) (A @ L @ payload m)"
    from prefix_of_append [OF q(3,2)] show ?thesis
    proof (elim disjE exE conjE)
      assume "length q < length A" "q = take (length q) A"
      then show ?thesis using attrc.get_many_short [of "attrs m" q] n
        by (auto simp: get_meta_def q(1) N_def A_def u32c.dec_enc unat_of_nat_32)
    next
      fix s
      assume s: "q = A @ s" "length s < length (L @ payload m)" "s = take (length s) (L @ payload m)"
      from prefix_of_append [OF s(3,2)] show ?thesis using n
        by (auto simp: get_meta_def q(1) s(1) N_def A_def L_def u32c.dec_enc unat_of_nat_32 attrc.get_many_enc
            get_short get_many_byte)
    qed
  qed
qed

interpretation metac: codec "put_meta []" get_meta meta_ok
  by (rule codec_meta)

subsection \<open>The body of a record\<close>

text \<open>
  What the code builds: no vector and no metadata where the type carries none, values as
  their constructor functions make them, and a body whose length fits the length field.
\<close>

definition record_ok :: "wal_record \<Rightarrow> bool" where
  "record_ok r \<longleftrightarrow> length (encode_body r) < 2 ^ 32 \<and> (\<forall>a \<in> set (attrs (meta r)). value_canonical a) \<and>
     (\<not> carries_vector (rtype r) \<longrightarrow> vec r = []) \<and> (\<not> carries_meta (rtype r) \<longrightarrow> meta r = empty_meta)"

lemma encode_body_parts:
  "encode_body r = word_bytes (rtype r) @ word_bytes (lsn r) @ word_bytes (ext_id r) @
     (if carries_vector (rtype r) then word_bytes (of_nat (length (vec r)) :: u32) @ concat (map word_bytes (vec r)) else []) @
     (if carries_meta (rtype r) then put_meta [] (meta r) else [])"
  by (simp add: encode_body_def put_def put_meta_parts Let_def)

lemma length_encode_body: "kBodyPrefix \<le> length (encode_body r)"
  by (simp add: encode_body_parts kBodyPrefix_def)

lemma length_floats [simp]: "length (concat (map word_bytes (v :: float32 list))) = 4 * length v"
  by (induction v) simp_all

lemma attr_text_length: "vtype a = Tag \<or> vtype a = Text \<or> vtext a = [] \<Longrightarrow> length (vtext a) \<le> length (put_attr [] a)"
  by (auto simp: put_attr_def put_def Let_def)

lemma length_concat_member: "x \<in> set xs \<Longrightarrow> length (f x) \<le> length (concat (map f xs))"
  by (induction xs) auto

lemma length_concat_ge: "\<forall>x \<in> set xs. 0 < length (f x) \<Longrightarrow> length xs \<le> length (concat (map f xs))"
  by (induction xs) (auto simp del: length_greater_0_conv)

lemma put_attr_nonempty: "0 < length (put_attr [] a)"
  by (simp add: put_attr_def put_def Let_def del: length_greater_0_conv)

lemma record_ok_meta:
  assumes "record_ok r" and "carries_meta (rtype r)"
  shows "meta_ok (meta r)"
proof -
  have len: "length (put_meta [] (meta r)) < 2 ^ 32"
    using assms by (simp add: record_ok_def encode_body_parts)
  have "length (vtext a) < 2 ^ 32" if "a \<in> set (attrs (meta r))" for a
  proof -
    have "value_canonical a" using that assms by (simp add: record_ok_def)
    then have "vtype a = Tag \<or> vtype a = Text \<or> vtext a = []"
      by (auto simp: value_canonical_def split: attr_type.splits)
    then show ?thesis
      using attr_text_length length_concat_member [OF that, of "put_attr []"] len by (fastforce simp: put_meta_parts)
  qed
  moreover have "length (attrs (meta r)) \<le> length (put_meta [] (meta r))"
    using length_concat_ge [of "attrs (meta r)" "put_attr []"] put_attr_nonempty by (simp add: put_meta_parts)
  moreover have "length (payload (meta r)) \<le> length (put_meta [] (meta r))" by (simp add: put_meta_parts)
  ultimately show ?thesis using len assms(1) by (auto simp: meta_ok_def attr_ok_def record_ok_def)
qed

lemma decode_encode_body:
  assumes "record_ok r"
  shows "decode_body (encode_body r) = Inr r"
proof -
  have v: "carries_vector (rtype r) \<Longrightarrow> length (vec r) < 2 ^ 32"
    using assms by (simp add: record_ok_def encode_body_parts)
  have "carries_vector (rtype r) \<Longrightarrow> carries_meta (rtype r)" by (simp add: carries_meta_def)
  then show ?thesis using assms record_ok_meta [OF assms] v
    by (cases r) (auto simp: decode_body_def encode_body_parts u8c.dec_enc u64c.dec_enc u32c.dec_enc
        u32c.get_many_enc unat_of_nat_32 metac.dec_enc_exact record_ok_def)
qed

subsection \<open>The frame\<close>

definition frame :: "u32 \<Rightarrow> bytes \<Rightarrow> bytes" where
  "frame crc body = word_bytes (of_nat (length body) :: u32) @ word_bytes crc @ body"

lemma length_frame [simp]: "length (frame crc body) = 8 + length body"
  by (simp add: frame_def)

lemma encode_record_frame:
  "encode_record r = frame (crc32c (word_bytes (of_nat (length (encode_body r)) :: u32) @ encode_body r)) (encode_body r)"
  by (simp add: encode_record_def frame_def put_def Let_def)

lemma get_at_frame:
  "get_at (frame crc body @ rest) 0 = (of_nat (length body) :: u32)"
  "get_at (frame crc body @ rest) 4 = crc"
  using get_at_put [where pre = "[]" and off = 0 and w = "of_nat (length body) :: u32" and rest = "word_bytes crc @ body @ rest"]
    get_at_put [where pre = "word_bytes (of_nat (length body) :: u32)" and off = 4 and w = crc and rest = "body @ rest"]
  by (simp_all add: frame_def)

lemma frame_inject: "frame crc body = frame crc' body' \<longleftrightarrow> crc = crc' \<and> body = body'"
proof
  assume eq: "frame crc body = frame crc' body'"
  have "crc = crc'" using get_at_frame(2) [of crc body "[]"] get_at_frame(2) [of crc' body' "[]"] eq by simp
  moreover have "body = body'" using arg_cong [OF eq, of "drop 8"] by (simp add: frame_def)
  ultimately show "crc = crc' \<and> body = body'" ..
qed simp

lemma decode_frame:
  assumes "length body < 2 ^ 32"
  shows "decode_record (frame crc body @ rest) =
    (if crc32c (word_bytes (of_nat (length body) :: u32) @ body) \<noteq> crc \<or> length body < kBodyPrefix then BadCrc
     else case decode_body body of Inl _ \<Rightarrow> BadCrc | Inr r \<Rightarrow> Ok r (length (frame crc body)))"
  using assms unfolding decode_record_def get_at_frame Let_def unat_of_nat_32 [OF assms] length_frame
  by (simp add: frame_def)

lemma get_at_take: "off + LENGTH('a) div 8 \<le> k \<Longrightarrow> (get_at (take k d) off :: 'a::len word) = get_at d off"
  by (simp add: get_at_def drop_take min_def)

lemma decode_torn_frame:
  assumes "length body < 2 ^ 32" and "k < length (frame crc body)"
  shows "decode_record (take k (frame crc body)) = Incomplete"
proof (cases "k < 8")
  case False
  then have "(get_at (take k (frame crc body)) 0 :: u32) = of_nat (length body)"
    using get_at_frame(1) [of crc body "[]"] by (simp add: get_at_take)
  then show ?thesis using assms False by (simp add: decode_record_def unat_of_nat_32 Let_def)
qed (simp add: decode_record_def)

lemma decode_encode_record:
  assumes "record_ok r"
  shows "decode_record (encode_record r @ rest) = Ok r (length (encode_record r))"
  using assms length_encode_body [of r] decode_encode_body [OF assms]
  unfolding encode_record_frame by (subst decode_frame) (simp_all add: record_ok_def not_less)

lemma decode_torn_record:
  "record_ok r \<Longrightarrow> k < length (encode_record r) \<Longrightarrow> decode_record (take k (encode_record r)) = Incomplete"
  unfolding encode_record_frame by (intro decode_torn_frame) (simp_all add: record_ok_def)

text \<open>
  C30: decoding an encoded record gives the record back, consumes exactly its frame and does
  not depend on what follows.
\<close>

theorem record_roundtrip:
  assumes "record_ok r"
  shows "decode_record (encode_record r @ rest) = Ok r (length (encode_record r))"
  by (rule decode_encode_record [OF assms])

definition demo_frame :: wal_record where
  "demo_frame = \<lparr>rtype = rt_insert, lsn = 7, ext_id = 3, vec = [0x3F800000, 0],
     meta = \<lparr>attrs = [attr_tag [0x61], attr_int 5, attr_null], payload = [1, 2]\<rparr>\<rparr>"

lemmas demo_defs = demo_frame_def rt_defs attr_tag_def attr_int_def attr_null_def

lemma length_demo_frame: "length (encode_body demo_frame) = 55"
  by (simp add: encode_body_parts put_meta_parts put_attr_def put_def carries_meta_def carries_vector_def demo_defs)

lemma demo_frame_ok: "record_ok demo_frame"
  unfolding record_ok_def length_demo_frame
  by (simp add: carries_meta_def carries_vector_def demo_defs value_canonical_def)

theorem record_roundtrip_witness:
  "decode_record (encode_record demo_frame @ [9]) = Ok demo_frame (length (encode_record demo_frame))"
  by (rule record_roundtrip [OF demo_frame_ok])

text \<open>
  A frame of which only a proper prefix reached the disk is incomplete, wherever it was
  cut: it is never taken for a record nor for corruption.
\<close>

theorem torn_frame_incomplete:
  assumes "record_ok r" and "k < length (encode_record r)"
  shows "decode_record (take k (encode_record r)) = Incomplete"
  by (rule decode_torn_record [OF assms])

theorem torn_frame_incomplete_witness: "decode_record (take 20 (encode_record demo_frame)) = Incomplete"
  by (rule torn_frame_incomplete [OF demo_frame_ok]) (simp add: encode_record_frame length_demo_frame)

text \<open>
  C31: a frame whose stored checksum is wrong, or whose body was changed within four
  consecutive bytes, decodes as corrupt.
\<close>

theorem corrupt_frame_rejected:
  assumes "record_ok r" and "encode_record r = frame crc (p @ w @ q)"
    and "crc' \<noteq> crc \<and> w' = w \<or> crc' = crc \<and> w' \<noteq> w \<and> length w' = length w \<and> length w \<le> 4"
  shows "decode_record (frame crc' (p @ w' @ q) @ rest) = BadCrc"
proof -
  have body: "encode_body r = p @ w @ q" and crc: "crc = crc32c (word_bytes (of_nat (length (p @ w @ q)) :: u32) @ p @ w @ q)"
    using assms(2) unfolding encode_record_frame frame_inject by metis+
  have len: "length (p @ w' @ q) = length (p @ w @ q)" "length (p @ w @ q) < 2 ^ 32"
    using assms(1,3) by (auto simp: record_ok_def body)
  have "crc32c (word_bytes (of_nat (length (p @ w' @ q)) :: u32) @ p @ w' @ q) \<noteq> crc'"
  proof (cases "crc' = crc")
    case True
    then show ?thesis
      using assms(3) crc32c_detects_bursts [of w' w "word_bytes (of_nat (length (p @ w @ q)) :: u32) @ p" q]
      unfolding len(1) crc by auto
  next
    case False
    then show ?thesis using assms(3) crc by auto
  qed
  then show ?thesis using len by (subst decode_frame) auto
qed

theorem corrupt_frame_rejected_witness:
  "\<exists>crc w q. encode_record demo_frame = frame crc ([] @ [w] @ q) \<and>
    decode_record (frame crc ([] @ [w + 1] @ q) @ []) = BadCrc"
proof -
  obtain w q where b: "encode_body demo_frame = [w] @ q"
    using length_demo_frame by (cases "encode_body demo_frame") auto
  define crc where "crc = crc32c (word_bytes (of_nat (length (encode_body demo_frame)) :: u32) @ encode_body demo_frame)"
  have "encode_record demo_frame = frame crc ([] @ [w] @ q)"
    unfolding encode_record_frame crc_def b by simp
  moreover from corrupt_frame_rejected [OF demo_frame_ok this, of crc "[w + 1]" "[]"]
  have "decode_record (frame crc ([] @ [w + 1] @ q) @ []) = BadCrc" by simp
  ultimately show ?thesis by blast
qed

text \<open>A decoded record consumes at least a frame header and prefix, and only its own bytes matter.\<close>

lemma decode_record_Ok:
  assumes "decode_record data = Ok r n"
  shows "25 \<le> n" and "n \<le> length data"
  using assms by (auto simp: decode_record_def Let_def kBodyPrefix_def split: if_splits sum.splits)

subsection \<open>The segment header\<close>

lemma encode_header_parts:
  "encode_header dm mt fp = word_bytes kWalMagic @ word_bytes kWalVersion @ word_bytes dm @ word_bytes mt @
     word_bytes fp @ replicate 13 0"
  by (simp add: encode_header_def put_def kWalHeaderSize_def)

lemma length_encode_header [simp]: "length (encode_header dm mt fp) = kWalHeaderSize"
  by (simp add: encode_header_parts kWalHeaderSize_def)

lemma get_at_header:
  "(get_at (encode_header dm mt fp @ rest) 0 :: u32) = kWalMagic"
  "(get_at (encode_header dm mt fp @ rest) 4 :: u16) = kWalVersion"
  "(get_at (encode_header dm mt fp @ rest) 6 :: u32) = dm"
  "(get_at (encode_header dm mt fp @ rest) 10 :: u8) = mt"
  "(get_at (encode_header dm mt fp @ rest) 11 :: u64) = fp"
  by (simp_all add: encode_header_parts get_at_def u8c.dec_enc word_of_word_bytes)

lemma decode_encode_header:
  "decode_header (encode_header dm mt fp @ rest) =
     Some \<lparr>magic = kWalMagic, version = kWalVersion, hdim = dm, hmetric = mt, hschema_fp = fp\<rparr>"
  by (simp add: decode_header_def get_at_header Let_def)

text \<open>
  The header of a segment is read back as it was written, and a file shorter than a
  header has none.
\<close>

theorem header_roundtrip:
  "decode_header (encode_header dm mt fp @ rest) =
     Some \<lparr>magic = kWalMagic, version = kWalVersion, hdim = dm, hmetric = mt, hschema_fp = fp\<rparr> \<and>
   (\<forall>k. decode_header (take k (encode_header dm mt fp)) = None \<longleftrightarrow> k < kWalHeaderSize)"
proof -
  have "decode_header (take k (encode_header dm mt fp)) = None \<longleftrightarrow> k < kWalHeaderSize" for k
    using decode_encode_header [of dm mt fp "[]"] by (cases "k < kWalHeaderSize") (simp_all add: decode_header_def [of "take k _"])
  then show ?thesis using decode_encode_header by blast
qed

end
