(* ===== verification/Wal.thy ===== *)
theory Wal
  imports Wal_Record "HOL-Library.AList"
begin

text \<open>
  The segmented write-ahead log, \<open>class Wal\<close> of \<open>src/wal.cpp\<close>. The directory is an
  association list from file names to files; a file is its content together with the length
  of the prefix the last \<open>fsync\<close> made durable. System calls succeed here, a call that
  the file system must refuse (no such file, file exists) is the exception of \<open>sys_check\<close>.
  \<open>sync\<close> is two steps, because it calls \<open>fsync\<close> with the mutex released.
\<close>

section \<open>Segment names\<close>

definition digit_char :: "nat \<Rightarrow> char" where
  "digit_char n = char_of (48 + n)"

fun decimal :: "nat \<Rightarrow> string" where
  "decimal n = (if n < 10 then [digit_char n] else decimal (n div 10) @ [digit_char (n mod 10)])"

declare decimal.simps [simp del]

text \<open>\<open>snprintf(name, sizeof(name), "wal-%012llu.log", number)\<close>.\<close>

definition segment_name :: "nat \<Rightarrow> string" where
  "segment_name n = ''wal-'' @ replicate (12 - length (decimal n)) (digit_char 0) @ decimal n @ ''.log''"

definition char_digit :: "char \<Rightarrow> nat option" where
  "char_digit c = (let k = of_char c :: nat in if 48 \<le> k \<and> k \<le> 57 then Some (k - 48) else None)"

definition is_space :: "char \<Rightarrow> bool" where
  "is_space c = (let k = of_char c :: nat in k = 32 \<or> 9 \<le> k \<and> k \<le> 13)"

fun leading_digits :: "string \<Rightarrow> nat list" where
  "leading_digits [] = []"
| "leading_digits (c # cs) = (case char_digit c of None \<Rightarrow> [] | Some k \<Rightarrow> k # leading_digits cs)"

text \<open>
  \<open>std::stoull\<close>, base 10: white space, an optional sign, then digits; what follows them is
  ignored, no digit at all and a value out of range are exceptions (\<open>None\<close>).
\<close>

definition stoull :: "string \<Rightarrow> nat option" where
  "stoull s =
     (let s = dropWhile is_space s;
          negative = (s \<noteq> [] \<and> hd s = CHR ''-'');
          s = (if s \<noteq> [] \<and> (hd s = CHR ''-'' \<or> hd s = CHR ''+'') then tl s else s);
          ds = leading_digits s;
          v = foldl (\<lambda>a k. 10 * a + k) 0 ds
      in if ds = [] \<or> 2 ^ 64 \<le> v then None
         else Some (if negative then (2 ^ 64 - v) mod 2 ^ 64 else v))"

definition segment_number :: "string \<Rightarrow> nat option" where
  "segment_number name =
     (if length name \<noteq> length ''wal-000000000001.log'' then None
      else if take 4 name \<noteq> ''wal-'' then None
      else if drop (length name - 4) name \<noteq> ''.log'' then None
      else stoull (take (length name - 8) (drop 4 name)))"

section \<open>The directory\<close>

record wfile =
  fdata :: bytes
  fdurable :: nat

type_synonym disk = "(string \<times> wfile) list"

definition discover_segments :: "disk \<Rightarrow> nat list" where
  "discover_segments d = sort (List.map_filter (segment_number \<circ> fst) d)"

definition write_at :: "disk \<Rightarrow> string \<Rightarrow> nat \<Rightarrow> bytes \<Rightarrow> disk" where
  "write_at d fd off p = (case map_of d fd of
     None \<Rightarrow> d
   | Some f \<Rightarrow> AList.update fd (f\<lparr>fdata := take off (fdata f) @ replicate (off - length (fdata f)) 0 @ p @
       drop (off + length p) (fdata f)\<rparr>) d)"

definition fsync :: "disk \<Rightarrow> string \<Rightarrow> disk" where
  "fsync d fd = (case map_of d fd of
     None \<Rightarrow> d | Some f \<Rightarrow> AList.update fd (f\<lparr>fdurable := length (fdata f)\<rparr>) d)"

definition ftruncate :: "disk \<Rightarrow> string \<Rightarrow> nat \<Rightarrow> disk" where
  "ftruncate d fd n = (case map_of d fd of
     None \<Rightarrow> d
   | Some f \<Rightarrow> AList.update fd (f\<lparr>fdata := take n (fdata f) @ replicate (n - length (fdata f)) 0\<rparr>) d)"

section \<open>The log\<close>

record segment =
  number :: nat
  first_lsn :: u64
  last_lsn :: u64
  sealed :: bool

record wal =
  wdim :: u32
  wmetric :: u8
  wschema_fp :: u64
  seg_max :: nat
  segments :: "segment list"
  active_fd :: "string option"
  active_bytes :: nat
  highest_lsn :: u64

definition empty_wal :: wal where
  "empty_wal = \<lparr>wdim = 0, wmetric = 0, wschema_fp = 0, seg_max = 16 * 1024 * 1024, segments = [],
     active_fd = None, active_bytes = 0, highest_lsn = 0\<rparr>"

definition new_segment :: "nat \<Rightarrow> bool \<Rightarrow> segment" where
  "new_segment n s = \<lparr>number = n, first_lsn = 0, last_lsn = 0, sealed = s\<rparr>"

text \<open>Every operation that can throw returns the exception, if any, with the state it leaves.\<close>

definition open_new_segment :: "wal \<Rightarrow> disk \<Rightarrow> exn option \<times> wal \<times> disk" where
  "open_new_segment w d =
     (let n = (if segments w = [] then 1 else number (last (segments w)) + 1);
          path = segment_name n
      in if map_of d path \<noteq> None then (Some RuntimeError, w, d)
         else (let d = AList.update path \<lparr>fdata = [], fdurable = 0\<rparr> d;
                   hdr = encode_header (wdim w) (wmetric w) (wschema_fp w);
                   d = write_at d path 0 hdr;
                   d = fsync d path
               in (None, w\<lparr>segments := segments w @ [new_segment n False], active_fd := Some path,
                     active_bytes := length hdr\<rparr>, d)))"

definition rotate_wal :: "wal \<Rightarrow> disk \<Rightarrow> exn option \<times> wal \<times> disk" where
  "rotate_wal w d = (case active_fd w of
     None \<Rightarrow> (Some RuntimeError, w, d)
   | Some fd \<Rightarrow>
       (let d = fsync d fd;
            w = w\<lparr>active_fd := None,
              segments := butlast (segments w) @ [(last (segments w))\<lparr>sealed := True\<rparr>]\<rparr>
        in open_new_segment w d))"

definition wal_open :: "wal \<Rightarrow> disk \<Rightarrow> u32 \<Rightarrow> u8 \<Rightarrow> u64 \<Rightarrow> nat \<Rightarrow> exn option \<times> wal \<times> disk" where
  "wal_open w d dm mt fp mx =
     (let w = w\<lparr>wdim := dm, wmetric := mt, wschema_fp := fp, seg_max := mx\<rparr>;
          numbers = discover_segments d
      in if numbers = [] then open_new_segment w d
         else (let w = w\<lparr>segments := segments w @
                     map (\<lambda>i. new_segment (numbers ! i) (i + 1 < length numbers)) [0..<length numbers]\<rparr>;
                   path = segment_name (number (last (segments w)))
               in (case map_of d path of
                     None \<Rightarrow> (Some RuntimeError, w, d)
                   | Some f \<Rightarrow> (None, w\<lparr>active_fd := Some path, active_bytes := length (fdata f)\<rparr>, d))))"

subsection \<open>Replay\<close>

text \<open>What both \<open>replay\<close> and \<open>append\<close> do with the \<open>lsn\<close> of a record.\<close>

definition note_lsn :: "u64 \<Rightarrow> segment \<Rightarrow> segment" where
  "note_lsn l seg = seg\<lparr>first_lsn := (if first_lsn seg = 0 then l else first_lsn seg), last_lsn := l\<rparr>"

datatype scan_end = Complete | Torn nat | Threw exn

text \<open>The \<open>while\<close> loop over one segment; the callback is a state transformer that may throw.\<close>

function scan :: "('s \<Rightarrow> wal_record \<Rightarrow> 's res) \<Rightarrow> bytes \<Rightarrow> nat \<Rightarrow> 's \<Rightarrow> segment \<Rightarrow> u64 \<Rightarrow>
    scan_end \<times> 's \<times> segment \<times> u64" where
  "scan cb data off st seg high =
     (if \<not> off < length data then (Complete, st, seg, high)
      else (case decode_record (drop off data) of
          Ok r n \<Rightarrow> (case cb st r of
              Inl e \<Rightarrow> (Threw e, st, seg, high)
            | Inr st' \<Rightarrow> scan cb data (off + n) st' (note_lsn (lsn r) seg) (if high < lsn r then lsn r else high))
        | Incomplete \<Rightarrow> (Torn off, st, seg, high)
        | BadCrc \<Rightarrow> (Torn off, st, seg, high)))"
  by pat_completeness auto

termination
proof (relation "measure (\<lambda>(cb, data, off, st, seg, high). length data - off)")
  fix cb :: "'s \<Rightarrow> wal_record \<Rightarrow> 's res" and data off st seg high r n st'
  assume "\<not> \<not> off < length data" and "decode_record (drop off data) = Ok r n"
  then show "((cb, data, off + n, st', note_lsn (lsn r) seg, if high < lsn r then lsn r else high),
      cb, data, off, st, seg, high) \<in> measure (\<lambda>(cb, data, off, st, seg, high). length data - off)"
    using decode_record_Ok [of "drop off data" r n] by simp
qed simp

declare scan.simps [simp del]

text \<open>The \<open>for\<close> loop over the segments: those already replayed and those still to come.\<close>

fun replay_from :: "('s \<Rightarrow> wal_record \<Rightarrow> 's res) \<Rightarrow> segment list \<Rightarrow> segment list \<Rightarrow> 's \<Rightarrow> wal \<Rightarrow> disk \<Rightarrow>
    exn option \<times> 's \<times> wal \<times> disk" where
  "replay_from cb old [] st w d = (None, st, w, d)"
| "replay_from cb old (seg # segs) st w d = (case map_of d (segment_name (number seg)) of
     None \<Rightarrow> (Some RuntimeError, st, w, d)
   | Some f \<Rightarrow> (case decode_header (fdata f) of
       None \<Rightarrow> (Some RuntimeError, st, w, d)
     | Some h \<Rightarrow>
         if hdim h \<noteq> wdim w \<or> hmetric h \<noteq> wmetric w then (Some RuntimeError, st, w, d)
         else (case scan cb (fdata f) kWalHeaderSize st seg (highest_lsn w) of (e, st, seg, high) \<Rightarrow>
           (let w = w\<lparr>segments := old @ seg # segs, highest_lsn := high\<rparr> in
            case e of
              Threw x \<Rightarrow> (Some x, st, w, d)
            | Complete \<Rightarrow> replay_from cb (old @ [seg]) segs st
                (if segs = [] then w\<lparr>active_bytes := length (fdata f)\<rparr> else w) d
            | Torn off \<Rightarrow>
                if segs \<noteq> [] then (Some RuntimeError, st, w, d)
                else (case active_fd w of
                    None \<Rightarrow> (Some RuntimeError, st, w, d)
                  | Some fd \<Rightarrow> (None, st, w\<lparr>active_bytes := off\<rparr>, fsync (ftruncate d fd off) fd))))))"

definition replay :: "('s \<Rightarrow> wal_record \<Rightarrow> 's res) \<Rightarrow> 's \<Rightarrow> wal \<Rightarrow> disk \<Rightarrow> exn option \<times> 's \<times> wal \<times> disk" where
  "replay cb st w d = replay_from cb [] (segments w) st w d"

subsection \<open>Append, sync, truncate\<close>

definition append_wal :: "wal_record \<Rightarrow> wal \<Rightarrow> disk \<Rightarrow> exn option \<times> wal \<times> disk" where
  "append_wal r w d =
     (let fr = encode_record r in
      if active_fd w = None then (Some RuntimeError, w, d)
      else (case (if kWalHeaderSize < active_bytes w \<and> seg_max w < active_bytes w + length fr
                  then rotate_wal w d else (None, w, d)) of
          (Some e, w, d) \<Rightarrow> (Some e, w, d)
        | (None, w, d) \<Rightarrow>
            (let d = write_at d (the (active_fd w)) (active_bytes w) fr
             in (None, w\<lparr>active_bytes := active_bytes w + length fr,
                   segments := butlast (segments w) @ [note_lsn (lsn r) (last (segments w))],
                   highest_lsn := (if highest_lsn w < lsn r then lsn r else highest_lsn w)\<rparr>, d))))"

text \<open>Under the mutex: the duplicated descriptor and the lsn it will cover. Then the \<open>fsync\<close>.\<close>

definition sync_begin :: "wal \<Rightarrow> exn + (string \<times> u64)" where
  "sync_begin w = (case active_fd w of None \<Rightarrow> Inl RuntimeError | Some fd \<Rightarrow> Inr (fd, highest_lsn w))"

definition sync_end :: "string \<times> u64 \<Rightarrow> disk \<Rightarrow> u64 \<times> disk" where
  "sync_end p d = (snd p, fsync d (fst p))"

fun truncate_from :: "u64 \<Rightarrow> segment list \<Rightarrow> segment list \<Rightarrow> disk \<Rightarrow> exn option \<times> segment list \<times> disk" where
  "truncate_from upl survivors [] d = (None, survivors, d)"
| "truncate_from upl survivors (seg # segs) d =
     (if segs \<noteq> [] \<and> sealed seg \<and> last_lsn seg \<noteq> 0 \<and> last_lsn seg \<le> upl
      then if map_of d (segment_name (number seg)) = None then (Some RuntimeError, survivors, d)
           else truncate_from upl survivors segs (AList.delete (segment_name (number seg)) d)
      else truncate_from upl (survivors @ [seg]) segs d)"

definition truncate_wal :: "u64 \<Rightarrow> wal \<Rightarrow> disk \<Rightarrow> exn option \<times> wal \<times> disk" where
  "truncate_wal upl w d = (case truncate_from upl [] (segments w) d of
     (Some e, _, d) \<Rightarrow> (Some e, w, d)
   | (None, survivors, d) \<Rightarrow> (None, w\<lparr>segments := survivors\<rparr>, d))"

subsection \<open>The directory between the system calls\<close>

text \<open>
  The states of the directory that a crash in the middle of an operation finds, after each system
  call that changes it: a file that was created, the header written into it, its \<open>fsync\<close>; the
  \<open>fsync\<close> before a rotation; each \<open>unlink\<close> of a truncation. What a \<open>pwrite\<close> leaves that was cut
  short is a prefix of what the whole one leaves, which a crash keeps in any case.
\<close>

definition segment_stages :: "wal \<Rightarrow> disk \<Rightarrow> disk list" where
  "segment_stages w d =
     (let path = segment_name (if segments w = [] then 1 else number (last (segments w)) + 1)
      in if map_of d path \<noteq> None then []
         else (let d1 = AList.update path \<lparr>fdata = [], fdurable = 0\<rparr> d;
                   d2 = write_at d1 path 0 (encode_header (wdim w) (wmetric w) (wschema_fp w))
               in [d1, d2, fsync d2 path]))"

definition rotate_stages :: "wal \<Rightarrow> disk \<Rightarrow> disk list" where
  "rotate_stages w d = (case active_fd w of
     None \<Rightarrow> []
   | Some fd \<Rightarrow> (let d = fsync d fd in
       d # segment_stages (w\<lparr>active_fd := None, segments := butlast (segments w) @ [(last (segments w))\<lparr>sealed := True\<rparr>]\<rparr>) d))"

definition append_stages :: "wal_record \<Rightarrow> wal \<Rightarrow> disk \<Rightarrow> disk list" where
  "append_stages r w d =
     (if active_fd w \<noteq> None \<and> kWalHeaderSize < active_bytes w \<and> seg_max w < active_bytes w + length (encode_record r)
      then rotate_stages w d else [])"

fun truncate_stages :: "u64 \<Rightarrow> segment list \<Rightarrow> disk \<Rightarrow> disk list" where
  "truncate_stages upl [] d = []"
| "truncate_stages upl (seg # segs) d =
     (if segs \<noteq> [] \<and> sealed seg \<and> last_lsn seg \<noteq> 0 \<and> last_lsn seg \<le> upl
      then if map_of d (segment_name (number seg)) = None then []
           else (let d = AList.delete (segment_name (number seg)) d in d # truncate_stages upl segs d)
      else truncate_stages upl segs d)"

section \<open>Segment names are read back\<close>

lemma char_digit_char [simp]: "k < 10 \<Longrightarrow> char_digit (digit_char k) = Some k"
  by (simp add: char_digit_def digit_char_def Let_def of_char_of)

lemma decimal_digits: "\<exists>ds. decimal n = map digit_char ds \<and> (\<forall>k \<in> set ds. k < 10) \<and> ds \<noteq> [] \<and>
    (\<forall>a. foldl (\<lambda>a k. 10 * a + k) a ds = 10 ^ length ds * a + n)"
proof (induction n rule: decimal.induct)
  case (1 n)
  show ?case
  proof (cases "n < 10")
    case True
    then have "decimal n = map digit_char [n]" by (simp add: decimal.simps [of n])
    then show ?thesis using True by (intro exI [of _ "[n]"]) simp
  next
    case False
    then obtain ds where ds: "decimal (n div 10) = map digit_char ds" "\<forall>k \<in> set ds. k < 10" "ds \<noteq> []"
      "\<forall>a. foldl (\<lambda>a k. 10 * a + k) a ds = 10 ^ length ds * a + n div 10"
      using 1 by blast
    have "decimal n = map digit_char (ds @ [n mod 10])"
      using False ds(1) by (simp add: decimal.simps [of n])
    then show ?thesis using ds by (intro exI [of _ "ds @ [n mod 10]"]) (simp add: algebra_simps)
  qed
qed

lemma length_decimal: "0 < k \<Longrightarrow> n < 10 ^ k \<Longrightarrow> length (decimal n) \<le> k"
proof (induction k arbitrary: n)
  case (Suc k)
  show ?case
  proof (cases "n < 10")
    case False
    then have "0 < k" using Suc.prems by (cases k) auto
    moreover have "n div 10 < 10 ^ k" using Suc.prems by (auto simp: less_mult_imp_div_less mult.commute)
    ultimately show ?thesis using Suc.IH False by (simp add: decimal.simps [of n])
  qed (simp add: decimal.simps [of n])
qed simp

lemma leading_digits_map: "\<forall>k \<in> set ds. k < 10 \<Longrightarrow> leading_digits (map digit_char ds) = ds"
  by (induction ds) simp_all

lemma digit_char_plain:
  assumes "k < 10"
  shows "\<not> is_space (digit_char k)" "digit_char k \<noteq> CHR ''-''" "digit_char k \<noteq> CHR ''+''"
proof -
  have c: "char_digit (digit_char k) = Some k" using assms by simp
  show "digit_char k \<noteq> CHR ''-''" "digit_char k \<noteq> CHR ''+''"
    using c by (auto simp: char_digit_def Let_def split: if_splits)
  show "\<not> is_space (digit_char k)"
    using c by (auto simp: char_digit_def is_space_def Let_def split: if_splits)
qed

lemma stoull_digits:
  assumes "\<forall>k \<in> set ds. k < 10" and "ds \<noteq> []" and "foldl (\<lambda>a k. 10 * a + k) 0 ds = v" and "v < 2 ^ 64"
  shows "stoull (map digit_char ds) = Some v"
proof -
  obtain k ks where "ds = k # ks" using assms(2) by (cases ds) auto
  then have "dropWhile is_space (map digit_char ds) = map digit_char ds" "hd (map digit_char ds) = digit_char k"
    using assms(1) digit_char_plain(1) [of k] by auto
  then show ?thesis
    using assms digit_char_plain(2,3) [of k] \<open>ds = k # ks\<close> leading_digits_map [OF assms(1)]
    by (simp add: stoull_def Let_def)
qed

text \<open>
  The name of a segment has the length the directory scan looks for and the scan reads
  the segment's number back from it, up to number \<open>10 ^ 12 - 1\<close>.
\<close>

lemma segment_number_name:
  assumes "n < 10 ^ 12"
  shows "segment_number (segment_name n) = Some n"
proof -
  obtain ds where ds: "decimal n = map digit_char ds" "\<forall>k \<in> set ds. k < 10" "ds \<noteq> []"
    "\<forall>a. foldl (\<lambda>a k. 10 * a + k) a ds = 10 ^ length ds * a + n"
    using decimal_digits by blast
  define es where "es = replicate (12 - length ds) 0 @ ds"
  have len: "length es = 12" using length_decimal [of 12 n] assms ds(1) by (simp add: es_def)
  have "foldl (\<lambda>a k. 10 * a + k) 0 (replicate m 0) = (0::nat)" for m by (induction m) simp_all
  then have val: "foldl (\<lambda>a k. 10 * a + k) 0 es = n" using ds(4) by (simp add: es_def)
  have name: "segment_name n = ''wal-'' @ map digit_char es @ ''.log''"
    using ds(1) by (simp add: segment_name_def es_def)
  have "stoull (map digit_char es) = Some n"
    using ds(2,3) val assms by (intro stoull_digits) (auto simp: es_def)
  then show ?thesis by (simp add: segment_number_def name len)
qed

end
