(* ===== verification/Wal_Rep.thy ===== *)
theory Wal_Rep
  imports Wal
begin

text \<open>
  What the directory and the object of a running log represent: the records of every sealed
  segment and those of the active one. Every operation of \<open>class Wal\<close> keeps the
  representation and moves it as the code means to; recovery after a crash rebuilds it.
\<close>

section \<open>Files of the directory\<close>

lemma map_of_write_at:
  "map_of d fd = Some f \<Longrightarrow> map_of (write_at d fd (length (fdata f)) p) = (map_of d)(fd \<mapsto> f\<lparr>fdata := fdata f @ p\<rparr>)"
  by (simp add: write_at_def update_conv')

lemma map_of_fsync:
  "map_of d fd = Some f \<Longrightarrow> map_of (fsync d fd) = (map_of d)(fd \<mapsto> f\<lparr>fdurable := length (fdata f)\<rparr>)"
  by (simp add: fsync_def update_conv')

lemma map_of_ftruncate:
  "map_of d fd = Some f \<Longrightarrow> n \<le> length (fdata f) \<Longrightarrow>
    map_of (ftruncate d fd n) = (map_of d)(fd \<mapsto> f\<lparr>fdata := take n (fdata f)\<rparr>)"
  by (simp add: ftruncate_def update_conv')

lemma names_update: "k \<in> fst ` set d \<Longrightarrow> map fst (AList.update k v d) = map fst d"
  by (induction d) auto

lemma update_fresh: "k \<notin> fst ` set d \<Longrightarrow> AList.update k v d = d @ [(k, v)]"
  by (induction d) auto

lemma names_write_at [simp]: "map fst (write_at d fd off p) = map fst d"
  and names_fsync [simp]: "map fst (fsync d fd) = map fst d"
  and names_ftruncate [simp]: "map fst (ftruncate d fd n) = map fst d"
  by (simp_all add: write_at_def fsync_def ftruncate_def names_update domI dom_map_of_conv_image_fst [symmetric]
      split: option.split)

text \<open>The directory scan depends on the names only.\<close>

lemma discover_names: "discover_segments d = sort (List.map_filter segment_number (map fst d))"
  by (simp add: discover_segments_def List.map_filter_def filter_map comp_def)

lemma discover_cong: "map fst d' = map fst d \<Longrightarrow> discover_segments d' = discover_segments d"
  by (simp add: discover_names)

lemma set_map_filter: "set (List.map_filter f xs) = {y. \<exists>x \<in> set xs. f x = Some y}"
  by (auto simp: List.map_filter_def image_iff split: option.splits) (metis option.sel)

lemma sort_snoc_greatest: "\<forall>x \<in> set xs. x \<le> y \<Longrightarrow> sort (xs @ [y]) = sort xs @ [y]" for y :: "'a::linorder"
  by (rule properties_for_sort) (auto simp: sorted_append)

lemma discover_fresh:
  assumes "segment_name n \<notin> fst ` set d" and "n < 10 ^ 12" and "\<forall>m \<in> set (discover_segments d). m < n"
  shows "discover_segments (AList.update (segment_name n) f d) = discover_segments d @ [n]"
proof -
  have "List.map_filter segment_number [segment_name n] = [n]"
    by (simp add: List.map_filter_def segment_number_name [OF assms(2)])
  moreover have "List.map_filter segment_number (xs @ ys) = List.map_filter segment_number xs @ List.map_filter segment_number ys" for xs ys
    by (simp add: List.map_filter_def)
  moreover have "\<forall>m \<in> set (List.map_filter segment_number (map fst d)). m \<le> n"
    using assms(3) by (auto simp: discover_names less_imp_le)
  ultimately show ?thesis by (simp add: discover_names update_fresh assms(1) sort_snoc_greatest)
qed

lemma discover_delete:
  assumes "discover_segments d = ms @ n # ns" and "distinct (ms @ n # ns)"
    and "n < 10 ^ 12" and "distinct (map fst d)" and "segment_name n \<in> fst ` set d"
  shows "discover_segments (AList.delete (segment_name n) d) = ms @ ns"
proof -
  let ?g = "List.map_filter segment_number"
  obtain xs ys where d: "map fst d = xs @ segment_name n # ys"
    using assms(5) by (metis list.set_map split_list)
  then have out: "segment_name n \<notin> set (xs @ ys)" using assms(4) by auto
  have "map fst (AList.delete (segment_name n) d) = xs @ ys"
    using out by (simp add: delete_keys d removeAll_id)
  then have new: "discover_segments (AList.delete (segment_name n) d) = sort (?g (xs @ ys))"
    by (simp add: discover_names)
  have "mset (?g (map fst d)) = add_mset n (mset (?g (xs @ ys)))"
    unfolding d by (simp add: List.map_filter_def segment_number_name [OF assms(3)])
  moreover have "mset (?g (map fst d)) = mset (ms @ n # ns)"
    using arg_cong [OF assms(1) [unfolded discover_names], of mset] by simp
  ultimately have "mset (ms @ ns) = mset (?g (xs @ ys))" by simp
  moreover have "sorted (ms @ ns)"
    using assms(1) sorted_sort [of "?g (map fst d)"] by (auto simp: discover_names sorted_append)
  ultimately show ?thesis unfolding new by (intro properties_for_sort) auto
qed

lemma segment_name_inject: "m < 10 ^ 12 \<Longrightarrow> n < 10 ^ 12 \<Longrightarrow> segment_name m = segment_name n \<longleftrightarrow> m = n"
  by (metis segment_number_name option.inject)


section \<open>What a log represents\<close>

definition seg_data :: "bytes \<Rightarrow> wal_record list \<Rightarrow> bytes" where
  "seg_data h rs = h @ concat (map encode_record rs)"

definition rec_ok :: "wal_record \<Rightarrow> bool" where
  "rec_ok r \<longleftrightarrow> record_ok r \<and> lsn r \<noteq> 0"

definition seg_meta :: "segment \<Rightarrow> wal_record list \<Rightarrow> bool" where
  "seg_meta s rs \<longleftrightarrow> number s < 10 ^ 12 \<and> (\<forall>r \<in> set rs. rec_ok r) \<and>
     first_lsn s = (if rs = [] then 0 else lsn (hd rs)) \<and> last_lsn s = (if rs = [] then 0 else lsn (last rs))"

definition sealed_ok :: "bytes \<Rightarrow> disk \<Rightarrow> segment \<Rightarrow> wal_record list \<Rightarrow> bool" where
  "sealed_ok h d s rs \<longleftrightarrow> seg_meta s rs \<and> sealed s \<and> rs \<noteq> [] \<and>
     map_of d (segment_name (number s)) = Some \<lparr>fdata = seg_data h rs, fdurable = length (seg_data h rs)\<rparr>"

definition active_ok :: "bytes \<Rightarrow> disk \<Rightarrow> segment \<Rightarrow> wal_record list \<Rightarrow> nat \<Rightarrow> bool" where
  "active_ok h d s rs k \<longleftrightarrow> seg_meta s rs \<and> \<not> sealed s \<and> k \<le> length (seg_data h rs) \<and>
     map_of d (segment_name (number s)) = Some \<lparr>fdata = seg_data h rs, fdurable = k\<rparr>"

definition hdr :: "wal \<Rightarrow> bytes" where
  "hdr w = encode_header (wdim w) (wmetric w) (wschema_fp w)"

text \<open>
  Sealed segments \<open>ss\<close> with the records \<open>Rss\<close>, then the active segment \<open>s\<close> with the
  records \<open>rs\<close>, of whose file the first \<open>k\<close> bytes are durable.
\<close>

definition log_rep :: "wal \<Rightarrow> disk \<Rightarrow> segment list \<Rightarrow> wal_record list list \<Rightarrow> segment \<Rightarrow> wal_record list \<Rightarrow> nat \<Rightarrow> bool" where
  "log_rep w d ss Rss s rs k \<longleftrightarrow> segments w = ss @ [s] \<and> list_all2 (sealed_ok (hdr w) d) ss Rss \<and>
     active_ok (hdr w) d s rs k \<and> sorted_wrt (<) (map number (ss @ [s])) \<and>
     discover_segments d = map number (ss @ [s]) \<and> distinct (map fst d) \<and>
     active_fd w = Some (segment_name (number s)) \<and> active_bytes w = length (seg_data (hdr w) rs)"

lemma length_hdr [simp]: "length (hdr w) = kWalHeaderSize"
  by (simp add: hdr_def)

lemma seg_data_snoc: "seg_data h (rs @ [r]) = seg_data h rs @ encode_record r"
  by (simp add: seg_data_def)

lemma seg_data_length: "length h \<le> length (seg_data h rs)"
  by (simp add: seg_data_def)

lemma encode_record_nonempty: "25 \<le> length (encode_record r)"
  using length_encode_body [of r] by (simp add: encode_record_frame kBodyPrefix_def)

lemma encode_record_not_Nil [simp]: "encode_record r \<noteq> []"
  using encode_record_nonempty [of r] by auto

lemma seg_data_longer: "length h < length (seg_data h rs) \<longleftrightarrow> rs \<noteq> []"
  using encode_record_nonempty [of "hd rs"] by (cases rs) (auto simp: seg_data_def)

lemma seg_meta_note: "seg_meta s rs \<Longrightarrow> rec_ok r \<Longrightarrow> seg_meta (note_lsn (lsn r) s) (rs @ [r])"
  by (cases rs) (auto simp: seg_meta_def note_lsn_def rec_ok_def)

lemma note_lsn_simps [simp]: "number (note_lsn l s) = number s" "sealed (note_lsn l s) = sealed s"
  by (simp_all add: note_lsn_def)

lemma list_all2_member: "list_all2 P xs ys \<Longrightarrow> x \<in> set xs \<Longrightarrow> \<exists>y \<in> set ys. P x y"
  by (induction rule: list_all2_induct) auto

text \<open>Sealed segments do not see changes to other files.\<close>

lemma sealed_frame:
  assumes "list_all2 (sealed_ok h d) ss Rss"
    and "\<forall>s \<in> set ss. map_of d' (segment_name (number s)) = map_of d (segment_name (number s))"
  shows "list_all2 (sealed_ok h d') ss Rss"
  using assms unfolding list_all2_conv_all_nth by (auto simp: sealed_ok_def)

lemma sealed_upd:
  "list_all2 (sealed_ok h d) ss Rss \<Longrightarrow> map_of d' = (map_of d)(fd \<mapsto> f) \<Longrightarrow>
    (\<And>t. t \<in> set ss \<Longrightarrow> segment_name (number t) \<noteq> fd) \<Longrightarrow> list_all2 (sealed_ok h d') ss Rss"
  using sealed_frame [of h d ss Rss d'] by simp

lemma log_rep_numbers:
  assumes "log_rep w d ss Rss s rs k"
  shows "number s < 10 ^ 12" and "t \<in> set ss \<Longrightarrow> number t < number s"
  using assms by (auto simp: log_rep_def active_ok_def seg_meta_def sorted_wrt_append)

lemma log_repD:
  assumes "log_rep w d ss Rss s rs k"
  shows "segments w = ss @ [s]" and "list_all2 (sealed_ok (hdr w) d) ss Rss" and "seg_meta s rs" and "\<not> sealed s"
    and "k \<le> length (seg_data (hdr w) rs)"
    and "map_of d (segment_name (number s)) = Some \<lparr>fdata = seg_data (hdr w) rs, fdurable = k\<rparr>"
    and "sorted_wrt (<) (map number (ss @ [s]))" and "discover_segments d = map number (ss @ [s])"
    and "distinct (map fst d)" and "active_fd w = Some (segment_name (number s))"
    and "active_bytes w = length (seg_data (hdr w) rs)"
  using assms by (simp_all add: log_rep_def active_ok_def)

lemma log_rep_other:
  assumes "log_rep w d ss Rss s rs k" and "t \<in> set ss"
  shows "segment_name (number t) \<noteq> segment_name (number s)"
  using log_rep_numbers [OF assms(1)] assms(2) segment_name_inject [of "number t" "number s"] by fastforce

subsection \<open>Append\<close>

lemma append_active:
  assumes "log_rep w d ss Rss s rs k" and "rec_ok r"
    and "\<not> (kWalHeaderSize < active_bytes w \<and> seg_max w < active_bytes w + length (encode_record r))"
  shows "\<exists>w' d'. append_wal r w d = (None, w', d') \<and>
    log_rep w' d' ss Rss (note_lsn (lsn r) s) (rs @ [r]) k \<and> hdr w' = hdr w \<and>
    highest_lsn w' = max (highest_lsn w) (lsn r)"
proof -
  let ?f = "segment_name (number s)"
  let ?d = "write_at d ?f (active_bytes w) (encode_record r)"
  let ?w = "w\<lparr>active_bytes := active_bytes w + length (encode_record r), segments := ss @ [note_lsn (lsn r) s],
    highest_lsn := max (highest_lsn w) (lsn r)\<rparr>"
  note rep = log_repD [OF assms(1)]
  have run: "append_wal r w d = (None, ?w, ?d)"
    using rep(1,10) assms(3) by (auto simp: append_wal_def Let_def max_def)
  have m: "map_of ?d = (map_of d)(?f \<mapsto> \<lparr>fdata = seg_data (hdr w) (rs @ [r]), fdurable = k\<rparr>)"
    using map_of_write_at [OF rep(6), of "encode_record r"] rep(11) by (simp add: seg_data_snoc)
  have "list_all2 (sealed_ok (hdr w) ?d) ss Rss"
    using sealed_upd [OF rep(2) m] log_rep_other [OF assms(1)] by blast
  moreover have h: "hdr ?w = hdr w" by (simp add: hdr_def)
  moreover have "active_ok (hdr w) ?d (note_lsn (lsn r) s) (rs @ [r]) k"
    unfolding active_ok_def m using rep(3-5) assms(2) by (simp add: seg_meta_note seg_data_snoc)
  moreover have "discover_segments ?d = map number (ss @ [s])"
    unfolding discover_cong [OF names_write_at] by (rule rep(8))
  ultimately have "log_rep ?w ?d ss Rss (note_lsn (lsn r) s) (rs @ [r]) k"
    using rep(7,9-11) by (simp add: log_rep_def seg_data_snoc)
  with run h show ?thesis by fastforce
qed

subsection \<open>Rotation\<close>

lemma open_new_segment_run:
  assumes "map_of d (segment_name n) = None" and "n = (if segments w = [] then 1 else number (last (segments w)) + 1)"
  shows "\<exists>d'. open_new_segment w d = (None, w\<lparr>segments := segments w @ [new_segment n False],
      active_fd := Some (segment_name n), active_bytes := kWalHeaderSize\<rparr>, d') \<and>
    map_of d' = (map_of d)(segment_name n \<mapsto> \<lparr>fdata = hdr w, fdurable = kWalHeaderSize\<rparr>) \<and>
    map fst d' = map fst (AList.update (segment_name n) \<lparr>fdata = [], fdurable = 0\<rparr> d)"
proof -
  let ?p = "segment_name n"
  let ?d0 = "AList.update ?p \<lparr>fdata = [], fdurable = 0\<rparr> d"
  let ?d1 = "write_at ?d0 ?p 0 (hdr w)"
  have m0: "map_of ?d0 = (map_of d)(?p \<mapsto> \<lparr>fdata = [], fdurable = 0\<rparr>)" by (simp add: update_conv')
  have m1: "map_of ?d1 = (map_of d)(?p \<mapsto> \<lparr>fdata = hdr w, fdurable = 0\<rparr>)"
    using map_of_write_at [of ?d0 ?p "\<lparr>fdata = [], fdurable = 0\<rparr>" "hdr w"] by (simp add: m0)
  have "map_of (fsync ?d1 ?p) = (map_of d)(?p \<mapsto> \<lparr>fdata = hdr w, fdurable = kWalHeaderSize\<rparr>)"
    using map_of_fsync [of ?d1 ?p "\<lparr>fdata = hdr w, fdurable = 0\<rparr>"] by (simp add: m1)
  moreover have "open_new_segment w d = (None, w\<lparr>segments := segments w @ [new_segment n False],
      active_fd := Some ?p, active_bytes := kWalHeaderSize\<rparr>, fsync ?d1 ?p)"
    using assms by (simp add: open_new_segment_def Let_def hdr_def [symmetric])
  ultimately show ?thesis by auto
qed

text \<open>No file has the name of a number above all that the scan found.\<close>

lemma discover_absent:
  assumes "\<forall>m \<in> set (discover_segments d). m < n" and "n < 10 ^ 12"
  shows "map_of d (segment_name n) = None"
proof (rule ccontr)
  assume "map_of d (segment_name n) \<noteq> None"
  then have "segment_name n \<in> fst ` set d" by (metis map_of_eq_None_iff)
  then have "n \<in> set (discover_segments d)"
    using segment_number_name [OF assms(2)] by (force simp: discover_names set_map_filter)
  then show False using assms(1) by auto
qed

text \<open>A directory that has the new segment besides, with its header, of which \<open>k'\<close> bytes are durable.\<close>

lemma rotated:
  assumes "log_rep w d ss Rss s rs k" and "rs \<noteq> []" and "number s + 1 < 10 ^ 12" and k': "k' \<le> kWalHeaderSize"
    and m': "map_of d' = (map_of (fsync d (segment_name (number s))))(segment_name (number s + 1) \<mapsto> \<lparr>fdata = hdr w, fdurable = k'\<rparr>)"
    and names: "map fst d' = map fst (AList.update (segment_name (number s + 1)) \<lparr>fdata = [], fdurable = 0\<rparr> (fsync d (segment_name (number s))))"
  shows "log_rep (w\<lparr>active_fd := Some (segment_name (number s + 1)), segments := ss @ [s\<lparr>sealed := True\<rparr>, new_segment (number s + 1) False],
      active_bytes := kWalHeaderSize\<rparr>) d' (ss @ [s\<lparr>sealed := True\<rparr>]) (Rss @ [rs]) (new_segment (number s + 1) False) [] k'"
proof -
  let ?f = "segment_name (number s)" and ?n = "number s + 1" and ?s = "s\<lparr>sealed := True\<rparr>"
  let ?d = "fsync d ?f"
  let ?w' = "w\<lparr>active_fd := Some (segment_name ?n), segments := ss @ [?s, new_segment ?n False], active_bytes := kWalHeaderSize\<rparr>"
  note rep = log_repD [OF assms(1)]
  have m: "map_of ?d = (map_of d)(?f \<mapsto> \<lparr>fdata = seg_data (hdr w) rs, fdurable = length (seg_data (hdr w) rs)\<rparr>)"
    using map_of_fsync [OF rep(6)] by simp
  have less: "\<forall>m \<in> set (discover_segments d). m < ?n"
    using rep(7) unfolding rep(8) by (auto simp: sorted_wrt_append)
  have disc: "discover_segments ?d = discover_segments d" by (rule discover_cong) simp
  then have absent: "map_of ?d (segment_name ?n) = None" using less assms(3) by (intro discover_absent) simp_all
  have h: "hdr ?w' = hdr w" by (simp add: hdr_def)
  have other: "segment_name (number t) \<noteq> segment_name ?n" if "t \<in> set (ss @ [?s])" for t
    using that log_rep_numbers [OF assms(1)] assms(3) segment_name_inject [of "number t" ?n] by fastforce
  have "list_all2 (sealed_ok (hdr w) ?d) ss Rss"
    using sealed_upd [OF rep(2) m] log_rep_other [OF assms(1)] by blast
  moreover have "sealed_ok (hdr w) ?d ?s rs" using rep(3) assms(2) by (simp add: sealed_ok_def m seg_meta_def)
  ultimately have "list_all2 (sealed_ok (hdr w) ?d) (ss @ [?s]) (Rss @ [rs])" by (simp add: list_all2_appendI)
  then have "list_all2 (sealed_ok (hdr w) d') (ss @ [?s]) (Rss @ [rs])" using sealed_upd [OF _ m'] other by blast
  moreover have "active_ok (hdr w) d' (new_segment ?n False) [] k'"
    using assms(3) k' by (simp add: active_ok_def seg_meta_def new_segment_def m' seg_data_def)
  moreover have "discover_segments d' = map number (ss @ [?s, new_segment ?n False])"
  proof -
    have "discover_segments d' = discover_segments ?d @ [?n]"
      unfolding discover_cong [OF names] using less disc assms(3) absent
      by (intro discover_fresh) (simp_all add: map_of_eq_None_iff)
    then show ?thesis using rep(8) disc by (simp add: new_segment_def)
  qed
  moreover have "sorted_wrt (<) (map number (ss @ [?s, new_segment ?n False]))"
    using rep(7) by (fastforce simp: sorted_wrt_append new_segment_def)
  moreover have "distinct (map fst d')" using rep(9) unfolding names by (simp add: distinct_update)
  ultimately show ?thesis unfolding log_rep_def h by (simp add: seg_data_def new_segment_def)
qed

text \<open>The name of the segment that a rotation creates is free.\<close>

lemma next_absent:
  assumes "log_rep w d ss Rss s rs k" and "number s + 1 < 10 ^ 12"
  shows "map_of (fsync d (segment_name (number s))) (segment_name (number s + 1)) = None"
proof -
  have "\<forall>m \<in> set (discover_segments d). m < number s + 1"
    using log_repD(7) [OF assms(1)] unfolding log_repD(8) [OF assms(1)] by (auto simp: sorted_wrt_append)
  then show ?thesis using assms(2) discover_cong [OF names_fsync] by (intro discover_absent) simp_all
qed

lemma rotate_rep:
  assumes "log_rep w d ss Rss s rs k" and "rs \<noteq> []" and "number s + 1 < 10 ^ 12"
  shows "\<exists>w' d'. rotate_wal w d = (None, w', d') \<and>
    log_rep w' d' (ss @ [s\<lparr>sealed := True\<rparr>]) (Rss @ [rs]) (new_segment (number s + 1) False) [] kWalHeaderSize \<and>
    hdr w' = hdr w \<and> highest_lsn w' = highest_lsn w \<and> seg_max w' = seg_max w"
proof -
  let ?f = "segment_name (number s)" and ?n = "number s + 1"
  let ?w = "w\<lparr>active_fd := None, segments := ss @ [s\<lparr>sealed := True\<rparr>]\<rparr>"
  let ?w' = "w\<lparr>active_fd := Some (segment_name ?n), segments := ss @ [s\<lparr>sealed := True\<rparr>, new_segment ?n False], active_bytes := kWalHeaderSize\<rparr>"
  note rep = log_repD [OF assms(1)]
  have hw: "hdr ?w = hdr w" by (simp add: hdr_def)
  from open_new_segment_run [OF next_absent [OF assms(1,3)], of ?w] obtain d' where run: "open_new_segment ?w (fsync d ?f) = (None, ?w', d')"
    and m': "map_of d' = (map_of (fsync d ?f))(segment_name ?n \<mapsto> \<lparr>fdata = hdr w, fdurable = kWalHeaderSize\<rparr>)"
    and names: "map fst d' = map fst (AList.update (segment_name ?n) \<lparr>fdata = [], fdurable = 0\<rparr> (fsync d ?f))"
    by (auto simp: hw)
  have "rotate_wal w d = (None, ?w', d')" using rep(1,10) run by (simp add: rotate_wal_def Let_def)
  moreover have "hdr ?w' = hdr w" by (simp add: hdr_def)
  ultimately show ?thesis using rotated [OF assms order_refl m' names] by (intro exI [of _ ?w'] exI [of _ d']) simp
qed

text \<open>An append goes to the active segment or, when that one is full, to a new one.\<close>

lemma append_rep:
  assumes "log_rep w d ss Rss s rs k" and "rec_ok r" and "number s + 1 < 10 ^ 12"
  shows "\<exists>w' d' ss' Rss' s' rs' k'. append_wal r w d = (None, w', d') \<and> log_rep w' d' ss' Rss' s' rs' k' \<and>
    hdr w' = hdr w \<and> highest_lsn w' = max (highest_lsn w) (lsn r) \<and>
    (ss' = ss \<and> Rss' = Rss \<and> number s' = number s \<and> rs' = rs @ [r] \<and> k' = k \<or>
     ss' = ss @ [s\<lparr>sealed := True\<rparr>] \<and> Rss' = Rss @ [rs] \<and> number s' = number s + 1 \<and> rs' = [r] \<and> k' = kWalHeaderSize)"
proof (cases "kWalHeaderSize < active_bytes w \<and> seg_max w < active_bytes w + length (encode_record r)")
  case False
  then show ?thesis using append_active [OF assms(1,2)] by fastforce
next
  case full: True
  note rep = log_repD [OF assms(1)]
  have "rs \<noteq> []" using full seg_data_longer [of "hdr w" rs] unfolding rep(11) by simp
  from rotate_rep [OF assms(1) this assms(3)] obtain w1 d1 where
    rot: "rotate_wal w d = (None, w1, d1)" and
    rep1: "log_rep w1 d1 (ss @ [s\<lparr>sealed := True\<rparr>]) (Rss @ [rs]) (new_segment (number s + 1) False) [] kWalHeaderSize" and
    same: "hdr w1 = hdr w" "highest_lsn w1 = highest_lsn w" by blast
  have bytes: "active_bytes w1 = kWalHeaderSize" using log_repD(11) [OF rep1] by (simp add: seg_data_def)
  then have "\<not> (kWalHeaderSize < active_bytes w1 \<and> seg_max w1 < active_bytes w1 + length (encode_record r))" by simp
  from append_active [OF rep1 assms(2) this] obtain w' d' where
    app: "append_wal r w1 d1 = (None, w', d')" and
    rep': "log_rep w' d' (ss @ [s\<lparr>sealed := True\<rparr>]) (Rss @ [rs]) (note_lsn (lsn r) (new_segment (number s + 1) False)) [r] kWalHeaderSize" and
    same': "hdr w' = hdr w1" "highest_lsn w' = max (highest_lsn w1) (lsn r)" by auto
  have "append_wal r w d = append_wal r w1 d1"
    using full rot bytes log_repD(10) [OF rep1] rep(10) by (simp add: append_wal_def Let_def)
  then show ?thesis using app rep' same same' by (fastforce simp: new_segment_def)
qed

subsection \<open>Sync\<close>

lemma log_rep_absent:
  assumes "log_rep w d ss Rss s rs k" and "n < 10 ^ 12" and "n \<notin> number ` set (ss @ [s])"
  shows "map_of d (segment_name n) = None"
proof (rule ccontr)
  assume "map_of d (segment_name n) \<noteq> None"
  then have "segment_name n \<in> fst ` set d" by (metis map_of_eq_None_iff)
  then have "n \<in> set (discover_segments d)"
    using segment_number_name [OF assms(2)] by (force simp: discover_names set_map_filter)
  then show False using assms(3) unfolding log_repD(8) [OF assms(1)] by auto
qed

text \<open>An \<open>fsync\<close> of any segment's descriptor, also of one sealed or unlinked meanwhile.\<close>

lemma fsync_rep:
  assumes "log_rep w d ss Rss s rs k" and "n < 10 ^ 12"
  shows "log_rep w (fsync d (segment_name n)) ss Rss s rs (if n = number s then length (seg_data (hdr w) rs) else k)"
proof -
  let ?d = "fsync d (segment_name n)"
  note rep = log_repD [OF assms(1)]
  have disc: "discover_segments ?d = map number (ss @ [s])" unfolding discover_cong [OF names_fsync] by (rule rep(8))
  have upd: "log_rep w ?d ss Rss s rs j" if "list_all2 (sealed_ok (hdr w) ?d) ss Rss" "active_ok (hdr w) ?d s rs j" for j
    using that rep disc by (simp add: log_rep_def)
  show ?thesis
  proof (cases "n = number s")
    case True
    have m: "map_of ?d = (map_of d)(segment_name n \<mapsto> \<lparr>fdata = seg_data (hdr w) rs, fdurable = length (seg_data (hdr w) rs)\<rparr>)"
      using map_of_fsync [OF rep(6)] True by simp
    have "list_all2 (sealed_ok (hdr w) ?d) ss Rss"
      using sealed_upd [OF rep(2) m] log_rep_other [OF assms(1)] True by blast
    moreover have "active_ok (hdr w) ?d s rs (length (seg_data (hdr w) rs))"
      unfolding active_ok_def m using rep(3-5) True by simp
    ultimately show ?thesis using upd True by simp
  next
    case False
    have "map_of ?d = map_of d"
    proof (cases "n \<in> number ` set ss")
      case True
      then obtain t where t: "t \<in> set ss" "n = number t" by blast
      then obtain R where "sealed_ok (hdr w) d t R" using list_all2_member [OF rep(2)] by blast
      then have "map_of d (segment_name n) = Some \<lparr>fdata = seg_data (hdr w) R, fdurable = length (seg_data (hdr w) R)\<rparr>"
        by (simp add: sealed_ok_def t)
      from map_of_fsync [OF this] this show ?thesis by (simp add: fun_upd_idem)
    next
      case absent: False
      then have "map_of d (segment_name n) = None" using False assms by (intro log_rep_absent) auto
      then show ?thesis by (simp add: fsync_def)
    qed
    then have "list_all2 (sealed_ok (hdr w) ?d) ss Rss" "active_ok (hdr w) ?d s rs k"
      using sealed_frame [OF rep(2)] rep(3-6) by (simp_all add: active_ok_def)
    then show ?thesis using upd False by simp
  qed
qed

subsection \<open>Truncate\<close>

lemma unlink_rep:
  assumes "log_rep w d (as @ x # bs) (As @ X # Bs) s rs k" and "length as = length As"
  shows "log_rep (w\<lparr>segments := as @ bs @ [s]\<rparr>) (AList.delete (segment_name (number x)) d) (as @ bs) (As @ Bs) s rs k"
proof -
  let ?d = "AList.delete (segment_name (number x)) d"
  note rep = log_repD [OF assms(1)]
  have dist: "distinct (map number (as @ x # bs @ [s]))" using rep(7) by (simp add: strict_sorted_iff)
  have small: "number t < 10 ^ 12" if "t \<in> set (as @ x # bs @ [s])" for t
    using that log_rep_numbers [OF assms(1)] by fastforce
  have other: "segment_name (number t) \<noteq> segment_name (number x)" if "t \<in> set (as @ bs @ [s])" for t
  proof -
    have "number x \<notin> number ` set (as @ bs @ [s])" using dist by auto
    then have "number t \<noteq> number x" using that by (metis image_eqI)
    then show ?thesis using segment_name_inject [of "number t" "number x"] small [of t] small [of x] that by simp
  qed
  have sealed: "list_all2 (sealed_ok (hdr w) d) as As" "sealed_ok (hdr w) d x X" "list_all2 (sealed_ok (hdr w) d) bs Bs"
    using rep(2) assms(2) by (simp_all add: list_all2_append)
  have "list_all2 (sealed_ok (hdr w) ?d) (as @ bs) (As @ Bs)"
    by (rule sealed_frame [OF list_all2_appendI [OF sealed(1,3)]]) (use other in \<open>simp add: delete_conv'\<close>)
  moreover have "active_ok (hdr w) ?d s rs k"
    unfolding active_ok_def using rep(3-6) other [of s] by (simp add: delete_conv')
  moreover have "discover_segments ?d = map number as @ map number (bs @ [s])"
  proof (rule discover_delete)
    show "discover_segments d = map number as @ number x # map number (bs @ [s])" using rep(8) by simp
    show "segment_name (number x) \<in> fst ` set d"
      using sealed(2) by (force simp: sealed_ok_def dest: map_of_SomeD)
  qed (use dist small rep(9) in auto)
  moreover have "sorted_wrt (<) (map number (as @ bs @ [s]))" using rep(7) by (auto simp: sorted_wrt_append)
  ultimately show ?thesis using rep(9-11) by (simp add: log_rep_def hdr_def distinct_delete)
qed

lemma truncate_from_rep:
  assumes "log_rep w d (as @ bs) (As @ Bs) s rs k" and "length as = length As"
  shows "\<exists>bs' d'. truncate_from upl as (bs @ [s]) d = (None, as @ bs' @ [s], d') \<and>
    log_rep (w\<lparr>segments := as @ bs' @ [s]\<rparr>) d' (as @ bs') (As @ filter (\<lambda>R. \<not> lsn (last R) \<le> upl) Bs) s rs k"
  using assms
proof (induction bs arbitrary: as As Bs w d)
  case Nil
  then have "length (as @ []) = length (As @ Bs)" using log_repD(2) list_all2_lengthD by metis
  then have "Bs = []" using Nil.prems(2) by simp
  moreover have "w\<lparr>segments := as @ [s]\<rparr> = w" using log_repD(1) [OF Nil.prems(1)] by simp
  ultimately show ?case using Nil.prems by simp
next
  case (Cons x bs)
  have "length (as @ x # bs) = length (As @ Bs)" using log_repD(2) [OF Cons.prems(1)] by (rule list_all2_lengthD)
  then obtain X Xs where Bs: "Bs = X # Xs" using Cons.prems(2) by (cases Bs) auto
  have "sealed_ok (hdr w) d x X"
    using log_repD(2) [OF Cons.prems(1)] Cons.prems(2) by (simp add: Bs list_all2_append)
  then have x: "sealed x" "last_lsn x = lsn (last X)" "lsn (last X) \<noteq> 0" "map_of d (segment_name (number x)) \<noteq> None"
    by (auto simp: sealed_ok_def seg_meta_def rec_ok_def)
  show ?case
  proof (cases "lsn (last X) \<le> upl")
    case True
    note unl = unlink_rep [OF Cons.prems(1) [unfolded Bs] Cons.prems(2)]
    then show ?thesis using Cons.IH [OF unl Cons.prems(2)] x True by (simp add: Bs)
  next
    case False
    have "log_rep w d ((as @ [x]) @ bs) ((As @ [X]) @ Xs) s rs k" using Cons.prems(1) by (simp add: Bs)
    from Cons.IH [OF this] obtain bs' d' where
      "truncate_from upl (as @ [x]) (bs @ [s]) d = (None, (as @ [x]) @ bs' @ [s], d')"
      "log_rep (w\<lparr>segments := (as @ [x]) @ bs' @ [s]\<rparr>) d' ((as @ [x]) @ bs')
        ((As @ [X]) @ filter (\<lambda>R. \<not> lsn (last R) \<le> upl) Xs) s rs k" using Cons.prems(2) by auto
    then show ?thesis using x False by (intro exI [of _ "x # bs'"] exI [of _ d']) (simp add: Bs)
  qed
qed

lemma truncate_rep:
  assumes "log_rep w d ss Rss s rs k"
  shows "\<exists>ss' w' d'. truncate_wal upl w d = (None, w', d') \<and> hdr w' = hdr w \<and> highest_lsn w' = highest_lsn w \<and>
    log_rep w' d' ss' (filter (\<lambda>R. \<not> lsn (last R) \<le> upl) Rss) s rs k"
  using truncate_from_rep [of w d "[]" ss "[]" Rss s rs k upl] assms log_repD(1) [OF assms]
  by (fastforce simp: truncate_wal_def hdr_def)

end
