(* ===== verification/Wal_Recovery.thy ===== *)
theory Wal_Recovery
  imports Wal_Rep "HOL-Library.Sublist"
begin

text \<open>
  A crash, and the recovery of \<open>open\<close> and \<open>replay\<close> after it. A crash, the loss of power as well as
  the death of the process, keeps the durable prefix of every file and any number of the bytes
  appended since. Of those that are kept any number is durable: all after a loss of power, no more
  than before when only the process died and the bytes are still in the cache of the system.
\<close>

section \<open>Crashes\<close>

definition crashed_file :: "wfile \<Rightarrow> wfile \<Rightarrow> bool" where
  "crashed_file f f' \<longleftrightarrow> (\<exists>j \<ge> fdurable f. fdata f' = take j (fdata f)) \<and>
     min (fdurable f) (length (fdata f)) \<le> fdurable f' \<and> fdurable f' \<le> length (fdata f')"

definition crashed :: "disk \<Rightarrow> disk \<Rightarrow> bool" where
  "crashed d d' \<longleftrightarrow> list_all2 (\<lambda>x y. fst x = fst y \<and> crashed_file (snd x) (snd y)) d d'"

lemma crashed_names: "crashed d d' \<Longrightarrow> map fst d' = map fst d"
  unfolding crashed_def by (induction rule: list_all2_induct) auto

lemma crashed_lookup:
  "crashed d d' \<Longrightarrow> map_of d n = Some f \<Longrightarrow> \<exists>f'. map_of d' n = Some f' \<and> crashed_file f f'"
  unfolding crashed_def by (induction rule: list_all2_induct) auto

lemma crashed_durable:
  "crashed_file \<lparr>fdata = b, fdurable = length b\<rparr> f' \<Longrightarrow> f' = \<lparr>fdata = b, fdurable = length b\<rparr>"
  by (cases f') (auto simp: crashed_file_def)

text \<open>
  A last segment that is shorter than a header: the crash came before the header was durable.
  Unlike a torn record, \<open>replay\<close> does not cut a torn header away.
\<close>

definition torn_header :: "disk \<Rightarrow> bool" where
  "torn_header d \<longleftrightarrow> discover_segments d \<noteq> [] \<and>
     (\<exists>f. map_of d (segment_name (last (discover_segments d))) = Some f \<and> length (fdata f) < kWalHeaderSize)"

definition header_synced :: "disk \<Rightarrow> bool" where
  "header_synced d \<longleftrightarrow>
     (\<forall>f. map_of d (segment_name (last (discover_segments d))) = Some f \<longrightarrow> kWalHeaderSize \<le> min (fdurable f) (length (fdata f)))"

lemma synced_not_torn:
  assumes "header_synced d" and "crashed d d'"
  shows "\<not> torn_header d'"
proof
  assume "torn_header d'"
  then obtain f' where f': "map_of d' (segment_name (last (discover_segments d'))) = Some f'" "length (fdata f') < kWalHeaderSize"
    by (auto simp: torn_header_def)
  have names: "map fst d = map fst d'" using crashed_names [OF assms(2)] by simp
  then have disc: "discover_segments d = discover_segments d'" by (rule discover_cong)
  have "segment_name (last (discover_segments d')) \<in> fst ` set d'" using f'(1) by (metis map_of_eq_None_iff option.distinct(1))
  then have "segment_name (last (discover_segments d')) \<in> fst ` set d" using names by (metis list.set_map)
  then obtain f where f: "map_of d (segment_name (last (discover_segments d'))) = Some f" by (metis map_of_eq_None_iff not_None_eq)
  have "crashed_file f f'" using crashed_lookup [OF assms(2) f] f'(1) by simp
  then show False using assms(1) f f'(2) by (auto simp: header_synced_def disc crashed_file_def min_def split: if_splits)
qed

text \<open>A crash of what a crash has left is a crash, so a recovery may be interrupted until it cuts a torn tail.\<close>

lemma crashed_trans:
  assumes "crashed a b" and "crashed b c"
  shows "crashed a c"
proof -
  have step: "crashed_file f h" if "crashed_file f g" "crashed_file g h" for f g h
  proof -
    from that obtain i j where "fdurable f \<le> i" "fdata g = take i (fdata f)" "fdurable g \<le> j" "fdata h = take j (fdata g)"
      and k: "min (fdurable f) (length (fdata f)) \<le> fdurable g" "fdurable g \<le> length (fdata g)"
        "min (fdurable g) (length (fdata g)) \<le> fdurable h" "fdurable h \<le> length (fdata h)"
      by (auto simp: crashed_file_def)
    then have "fdata h = take (if length (fdata f) \<le> min j i then max (min j i) (fdurable f) else min j i) (fdata f)"
      and "fdurable f \<le> (if length (fdata f) \<le> min j i then max (min j i) (fdurable f) else min j i)"
      by (auto simp: min_def split: if_splits)
    then show ?thesis using k unfolding crashed_file_def by (intro conjI exI [of _ "if length (fdata f) \<le> min j i then max (min j i) (fdurable f) else min j i"]) auto
  qed
  show ?thesis using assms unfolding crashed_def
    by (rule list_all2_trans [rotated]) (use step in fastforce)
qed

text \<open>What is left of a segment: whole records and perhaps a proper prefix of one more.\<close>

fun whole :: "nat \<Rightarrow> wal_record list \<Rightarrow> wal_record list" where
  "whole j [] = []"
| "whole j (r # rs) = (if length (encode_record r) \<le> j then r # whole (j - length (encode_record r)) rs else [])"

fun torn :: "nat \<Rightarrow> wal_record list \<Rightarrow> bytes" where
  "torn j [] = []"
| "torn j (r # rs) = (if length (encode_record r) \<le> j then torn (j - length (encode_record r)) rs else take j (encode_record r))"

lemma take_records: "take j (concat (map encode_record rs)) = concat (map encode_record (whole j rs)) @ torn j rs"
  by (induction j rs rule: whole.induct) auto

lemma whole_prefix: "prefix (whole j rs) rs"
  by (induction j rs rule: whole.induct) auto

lemma whole_length: "length (concat (map encode_record (whole j rs))) \<le> j"
  by (induction j rs rule: whole.induct) auto

lemma torn_cases: "torn j rs = [] \<or> (\<exists>r \<in> set rs. \<exists>k < length (encode_record r). torn j rs = take k (encode_record r))"
proof (induction j rs rule: torn.induct)
  case (2 j r rs)
  then show ?case by (cases "length (encode_record r) \<le> j") (auto simp: not_le)
qed simp

lemma whole_longest: "length (concat (map encode_record ps)) \<le> j \<Longrightarrow> prefix ps rs \<Longrightarrow> prefix ps (whole j rs)"
proof (induction ps arbitrary: j rs)
  case (Cons p ps)
  then obtain qs where "rs = p # ps @ qs" by (auto simp: prefix_def)
  then show ?case using Cons.IH [of "j - length (encode_record p)" "ps @ qs"] Cons.prems(1) by simp
qed simp

section \<open>Scanning a segment\<close>

text \<open>Bytes at which the scan stops: none, or some that are no complete valid frame.\<close>

definition stops :: "bytes \<Rightarrow> bool" where
  "stops tr \<longleftrightarrow> tr = [] \<or> decode_record tr = Incomplete \<or> decode_record tr = BadCrc"

lemma stops_torn: "record_ok r \<Longrightarrow> k < length (encode_record r) \<Longrightarrow> stops (take k (encode_record r))"
  by (simp add: stops_def decode_torn_record)

abbreviation note_all :: "segment \<Rightarrow> wal_record list \<Rightarrow> segment" where
  "note_all s rs \<equiv> foldl (\<lambda>s r. note_lsn (lsn r) s) s rs"

abbreviation max_all :: "u64 \<Rightarrow> wal_record list \<Rightarrow> u64" where
  "max_all h rs \<equiv> foldl (\<lambda>h r. max h (lsn r)) h rs"

lemma lsn_max: "(if h < l then l else h) = max h l" for h l :: u64
  by (auto simp: max_def)

lemma scan_records:
  assumes "\<forall>r \<in> set rs. record_ok r" and "stops tr" and "length pre = off"
  shows "scan (\<lambda>st r. Inr (g st r)) (pre @ concat (map encode_record rs) @ tr) off st s h =
    (if tr = [] then Complete else Torn (off + length (concat (map encode_record rs))),
     foldl g st rs, note_all s rs, max_all h rs)"
  using assms(1,3)
proof (induction rs arbitrary: pre off st s h)
  case Nil
  then show ?case using assms(2) by (subst scan.simps) (auto simp: stops_def)
next
  case (Cons r rs)
  let ?data = "pre @ concat (map encode_record (r # rs)) @ tr"
  have len: "off < length ?data" using Cons.prems encode_record_nonempty [of r] by simp
  have dec: "decode_record (drop off ?data) = Ok r (length (encode_record r))"
    using Cons.prems decode_encode_record [of r "concat (map encode_record rs) @ tr"] by simp
  have "scan (\<lambda>st r. Inr (g st r)) ?data off st s h =
      scan (\<lambda>st r. Inr (g st r)) ((pre @ encode_record r) @ concat (map encode_record rs) @ tr)
        (off + length (encode_record r)) (g st r) (note_lsn (lsn r) s) (max h (lsn r))"
    by (subst scan.simps) (use len dec in \<open>simp add: lsn_max\<close>)
  also have "\<dots> = (if tr = [] then Complete else Torn (off + length (concat (map encode_record (r # rs)))),
      foldl g st (r # rs), note_all s (r # rs), max_all h (r # rs))"
    using Cons.IH [of "pre @ encode_record r" "off + length (encode_record r)" "g st r"] Cons.prems by simp
  finally show ?case .
qed

lemma note_all_meta: "seg_meta s rs1 \<Longrightarrow> \<forall>r \<in> set rs2. rec_ok r \<Longrightarrow> seg_meta (note_all s rs2) (rs1 @ rs2)"
proof (induction rs2 arbitrary: s rs1)
  case (Cons r rs2)
  then show ?case using Cons.IH [OF seg_meta_note [of s rs1 r]] by simp
qed simp

lemma note_all_simps [simp]: "number (note_all s rs) = number s" "sealed (note_all s rs) = sealed s"
  by (induction rs arbitrary: s) simp_all

lemma note_new_meta: "n < 10 ^ 12 \<Longrightarrow> \<forall>r \<in> set rs. rec_ok r \<Longrightarrow> seg_meta (note_all (new_segment n b) rs) rs"
  using note_all_meta [of "new_segment n b" "[]" rs] by (simp add: seg_meta_def new_segment_def)

lemma number_new_segment [simp]: "number (new_segment n b) = n" "sealed (new_segment n b) = b"
  by (simp_all add: new_segment_def)

section \<open>Replaying the segments\<close>

text \<open>The header of a file written with the configuration it is opened with.\<close>

lemma decode_seg_data:
  "decode_header (encode_header dm mt fp @ rest) \<noteq> None"
  "decode_header (encode_header dm mt fp @ rest) = Some h \<Longrightarrow> hdim h = dm \<and> hmetric h = mt"
  by (auto simp: decode_encode_header)

lemma replay_sealed:
  assumes "map_of d (segment_name (number x)) = Some f" and "fdata f = encode_header (wdim w) (wmetric w) fp @ concat (map encode_record R)"
    and "\<forall>r \<in> set R. record_ok r" and "segs \<noteq> []"
  shows "replay_from (\<lambda>st r. Inr (g st r)) old (x # segs) st w d =
    replay_from (\<lambda>st r. Inr (g st r)) (old @ [note_all x R]) segs (foldl g st R)
      (w\<lparr>segments := old @ note_all x R # segs, highest_lsn := max_all (highest_lsn w) R\<rparr>) d"
  using assms scan_records [OF assms(3), of "[]" "encode_header (wdim w) (wmetric w) fp" kWalHeaderSize g st x "highest_lsn w"]
  by (simp add: decode_encode_header stops_def)

lemma replay_active:
  assumes "map_of d (segment_name (number x)) = Some f"
    and "fdata f = encode_header (wdim w) (wmetric w) fp @ concat (map encode_record R) @ tr"
    and "\<forall>r \<in> set R. record_ok r" and "stops tr" and "active_fd w = Some (segment_name (number x))"
  shows "replay_from (\<lambda>st r. Inr (g st r)) old [x] st w d =
    (None, foldl g st R, w\<lparr>segments := old @ [note_all x R], highest_lsn := max_all (highest_lsn w) R,
       active_bytes := kWalHeaderSize + length (concat (map encode_record R))\<rparr>,
     if tr = [] then d else fsync (ftruncate d (segment_name (number x)) (kWalHeaderSize + length (concat (map encode_record R))))
       (segment_name (number x)))"
  using assms scan_records [OF assms(3,4), of "encode_header (wdim w) (wmetric w) fp" kWalHeaderSize g st x "highest_lsn w"]
  by (cases "tr = []") (simp_all add: decode_encode_header)


definition seg_file :: "u32 \<Rightarrow> u8 \<Rightarrow> u64 \<Rightarrow> disk \<Rightarrow> nat \<Rightarrow> wal_record list \<Rightarrow> bool" where
  "seg_file dm mt fp d n R \<longleftrightarrow> (\<forall>r \<in> set R. record_ok r) \<and>
     (\<exists>f. map_of d (segment_name n) = Some f \<and> fdata f = seg_data (encode_header dm mt fp) R)"

lemma max_all_append: "max_all h (xs @ ys) = max_all (max_all h xs) ys"
  by simp

text \<open>The loop over the sealed segments reaches the active one with all their records delivered.\<close>

lemma replay_sealed_all:
  assumes "list_all2 (\<lambda>x R. seg_file dm mt fp d (number x) R) xs Rss" and "segs \<noteq> []" and "segments w = old @ xs @ segs"
    and "wdim w = dm" and "wmetric w = mt"
  shows "replay_from (\<lambda>st r. Inr (g st r)) old (xs @ segs) st w d =
    replay_from (\<lambda>st r. Inr (g st r)) (old @ map2 note_all xs Rss) segs (foldl g st (concat Rss))
      (w\<lparr>segments := old @ map2 note_all xs Rss @ segs, highest_lsn := max_all (highest_lsn w) (concat Rss)\<rparr>) d"
  using assms
proof (induction xs Rss arbitrary: old st w rule: list_all2_induct)
  case Nil
  then have "w\<lparr>segments := old @ segs\<rparr> = w" by (cases w) simp
  then show ?case by simp
next
  case (Cons x xs R Rss)
  let ?w = "w\<lparr>segments := old @ note_all x R # xs @ segs, highest_lsn := max_all (highest_lsn w) R\<rparr>"
  from Cons.hyps(1) obtain f where f: "map_of d (segment_name (number x)) = Some f"
    "fdata f = encode_header (wdim w) (wmetric w) fp @ concat (map encode_record R)" "\<forall>r \<in> set R. record_ok r"
    using Cons.prems(3,4) unfolding seg_file_def seg_data_def by blast
  have "replay_from (\<lambda>st r. Inr (g st r)) old ((x # xs) @ segs) st w d =
      replay_from (\<lambda>st r. Inr (g st r)) (old @ [note_all x R]) (xs @ segs) (foldl g st R) ?w d"
    using replay_sealed [OF f, of "xs @ segs" g old st] Cons.prems(1) by simp
  also have "\<dots> = replay_from (\<lambda>st r. Inr (g st r)) ((old @ [note_all x R]) @ map2 note_all xs Rss) segs
      (foldl g (foldl g st R) (concat Rss))
      (?w\<lparr>segments := (old @ [note_all x R]) @ map2 note_all xs Rss @ segs,
          highest_lsn := max_all (highest_lsn ?w) (concat Rss)\<rparr>) d"
    using Cons.IH [of ?w "old @ [note_all x R]"] Cons.prems by simp
  finally show ?case by simp
qed

section \<open>Recovery\<close>

lemma wal_open_existing:
  assumes "discover_segments d = ns @ [n]" and "map_of d (segment_name n) = Some f"
  shows "wal_open empty_wal d dm mt fp mx = (None, \<lparr>wdim = dm, wmetric = mt, wschema_fp = fp, seg_max = mx,
    segments = map (\<lambda>n. new_segment n True) ns @ [new_segment n False], active_fd = Some (segment_name n),
    active_bytes = length (fdata f), highest_lsn = 0\<rparr>, d)"
proof -
  have "map (\<lambda>i. new_segment ((ns @ [n]) ! i) (i + 1 < length (ns @ [n]))) [0..<length (ns @ [n])] =
      map (\<lambda>n. new_segment n True) ns @ [new_segment n False]"
    by (rule nth_equalityI) (auto simp: nth_append)
  then show ?thesis using assms unfolding wal_open_def by (simp add: Let_def empty_wal_def)
qed


lemma map2_note_new: "length ns = length Rss \<Longrightarrow>
    map2 note_all (map (\<lambda>n. new_segment n True) ns) Rss = map2 (\<lambda>n R. note_all (new_segment n True) R) ns Rss"
  by (simp add: zip_map1 case_prod_unfold)

text \<open>
  After a crash \<open>open\<close> succeeds, and \<open>replay\<close> unless the header of the last segment is torn. It
  delivers all records of the sealed segments and the records that are whole in what is left of
  the active file. When it succeeds the log represents just these.
\<close>

lemma recovery:
  assumes rep: "log_rep w d ss Rss s rs k" and crash: "crashed d d'"
  shows "\<exists>j w1 w2 d2. k \<le> j \<and>
    wal_open empty_wal d' (wdim w) (wmetric w) fp mx = (None, w1, d') \<and>
    replay (\<lambda>st r. Inr (st @ [r])) [] w1 d' = (if torn_header d' then Some RuntimeError else None, concat Rss @ whole (j - kWalHeaderSize) rs, w2, d2) \<and>
    (fp = wschema_fp w \<longrightarrow> \<not> torn_header d' \<longrightarrow> (\<exists>ss' s' k'. log_rep w2 d2 ss' Rss s' (whole (j - kWalHeaderSize) rs) k' \<and> number s' = number s \<and>
      hdr w2 = hdr w \<and> highest_lsn w2 = max_all 0 (concat Rss @ whole (j - kWalHeaderSize) rs) \<and>
      set (whole (k - kWalHeaderSize) rs) \<subseteq> set (whole (k' - kWalHeaderSize) (whole (j - kWalHeaderSize) rs)) \<and>
      (kWalHeaderSize \<le> k \<longrightarrow> kWalHeaderSize \<le> k')))"
proof -
  note R = log_repD [OF rep]
  let ?h = "hdr w" and ?f = "segment_name (number s)"
  obtain f' where f': "map_of d' ?f = Some f'" "crashed_file \<lparr>fdata = seg_data ?h rs, fdurable = k\<rparr> f'"
    using crashed_lookup [OF crash R(6)] by blast
  then obtain j where j: "k \<le> j" "fdata f' = take j (seg_data ?h rs)" "k \<le> fdurable f'" "fdurable f' \<le> length (fdata f')"
    using R(5) by (auto simp: crashed_file_def min_absorb1)
  define q where "q = whole (j - kWalHeaderSize) rs"
  define t where "t = torn (j - kWalHeaderSize) rs"
  have oks: "\<forall>r \<in> set rs. rec_ok r" using R(3) by (simp add: seg_meta_def)
  then have ok: "\<forall>r \<in> set q. rec_ok r" using set_mono_prefix [OF whole_prefix] unfolding q_def by blast
  have st: "stops t" using torn_cases [of "j - kWalHeaderSize" rs] oks stops_torn
    unfolding t_def rec_ok_def by (metis stops_def)
  let ?ns = "map number ss"
  let ?w1 = "\<lparr>wdim = wdim w, wmetric = wmetric w, wschema_fp = fp, seg_max = mx,
    segments = map (\<lambda>n. new_segment n True) ?ns @ [new_segment (number s) False], active_fd = Some ?f,
    active_bytes = length (fdata f'), highest_lsn = 0\<rparr>"
  have disc: "discover_segments d' = ?ns @ [number s]" unfolding discover_cong [OF crashed_names [OF crash]] using R(8) by simp
  have op: "wal_open empty_wal d' (wdim w) (wmetric w) fp mx = (None, ?w1, d')"
    by (rule wal_open_existing [OF disc f'(1)])
  have tornh: "torn_header d' \<longleftrightarrow> j < kWalHeaderSize" using f'(1) j(2) seg_data_length [of ?h rs] by (simp add: torn_header_def disc min_less_iff_disj)
  have len: "length ss = length Rss" using R(2) by (rule list_all2_lengthD)
  have sealed: "list_all2 (\<lambda>x Q. seg_meta x Q \<and> Q \<noteq> [] \<and> map_of d' (segment_name (number x)) =
      Some \<lparr>fdata = seg_data ?h Q, fdurable = length (seg_data ?h Q)\<rparr>) ss Rss"
    using R(2) by (rule list_all2_mono) (use crashed_lookup [OF crash] crashed_durable in \<open>fastforce simp: sealed_ok_def\<close>)
  let ?xs = "map (\<lambda>n. new_segment n True) ?ns"
  have files: "list_all2 (\<lambda>x Q. seg_file (wdim w) (wmetric w) (wschema_fp w) d' (number x) Q) ?xs Rss"
    using sealed unfolding list_all2_conv_all_nth
    by (auto simp: seg_file_def seg_meta_def rec_ok_def hdr_def)
  let ?q = "concat Rss @ q"
  let ?ss' = "map2 note_all ?xs Rss" and ?s' = "note_all (new_segment (number s) False) q"
  let ?w' = "?w1\<lparr>segments := ?ss' @ [new_segment (number s) False], highest_lsn := max_all 0 (concat Rss)\<rparr>"
  have fold: "foldl (\<lambda>st r. st @ [r]) a xs = a @ xs" for a xs :: "wal_record list"
    by (induction xs arbitrary: a) simp_all
  have run0: "replay (\<lambda>st r. Inr (st @ [r])) [] ?w1 d' =
      replay_from (\<lambda>st r. Inr (st @ [r])) ?ss' [new_segment (number s) False] (concat Rss) ?w' d'"
    using replay_sealed_all [OF files, where segs = "[new_segment (number s) False]" and w = ?w1 and old = "[]"
        and g = "\<lambda>st r. st @ [r]" and st = "[]"]
    by (simp add: replay_def fold)
  show ?thesis
  proof (cases "j < kWalHeaderSize")
    case True
    then have "length (fdata f') < kWalHeaderSize" unfolding j(2) length_take by (simp add: min_less_iff_disj)
    then have "decode_header (fdata f') = None" by (simp add: decode_header_def)
    then have "replay (\<lambda>st r. Inr (st @ [r])) [] ?w1 d' = (Some RuntimeError, concat Rss, ?w', d')" unfolding run0 using f'(1) by simp
    moreover have "whole (j - kWalHeaderSize) rs = []" using True encode_record_nonempty by (cases rs) (auto simp: not_le)
    ultimately show ?thesis using j(1) op tornh True by (intro exI [of _ j] exI [of _ ?w1] exI [of _ ?w'] exI [of _ d']) simp
  next
    case False
    have data: "fdata f' = ?h @ concat (map encode_record q) @ t"
      using j(2) False by (simp add: seg_data_def take_records q_def t_def)
    let ?w2 = "?w1\<lparr>segments := ?ss' @ [?s'], highest_lsn := max_all 0 ?q, active_bytes := kWalHeaderSize + length (concat (map encode_record q))\<rparr>"
    let ?d2 = "if t = [] then d' else fsync (ftruncate d' ?f (kWalHeaderSize + length (concat (map encode_record q)))) ?f"
    have run: "replay (\<lambda>st r. Inr (st @ [r])) [] ?w1 d' = (None, ?q, ?w2, ?d2)"
      unfolding run0
      using replay_active [of d' "new_segment (number s) False" f' ?w' "wschema_fp w" q t "\<lambda>st r. st @ [r]" ?ss' "concat Rss"]
        f'(1) data ok st by (simp add: hdr_def rec_ok_def fold)
    define k' where "k' = (if t = [] then fdurable f' else length (seg_data ?h q))"
    have m: "map_of ?d2 = (map_of d')(?f \<mapsto> \<lparr>fdata = seg_data ?h q, fdurable = k'\<rparr>)"
    proof (cases "t = []")
      case True
      then have "f' = \<lparr>fdata = seg_data ?h q, fdurable = k'\<rparr>"
        using data by (cases f') (simp add: seg_data_def k'_def)
      then show ?thesis using f'(1) True by (simp add: fun_upd_idem)
    next
      case tail: False
      let ?n = "kWalHeaderSize + length (concat (map encode_record q))"
      have tk: "take ?n (fdata f') = seg_data ?h q" unfolding data seg_data_def by simp
      have "?n \<le> length (fdata f')" unfolding data by simp
      from map_of_ftruncate [OF f'(1) this] have "map_of (ftruncate d' ?f ?n) = (map_of d')(?f \<mapsto> f'\<lparr>fdata := seg_data ?h q\<rparr>)"
        unfolding tk .
      then show ?thesis using map_of_fsync [of "ftruncate d' ?f ?n" ?f "f'\<lparr>fdata := seg_data ?h q\<rparr>"] tail by (cases f') (simp add: k'_def)
    qed
    have k': "k' \<le> length (seg_data ?h q)" using j(4) data by (cases "t = []") (simp_all add: k'_def seg_data_def)
    have "log_rep ?w2 ?d2 ?ss' Rss ?s' q k'" if fp: "fp = wschema_fp w"
    proof -
      have h: "hdr ?w2 = ?h" using fp by (simp add: hdr_def)
      have nums: "map number ?ss' = ?ns" using len by (simp add: list_eq_iff_nth_eq)
      have names: "map fst ?d2 = map fst d" using crashed_names [OF crash] by simp
      have "list_all2 (sealed_ok ?h ?d2) ?ss' Rss"
        unfolding list_all2_conv_all_nth
      proof (intro conjI allI impI)
        fix i assume i: "i < length ?ss'"
        then have il: "i < length ss" "i < length Rss" using len by simp_all
        from sealed il have S: "seg_meta (ss ! i) (Rss ! i)" "Rss ! i \<noteq> []" "map_of d' (segment_name (number (ss ! i))) =
            Some \<lparr>fdata = seg_data ?h (Rss ! i), fdurable = length (seg_data ?h (Rss ! i))\<rparr>"
          by (simp_all add: list_all2_conv_all_nth)
        have "seg_meta (note_all (new_segment (number (ss ! i)) True) (Rss ! i)) (Rss ! i)"
          using S(1) by (intro note_new_meta) (simp_all add: seg_meta_def)
        then show "sealed_ok ?h ?d2 (?ss' ! i) (Rss ! i)"
          using S log_rep_other [OF rep nth_mem [OF il(1)]] il unfolding sealed_ok_def m by simp
      qed (use len in simp)
      moreover have "active_ok ?h ?d2 ?s' q k'"
        unfolding active_ok_def m using ok log_rep_numbers(1) [OF rep] note_new_meta [of "number s" q False] k' by simp
      moreover have "discover_segments ?d2 = ?ns @ [number s]"
        using discover_cong [OF names] R(8) by simp
      moreover have "distinct (map fst ?d2)" unfolding names by (rule R(9))
      ultimately show ?thesis using R(7) nums unfolding log_rep_def h by (simp add: seg_data_def)
    qed
    moreover have "set (whole (k - kWalHeaderSize) rs) \<subseteq> set (whole (k' - kWalHeaderSize) q)"
    proof -
      let ?ps = "whole (k - kWalHeaderSize) rs"
      have l: "length (concat (map encode_record ?ps)) \<le> k - kWalHeaderSize" by (rule whole_length)
      then have pq: "prefix ?ps q" unfolding q_def using j(1) by (intro whole_longest whole_prefix) simp
      then obtain zs where "q = ?ps @ zs" by (auto simp: prefix_def)
      then have "length (concat (map encode_record ?ps)) \<le> length (concat (map encode_record q))" by simp
      then have "length (concat (map encode_record ?ps)) \<le> k' - kWalHeaderSize" using l j(3) by (auto simp: k'_def seg_data_def)
      then show ?thesis by (intro set_mono_prefix whole_longest pq)
    qed
    moreover have "kWalHeaderSize \<le> k \<longrightarrow> kWalHeaderSize \<le> k'" using j(3) by (auto simp: k'_def seg_data_def)
    ultimately have fin: "fp = wschema_fp w \<longrightarrow> (\<exists>ss' s' k'. log_rep ?w2 ?d2 ss' Rss s' q k' \<and> number s' = number s \<and>
        hdr ?w2 = ?h \<and> highest_lsn ?w2 = max_all 0 ?q \<and> set (whole (k - kWalHeaderSize) rs) \<subseteq> set (whole (k' - kWalHeaderSize) q) \<and>
        (kWalHeaderSize \<le> k \<longrightarrow> kWalHeaderSize \<le> k'))"
      by (intro impI exI conjI, blast) (simp_all add: hdr_def)
    have notorn: "\<not> torn_header d'" using tornh False by simp
    have res: "replay (\<lambda>st r. Inr (st @ [r])) [] ?w1 d' = (if torn_header d' then Some RuntimeError else None, ?q, ?w2, ?d2)"
      using run notorn by simp
    have fin': "fp = wschema_fp w \<longrightarrow> \<not> torn_header d' \<longrightarrow> (\<exists>ss' s' k'. log_rep ?w2 ?d2 ss' Rss s' q k' \<and> number s' = number s \<and>
        hdr ?w2 = ?h \<and> highest_lsn ?w2 = max_all 0 ?q \<and> set (whole (k - kWalHeaderSize) rs) \<subseteq> set (whole (k' - kWalHeaderSize) q) \<and>
        (kWalHeaderSize \<le> k \<longrightarrow> kWalHeaderSize \<le> k'))"
      using fin by blast
    show ?thesis using res fin' unfolding q_def
      by - (rule exI [of _ j], rule exI [of _ ?w1], rule exI, rule exI, intro conjI, rule j(1), rule op, assumption, assumption)
  qed
qed

section \<open>Crashes in the middle of an operation\<close>

text \<open>
  The log that the directory represents when an append stops half way is the one before or after
  its rotation; it has the same records, and no fewer of them are durable.
\<close>

lemma crashed_created:
  assumes "map_of d p = Some \<lparr>fdata = [], fdurable = 0\<rparr>" and "distinct (map fst d)" and "crashed d d'"
  shows "crashed (write_at d p 0 b) d'"
proof -
  let ?g = "\<lambda>x. if fst x = p then (p, \<lparr>fdata = b, fdurable = 0\<rparr>) else x"
  have "AList.update p \<lparr>fdata = b, fdurable = 0\<rparr> d = map ?g d" using assms(1,2)
  proof (induction d)
    case (Cons x d)
    show ?case
    proof (cases "fst x = p")
      case True
      then have "map ?g d = map (\<lambda>x. x) d" using Cons.prems(2) by (intro map_cong) (auto simp: image_iff)
      then show ?thesis using True by (cases x) simp
    next
      case False
      then show ?thesis using Cons by (cases x) auto
    qed
  qed simp
  then have w: "write_at d p 0 b = map ?g d" using assms(1) by (simp add: write_at_def)
  have step: "fst (?g x) = fst y \<and> crashed_file (snd (?g x)) (snd y)" if "x \<in> set d" "fst x = fst y \<and> crashed_file (snd x) (snd y)" for x y
  proof (cases "fst x = p")
    case True
    then have "snd x = \<lparr>fdata = [], fdurable = 0\<rparr>" using assms(1,2) that(1) by (metis eq_fst_iff map_of_is_SomeI option.inject snd_conv)
    then have "fdata (snd y) = []" "fdurable (snd y) = 0" using that(2) by (auto simp: crashed_file_def)
    then show ?thesis using True that(2) by (auto simp: crashed_file_def intro: exI [of _ 0])
  qed (use that in auto)
  show ?thesis unfolding crashed_def w list_all2_map1
    by (rule list.rel_mono_strong [OF assms(3) [unfolded crashed_def]]) (rule step)
qed

lemma append_stages_rep:
  assumes rep: "log_rep w d ss Rss s rs k" and num: "number s + 1 < 10 ^ 12" and h: "h \<in> set (append_stages r w d)"
  shows "\<exists>w' h' ss' Rss' s' rs' k'. log_rep w' h' ss' Rss' s' rs' k' \<and> wdim w' = wdim w \<and> wmetric w' = wmetric w \<and> wschema_fp w' = wschema_fp w \<and>
    highest_lsn w' = highest_lsn w \<and> concat Rss' @ rs' = concat Rss @ rs \<and>
    set (concat Rss) \<union> set (whole (k - kWalHeaderSize) rs) \<subseteq> set (concat Rss') \<union> set (whole (k' - kWalHeaderSize) rs') \<and>
    (\<forall>d'. crashed h d' \<longrightarrow> crashed h' d')"
proof -
  note R = log_repD [OF rep]
  let ?f = "segment_name (number s)" and ?p = "segment_name (number s + 1)"
  let ?d0 = "fsync d ?f"
  let ?d1 = "AList.update ?p \<lparr>fdata = [], fdurable = 0\<rparr> ?d0"
  let ?d2 = "write_at ?d1 ?p 0 (hdr w)"
  let ?d3 = "fsync ?d2 ?p"
  let ?w = "w\<lparr>active_fd := Some ?p, segments := ss @ [s\<lparr>sealed := True\<rparr>, new_segment (number s + 1) False], active_bytes := kWalHeaderSize\<rparr>"
  have full: "kWalHeaderSize < active_bytes w" using h by (auto simp: append_stages_def split: if_splits)
  have rs: "rs \<noteq> []" using full seg_data_longer [of "hdr w" rs] unfolding R(11) by simp
  have "append_stages r w d = ?d0 # segment_stages (w\<lparr>active_fd := None, segments := ss @ [s\<lparr>sealed := True\<rparr>]\<rparr>) ?d0"
    using h R(1,10) by (auto simp: append_stages_def rotate_stages_def Let_def split: if_splits)
  then have cases: "h = ?d0 \<or> h = ?d1 \<or> h = ?d2 \<or> h = ?d3" using h by (auto simp: segment_stages_def Let_def hdr_def split: if_splits)
  have m1: "map_of ?d1 = (map_of ?d0)(?p \<mapsto> \<lparr>fdata = [], fdurable = 0\<rparr>)" by (simp add: update_conv')
  then have m2: "map_of ?d2 = (map_of ?d0)(?p \<mapsto> \<lparr>fdata = hdr w, fdurable = 0\<rparr>)"
    using map_of_write_at [of ?d1 ?p "\<lparr>fdata = [], fdurable = 0\<rparr>" "hdr w"] by simp
  then have m3: "map_of ?d3 = (map_of ?d0)(?p \<mapsto> \<lparr>fdata = hdr w, fdurable = kWalHeaderSize\<rparr>)"
    using map_of_fsync [of ?d2 ?p "\<lparr>fdata = hdr w, fdurable = 0\<rparr>"] by simp
  have rep2: "log_rep ?w ?d2 (ss @ [s\<lparr>sealed := True\<rparr>]) (Rss @ [rs]) (new_segment (number s + 1) False) [] 0"
    by (rule rotated [OF rep rs num _ m2]) simp_all
  have rep3: "log_rep ?w ?d3 (ss @ [s\<lparr>sealed := True\<rparr>]) (Rss @ [rs]) (new_segment (number s + 1) False) [] kWalHeaderSize"
    by (rule rotated [OF rep rs num _ m3]) simp_all
  have sub: "set (concat Rss) \<union> set (whole (k - kWalHeaderSize) rs) \<subseteq> set (concat (Rss @ [rs]))"
    using set_mono_prefix [OF whole_prefix, of "k - kWalHeaderSize" rs] by auto
  have c1: "crashed ?d2 d'" if "crashed ?d1 d'" for d'
    by (rule crashed_created [OF _ _ that]) (use m1 R(9) in \<open>simp_all add: distinct_update\<close>)
  consider "h = ?d0" | "h = ?d1 \<or> h = ?d2" | "h = ?d3" using cases by blast
  then show ?thesis
  proof cases
    case 1
    have "log_rep w ?d0 ss Rss s rs (length (seg_data (hdr w) rs))"
      using fsync_rep [OF rep log_rep_numbers(1) [OF rep]] by simp
    moreover have "whole (length (seg_data (hdr w) rs) - kWalHeaderSize) rs = rs"
      using whole_longest [of rs "length (concat (map encode_record rs))" rs] whole_prefix prefix_order.eq_iff by (fastforce simp: seg_data_def)
    then have "set (concat Rss) \<union> set (whole (k - kWalHeaderSize) rs) \<subseteq>
        set (concat Rss) \<union> set (whole (length (seg_data (hdr w) rs) - kWalHeaderSize) rs)" using sub by auto
    ultimately show ?thesis unfolding 1 by blast
  next
    case 2
    then have "\<forall>d'. crashed h d' \<longrightarrow> crashed ?d2 d'" using c1 by blast
    then show ?thesis using rep2 sub by (intro exI [of _ ?w] exI [of _ ?d2] exI [of _ "ss @ [s\<lparr>sealed := True\<rparr>]"] exI [of _ "Rss @ [rs]"]
        exI [of _ "new_segment (number s + 1) False"] exI [of _ "[]"] exI [of _ 0]) (simp del: set_concat)
  next
    case 3
    then show ?thesis using rep3 sub by (intro exI [of _ ?w] exI [of _ ?d3] exI [of _ "ss @ [s\<lparr>sealed := True\<rparr>]"] exI [of _ "Rss @ [rs]"]
        exI [of _ "new_segment (number s + 1) False"] exI [of _ "[]"] exI [of _ kWalHeaderSize]) (simp del: set_concat)
  qed
qed

text \<open>A truncation that stops half way has unlinked some of the segments that it would.\<close>

lemma truncate_stages_rep:
  assumes "log_rep w d (as @ bs) (As @ Bs) s rs k" and "length as = length As" and "h \<in> set (truncate_stages upl (bs @ [s]) d)"
  shows "\<exists>bs' i. log_rep (w\<lparr>segments := as @ bs' @ [s]\<rparr>) h (as @ bs') (As @ filter (\<lambda>R. \<not> lsn (last R) \<le> upl) (take i Bs) @ drop i Bs) s rs k"
  using assms
proof (induction bs arbitrary: as As Bs w d)
  case (Cons x bs)
  have "length (as @ x # bs) = length (As @ Bs)" using log_repD(2) [OF Cons.prems(1)] by (rule list_all2_lengthD)
  then obtain X Xs where Bs: "Bs = X # Xs" using Cons.prems(2) by (cases Bs) auto
  have "sealed_ok (hdr w) d x X"
    using log_repD(2) [OF Cons.prems(1)] Cons.prems(2) by (simp add: Bs list_all2_append)
  then have x: "sealed x" "last_lsn x = lsn (last X)" "lsn (last X) \<noteq> 0" "map_of d (segment_name (number x)) \<noteq> None"
    by (auto simp: sealed_ok_def seg_meta_def rec_ok_def)
  show ?case
  proof (cases "lsn (last X) \<le> upl")
    case True
    let ?d = "AList.delete (segment_name (number x)) d"
    note unl = unlink_rep [OF Cons.prems(1) [unfolded Bs] Cons.prems(2)]
    have "h = ?d \<or> h \<in> set (truncate_stages upl (bs @ [s]) ?d)" using Cons.prems(3) x True by (simp add: Let_def)
    then show ?thesis
    proof
      assume "h = ?d"
      then show ?thesis using unl True by (intro exI [of _ bs] exI [of _ 1]) (simp add: Bs)
    next
      assume "h \<in> set (truncate_stages upl (bs @ [s]) ?d)"
      from Cons.IH [OF unl Cons.prems(2) this] obtain bs' i where
        "log_rep (w\<lparr>segments := as @ bs' @ [s]\<rparr>) h (as @ bs') (As @ filter (\<lambda>R. \<not> lsn (last R) \<le> upl) (take i Xs) @ drop i Xs) s rs k" by auto
      then show ?thesis using True by (intro exI [of _ bs'] exI [of _ "Suc i"]) (simp add: Bs)
    qed
  next
    case False
    have l: "log_rep w d ((as @ [x]) @ bs) ((As @ [X]) @ Xs) s rs k" using Cons.prems(1) by (simp add: Bs)
    have "h \<in> set (truncate_stages upl (bs @ [s]) d)" using Cons.prems(3) x False by simp
    from Cons.IH [OF l _ this] obtain bs' i where
      "log_rep (w\<lparr>segments := (as @ [x]) @ bs' @ [s]\<rparr>) h ((as @ [x]) @ bs')
        ((As @ [X]) @ filter (\<lambda>R. \<not> lsn (last R) \<le> upl) (take i Xs) @ drop i Xs) s rs k" using Cons.prems(2) by auto
    then show ?thesis using False by (intro exI [of _ "x # bs'"] exI [of _ "Suc i"]) (simp add: Bs)
  qed
qed simp

end
