(* ===== verification/Wal_Spec.thy ===== *)
theory Wal_Spec
  imports Wal_Recovery
begin

text \<open>
  The contract of the write-ahead log, over all interleavings of its public operations
  and of crashes: a record a completed \<open>sync\<close> covered is never lost before a
  \<open>truncate\<close> has released it, and what \<open>replay\<close> delivers is a contiguous part of
  the history of appended records.
\<close>

section \<open>The system\<close>

text \<open>
  The object and its directory, the \<open>sync\<close> calls between their locked part and their
  \<open>fsync\<close>; and, not in the code: the records appended since the last crash or recovered by
  it, those some completed \<open>sync\<close> covered, and the largest argument of \<open>truncate\<close>.
\<close>

record wsys =
  wlog :: wal
  wdir :: disk
  wpend :: "(string \<times> u64) list"
  whist :: "wal_record list"
  wacked :: "wal_record set"
  wupto :: u64

definition collect :: "wal_record list \<Rightarrow> wal_record \<Rightarrow> wal_record list res" where
  "collect st r = Inr (st @ [r])"

text \<open>
  Where a crash can come: between two operations, or within one that changes the names or the
  durable bytes of the directory, an append that rotates or a truncation, after any of its system
  calls. (Within any other the directory is one that a crash before or after it leaves as well.)
\<close>

inductive stopped_in :: "wsys \<Rightarrow> wsys \<Rightarrow> bool" where
  between: "stopped_in s s"
| in_append: "number (last (segments (wlog s))) + 1 < 10 ^ 12 \<Longrightarrow> h \<in> set (append_stages r (wlog s) (wdir s)) \<Longrightarrow>
    stopped_in s (s\<lparr>wdir := h\<rparr>)"
| in_truncate: "h \<in> set (truncate_stages u (segments (wlog s)) (wdir s)) \<Longrightarrow>
    stopped_in s (s\<lparr>wdir := h, wupto := max (wupto s) u\<rparr>)"

text \<open>
  A caller appends records whose lsn is above \<open>max_lsn()\<close>. Segment numbers of 12 digits
  are not exhausted. After a crash the database opens and replays the log again.
\<close>

inductive wal_op :: "wsys \<Rightarrow> wsys \<Rightarrow> bool" where
  ws_append: "rec_ok r \<Longrightarrow> highest_lsn (wlog s) < lsn r \<Longrightarrow> number (last (segments (wlog s))) + 1 < 10 ^ 12 \<Longrightarrow>
    append_wal r (wlog s) (wdir s) = (None, w, d) \<Longrightarrow>
    wal_op s (s\<lparr>wlog := w, wdir := d, whist := whist s @ [r]\<rparr>)"
| ws_sync_begin: "sync_begin (wlog s) = Inr p \<Longrightarrow> wal_op s (s\<lparr>wpend := p # wpend s\<rparr>)"
| ws_sync_end: "p \<in> set (wpend s) \<Longrightarrow> sync_end p (wdir s) = (t, d) \<Longrightarrow>
    wal_op s (s\<lparr>wdir := d, wpend := remove1 p (wpend s), wacked := wacked s \<union> {r \<in> set (whist s). lsn r \<le> t}\<rparr>)"
| ws_truncate: "truncate_wal u (wlog s) (wdir s) = (None, w, d) \<Longrightarrow>
    wal_op s (s\<lparr>wlog := w, wdir := d, wupto := max (wupto s) u\<rparr>)"

inductive wal_step :: "wsys \<Rightarrow> wsys \<Rightarrow> bool" where
  ws_op: "wal_op s t \<Longrightarrow> wal_step s t"
| ws_crash: "stopped_in s t \<Longrightarrow> crashed (wdir t) d \<Longrightarrow>
    wal_open empty_wal d (wdim (wlog s)) (wmetric (wlog s)) (wschema_fp (wlog s)) mx = (None, w1, d1) \<Longrightarrow>
    replay collect [] w1 d1 = (None, rs, w2, d2) \<Longrightarrow>
    wal_step s (t\<lparr>wlog := w2, wdir := d2, wpend := [], whist := rs\<rparr>)"

inductive wal_reach :: "wsys \<Rightarrow> bool" where
  wr_start: "discover_segments d0 = [] \<Longrightarrow> distinct (map fst d0) \<Longrightarrow>
    wal_open empty_wal d0 dm mt fp mx = (None, w, d) \<Longrightarrow>
    wal_reach \<lparr>wlog = w, wdir = d, wpend = [], whist = [], wacked = {}, wupto = 0\<rparr>"
| wr_step: "wal_reach s \<Longrightarrow> wal_step s t \<Longrightarrow> wal_reach t"

section \<open>The invariant\<close>

definition increasing :: "wal_record list \<Rightarrow> bool" where
  "increasing rs \<longleftrightarrow> sorted_wrt (\<lambda>a b. lsn a < lsn b) rs"

text \<open>A pending \<open>sync\<close> holds the active segment, or all it covers is sealed or gone.\<close>

definition pend_ok :: "segment \<Rightarrow> wal_record list \<Rightarrow> u64 \<Rightarrow> string \<times> u64 \<Rightarrow> bool" where
  "pend_ok sg rs h p \<longleftrightarrow> snd p \<le> h \<and> (\<exists>m < 10 ^ 12. fst p = segment_name m \<and>
     (m = number sg \<or> m < number sg \<and> (\<forall>r \<in> set rs. snd p < lsn r)))"

definition wal_inv_for :: "wsys \<Rightarrow> segment list \<Rightarrow> wal_record list list \<Rightarrow> segment \<Rightarrow> wal_record list \<Rightarrow> nat \<Rightarrow> nat \<Rightarrow> bool" where
  "wal_inv_for s ss Rss sg rs k n \<longleftrightarrow> log_rep (wlog s) (wdir s) ss Rss sg rs k \<and>
     n \<le> length (whist s) \<and> concat Rss @ rs = drop n (whist s) \<and> (\<forall>r \<in> set (take n (whist s)). lsn r \<le> wupto s) \<and>
     highest_lsn (wlog s) = max_all 0 (whist s) \<and> increasing (whist s) \<and>
     (\<forall>r \<in> wacked s. wupto s < lsn r \<longrightarrow> r \<in> set (concat Rss) \<union> set (whole (k - kWalHeaderSize) rs)) \<and>
     (\<forall>p \<in> set (wpend s). pend_ok sg rs (max_all 0 (whist s)) p)"

definition wal_inv :: "wsys \<Rightarrow> bool" where
  "wal_inv s \<longleftrightarrow> (\<exists>ss Rss sg rs k n. wal_inv_for s ss Rss sg rs k n)"

lemma wal_invI: "wal_inv_for s ss Rss sg rs k n \<Longrightarrow> wal_inv s"
  unfolding wal_inv_def by blast

lemma max_all_mono: "h \<le> max_all h rs"
proof (induction rs arbitrary: h)
  case (Cons r rs)
  have "h \<le> max h (lsn r)" by simp
  also have "\<dots> \<le> max_all (max h (lsn r)) rs" by (rule Cons.IH)
  finally show ?case by simp
qed simp

lemma max_all_ge: "r \<in> set rs \<Longrightarrow> lsn r \<le> max_all h rs"
proof (induction rs arbitrary: h)
  case (Cons x rs)
  then show ?case using max_all_mono [of "max h (lsn x)" rs] by (auto intro: order_trans [of _ "max h (lsn x)"])
qed simp

lemma whole_mono: "j \<le> j' \<Longrightarrow> prefix rs rs' \<Longrightarrow> prefix (whole j rs) (whole j' rs')"
  using whole_length [of j rs] whole_prefix [of j rs]
  by (intro whole_longest) (auto intro: prefix_order.order_trans)

lemma whole_all: "length (concat (map encode_record rs)) \<le> j \<Longrightarrow> whole j rs = rs"
  using whole_longest [of rs j rs] whole_prefix [of j rs] by (simp add: prefix_order.eq_iff)

lemma increasing_append: "increasing (xs @ ys) \<longleftrightarrow> increasing xs \<and> increasing ys \<and> (\<forall>x \<in> set xs. \<forall>y \<in> set ys. lsn x < lsn y)"
  by (auto simp: increasing_def sorted_wrt_append)

lemma increasing_snoc: "increasing rs \<Longrightarrow> max_all 0 rs < lsn r \<Longrightarrow> increasing (rs @ [r])"
  using max_all_ge [of _ rs 0] by (fastforce simp: increasing_append increasing_def [of "[r]"])

lemma wal_inv_append:
  assumes inv: "wal_inv s" and r: "rec_ok r" "highest_lsn (wlog s) < lsn r" "number (last (segments (wlog s))) + 1 < 10 ^ 12"
  shows "\<exists>w d. append_wal r (wlog s) (wdir s) = (None, w, d) \<and> wal_inv (s\<lparr>wlog := w, wdir := d, whist := whist s @ [r]\<rparr>)"
proof -
  from inv obtain ss Rss sg rs k n where I: "wal_inv_for s ss Rss sg rs k n" by (auto simp: wal_inv_def)
  note J = I [unfolded wal_inv_for_def]
  have num: "number sg + 1 < 10 ^ 12" using r(3) log_repD(1) [OF conjunct1 [OF J]] by simp
  from append_rep [OF conjunct1 [OF J] r(1) num] obtain w d ss' Rss' s' rs' k' where
    run: "append_wal r (wlog s) (wdir s) = (None, w, d)" and rep: "log_rep w d ss' Rss' s' rs' k'" and
    high: "highest_lsn w = max (highest_lsn (wlog s)) (lsn r)" and
    c: "ss' = ss \<and> Rss' = Rss \<and> number s' = number sg \<and> rs' = rs @ [r] \<and> k' = k \<or>
     ss' = ss @ [sg\<lparr>sealed := True\<rparr>] \<and> Rss' = Rss @ [rs] \<and> number s' = number sg + 1 \<and> rs' = [r] \<and> k' = kWalHeaderSize"
    by blast
  let ?s = "s\<lparr>wlog := w, wdir := d, whist := whist s @ [r]\<rparr>"
  have h: "max_all 0 (whist s) < lsn r" using J r(2) by simp
  have seq: "concat Rss' @ rs' = (concat Rss @ rs) @ [r]" using c by auto
  have ack: "set (concat Rss) \<union> set (whole (k - kWalHeaderSize) rs) \<subseteq> set (concat Rss') \<union> set (whole (k' - kWalHeaderSize) rs')"
  proof -
    have "set (whole (k - kWalHeaderSize) rs) \<subseteq> set (whole (k - kWalHeaderSize) (rs @ [r]))"
      by (intro set_mono_prefix whole_mono) simp_all
    moreover have "set (whole (k - kWalHeaderSize) rs) \<subseteq> set rs" by (intro set_mono_prefix whole_prefix)
    ultimately show ?thesis using c by auto
  qed
  then have ack': "\<forall>x \<in> wacked s. wupto s < lsn x \<longrightarrow> x \<in> set (concat Rss') \<union> set (whole (k' - kWalHeaderSize) rs')"
    using J by blast
  have pend: "pend_ok s' rs' (max_all 0 (whist s @ [r])) p" if "p \<in> set (wpend s)" for p
  proof -
    from J that have "pend_ok sg rs (max_all 0 (whist s)) p" by blast
    then show ?thesis using c h by (fastforce simp: pend_ok_def)
  qed
  have "wal_inv_for ?s ss' Rss' s' rs' k' n"
    unfolding wal_inv_for_def using J rep high h ack' pend increasing_snoc [OF _ h] seq by (simp del: set_concat)
  then show ?thesis using run wal_invI by blast
qed

lemma wal_inv_sync_begin:
  assumes "wal_inv s"
  shows "\<exists>p. sync_begin (wlog s) = Inr p \<and> wal_inv (s\<lparr>wpend := p # wpend s\<rparr>)"
proof -
  from assms obtain ss Rss sg rs k n where I: "wal_inv_for s ss Rss sg rs k n" by (auto simp: wal_inv_def)
  note J = I [unfolded wal_inv_for_def]
  let ?p = "(segment_name (number sg), highest_lsn (wlog s))"
  have "pend_ok sg rs (max_all 0 (whist s)) ?p"
    using J log_rep_numbers(1) [OF conjunct1 [OF J]] by (auto simp: pend_ok_def)
  then have "wal_inv_for (s\<lparr>wpend := ?p # wpend s\<rparr>) ss Rss sg rs k n" using J by (simp add: wal_inv_for_def)
  moreover have "sync_begin (wlog s) = Inr ?p" using log_repD(10) [OF conjunct1 [OF J]] by (simp add: sync_begin_def)
  ultimately show ?thesis using wal_invI by blast
qed

lemma wal_inv_sync_end:
  assumes "wal_inv s" and p: "p \<in> set (wpend s)" "sync_end p (wdir s) = (t, d)"
  shows "wal_inv (s\<lparr>wdir := d, wpend := remove1 p (wpend s), wacked := wacked s \<union> {r \<in> set (whist s). lsn r \<le> t}\<rparr>)"
proof -
  from assms obtain ss Rss sg rs k n where I: "wal_inv_for s ss Rss sg rs k n" by (auto simp: wal_inv_def)
  note J = I [unfolded wal_inv_for_def]
  from J p(1) obtain m where m: "m < 10 ^ 12" "fst p = segment_name m" and
    mc: "m = number sg \<or> m < number sg \<and> (\<forall>r \<in> set rs. snd p < lsn r)" by (auto simp: pend_ok_def)
  let ?k = "if m = number sg then length (seg_data (hdr (wlog s)) rs) else k"
  have d: "t = snd p" "d = fsync (wdir s) (segment_name m)" using p(2) m(2) by (auto simp: sync_end_def)
  have rep: "log_rep (wlog s) d ss Rss sg rs ?k" unfolding d(2) by (rule fsync_rep [OF conjunct1 [OF J] m(1)])
  have "k \<le> ?k" using log_repD(5) [OF conjunct1 [OF J]] by simp
  then have old: "set (whole (k - kWalHeaderSize) rs) \<subseteq> set (whole (?k - kWalHeaderSize) rs)"
    by (intro set_mono_prefix whole_mono) auto
  have new: "r \<in> set (concat Rss) \<union> set (whole (?k - kWalHeaderSize) rs)"
    if r: "r \<in> set (whist s)" "lsn r \<le> t" "wupto s < lsn r" for r
  proof -
    have "r \<notin> set (take n (whist s))" using J r(3) by (auto simp: not_le [symmetric])
    then have "r \<in> set (drop n (whist s))" using r(1) by (metis Un_iff append_take_drop_id set_append)
    then have "r \<in> set (concat Rss) \<or> r \<in> set rs" using J by (metis Un_iff set_append)
    then show ?thesis
    proof
      assume rs: "r \<in> set rs"
      then have "m = number sg" using mc r(2) d(1) by (auto simp: not_le [symmetric])
      then show ?thesis using rs whole_all [of rs "length (concat (map encode_record rs))"] by (simp add: seg_data_def)
    qed simp
  qed
  have ack: "\<forall>r \<in> wacked s \<union> {r \<in> set (whist s). lsn r \<le> t}. wupto s < lsn r \<longrightarrow>
      r \<in> set (concat Rss) \<union> set (whole (?k - kWalHeaderSize) rs)"
    using J old new by blast
  have "wal_inv_for (s\<lparr>wdir := d, wpend := remove1 p (wpend s), wacked := wacked s \<union> {r \<in> set (whist s). lsn r \<le> t}\<rparr>)
      ss Rss sg rs ?k n"
    unfolding wal_inv_for_def using J rep ack set_remove1_subset [of p "wpend s"]
    by (simp del: set_concat) blast
  then show ?thesis by (rule wal_invI)
qed


text \<open>With increasing lsns, the segments \<open>truncate\<close> unlinks are the oldest ones.\<close>

lemma filter_segments:
  assumes "increasing (concat Rss @ rs)" and "\<forall>R \<in> set Rss. R \<noteq> []"
  shows "\<exists>i. filter (\<lambda>R. \<not> lsn (last R) \<le> u) Rss = drop i Rss \<and> (\<forall>r \<in> set (concat (take i Rss)). lsn r \<le> u)"
  using assms
proof (induction Rss)
  case (Cons R Rss)
  have inc: "increasing R" "increasing (concat Rss @ rs)" and less: "\<forall>x \<in> set R. \<forall>y \<in> set (concat Rss). lsn x < lsn y"
    using Cons.prems(1) by (auto simp: increasing_append simp del: set_concat)
  have R: "last R \<in> set R" using Cons.prems(2) by simp
  show ?case
  proof (cases "lsn (last R) \<le> u")
    case True
    from Cons.IH [OF inc(2)] Cons.prems(2) obtain i where
      i: "filter (\<lambda>R. \<not> lsn (last R) \<le> u) Rss = drop i Rss" "\<forall>r \<in> set (concat (take i Rss)). lsn r \<le> u" by auto
    have "lsn r \<le> lsn (last R)" if "r \<in> set R" for r
      using that inc(1) by (cases R rule: rev_cases) (auto simp: increasing_append)
    then have "\<forall>r \<in> set R. lsn r \<le> u" using True by (meson order_trans)
    then show ?thesis using i True by (intro exI [of _ "Suc i"]) auto
  next
    case False
    have "\<not> lsn (last Q) \<le> u" if "Q \<in> set Rss" for Q
    proof -
      have "last Q \<in> set Q" using that Cons.prems(2) by simp
      then have "last Q \<in> set (concat Rss)" using that by auto
      then show ?thesis using less R False by (meson not_le order_less_trans)
    qed
    then show ?thesis using False by (intro exI [of _ 0]) (auto simp: filter_id_conv)
  qed
qed simp

lemma sealed_nonempty: "list_all2 (sealed_ok h d) ss Rss \<Longrightarrow> \<forall>R \<in> set Rss. R \<noteq> []"
  by (induction rule: list_all2_induct) (auto simp: sealed_ok_def)

lemma log_rep_nonempty: "log_rep w d ss Rss s rs k \<Longrightarrow> \<forall>R \<in> set Rss. R \<noteq> []"
  by (rule sealed_nonempty [OF log_repD(2)])

text \<open>The log without its oldest segments, all of whose records were released.\<close>

lemma wal_inv_drop:
  assumes I: "wal_inv_for s ss Rss sg rs k n" and low: "\<forall>r \<in> set (concat (take i Rss)). lsn r \<le> u"
    and rep: "log_rep w h ss' (drop i Rss) sg rs k" and high: "highest_lsn w = highest_lsn (wlog s)"
  shows "wal_inv (s\<lparr>wlog := w, wdir := h, wupto := max (wupto s) u\<rparr>)"
proof -
  note J = I [unfolded wal_inv_for_def]
  let ?Rss = "drop i Rss" and ?m = "length (concat (take i Rss))"
  have cat: "concat Rss = concat (take i Rss) @ concat ?Rss" by (metis append_take_drop_id concat_append)
  have seq: "concat ?Rss @ rs = drop (n + ?m) (whist s)"
  proof -
    have "drop (n + ?m) (whist s) = drop ?m (drop n (whist s))" by (simp add: add.commute)
    also have "drop n (whist s) = concat (take i Rss) @ concat ?Rss @ rs" using J cat by (metis append.assoc)
    finally show ?thesis by simp
  qed
  have old: "take (n + ?m) (whist s) = take n (whist s) @ concat (take i Rss)"
  proof -
    have "take (n + ?m) (whist s) = take n (whist s) @ take ?m (drop n (whist s))" by (rule take_add)
    also have "drop n (whist s) = concat (take i Rss) @ concat ?Rss @ rs" using J cat by (metis append.assoc)
    finally show ?thesis by simp
  qed
  have len: "n + ?m \<le> length (whist s)" using arg_cong [OF old, of length] J by simp
  have low': "\<forall>r \<in> set (take (n + ?m) (whist s)). lsn r \<le> max (wupto s) u"
    unfolding old using J low by (auto simp: le_max_iff_disj simp del: set_concat)
  have ack: "\<forall>r \<in> wacked s. max (wupto s) u < lsn r \<longrightarrow> r \<in> set (concat ?Rss) \<union> set (whole (k - kWalHeaderSize) rs)"
  proof (intro ballI impI)
    fix r assume r: "r \<in> wacked s" "max (wupto s) u < lsn r"
    then have "r \<in> set (concat Rss) \<union> set (whole (k - kWalHeaderSize) rs)" using J by simp
    moreover have "r \<notin> set (concat (take i Rss))" using low r(2) by (auto dest: bspec simp del: set_concat)
    ultimately show "r \<in> set (concat ?Rss) \<union> set (whole (k - kWalHeaderSize) rs)" using cat by (metis Un_iff set_append)
  qed
  have "wal_inv_for (s\<lparr>wlog := w, wdir := h, wupto := max (wupto s) u\<rparr>) ss' ?Rss sg rs k (n + ?m)"
    unfolding wal_inv_for_def using J rep high seq len low' ack by (simp del: set_concat)
  then show ?thesis by (rule wal_invI)
qed

lemma history_increasing: "wal_inv_for s ss Rss sg rs k n \<Longrightarrow> increasing (concat Rss @ rs)"
  by (metis (no_types, lifting) append_take_drop_id increasing_append wal_inv_for_def)

lemma wal_inv_truncate:
  assumes "wal_inv s"
  shows "\<exists>w d. truncate_wal u (wlog s) (wdir s) = (None, w, d) \<and> wal_inv (s\<lparr>wlog := w, wdir := d, wupto := max (wupto s) u\<rparr>)"
proof -
  from assms obtain ss Rss sg rs k n where I: "wal_inv_for s ss Rss sg rs k n" by (auto simp: wal_inv_def)
  note J = I [unfolded wal_inv_for_def]
  from truncate_rep [OF conjunct1 [OF J], of u] obtain ss' w d where
    run: "truncate_wal u (wlog s) (wdir s) = (None, w, d)" "highest_lsn w = highest_lsn (wlog s)" and
    rep: "log_rep w d ss' (filter (\<lambda>R. \<not> lsn (last R) \<le> u) Rss) sg rs k" by blast
  from filter_segments [OF history_increasing [OF I] log_rep_nonempty [OF conjunct1 [OF J]], of u] obtain i where
    i: "filter (\<lambda>R. \<not> lsn (last R) \<le> u) Rss = drop i Rss" "\<forall>r \<in> set (concat (take i Rss)). lsn r \<le> u" by blast
  show ?thesis using wal_inv_drop [OF I i(2) rep [unfolded i(1)] run(2)] run(1) by blast
qed

lemma wal_inv_forget:
  assumes "wal_inv s"
  shows "wal_inv (s\<lparr>wpend := []\<rparr>)"
proof -
  from assms obtain ss Rss sg rs k n where "wal_inv_for s ss Rss sg rs k n" by (auto simp: wal_inv_def)
  then have "wal_inv_for (s\<lparr>wpend := []\<rparr>) ss Rss sg rs k n" by (simp add: wal_inv_for_def)
  then show ?thesis by (rule wal_invI)
qed

text \<open>In the middle of an operation the directory is that of a log, too.\<close>

lemma wal_inv_stopped:
  assumes inv: "wal_inv s" and st: "stopped_in s t"
  shows "\<exists>w h. wal_inv (t\<lparr>wlog := w, wdir := h, wpend := []\<rparr>) \<and> wdim w = wdim (wlog s) \<and> wmetric w = wmetric (wlog s) \<and>
    wschema_fp w = wschema_fp (wlog s) \<and> (\<forall>d. crashed (wdir t) d \<longrightarrow> crashed h d)"
proof -
  from inv obtain ss Rss sg rs k n where I: "wal_inv_for s ss Rss sg rs k n" by (auto simp: wal_inv_def)
  note J = I [unfolded wal_inv_for_def]
  have rep: "log_rep (wlog s) (wdir s) ss Rss sg rs k" using J by simp
  show ?thesis using st
  proof cases
    case between
    have "wal_inv (s\<lparr>wlog := wlog s, wdir := wdir s, wpend := []\<rparr>)" using wal_inv_forget [OF inv] by simp
    then show ?thesis unfolding between by blast
  next
    case (in_append h r)
    have "number sg + 1 < 10 ^ 12" using in_append(2) log_repD(1) [OF rep] by simp
    from append_stages_rep [OF rep this in_append(3)] obtain w' h' ss' Rss' s' rs' k' where
      A: "log_rep w' h' ss' Rss' s' rs' k'" "wdim w' = wdim (wlog s)" "wmetric w' = wmetric (wlog s)" "wschema_fp w' = wschema_fp (wlog s)"
      "highest_lsn w' = highest_lsn (wlog s)" "concat Rss' @ rs' = concat Rss @ rs"
      "set (concat Rss) \<union> set (whole (k - kWalHeaderSize) rs) \<subseteq> set (concat Rss') \<union> set (whole (k' - kWalHeaderSize) rs')"
      "\<forall>d'. crashed h d' \<longrightarrow> crashed h' d'" by blast
    have "\<forall>r \<in> wacked s. wupto s < lsn r \<longrightarrow> r \<in> set (concat Rss') \<union> set (whole (k' - kWalHeaderSize) rs')" using J A(7) by blast
    then have "wal_inv_for (t\<lparr>wlog := w', wdir := h', wpend := []\<rparr>) ss' Rss' s' rs' k' n"
      unfolding wal_inv_for_def in_append(1) using J A(1,5,6) by (simp del: set_concat)
    then show ?thesis using A(2-4,8) wal_invI unfolding in_append(1) by (intro exI [of _ w'] exI [of _ h']) auto
  next
    case (in_truncate h u)
    have st: "h \<in> set (truncate_stages u (ss @ [sg]) (wdir s))" using in_truncate(2) log_repD(1) [OF rep] by simp
    from truncate_stages_rep [of "wlog s" "wdir s" "[]" ss "[]" Rss sg rs k, OF _ _ st] rep obtain bs' i where
      T: "log_rep (wlog s\<lparr>segments := bs' @ [sg]\<rparr>) h bs' (filter (\<lambda>R. \<not> lsn (last R) \<le> u) (take i Rss) @ drop i Rss) sg rs k" by auto
    have "increasing (concat (take i Rss) @ concat (drop i Rss) @ rs)"
      using history_increasing [OF I] by (metis append.assoc append_take_drop_id concat_append)
    moreover have "\<forall>R \<in> set (take i Rss). R \<noteq> []" using log_rep_nonempty [OF rep] in_set_takeD by fast
    ultimately obtain j where j: "filter (\<lambda>R. \<not> lsn (last R) \<le> u) (take i Rss) = drop j (take i Rss)"
      "\<forall>r \<in> set (concat (take j (take i Rss))). lsn r \<le> u" using filter_segments by blast
    define m where "m = min i j"
    have "drop j (take i Rss) @ drop i Rss = drop m Rss"
    proof (cases "j \<le> i")
      case True
      then have "drop j (take i Rss @ drop i Rss) = drop j (take i Rss) @ drop i Rss"
        unfolding drop_append by (cases "i \<le> length Rss") (simp_all del: append_take_drop_id)
      then have "drop j Rss = drop j (take i Rss) @ drop i Rss" unfolding append_take_drop_id .
      moreover have "m = j" using True by (simp add: m_def)
      ultimately show ?thesis by (simp only:)
    qed (simp add: m_def min_def)
    then have rep': "log_rep (wlog s\<lparr>segments := bs' @ [sg]\<rparr>) h bs' (drop m Rss) sg rs k" using T j(1) by simp
    have "\<forall>r \<in> set (concat (take m Rss)). lsn r \<le> u" using j(2) by (simp add: m_def min.commute)
    from wal_inv_drop [OF I this rep'] obtain w where w: "wal_inv (s\<lparr>wlog := wlog s\<lparr>segments := bs' @ [sg]\<rparr>, wdir := h, wupto := max (wupto s) u\<rparr>)" by auto
    then have "wal_inv (t\<lparr>wlog := wlog s\<lparr>segments := bs' @ [sg]\<rparr>, wdir := h, wpend := []\<rparr>)"
      using wal_inv_forget [OF w] by (cases s) (simp add: in_truncate(1))
    then show ?thesis unfolding in_truncate(1) by (intro exI [of _ "wlog s\<lparr>segments := bs' @ [sg]\<rparr>"] exI [of _ h]) simp
  qed
qed

text \<open>
  A contiguous part of the history that lacks at its front only records that \<open>truncate\<close>
  released.
\<close>

definition history_part :: "wsys \<Rightarrow> wal_record list \<Rightarrow> bool" where
  "history_part s rs \<longleftrightarrow> (\<exists>n m. rs = take m (drop n (whist s)) \<and> (\<forall>r \<in> set (take n (whist s)). lsn r \<le> wupto s))"

text \<open>
  Recovery of any crash delivers what the contract promises. It succeeds unless the header of the
  last segment is torn, and that only when the header had not been synced.
\<close>

lemma wal_inv_recover:
  assumes inv: "wal_inv s" and st: "stopped_in s t" and crash: "crashed (wdir t) d"
  shows "\<exists>w1 rs w2 d2. wal_open empty_wal d (wdim (wlog s)) (wmetric (wlog s)) (wschema_fp (wlog s)) mx = (None, w1, d) \<and>
    replay collect [] w1 d = (if torn_header d then Some RuntimeError else None, rs, w2, d2) \<and>
    history_part t rs \<and>
    (\<forall>r \<in> wacked s. wupto t < lsn r \<longrightarrow> r \<in> set rs) \<and>
    (\<not> torn_header d \<longrightarrow> wal_inv (t\<lparr>wlog := w2, wdir := d2, wpend := [], whist := rs\<rparr>))"
proof -
  have ta: "wacked t = wacked s" using st by cases simp_all
  from wal_inv_stopped [OF inv st] obtain w h where inv': "wal_inv (t\<lparr>wlog := w, wdir := h, wpend := []\<rparr>)"
    and dims: "wdim w = wdim (wlog s)" "wmetric w = wmetric (wlog s)" "wschema_fp w = wschema_fp (wlog s)"
    and cr: "crashed h d" using crash by blast
  from inv' obtain ss Rss sg rs k n where I: "wal_inv_for (t\<lparr>wlog := w, wdir := h, wpend := []\<rparr>) ss Rss sg rs k n" by (auto simp: wal_inv_def)
  have J: "log_rep w h ss Rss sg rs k" "n \<le> length (whist t)" "concat Rss @ rs = drop n (whist t)" "\<forall>r \<in> set (take n (whist t)). lsn r \<le> wupto t"
    "\<forall>r \<in> wacked t. wupto t < lsn r \<longrightarrow> r \<in> set (concat Rss) \<union> set (whole (k - kWalHeaderSize) rs)"
    using I by (simp_all add: wal_inv_for_def)
  from recovery [OF J(1) cr, of "wschema_fp w" mx] obtain j w1 w2 d2 where
    j: "k \<le> j" and op: "wal_open empty_wal d (wdim w) (wmetric w) (wschema_fp w) mx = (None, w1, d)" and
    run: "replay (\<lambda>st r. Inr (st @ [r])) [] w1 d = (if torn_header d then Some RuntimeError else None, concat Rss @ whole (j - kWalHeaderSize) rs, w2, d2)" and
    fin: "\<not> torn_header d \<Longrightarrow> \<exists>ss' s' k'. log_rep w2 d2 ss' Rss s' (whole (j - kWalHeaderSize) rs) k' \<and>
      highest_lsn w2 = max_all 0 (concat Rss @ whole (j - kWalHeaderSize) rs) \<and>
      set (whole (k - kWalHeaderSize) rs) \<subseteq> set (whole (k' - kWalHeaderSize) (whole (j - kWalHeaderSize) rs))"
    by blast
  let ?q = "whole (j - kWalHeaderSize) rs"
  let ?rs = "concat Rss @ ?q"
  have pre: "prefix ?rs (drop n (whist t))" using whole_prefix [of "j - kWalHeaderSize" rs] J(3) by (metis same_prefix_prefix)
  then have seq: "?rs = take (length ?rs) (drop n (whist t))" by (metis append_eq_conv_conj prefix_def)
  have sub: "set (whole (k - kWalHeaderSize) rs) \<subseteq> set ?q" using j by (intro set_mono_prefix whole_mono) auto
  have ack: "\<forall>r \<in> wacked s. wupto t < lsn r \<longrightarrow> r \<in> set (concat Rss) \<union> set ?q" using J(5) sub ta by blast
  have inc: "increasing ?rs"
  proof -
    obtain zs where "drop n (whist t) = ?rs @ zs" using pre by (auto simp: prefix_def simp del: append_assoc)
    then have "increasing (?rs @ zs)" using history_increasing [OF I] J(3) by (simp only:)
    then show ?thesis using increasing_append [of ?rs zs] by blast
  qed
  have last: "wal_inv (t\<lparr>wlog := w2, wdir := d2, wpend := [], whist := ?rs\<rparr>)" if "\<not> torn_header d"
  proof -
    from fin [OF that] obtain ss' s' k' where F: "log_rep w2 d2 ss' Rss s' ?q k'" "highest_lsn w2 = max_all 0 ?rs"
      "set (whole (k - kWalHeaderSize) rs) \<subseteq> set (whole (k' - kWalHeaderSize) ?q)" by blast
    have "\<forall>r \<in> wacked t. wupto t < lsn r \<longrightarrow> r \<in> set (concat Rss) \<union> set (whole (k' - kWalHeaderSize) ?q)" using J(5) F(3) by blast
    then have "wal_inv_for (t\<lparr>wlog := w2, wdir := d2, wpend := [], whist := ?rs\<rparr>) ss' Rss s' ?q k' 0"
      unfolding wal_inv_for_def using F(1,2) inc by (simp del: set_concat)
    then show ?thesis by (rule wal_invI)
  qed
  have "collect = (\<lambda>st r. Inr (st @ [r]))" by (intro ext) (simp add: collect_def)
  then have "replay collect [] w1 d = (if torn_header d then Some RuntimeError else None, ?rs, w2, d2)" using run by simp
  moreover have "history_part t ?rs" unfolding history_part_def using seq J(4) by blast
  moreover have "\<forall>r \<in> wacked s. wupto t < lsn r \<longrightarrow> r \<in> set ?rs" using ack unfolding set_append .
  ultimately show ?thesis using op last unfolding dims by blast
qed

lemma wal_inv_op: "wal_op s t \<Longrightarrow> wal_inv s \<Longrightarrow> wal_inv t"
proof (induction rule: wal_op.induct)
  case (ws_append r s w d)
  then show ?case using wal_inv_append [of s r] by auto
next
  case (ws_sync_begin s p)
  then show ?case using wal_inv_sync_begin [of s] by auto
next
  case (ws_sync_end p s t d)
  then show ?case using wal_inv_sync_end [of s p t d] by blast
next
  case (ws_truncate u s w d)
  then show ?case using wal_inv_truncate [of s u] by auto
qed

lemma wal_inv_step: "wal_step s t \<Longrightarrow> wal_inv s \<Longrightarrow> wal_inv t"
proof (induction rule: wal_step.induct)
  case (ws_op s t)
  then show ?case by (rule wal_inv_op)
next
  case (ws_crash s t d mx w1 d1 rs w2 d2)
  from wal_inv_recover [OF ws_crash(5,1,2), of mx] ws_crash(3,4) show ?case by (auto split: if_splits)
qed

lemma wal_inv_start:
  assumes "discover_segments d0 = []" and "distinct (map fst d0)" and "wal_open empty_wal d0 dm mt fp mx = (None, w, d)"
  shows "wal_inv \<lparr>wlog = w, wdir = d, wpend = [], whist = [], wacked = {}, wupto = 0\<rparr>"
proof -
  let ?w = "empty_wal\<lparr>wdim := dm, wmetric := mt, wschema_fp := fp, seg_max := mx\<rparr>"
  have absent: "map_of d0 (segment_name 1) = None" using assms(1) by (intro discover_absent) simp_all
  have empty: "segments ?w = []" by (simp add: empty_wal_def)
  from open_new_segment_run [OF absent, of ?w] empty obtain d' where
    run: "open_new_segment ?w d0 = (None, ?w\<lparr>segments := segments ?w @ [new_segment 1 False],
      active_fd := Some (segment_name 1), active_bytes := kWalHeaderSize\<rparr>, d')" and
    m: "map_of d' = (map_of d0)(segment_name 1 \<mapsto> \<lparr>fdata = hdr ?w, fdurable = kWalHeaderSize\<rparr>)" and
    names: "map fst d' = map fst (AList.update (segment_name 1) \<lparr>fdata = [], fdurable = 0\<rparr> d0)" by auto
  then have w: "w = ?w\<lparr>segments := [new_segment 1 False], active_fd := Some (segment_name 1), active_bytes := kWalHeaderSize\<rparr>" "d = d'"
    using assms(1,3) empty by (auto simp: wal_open_def Let_def)
  have h: "hdr w = hdr ?w" by (simp add: w hdr_def)
  have "discover_segments d' = [1]"
    unfolding discover_cong [OF names] using assms(1) absent
    by (subst discover_fresh) (simp_all add: map_of_eq_None_iff)
  moreover have "distinct (map fst d')" unfolding names using assms(2) by (simp add: distinct_update)
  ultimately have "log_rep w d [] [] (new_segment 1 False) [] kWalHeaderSize"
    unfolding log_rep_def h by (simp add: w(1) active_ok_def seg_meta_def m seg_data_def)
      (simp add: w m new_segment_def)
  then show ?thesis
    by (intro wal_invI [of _ "[]" "[]" "new_segment 1 False" "[]" kWalHeaderSize 0])
      (simp add: wal_inv_for_def increasing_def w(1) empty_wal_def)
qed

lemma wal_reach_inv: "wal_reach s \<Longrightarrow> wal_inv s"
  by (induction rule: wal_reach.induct) (auto intro: wal_inv_start wal_inv_step)

text \<open>
  The header of the active segment is durable when the log is opened in an empty directory, and
  every operation that completes keeps it so: only a crash that stops a rotation can tear it. As
  long as the operating system lives no byte is lost, and none is torn.
\<close>

lemma log_rep_header: "log_rep w d ss Rss s rs k \<Longrightarrow> header_synced d \<longleftrightarrow> kWalHeaderSize \<le> k"
  using log_repD(5,6,8) [of w d ss Rss s rs k] by (auto simp: header_synced_def min_absorb1)

lemma start_header_synced:
  assumes "discover_segments d0 = []" and "distinct (map fst d0)" and "wal_open empty_wal d0 dm mt fp mx = (None, w, d)"
  shows "header_synced d"
proof -
  let ?w = "empty_wal\<lparr>wdim := dm, wmetric := mt, wschema_fp := fp, seg_max := mx\<rparr>"
  have absent: "map_of d0 (segment_name 1) = None" using assms(1) by (intro discover_absent) simp_all
  from open_new_segment_run [OF absent, of ?w] obtain d' where
    run: "open_new_segment ?w d0 = (None, ?w\<lparr>segments := segments ?w @ [new_segment 1 False],
      active_fd := Some (segment_name 1), active_bytes := kWalHeaderSize\<rparr>, d')" and
    m: "map_of d' = (map_of d0)(segment_name 1 \<mapsto> \<lparr>fdata = hdr ?w, fdurable = kWalHeaderSize\<rparr>)" and
    names: "map fst d' = map fst (AList.update (segment_name 1) \<lparr>fdata = [], fdurable = 0\<rparr> d0)" by (auto simp: empty_wal_def)
  then have "d = d'" using assms(1,3) by (auto simp: wal_open_def Let_def)
  moreover have "discover_segments d' = [1]"
    unfolding discover_cong [OF names] using assms(1) absent
    by (subst discover_fresh) (simp_all add: map_of_eq_None_iff)
  ultimately show ?thesis by (simp add: header_synced_def m)
qed

lemma wal_op_header: "wal_op s t \<Longrightarrow> wal_inv s \<Longrightarrow> header_synced (wdir s) \<Longrightarrow> header_synced (wdir t)"
proof (induction rule: wal_op.induct)
  case (ws_append r s w d)
  then obtain ss Rss sg rs k where rep: "log_rep (wlog s) (wdir s) ss Rss sg rs k" by (auto simp: wal_inv_def wal_inv_for_def)
  have k: "kWalHeaderSize \<le> k" using ws_append(6) log_rep_header [OF rep] by simp
  have "number sg + 1 < 10 ^ 12" using ws_append(3) log_repD(1) [OF rep] by simp
  from append_rep [OF rep ws_append(1) this] obtain ss' Rss' s' rs' k' where
    "log_rep w d ss' Rss' s' rs' k'" "k' = k \<or> k' = kWalHeaderSize" using ws_append(4) by auto
  then show ?case using log_rep_header k by auto
next
  case (ws_sync_end p s t d)
  then obtain ss Rss sg rs k n where I: "wal_inv_for s ss Rss sg rs k n" by (auto simp: wal_inv_def)
  note J = I [unfolded wal_inv_for_def]
  have rep: "log_rep (wlog s) (wdir s) ss Rss sg rs k" using J by simp
  have k: "kWalHeaderSize \<le> k" using ws_sync_end(4) log_rep_header [OF rep] by simp
  from J ws_sync_end(1) obtain m where m: "m < 10 ^ 12" "fst p = segment_name m" by (auto simp: pend_ok_def)
  have d: "d = fsync (wdir s) (segment_name m)" using ws_sync_end(2) m(2) by (simp add: sync_end_def)
  show ?case using log_rep_header [OF fsync_rep [OF rep m(1)]] k log_repD(5) [OF rep] by (auto simp: d split: if_splits)
next
  case (ws_truncate u s w d)
  then obtain ss Rss sg rs k where rep: "log_rep (wlog s) (wdir s) ss Rss sg rs k" by (auto simp: wal_inv_def wal_inv_for_def)
  from truncate_rep [OF this, of u] obtain ss' where "log_rep w d ss' (filter (\<lambda>R. \<not> lsn (last R) \<le> u) Rss) sg rs k"
    using ws_truncate(1) by auto
  then show ?case using ws_truncate(3) log_rep_header rep by simp
qed simp

lemma fsync_header:
  assumes "wal_inv s" and "active_fd (wlog s) = Some fd"
  shows "header_synced (fsync (wdir s) fd)"
proof -
  obtain ss Rss sg rs k where rep: "log_rep (wlog s) (wdir s) ss Rss sg rs k" using assms(1) by (auto simp: wal_inv_def wal_inv_for_def)
  have fd: "fd = segment_name (number sg)" using assms(2) log_repD(10) [OF rep] by simp
  from fsync_rep [OF rep log_rep_numbers(1) [OF rep]] show ?thesis
    using log_rep_header seg_data_length [of "hdr (wlog s)" rs] by (simp add: fd)
qed

lemma survivors_not_torn:
  assumes "wal_inv s"
  shows "\<not> torn_header (map (\<lambda>(n, f). (n, f\<lparr>fdurable := length (fdata f)\<rparr>)) (wdir s))"
proof -
  let ?d = "map (\<lambda>(n, f). (n, f\<lparr>fdurable := length (fdata f)\<rparr>)) (wdir s)"
  obtain ss Rss sg rs k where rep: "log_rep (wlog s) (wdir s) ss Rss sg rs k" using assms by (auto simp: wal_inv_def wal_inv_for_def)
  have "map fst ?d = map fst (wdir s)" by (simp add: case_prod_unfold)
  from discover_cong [OF this] have disc: "discover_segments ?d = map number (ss @ [sg])" using log_repD(8) [OF rep] by (rule trans)
  have "map_of ?d (segment_name (number sg)) = Some \<lparr>fdata = seg_data (hdr (wlog s)) rs, fdurable = length (seg_data (hdr (wlog s)) rs)\<rparr>"
    by (simp only: map_of_map comp_apply log_repD(6) [OF rep] option.map wfile.simps)
  then show ?thesis unfolding torn_header_def disc using seg_data_length [of "hdr (wlog s)" rs] by simp
qed

section \<open>The contract\<close>

text \<open>
  C6: whatever appends, syncs, truncations and earlier crashes have run, however they interleaved
  with the fsyncs outside the mutex, and wherever the crash comes, also in the middle of a rotation
  or of a truncation: the log opens, and \<open>replay\<close> delivers a contiguous part of the appended
  records that lacks at the front only records \<open>truncate\<close> had released; every record a completed
  sync covered and no truncate released is in it. \<open>replay\<close> then succeeds, unless the header of the
  last segment is torn, when it throws; a synced header is never torn.
\<close>

theorem wal_durability:
  assumes "wal_reach s" and "stopped_in s t" and "crashed (wdir t) d"
  shows "\<exists>w1 rs w2 d2. wal_open empty_wal d (wdim (wlog s)) (wmetric (wlog s)) (wschema_fp (wlog s)) mx = (None, w1, d) \<and>
    replay collect [] w1 d = (if torn_header d then Some RuntimeError else None, rs, w2, d2) \<and>
    (header_synced (wdir t) \<longrightarrow> \<not> torn_header d) \<and>
    history_part t rs \<and>
    (\<forall>r \<in> wacked s. wupto t < lsn r \<longrightarrow> r \<in> set rs)"
proof -
  from wal_inv_recover [OF wal_reach_inv [OF assms(1)] assms(2,3), of mx] obtain w1 rs w2 d2 where
    1: "wal_open empty_wal d (wdim (wlog s)) (wmetric (wlog s)) (wschema_fp (wlog s)) mx = (None, w1, d)" and
    2: "replay collect [] w1 d = (if torn_header d then Some RuntimeError else None, rs, w2, d2)" and
    3: "history_part t rs" and
    4: "\<forall>r \<in> wacked s. wupto t < lsn r \<longrightarrow> r \<in> set rs"
    by (elim exE conjE)
  have 5: "header_synced (wdir t) \<longrightarrow> \<not> torn_header d" using synced_not_torn [OF _ assms(3)] by blast
  show ?thesis by (rule exI [of _ w1], rule exI [of _ rs], rule exI [of _ w2], rule exI [of _ d2]) (intro conjI 1 2 3 4 5)
qed

text \<open>
  C7: while the log runs no operation throws: an append whose lsn is above the highest one, the
  start of a sync and a truncate all succeed.
\<close>

theorem wal_operational:
  assumes "wal_reach s"
  shows "(\<exists>p. sync_begin (wlog s) = Inr p) \<and> (\<exists>w d. truncate_wal u (wlog s) (wdir s) = (None, w, d)) \<and>
    (rec_ok r \<longrightarrow> highest_lsn (wlog s) < lsn r \<longrightarrow> number (last (segments (wlog s))) + 1 < 10 ^ 12 \<longrightarrow>
      (\<exists>w d. append_wal r (wlog s) (wdir s) = (None, w, d)))"
proof (intro conjI impI)
  note inv = wal_reach_inv [OF assms]
  show "\<exists>p. sync_begin (wlog s) = Inr p" 
    using wal_inv_sync_begin [OF inv] by (elim exE conjE) (intro exI)
  show "\<exists>w d. truncate_wal u (wlog s) (wdir s) = (None, w, d)" 
    using wal_inv_truncate [OF inv, of u] by (elim exE conjE) (intro exI)
  assume a: "rec_ok r" "highest_lsn (wlog s) < lsn r" "number (last (segments (wlog s))) + 1 < 10 ^ 12"
  show "\<exists>w d. append_wal r (wlog s) (wdir s) = (None, w, d)"
    using wal_inv_append [OF inv a] by (elim exE conjE) (intro exI)
qed

text \<open>A run with one synced record: opened in an empty directory, an append, a sync.\<close>

definition demo_wal :: wsys where
  "demo_wal = (let (_, w, d) = wal_open empty_wal [] 2 0 7 100 in
     \<lparr>wlog = w, wdir = d, wpend = [], whist = [], wacked = {}, wupto = 0\<rparr>)"

lemma demo_wal_open: "wal_open empty_wal [] 2 0 7 100 = (None, wlog demo_wal, wdir demo_wal)"
proof -
  have "fst (wal_open empty_wal [] 2 0 7 100) = None"
    by (simp add: wal_open_def open_new_segment_def discover_segments_def List.map_filter_def empty_wal_def Let_def)
  then show ?thesis by (cases "wal_open empty_wal [] 2 0 7 100") (simp add: demo_wal_def)
qed

lemma demo_wal_reach: "wal_reach demo_wal"
proof -
  have "wal_reach \<lparr>wlog = wlog demo_wal, wdir = wdir demo_wal, wpend = [], whist = [], wacked = {}, wupto = 0\<rparr>"
    by (rule wr_start [OF _ _ demo_wal_open]) (simp_all add: discover_segments_def List.map_filter_def)
  moreover have "\<lparr>wlog = wlog demo_wal, wdir = wdir demo_wal, wpend = [], whist = [], wacked = {}, wupto = 0\<rparr> = demo_wal"
    by (simp add: demo_wal_def case_prod_unfold Let_def)
  ultimately show ?thesis by simp
qed

lemma demo_wal_fields: "highest_lsn (wlog demo_wal) = 0" "number (last (segments (wlog demo_wal))) = 1"
  "whist demo_wal = []" "wacked demo_wal = {}" "wupto demo_wal = 0"
  by (simp_all add: demo_wal_def wal_open_def open_new_segment_def discover_segments_def List.map_filter_def
      empty_wal_def Let_def new_segment_def)

lemma demo_rec_ok: "rec_ok demo_frame"
  using demo_frame_ok by (simp add: rec_ok_def demo_frame_def)

lemma demo_synced: "\<exists>s. wal_reach s \<and> whist s = [demo_frame] \<and> wacked s = {demo_frame} \<and> wupto s = 0"
proof -
  have lsn: "lsn demo_frame = 7" by (simp add: demo_frame_def)
  from wal_inv_append [OF wal_reach_inv [OF demo_wal_reach] demo_rec_ok] obtain w d where
    a: "append_wal demo_frame (wlog demo_wal) (wdir demo_wal) = (None, w, d)" by (auto simp: demo_wal_fields lsn)
  define s1 where "s1 = demo_wal\<lparr>wlog := w, wdir := d, whist := [demo_frame]\<rparr>"
  have "wal_step demo_wal s1"
    using ws_op [OF ws_append [OF demo_rec_ok _ _ a]] by (simp add: s1_def demo_wal_fields lsn)
  then have r1: "wal_reach s1" by (rule wr_step [OF demo_wal_reach])
  from wal_inv_sync_begin [OF wal_reach_inv [OF r1]] obtain p where p: "sync_begin (wlog s1) = Inr p" by blast
  define s2 where "s2 = s1\<lparr>wpend := p # wpend s1\<rparr>"
  have r2: "wal_reach s2" unfolding s2_def by (rule wr_step [OF r1 ws_op [OF ws_sync_begin [OF p]]])
  have "highest_lsn w = 7"
    using wal_reach_inv [OF r1] by (auto simp: wal_inv_def wal_inv_for_def s1_def lsn)
  then have t: "snd p = 7" using p by (auto simp: sync_begin_def s1_def split: option.splits)
  have "p \<in> set (wpend s2)" by (simp add: s2_def)
  from wr_step [OF r2 ws_op [OF ws_sync_end [OF this, of "snd p" "fsync (wdir s2) (fst p)"]]]
  have "wal_reach (s2\<lparr>wdir := fsync (wdir s2) (fst p), wpend := remove1 p (wpend s2),
      wacked := wacked s2 \<union> {r \<in> set (whist s2). lsn r \<le> snd p}\<rparr>)" by (simp add: sync_end_def)
  moreover have "wacked s2 \<union> {r \<in> set (whist s2). lsn r \<le> snd p} = {demo_frame}"
    by (auto simp: s2_def s1_def demo_wal_fields t lsn)
  moreover have "whist s2 = [demo_frame]" "wupto s2 = 0" by (simp_all add: s2_def s1_def demo_wal_fields)
  ultimately have "wal_reach (s2\<lparr>wdir := fsync (wdir s2) (fst p), wpend := remove1 p (wpend s2), wacked := {demo_frame}\<rparr>)"
    by simp
  then show ?thesis using \<open>whist s2 = _\<close> \<open>wupto s2 = _\<close>
    by (intro exI [of _ "s2\<lparr>wdir := fsync (wdir s2) (fst p), wpend := remove1 p (wpend s2), wacked := {demo_frame}\<rparr>"]) simp
qed

lemma crashed_refl: "crashed d (map (\<lambda>(n, f). (n, f\<lparr>fdurable := length (fdata f)\<rparr>)) d)"
proof (induction d)
  case (Cons x d)
  have "crashed_file (snd x) (snd x\<lparr>fdurable := length (fdata (snd x))\<rparr>)"
    unfolding crashed_file_def
    by (intro conjI exI [of _ "max (fdurable (snd x)) (length (fdata (snd x)))"]) simp_all
  then show ?case using Cons by (simp add: crashed_def case_prod_unfold)
qed (simp add: crashed_def)

theorem wal_durability_witness:
  "\<exists>s t d rs. wal_reach s \<and> wacked s = {demo_frame} \<and> stopped_in s t \<and> crashed (wdir t) d \<and>
    (\<exists>w1 w2 d2. replay collect [] w1 d = (None, rs, w2, d2)) \<and> demo_frame \<in> set rs"
proof -
  obtain s where s: "wal_reach s" "wacked s = {demo_frame}" "wupto s = 0" using demo_synced by blast
  let ?d = "map (\<lambda>(n, f). (n, f\<lparr>fdurable := length (fdata f)\<rparr>)) (wdir s)"
  have "lsn demo_frame = 7" by (simp add: demo_frame_def)
  moreover obtain w1 rs w2 d2 where
    "replay collect [] w1 ?d = (if torn_header ?d then Some RuntimeError else None, rs, w2, d2)"
    "\<forall>r \<in> wacked s. wupto s < lsn r \<longrightarrow> r \<in> set rs"
    using wal_durability [OF s(1) between crashed_refl] by blast
  ultimately show ?thesis using s survivors_not_torn [OF wal_reach_inv [OF s(1)]] between crashed_refl [of "wdir s"]
    by (intro exI [of _ s] exI [of _ s] exI [of _ ?d] exI [of _ rs]) auto
qed

theorem wal_operational_witness:
  "\<exists>w d. append_wal demo_frame (wlog demo_wal) (wdir demo_wal) = (None, w, d)"
  using wal_operational [OF demo_wal_reach, of 0 demo_frame] demo_rec_ok
  by (simp add: demo_wal_fields) (simp add: demo_frame_def)


section \<open>Damage\<close>

lemma scan_collect:
  assumes "\<forall>r \<in> set R. record_ok r" and "stops bad" and "bad \<noteq> []"
  shows "scan collect (encode_header dm mt fp @ concat (map encode_record R) @ bad) kWalHeaderSize st x h =
    (Torn (kWalHeaderSize + length (concat (map encode_record R))), st @ R, note_all x R, max_all h R)"
proof -
  have "foldl (\<lambda>st r. st @ [r]) st R = st @ R" by (induction R arbitrary: st) simp_all
  moreover have "collect = (\<lambda>st r. Inr (st @ [r]))" by (intro ext) (simp add: collect_def)
  ultimately show ?thesis
    using scan_records [OF assms(1,2), of "encode_header dm mt fp" kWalHeaderSize "\<lambda>st r. st @ [r]" st x h] assms(3) by simp
qed

text \<open>
  C8: at bytes that are no complete valid frame, replay has delivered the records before them;
  in a sealed segment it throws and leaves the directory alone, in the active one it returns
  with the file cut back to those records and synced.
\<close>

theorem replay_bad_frame:
  assumes "map_of d (segment_name (number x)) = Some f"
    and "fdata f = encode_header (wdim w) (wmetric w) fp @ concat (map encode_record R) @ bad"
    and "\<forall>r \<in> set R. record_ok r" and "decode_record bad = Incomplete \<or> decode_record bad = BadCrc" and "bad \<noteq> []"
    and "active_fd w = Some (segment_name (number x))"
  shows "\<exists>w' d'. replay_from collect old (x # segs) st w d = (if segs = [] then None else Some RuntimeError, st @ R, w', d') \<and>
    (if segs = [] then map_of d' = (map_of d)(segment_name (number x) \<mapsto>
        (let b = encode_header (wdim w) (wmetric w) fp @ concat (map encode_record R) in \<lparr>fdata = b, fdurable = length b\<rparr>))
     else d' = d)"
proof -
  let ?n = "kWalHeaderSize + length (concat (map encode_record R))"
  let ?b = "encode_header (wdim w) (wmetric w) fp @ concat (map encode_record R)"
  let ?p = "segment_name (number x)"
  have sc: "scan collect (fdata f) kWalHeaderSize st x (highest_lsn w) = (Torn ?n, st @ R, note_all x R, max_all (highest_lsn w) R)"
    unfolding assms(2) using assms(3-5) by (intro scan_collect) (auto simp: stops_def)
  have "?n \<le> length (fdata f)" and tk: "take ?n (fdata f) = ?b" unfolding assms(2) by simp_all
  then have "map_of (ftruncate d ?p ?n) = (map_of d)(?p \<mapsto> f\<lparr>fdata := ?b\<rparr>)"
    using map_of_ftruncate [OF assms(1), of ?n] by simp
  then have m: "map_of (fsync (ftruncate d ?p ?n) ?p) = (map_of d)(?p \<mapsto> \<lparr>fdata = ?b, fdurable = length ?b\<rparr>)"
    using map_of_fsync [of "ftruncate d ?p ?n" ?p "f\<lparr>fdata := ?b\<rparr>"] by (cases f) simp
  show ?thesis
  proof (cases "segs = []")
    case True
    then show ?thesis using assms(1,2,6) sc m by (simp add: decode_encode_header Let_def)
  next
    case False
    then show ?thesis using assms(1,2) sc by (simp add: decode_encode_header)
  qed
qed

definition demo_disk :: disk where
  "demo_disk = [(segment_name 1, \<lparr>fdata = encode_header 0 0 0 @ encode_record demo_frame @ take 3 (encode_record demo_frame), fdurable = 32\<rparr>)]"

theorem replay_bad_frame_witness:
  "\<exists>w'. replay_from collect [] [new_segment 1 True, new_segment 2 False] []
    (empty_wal\<lparr>active_fd := Some (segment_name 1)\<rparr>) demo_disk = (Some RuntimeError, [demo_frame], w', demo_disk)"
proof -
  have "length (encode_record demo_frame) = 63" by (simp add: encode_record_frame length_demo_frame)
  then have "decode_record (take 3 (encode_record demo_frame)) = Incomplete" "take 3 (encode_record demo_frame) \<noteq> []"
    using decode_torn_record [OF demo_frame_ok, of 3] by auto
  then show ?thesis
    using replay_bad_frame [of demo_disk "new_segment 1 True" "\<lparr>fdata = encode_header 0 0 0 @ encode_record demo_frame @
        take 3 (encode_record demo_frame), fdurable = 32\<rparr>" "empty_wal\<lparr>active_fd := Some (segment_name 1)\<rparr>" 0
        "[demo_frame]" "take 3 (encode_record demo_frame)" "[]" "[new_segment 2 False]" "[]"] demo_frame_ok
    by (simp add: demo_disk_def empty_wal_def)
qed

text \<open>
  A crash inside \<open>open_new_segment_\<close>, between the creation of the file and the \<open>fsync\<close>
  of its header, leaves a last segment shorter than a header. The log opens, but \<open>replay\<close>
  throws: unlike a torn record, a torn header is not cut away.
\<close>

lemma torn_header_unrecoverable:
  assumes "wal_reach s" and "n = number (last (segments (wlog s))) + 1" and "n < 10 ^ 12"
    and "j < kWalHeaderSize" and d: "d = wdir s @ [(segment_name n, \<lparr>fdata = take j (hdr (wlog s)), fdurable = j\<rparr>)]"
  shows "\<exists>w1 rs w2. wal_open empty_wal d (wdim (wlog s)) (wmetric (wlog s)) (wschema_fp (wlog s)) mx = (None, w1, d) \<and>
    replay collect [] w1 d = (Some RuntimeError, rs, w2, d)"
proof -
  from wal_reach_inv [OF assms(1)] obtain ss Rss sg rs k m where I: "wal_inv_for s ss Rss sg rs k m" by (auto simp: wal_inv_def)
  then have rep: "log_rep (wlog s) (wdir s) ss Rss sg rs k" by (simp add: wal_inv_for_def)
  note R = log_repD [OF rep]
  have n: "n = number sg + 1" using assms(2) R(1) by simp
  have less: "\<forall>i \<in> set (discover_segments (wdir s)). i < n"
    using log_rep_numbers(2) [OF rep] unfolding R(8) n by fastforce
  then have absent: "map_of (wdir s) (segment_name n) = None" using assms(3) by (rule discover_absent)
  let ?f = "\<lparr>fdata = take j (hdr (wlog s)), fdurable = j\<rparr>"
  have upd: "d = AList.update (segment_name n) ?f (wdir s)" unfolding d using absent by (simp add: update_fresh map_of_eq_None_iff)
  have disc: "discover_segments d = (map number (ss @ [sg])) @ [n]"
    unfolding upd using absent less assms(3) by (subst discover_fresh) (simp_all add: map_of_eq_None_iff R(8))
  have m: "map_of d = (map_of (wdir s))(segment_name n \<mapsto> ?f)" unfolding upd by (simp add: update_conv')
  let ?xs = "map (\<lambda>n. new_segment n True) (map number (ss @ [sg]))"
  let ?w1 = "\<lparr>wdim = wdim (wlog s), wmetric = wmetric (wlog s), wschema_fp = wschema_fp (wlog s), seg_max = mx,
    segments = ?xs @ [new_segment n False], active_fd = Some (segment_name n), active_bytes = length (fdata ?f), highest_lsn = 0\<rparr>"
  have op: "wal_open empty_wal d (wdim (wlog s)) (wmetric (wlog s)) (wschema_fp (wlog s)) mx = (None, ?w1, d)"
    using m by (intro wal_open_existing [OF disc]) simp
  have other: "segment_name (number t) \<noteq> segment_name n" if "t \<in> set (ss @ [sg])" for t
    using that log_rep_numbers [OF rep] segment_name_inject [of "number t" n] assms(3) n by fastforce
  have "list_all2 (\<lambda>x Q. seg_file (wdim (wlog s)) (wmetric (wlog s)) (wschema_fp (wlog s)) d (number x) Q) (ss @ [sg]) (Rss @ [rs])"
  proof (rule list_all2_appendI)
    show "list_all2 (\<lambda>x Q. seg_file (wdim (wlog s)) (wmetric (wlog s)) (wschema_fp (wlog s)) d (number x) Q) ss Rss"
      using R(2) other unfolding list_all2_conv_all_nth
      by (auto simp: seg_file_def sealed_ok_def seg_meta_def rec_ok_def hdr_def m)
    show "list_all2 (\<lambda>x Q. seg_file (wdim (wlog s)) (wmetric (wlog s)) (wschema_fp (wlog s)) d (number x) Q) [sg] [rs]"
      using R(3,6) other [of sg] by (auto simp: seg_file_def seg_meta_def rec_ok_def hdr_def m)
  qed
  then have files: "list_all2 (\<lambda>x Q. seg_file (wdim (wlog s)) (wmetric (wlog s)) (wschema_fp (wlog s)) d (number x) Q) ?xs (Rss @ [rs])"
    by (simp only: list_all2_map1 number_new_segment)
  have coll: "collect = (\<lambda>st r. Inr (st @ [r]))" by (intro ext) (simp add: collect_def)
  have short: "decode_header (fdata ?f) = None" using assms(4) by (simp add: decode_header_def)
  have "\<exists>rs w2. replay collect [] ?w1 d = (Some RuntimeError, rs, w2, d)"
    using replay_sealed_all [OF files, where segs = "[new_segment n False]" and w = ?w1 and old = "[]"
          and g = "\<lambda>st r. st @ [r]" and st = "[]"] short
    by (simp add: replay_def coll m)
  then show ?thesis using op by blast
qed

text \<open>
  \<open>replay\<close> compares dimension and metric of a segment with those of \<open>open\<close>, not the
  schema fingerprint: a log written under another schema is replayed all the same.
\<close>

lemma replay_ignores_schema:
  assumes "wal_reach s" and "crashed (wdir s) d" and "\<not> torn_header d"
  shows "\<exists>w1 rs w2 d2. wal_open empty_wal d (wdim (wlog s)) (wmetric (wlog s)) (wschema_fp (wlog s) + 1) mx = (None, w1, d) \<and>
    replay collect [] w1 d = (None, rs, w2, d2)"
proof -
  from wal_reach_inv [OF assms(1)] obtain ss Rss sg rs k m where I: "wal_inv_for s ss Rss sg rs k m" by (auto simp: wal_inv_def)
  then have rep: "log_rep (wlog s) (wdir s) ss Rss sg rs k" by (simp add: wal_inv_for_def)
  have "collect = (\<lambda>st r. Inr (st @ [r]))" by (intro ext) (simp add: collect_def)
  then show ?thesis using recovery [OF rep assms(2), of "wschema_fp (wlog s) + 1" mx] assms(3) by auto
qed

end
