(* ===== verification/Effects.thy ===== *)
theory Effects
  imports Prelude
begin

text \<open>
  Sequencing of operations that may throw half way. An action on a state returns the
  exception, if one ended it, with the state it left; \<open>None\<close> is an action that does not
  return. The laws are those the component proofs use.
\<close>

type_synonym 's action = "'s \<Rightarrow> (exn option \<times> 's) option"

definition upd :: "('s \<Rightarrow> 's) \<Rightarrow> 's action" where
  "upd f s = Some (None, f s)"

definition and_then :: "'s action \<Rightarrow> 's action \<Rightarrow> 's action" where
  "and_then f g s = (case f s of
     None \<Rightarrow> None | Some (Some e, s') \<Rightarrow> Some (Some e, s') | Some (None, s') \<Rightarrow> g s')"

fun for_each :: "'a list \<Rightarrow> ('a \<Rightarrow> 's action) \<Rightarrow> 's action" where
  "for_each [] f s = Some (None, s)"
| "for_each (x # xs) f s = and_then (f x) (for_each xs f) s"

text \<open>
  An action that always returns and ends in a state with \<open>Q\<close>, or with the exception
  \<open>err\<close>.
\<close>

definition returns :: "'s action \<Rightarrow> 's \<Rightarrow> exn \<Rightarrow> ('s \<Rightarrow> bool) \<Rightarrow> bool" where
  "returns f s err Q \<longleftrightarrow> (\<exists>e s'. f s = Some (e, s') \<and> (if e = None then Q s' else e = Some err))"

lemma returns_upd [simp]: "returns (upd f) s err Q \<longleftrightarrow> Q (f s)"
  by (simp add: returns_def upd_def)

lemma returnsI: "f s = Some (e, s') \<Longrightarrow> (e = None \<Longrightarrow> Q s') \<Longrightarrow> e = None \<or> e = Some err \<Longrightarrow> returns f s err Q"
  by (auto simp: returns_def)

lemma returns_then:
  assumes "returns f s err P" and "\<And>s'. P s' \<Longrightarrow> returns g s' err Q"
  shows "returns (and_then f g) s err Q"
proof -
  from assms(1) obtain e s' where f: "f s = Some (e, s')" "if e = None then P s' else e = Some err"
    unfolding returns_def by blast
  show ?thesis
  proof (cases e)
    case None
    then have "returns g s' err Q" using f(2) assms(2) by simp
    then show ?thesis using f(1) None by (simp add: returns_def and_then_def)
  next
    case (Some x)
    then show ?thesis using f by (simp add: returns_def and_then_def)
  qed
qed

lemma returns_upd_then: "returns (and_then (upd h) g) s err Q = returns g (h s) err Q"
  by (simp add: returns_def and_then_def upd_def)

lemma returns_mono: "returns f s err P \<Longrightarrow> (\<And>s'. P s' \<Longrightarrow> Q s') \<Longrightarrow> returns f s err Q"
  unfolding returns_def by metis

lemma returns_and:
  assumes "returns f s err Q" and "\<And>e s'. f s = Some (e, s') \<Longrightarrow> R s'"
  shows "returns f s err (\<lambda>s'. Q s' \<and> R s')"
proof -
  from assms(1) obtain e s' where f: "f s = Some (e, s')" "if e = None then Q s' else e = Some err"
    unfolding returns_def by blast
  show ?thesis using f assms(2) [OF f(1)] unfolding returns_def
    by (intro exI [of _ e] exI [of _ s'] conjI) (simp_all split: if_splits)
qed

text \<open>A loop over a list, with an invariant that says how far it has come.\<close>

lemma returns_for_each:
  assumes "I [] s" and "\<And>done x rest s. xs = done @ x # rest \<Longrightarrow> I done s \<Longrightarrow> returns (f x) s err (I (done @ [x]))"
  shows "returns (for_each xs f) s err (I xs)"
proof -
  have "xs = ys @ zs \<Longrightarrow> I ys s \<Longrightarrow> returns (for_each zs f) s err (I xs)" for ys zs s
  proof (induction zs arbitrary: ys s)
    case Nil
    then show ?case by (simp add: returns_def)
  next
    case (Cons z zs)
    have "returns (and_then (f z) (for_each zs f)) s err (I xs)"
    proof (rule returns_then)
      show "returns (f z) s err (I (ys @ [z]))" using assms(2) Cons.prems by blast
      show "returns (for_each zs f) s' err (I xs)" if "I (ys @ [z]) s'" for s'
        using Cons.IH [of "ys @ [z]" s'] Cons.prems(1) that by simp
    qed
    then show ?case by (simp add: returns_def)
  qed
  from this [of "[]" xs s] show ?thesis using assms(1) by simp
qed

end
