(* ===== verification/Tokenizer.thy ===== *)
theory Tokenizer
  imports Values
begin

text \<open>
  \<open>tokenize_text\<close> of \<open>src/metadata.cpp\<close>: the terms of a text, shared by indexing and
  querying. \<open>isalnum\<close> and \<open>tolower\<close> are those of the C locale.
\<close>

definition is_alnum :: "u8 \<Rightarrow> bool" where
  "is_alnum c \<longleftrightarrow> (48 \<le> c \<and> c \<le> 57) \<or> (65 \<le> c \<and> c \<le> 90) \<or> (97 \<le> c \<and> c \<le> 122)"

definition to_lower :: "u8 \<Rightarrow> u8" where
  "to_lower c = (if 65 \<le> c \<and> c \<le> 90 then c + 32 else c)"

definition flush_token :: "bytes list \<times> bytes \<Rightarrow> bytes list \<times> bytes" where
  "flush_token st = (if snd st \<noteq> [] then (fst st @ [snd st], []) else st)"

definition token_step :: "bytes list \<times> bytes \<Rightarrow> u8 \<Rightarrow> bytes list \<times> bytes" where
  "token_step st ch = (if is_alnum ch then (fst st, snd st @ [to_lower ch]) else flush_token st)"

definition tokenize_text :: "bytes \<Rightarrow> bytes list" where
  "tokenize_text s = fst (flush_token (foldl token_step ([], []) s))"

section \<open>The terms of a concatenation\<close>

lemma token_out: "foldl token_step (out, cur) s = (out @ fst (foldl token_step ([], cur) s), snd (foldl token_step ([], cur) s))"
proof (induction s arbitrary: out cur)
  case (Cons c s)
  show ?case
  proof (cases "is_alnum c")
    case True
    then show ?thesis using Cons.IH [of out "cur @ [to_lower c]"] by (simp add: token_step_def)
  next
    case sep: False
    show ?thesis
    proof (cases "cur = []")
      case True
      then show ?thesis using Cons.IH [of out "[]"] sep by (simp add: token_step_def flush_token_def)
    next
      case False
      have "foldl token_step (out, cur) (c # s) = foldl token_step (out @ [cur], []) s"
        using sep False by (simp add: token_step_def flush_token_def)
      also have "\<dots> = (out @ cur # fst (foldl token_step ([], []) s), snd (foldl token_step ([], []) s))"
        by (subst Cons.IH) simp
      also have "\<dots> = (out @ fst (foldl token_step ([cur], []) s), snd (foldl token_step ([cur], []) s))"
        by (subst (3 4) Cons.IH) simp
      also have "foldl token_step ([cur], []) s = foldl token_step ([], cur) (c # s)"
        using sep False by (simp add: token_step_def flush_token_def)
      finally show ?thesis .
    qed
  qed
qed simp

lemma flush_out: "fst (flush_token (out, cur)) = out @ fst (flush_token ([], cur))"
  by (simp add: flush_token_def)

lemma tokenize_Nil [simp]: "tokenize_text [] = []"
  by (simp add: tokenize_text_def flush_token_def)

lemma tokenize_step:
  "fst (flush_token (foldl token_step ([], cur) (w @ s))) =
     (if w = [] then fst (flush_token (foldl token_step ([], cur) s)) else fst (flush_token (foldl token_step ([], cur @ map to_lower w) s)))"
  if "\<forall>c \<in> set w. is_alnum c"
  using that by (induction w arbitrary: cur) (auto simp: token_step_def)

text \<open>A separator ends a term, and nothing of it shows in the next one.\<close>

lemma tokenize_separator:
  assumes "\<not> is_alnum c"
  shows "tokenize_text (a @ c # b) = tokenize_text a @ tokenize_text b"
proof -
  obtain out cur where a: "foldl token_step ([], []) a = (out, cur)" by fastforce
  have "token_step (out, cur) c = (fst (flush_token (out, cur)), [])"
    using assms by (simp add: token_step_def flush_token_def)
  then have "foldl token_step ([], []) (a @ c # b) = foldl token_step (tokenize_text a, []) b"
    by (simp add: a tokenize_text_def)
  also have "\<dots> = (tokenize_text a @ fst (foldl token_step ([], []) b), snd (foldl token_step ([], []) b))"
    by (rule token_out)
  finally show ?thesis
    unfolding tokenize_text_def [of "a @ c # b"] tokenize_text_def [of b]
    by (simp only: flush_out [of "_ @ _"] append_assoc)
      (simp add: flush_out [of "fst _", symmetric])
qed

lemma tokenize_word:
  assumes "\<forall>c \<in> set w. is_alnum c" and "w \<noteq> []"
  shows "tokenize_text w = [map to_lower w]"
  using tokenize_step [OF assms(1), of "[]" "[]"] assms(2) by (simp add: tokenize_text_def flush_token_def)

section \<open>Terms\<close>

text \<open>A non-empty word of digits and lower-case letters.\<close>

definition is_term :: "bytes \<Rightarrow> bool" where
  "is_term w \<longleftrightarrow> w \<noteq> [] \<and> (\<forall>c \<in> set w. is_alnum c \<and> to_lower c = c)"

lemma alnum_lower [simp]: "is_alnum c \<Longrightarrow> is_alnum (to_lower c)" "to_lower (to_lower c) = to_lower c"
proof -
  have up: "unat (c + 32) = unat c + 32" if "65 \<le> c" "c \<le> 90"
    using that unfolding word_le_nat_alt by (simp add: unat_word_ariths)
  show "is_alnum c \<Longrightarrow> is_alnum (to_lower c)"
    using up unfolding is_alnum_def to_lower_def word_le_nat_alt by auto
  show "to_lower (to_lower c) = to_lower c"
    using up unfolding to_lower_def word_le_nat_alt by auto
qed

lemma tokens_terms:
  "(\<forall>w \<in> set out. is_term w) \<Longrightarrow> (\<forall>c \<in> set cur. is_alnum c \<and> to_lower c = c) \<Longrightarrow>
    \<forall>w \<in> set (fst (flush_token (foldl token_step (out, cur) s))). is_term w"
proof (induction s arbitrary: out cur)
  case Nil
  then show ?case by (auto simp: flush_token_def is_term_def)
next
  case (Cons c s)
  show ?case
  proof (cases "is_alnum c")
    case True
    then show ?thesis using Cons.IH [of out "cur @ [to_lower c]"] Cons.prems by (auto simp: token_step_def)
  next
    case False
    define out' where "out' = (if cur = [] then out else out @ [cur])"
    have step: "foldl token_step (out, cur) (c # s) = foldl token_step (out', []) s"
      using False by (simp add: token_step_def flush_token_def out'_def)
    have "\<forall>w \<in> set out'. is_term w"
      using Cons.prems by (simp add: is_term_def out'_def)
    from Cons.IH [OF this, of "[]"] show ?thesis unfolding step by simp
  qed
qed

lemma tokenize_terms: "w \<in> set (tokenize_text s) \<Longrightarrow> is_term w"
  using tokens_terms [of "[]" "[]" s] by (simp add: tokenize_text_def)

lemma map_lower_term: "is_term w \<Longrightarrow> map to_lower w = w"
  by (simp add: is_term_def map_idI)

text \<open>Terms joined by a separator.\<close>

definition join_terms :: "u8 \<Rightarrow> bytes list \<Rightarrow> bytes" where
  "join_terms c ws = concat (map (\<lambda>w. w @ [c]) ws)"

lemma tokenize_join: "\<not> is_alnum c \<Longrightarrow> \<forall>w \<in> set ws. is_term w \<Longrightarrow> tokenize_text (join_terms c ws) = ws"
proof (induction ws)
  case (Cons w ws)
  then have "tokenize_text (join_terms c (w # ws)) = tokenize_text w @ tokenize_text (join_terms c ws)"
    using tokenize_separator [of c w "join_terms c ws"] by (simp add: join_terms_def)
  moreover have "tokenize_text w = [w]"
    using tokenize_word [of w] map_lower_term [of w] Cons.prems(2) by (simp add: is_term_def)
  ultimately show ?case using Cons by simp
qed (simp add: join_terms_def)

text \<open>
  The terms of a text are non-empty words of digits and lower-case letters; a separator
  splits a text into independent parts, and the terms, joined by any separator, have exactly
  themselves as terms, so a query and a document that spell the same words match.
\<close>

theorem tokenize_text_terms:
  "(\<forall>w \<in> set (tokenize_text s). is_term w) \<and>
   (\<not> is_alnum c \<longrightarrow> tokenize_text (a @ c # b) = tokenize_text a @ tokenize_text b \<and>
      tokenize_text (join_terms c (tokenize_text s)) = tokenize_text s)"
  using tokenize_terms tokenize_separator tokenize_join by auto

theorem tokenize_text_terms_witness:
  "tokenize_text ([0x41, 0x31] @ 0x20 # [0x62]) = tokenize_text [0x41, 0x31] @ tokenize_text [0x62]"
proof -
  have "\<not> is_alnum 0x20" by (simp add: is_alnum_def)
  then show ?thesis using tokenize_text_terms [of "[]" "0x20" "[0x41, 0x31]" "[0x62]"] by blast
qed

end
