(* ===== verification/Schema.thy ===== *)
theory Schema
  imports Values
begin

text \<open>
  The declared schema: \<open>compute_fingerprint_\<close>, the checks of the constructor and
  \<open>validate\<close> of \<open>src/metadata.cpp\<close>. The columns are positional.
\<close>

section \<open>The fingerprint\<close>

definition fnv_basis :: u64 where "fnv_basis = 1469598103934665603"
definition fnv_prime :: u64 where "fnv_prime = 1099511628211"

definition mix :: "u64 \<Rightarrow> u8 \<Rightarrow> u64" where
  "mix h byte = (h XOR ucast byte) * fnv_prime"

text \<open>The bytes the loop feeds to \<open>mix\<close> for one attribute.\<close>

definition spec_bytes :: "attr_spec \<Rightarrow> bytes" where
  "spec_bytes s = attr_name s @ [0, attr_code (attr_kind s), if indexed s then 1 else 0]"

definition compute_fingerprint :: "attr_spec list \<Rightarrow> u64" where
  "compute_fingerprint schema = foldl (\<lambda>h s. foldl mix h (spec_bytes s)) fnv_basis schema"

section \<open>Validation\<close>

text \<open>The constructor refuses a null attribute and an index on a type without an order.\<close>

definition check_schema :: "attr_spec list \<Rightarrow> exn option" where
  "check_schema schema =
     (if \<exists>s \<in> set schema. attr_kind s = Null \<or> indexed s \<and> attr_kind s \<noteq> Int64 \<and> attr_kind s \<noteq> Float64
      then Some InvalidArgument else None)"

fun validate_attrs :: "attr_spec list \<Rightarrow> attr_value list \<Rightarrow> exn option" where
  "validate_attrs (s # schema) (v # vs) =
     (if vtype v \<noteq> Null \<and> vtype v \<noteq> attr_kind s then Some InvalidArgument else validate_attrs schema vs)"
| "validate_attrs _ _ = None"

definition validate :: "attr_spec list \<Rightarrow> meta_record \<Rightarrow> exn option" where
  "validate schema m =
     (if attrs m = [] then None
      else if length (attrs m) \<noteq> length schema then Some InvalidArgument
      else validate_attrs schema (attrs m))"

section \<open>What they check\<close>

lemma fnv_prime_unit: "fnv_prime * 14886173955864302971 = 1"
  by (simp add: fnv_prime_def)

lemma times_prime_inject: "a * fnv_prime = b * fnv_prime \<longleftrightarrow> a = b"
proof
  assume "a * fnv_prime = b * fnv_prime"
  then have "a * (fnv_prime * 14886173955864302971) = b * (fnv_prime * 14886173955864302971)"
    by (simp only: mult.assoc [symmetric])
  then show "a = b" by (simp only: fnv_prime_unit mult_1_right)
qed simp

lemma xor_left_inject: "a XOR x = a XOR y \<longleftrightarrow> x = y" for a x y :: "'a::len word"
  unfolding bit_eq_iff bit_xor_iff by blast

lemma xor_state_inject: "x XOR a = y XOR a \<longleftrightarrow> x = y" for a x y :: "'a::len word"
  unfolding bit_eq_iff bit_xor_iff by blast

lemma mix_state_inject: "mix h b = mix h' b \<longleftrightarrow> h = h'"
  by (simp add: mix_def times_prime_inject xor_state_inject)

lemma mix_byte_inject: "mix h b = mix h b' \<longleftrightarrow> b = b'"
proof -
  have "ucast (ucast x :: u64) = x" for x :: u8
    by (rule bit_eqI) (auto simp: bit_ucast_iff dest: bit_imp_le_length)
  then have "(ucast b :: u64) = ucast b' \<longleftrightarrow> b = b'" by metis
  then show ?thesis by (simp add: mix_def times_prime_inject xor_left_inject)
qed

lemma foldl_mix_inject: "foldl mix h bs = foldl mix h' bs \<longleftrightarrow> h = h'"
  by (induction bs arbitrary: h h') (simp_all add: mix_state_inject)

lemma fingerprint_bytes: "compute_fingerprint schema = foldl mix fnv_basis (concat (map spec_bytes schema))"
proof -
  have "foldl (\<lambda>h s. foldl mix h (spec_bytes s)) h schema = foldl mix h (concat (map spec_bytes schema))" for h
    by (induction schema arbitrary: h) simp_all
  then show ?thesis by (simp add: compute_fingerprint_def)
qed

lemma foldl_mix_one_byte: "b \<noteq> b' \<Longrightarrow> foldl mix h (xs @ b # ys) \<noteq> foldl mix h (xs @ b' # ys)"
  by (simp add: foldl_mix_inject mix_byte_inject)

text \<open>
  Two schemas that differ in the type of one attribute, in its index flag or in one
  character of its name have different fingerprints.
\<close>

theorem fingerprint_detects:
  assumes "indexed s \<noteq> indexed s' \<and> attr_kind s = attr_kind s' \<and> attr_name s = attr_name s' \<or>
      attr_kind s \<noteq> attr_kind s' \<and> indexed s = indexed s' \<and> attr_name s = attr_name s' \<or>
      indexed s = indexed s' \<and> attr_kind s = attr_kind s' \<and> attr_name s = u @ b # v \<and> attr_name s' = u @ b' # v \<and> b \<noteq> b'"
  shows "compute_fingerprint (pre @ s # post) \<noteq> compute_fingerprint (pre @ s' # post)"
proof -
  have code: "attr_code t = attr_code t' \<Longrightarrow> t = t'" for t t'
    by (metis attr_type_of_code option.inject)
  have "\<exists>xs c c' ys. spec_bytes s = xs @ c # ys \<and> spec_bytes s' = xs @ c' # ys \<and> c \<noteq> c'"
    using assms
  proof (elim disjE conjE)
    assume "indexed s \<noteq> indexed s'" "attr_kind s = attr_kind s'" "attr_name s = attr_name s'"
    then show ?thesis
      by (intro exI [of _ "attr_name s @ [0, attr_code (attr_kind s)]"] exI [of _ "if indexed s then 1 else 0"]
          exI [of _ "if indexed s' then 1 else 0"] exI [of _ "[]"]) (auto simp: spec_bytes_def)
  next
    assume "attr_kind s \<noteq> attr_kind s'" "indexed s = indexed s'" "attr_name s = attr_name s'"
    then show ?thesis using code
      by (intro exI [of _ "attr_name s @ [0]"] exI [of _ "attr_code (attr_kind s)"]
          exI [of _ "attr_code (attr_kind s')"] exI [of _ "[if indexed s then 1 else 0]"]) (auto simp: spec_bytes_def)
  next
    assume "indexed s = indexed s'" "attr_kind s = attr_kind s'" "attr_name s = u @ b # v" "attr_name s' = u @ b' # v" "b \<noteq> b'"
    then show ?thesis
      by (intro exI [of _ u] exI [of _ b] exI [of _ b'] exI [of _ "v @ [0, attr_code (attr_kind s), if indexed s then 1 else 0]"])
        (auto simp: spec_bytes_def)
  qed
  then obtain xs c c' ys where "spec_bytes s = xs @ c # ys" "spec_bytes s' = xs @ c' # ys" "c \<noteq> c'" by blast
  then show ?thesis
    using foldl_mix_one_byte [of c c' fnv_basis "concat (map spec_bytes pre) @ xs" "ys @ concat (map spec_bytes post)"]
    by (simp add: fingerprint_bytes)
qed

definition demo_spec :: "bool \<Rightarrow> attr_spec" where
  "demo_spec i = \<lparr>attr_name = [0x61], attr_kind = Int64, indexed = i\<rparr>"

theorem fingerprint_detects_witness: "compute_fingerprint ([] @ demo_spec True # []) \<noteq> compute_fingerprint ([] @ demo_spec False # [])"
  by (rule fingerprint_detects [where u = "[]" and b = 0 and b' = 0 and v = "[]"]) (simp add: demo_spec_def)

lemma validate_attrs_iff:
  "length vs = length schema \<Longrightarrow> validate_attrs schema vs = None \<longleftrightarrow>
    (\<forall>a < length schema. vtype (vs ! a) = Null \<or> vtype (vs ! a) = attr_kind (schema ! a))"
proof (induction schema vs rule: validate_attrs.induct)
  case (1 s schema v vs)
  then show ?case by (auto simp: nth_Cons' less_Suc_eq_0_disj split: if_splits)
qed auto

text \<open>
  C38: validation accepts exactly the empty record and the records with one value for every
  declared attribute, each null or of the declared type; anything else is an invalid argument.
\<close>

theorem validate_exact:
  "validate schema m = (if attrs m = [] \<or> length (attrs m) = length schema \<and>
       (\<forall>a < length schema. vtype (attrs m ! a) = Null \<or> vtype (attrs m ! a) = attr_kind (schema ! a))
     then None else Some InvalidArgument)"
proof -
  have two: "validate_attrs s vs = None \<or> validate_attrs s vs = Some InvalidArgument" for s vs
    by (induction s vs rule: validate_attrs.induct) auto
  show ?thesis using validate_attrs_iff [of "attrs m" schema] two [of schema "attrs m"]
    by (auto simp: validate_def)
qed

theorem validate_exact_witness:
  "validate [demo_spec True] \<lparr>attrs = [attr_bool True], payload = []\<rparr> = Some InvalidArgument"
  using validate_exact [of "[demo_spec True]" "\<lparr>attrs = [attr_bool True], payload = []\<rparr>"]
  by (simp add: demo_spec_def attr_bool_def)

end
