(* ===== verification/Columns.thy ===== *)
theory Columns
  imports Effects Tokenizer Schema Sortable_Bits BPlus_Spec
begin

text \<open>
  One column of the metadata store, \<open>struct Column\<close> of \<open>include/metadata.h\<close> and the
  parts of \<open>src/metadata.cpp\<close> that work on a single column: interning, the live counts,
  the postings lists and the ordered index. Counts and lengths are machine words and wrap;
  a vector access is in range where the callers' invariant says so.
\<close>

record column =
  ctype :: attr_type
  cdata :: "u64 list"
  cpresent :: "bool list"
  cdict :: "bytes list"
  ccodes :: "bytes \<rightharpoonup> u32"
  ccount :: "u32 list"
  cpostings :: "internal_id list list"
  ctext_terms :: "u32 list list"
  cdoc_len :: "u32 list"
  clive_docs :: u64
  ctotal_len :: u64
  craw_text :: "bytes list"
  cindex :: "btree option"

text \<open>\<open>std::make_unique<BPlusTree>()\<close>, with the default \<open>BTreeConfig\<close>.\<close>

definition fresh_index :: btree where
  "fresh_index = \<lparr>nodes = [new_node], root = 0, tsize = 0, node_capacity = 128, max_nodes = 2 ^ 20\<rparr>"

lemma fresh_index_made: "make_btree 128 (2 ^ 20) = Inr fresh_index"
  by (simp add: make_btree_def new_leaf_def fresh_index_def new_node_def)

definition new_column :: "attr_spec \<Rightarrow> column" where
  "new_column s = \<lparr>ctype = attr_kind s, cdata = [], cpresent = [], cdict = [], ccodes = Map.empty,
     ccount = (if attr_kind s = Bool then replicate 2 0 else []),
     cpostings = (if attr_kind s = Bool then replicate 2 [] else []),
     ctext_terms = [], cdoc_len = [], clive_docs = 0, ctotal_len = 0, craw_text = [],
     cindex = (if indexed s then Some fresh_index else None)\<rparr>"

section \<open>Interning\<close>

definition intern :: "column \<Rightarrow> bytes \<Rightarrow> u32 \<times> column" where
  "intern c s = (case ccodes c s of
     Some code \<Rightarrow> (code, c)
   | None \<Rightarrow> (let code = of_nat (length (cdict c)) in
       (code, c\<lparr>cdict := cdict c @ [s], ccodes := (ccodes c)(s \<mapsto> code),
                ccount := ccount c @ [0], cpostings := cpostings c @ [[]]\<rparr>)))"

definition intern_token :: "u32 list \<times> column \<Rightarrow> bytes \<Rightarrow> u32 list \<times> column" where
  "intern_token st tok = (case intern (snd st) tok of (code, c) \<Rightarrow>
     (if code \<in> set (fst st) then fst st else fst st @ [code], c))"

text \<open>The codes of the row, without repetition, the number of its tokens, and the column.\<close>

definition intern_terms :: "column \<Rightarrow> bytes \<Rightarrow> u32 list \<times> u32 \<times> column" where
  "intern_terms c s = (let tokens = tokenize_text s; (codes, c') = foldl intern_token ([], c) tokens
     in (codes, of_nat (length tokens), c'))"

section \<open>Counts, postings and the index\<close>

definition bump :: "bool \<Rightarrow> u32 list \<Rightarrow> u32 \<Rightarrow> u32 list" where
  "bump inc cnt code = cnt[unat code := (if inc then cnt ! unat code + 1 else cnt ! unat code - 1)]"

definition adjust_count :: "bool \<Rightarrow> internal_id \<Rightarrow> column \<Rightarrow> column" where
  "adjust_count inc rid c =
     (if \<not> cpresent c ! rid then c
      else if ctype c = Text then
        (let c = c\<lparr>ccount := foldl (bump inc) (ccount c) (ctext_terms c ! rid)\<rparr>
         in if inc then c\<lparr>clive_docs := clive_docs c + 1, ctotal_len := ctotal_len c + ucast (cdoc_len c ! rid)\<rparr>
            else c\<lparr>clive_docs := clive_docs c - 1, ctotal_len := ctotal_len c - ucast (cdoc_len c ! rid)\<rparr>)
      else if ctype c \<noteq> Tag \<and> ctype c \<noteq> Bool then c
      else c\<lparr>ccount := bump inc (ccount c) (ucast (cdata c ! rid))\<rparr>)"

definition post :: "internal_id \<Rightarrow> internal_id list list \<Rightarrow> u32 \<Rightarrow> internal_id list list" where
  "post rid ps code = ps[unat code := ps ! unat code @ [rid]]"

definition add_posting :: "internal_id \<Rightarrow> column \<Rightarrow> column" where
  "add_posting rid c =
     (if \<not> cpresent c ! rid then c
      else if ctype c = Text then c\<lparr>cpostings := foldl (post rid) (cpostings c) (ctext_terms c ! rid)\<rparr>
      else if ctype c \<noteq> Tag \<and> ctype c \<noteq> Bool then c
      else c\<lparr>cpostings := post rid (cpostings c) (ucast (cdata c ! rid))\<rparr>)"

definition sortable_key :: "column \<Rightarrow> internal_id \<Rightarrow> u64" where
  "sortable_key c rid =
     (if ctype c = Int64 then sortable_bits_int (cdata c ! rid) else sortable_bits_double (cdata c ! rid))"

definition adjust_index :: "bool \<Rightarrow> internal_id \<Rightarrow> column action" where
  "adjust_index inc rid c = (case cindex c of
     None \<Rightarrow> Some (None, c)
   | Some t \<Rightarrow>
       if \<not> cpresent c ! rid then Some (None, c)
       else (let key = sortable_key c rid in
         if inc then (case bt_insert t key rid of None \<Rightarrow> None | Some (e, t') \<Rightarrow> Some (e, c\<lparr>cindex := Some t'\<rparr>))
         else (case bt_remove t key rid of None \<Rightarrow> None | Some (_, t') \<Rightarrow> Some (None, c\<lparr>cindex := Some t'\<rparr>))))"

section \<open>Rows\<close>

text \<open>The body of the loop of \<open>append_row\<close>; no value is an absent or null attribute.\<close>

definition append_value :: "attr_value option \<Rightarrow> column \<Rightarrow> column" where
  "append_value ov c = (case ov of
     None \<Rightarrow>
       (let c = c\<lparr>cdata := cdata c @ [0], cpresent := cpresent c @ [False]\<rparr> in
        if ctype c = Text then c\<lparr>ctext_terms := ctext_terms c @ [[]], cdoc_len := cdoc_len c @ [0],
          craw_text := craw_text c @ [[]]\<rparr> else c)
   | Some v \<Rightarrow>
       (let c = (if ctype c = Text then
              (let c = c\<lparr>cdata := cdata c @ [0], craw_text := craw_text c @ [vtext v]\<rparr>;
                   (codes, dlen, c) = intern_terms c (vtext v)
               in c\<lparr>ctext_terms := ctext_terms c @ [codes], cdoc_len := cdoc_len c @ [dlen]\<rparr>)
            else if vtype v = Tag then
              (let (code, c) = intern c (vtext v) in c\<lparr>cdata := cdata c @ [ucast code]\<rparr>)
            else c\<lparr>cdata := cdata c @ [raw v]\<rparr>)
        in c\<lparr>cpresent := cpresent c @ [True]\<rparr>))"

definition append_copy :: "internal_id \<Rightarrow> column \<Rightarrow> column" where
  "append_copy src c =
     (let c = c\<lparr>cdata := cdata c @ [cdata c ! src], cpresent := cpresent c @ [cpresent c ! src]\<rparr> in
      if ctype c = Text then c\<lparr>ctext_terms := ctext_terms c @ [ctext_terms c ! src],
        cdoc_len := cdoc_len c @ [cdoc_len c ! src], craw_text := craw_text c @ [craw_text c ! src]\<rparr> else c)"

definition write_value :: "internal_id \<Rightarrow> attr_value option \<Rightarrow> column \<Rightarrow> column" where
  "write_value rid ov c = (case ov of
     None \<Rightarrow>
       (let c = c\<lparr>cdata := (cdata c)[rid := 0], cpresent := (cpresent c)[rid := False]\<rparr> in
        if ctype c = Text then c\<lparr>ctext_terms := (ctext_terms c)[rid := []], cdoc_len := (cdoc_len c)[rid := 0],
          craw_text := (craw_text c)[rid := []]\<rparr> else c)
   | Some v \<Rightarrow>
       (let c = (if ctype c = Text then
              (let c = c\<lparr>craw_text := (craw_text c)[rid := vtext v]\<rparr>;
                   (codes, dlen, c) = intern_terms c (vtext v)
               in c\<lparr>ctext_terms := (ctext_terms c)[rid := codes], cdoc_len := (cdoc_len c)[rid := dlen]\<rparr>)
            else if vtype v = Tag then
              (let (code, c) = intern c (vtext v) in c\<lparr>cdata := (cdata c)[rid := ucast code]\<rparr>)
            else c\<lparr>cdata := (cdata c)[rid := raw v]\<rparr>)
        in c\<lparr>cpresent := (cpresent c)[rid := True]\<rparr>))"

text \<open>The body of the loop of \<open>set_row\<close>.\<close>

definition set_value :: "internal_id \<Rightarrow> attr_value option \<Rightarrow> column action" where
  "set_value rid ov =
     and_then (upd (adjust_count False rid)) (and_then (adjust_index False rid)
       (and_then (upd (write_value rid ov)) (and_then (upd (adjust_count True rid))
         (and_then (adjust_index True rid) (upd (add_posting rid))))))"

text \<open>The body of the loop of \<open>permute\<close>.\<close>

definition permute_rows :: "internal_id list \<Rightarrow> column \<Rightarrow> column" where
  "permute_rows live c =
     (let c = c\<lparr>cdata := map ((!) (cdata c)) live, cpresent := map ((!) (cpresent c)) live\<rparr>;
          c = (if ctype c = Text then c\<lparr>ctext_terms := map ((!) (ctext_terms c)) live,
              cdoc_len := map ((!) (cdoc_len c)) live, craw_text := map ((!) (craw_text c)) live\<rparr> else c)
      in if ctype c = Tag \<or> ctype c = Bool \<or> ctype c = Text
         then foldl (\<lambda>c rid. add_posting rid c) (c\<lparr>cpostings := map (\<lambda>_. []) (cpostings c)\<rparr>) [0..<length (cpresent c)]
         else c)"

definition permute_column :: "internal_id list \<Rightarrow> column action" where
  "permute_column live = and_then (upd (permute_rows live)) (\<lambda>c. case cindex c of
     None \<Rightarrow> Some (None, c)
   | Some _ \<Rightarrow> for_each [0..<length (cpresent c)] (adjust_index True) (c\<lparr>cindex := Some fresh_index\<rparr>))"

definition clear_column :: "column \<Rightarrow> column" where
  "clear_column c =
     (let c = c\<lparr>cdata := [], cpresent := []\<rparr>;
          c = (if ctype c = Text then c\<lparr>ctext_terms := [], cdoc_len := [], craw_text := [], clive_docs := 0, ctotal_len := 0\<rparr> else c)
      in c\<lparr>ccount := map (\<lambda>_. 0) (ccount c), cpostings := map (\<lambda>_. []) (cpostings c),
           cindex := map_option (\<lambda>_. fresh_index) (cindex c)\<rparr>)"

text \<open>The first loop of \<open>rebuild_derived_state\<close>, and the body of its second.\<close>

definition reset_derived :: "column \<Rightarrow> column" where
  "reset_derived c =
     (let c = (if ctype c = Tag \<or> ctype c = Bool \<or> ctype c = Text
            then c\<lparr>ccount := map (\<lambda>_. 0) (ccount c), cpostings := map (\<lambda>_. []) (cpostings c)\<rparr> else c);
          c = (if ctype c = Text then c\<lparr>clive_docs := 0, ctotal_len := 0\<rparr> else c)
      in c\<lparr>cindex := map_option (\<lambda>_. fresh_index) (cindex c)\<rparr>)"

definition derive_row :: "internal_id \<Rightarrow> column action" where
  "derive_row rid = and_then (upd (adjust_count True rid)) (and_then (adjust_index True rid) (upd (add_posting rid)))"

section \<open>Reading\<close>

definition get_value :: "column \<Rightarrow> internal_id \<Rightarrow> attr_value" where
  "get_value c rid =
     (if \<not> cpresent c ! rid then attr_null
      else if ctype c = Tag then (attr_tag (cdict c ! unat (cdata c ! rid)))\<lparr>raw := cdata c ! rid\<rparr>
      else if ctype c = Text then attr_text (craw_text c ! rid)
      else \<lparr>vtype = ctype c, raw = cdata c ! rid, vtext = []\<rparr>)"

definition code_count :: "column \<Rightarrow> u32 \<Rightarrow> u32" where
  "code_count c code = (if unat code < length (ccount c) then ccount c ! unat code else 0)"

definition code_postings :: "column \<Rightarrow> u32 \<Rightarrow> internal_id list" where
  "code_postings c code = (if unat code < length (cpostings c) then cpostings c ! unat code else [])"

definition text_doc_len :: "column \<Rightarrow> internal_id \<Rightarrow> u32" where
  "text_doc_len c rid = (if cpresent c ! rid then cdoc_len c ! rid else 0)"

text \<open>\<open>range_\<close>: the rows the index emits for the keys in \<open>[lo, hi]\<close>.\<close>

definition column_range :: "column \<Rightarrow> u64 \<Rightarrow> u64 \<Rightarrow> internal_id list option" where
  "column_range c lo hi = (case cindex c of
     None \<Rightarrow> Some [] | Some t \<Rightarrow> map_option (map snd) (bt_range t lo hi))"

end
