(* ===== verification/Column_Inv.thy ===== *)
theory Column_Inv
  imports Columns
begin

text \<open>
  What the derived state of a column means: the counts are those of the live rows, the
  ordered index holds exactly the live rows, the postings lists hold every row ever written
  under a code, and for a row not overwritten since they were rebuilt no other. The rows
  counted, indexed, posted and posted exactly are four sets, because the operations of the
  store move them one after the other.
\<close>

section \<open>Codes of a row\<close>

definition coded :: "column \<Rightarrow> bool" where
  "coded c \<longleftrightarrow> ctype c = Tag \<or> ctype c = Bool \<or> ctype c = Text"

definition row_codes :: "column \<Rightarrow> internal_id \<Rightarrow> u32 list" where
  "row_codes c rid = (if \<not> cpresent c ! rid then [] else if ctype c = Text then ctext_terms c ! rid
     else if ctype c = Tag \<or> ctype c = Bool then [ucast (cdata c ! rid)] else [])"

definition holders :: "column \<Rightarrow> internal_id set \<Rightarrow> u32 \<Rightarrow> internal_id set" where
  "holders c L k = {rid \<in> L. k \<in> set (row_codes c rid)}"

definition present_in :: "column \<Rightarrow> internal_id set \<Rightarrow> internal_id set" where
  "present_in c L = {rid \<in> L. cpresent c ! rid}"

section \<open>The invariant\<close>

definition dict_ok :: "column \<Rightarrow> bool" where
  "dict_ok c \<longleftrightarrow> distinct (cdict c) \<and> length (cdict c) \<le> 2 ^ 32 \<and>
     (\<forall>s k. ccodes c s = Some k \<longleftrightarrow> unat k < length (cdict c) \<and> cdict c ! unat k = s) \<and>
     (ctype c \<noteq> Tag \<and> ctype c \<noteq> Text \<longrightarrow> cdict c = []) \<and>
     length (ccount c) = (if ctype c = Bool then 2 else length (cdict c)) \<and>
     length (cpostings c) = length (ccount c) \<and> ctype c \<noteq> Null \<and>
     (cindex c \<noteq> None \<longrightarrow> ctype c = Int64 \<or> ctype c = Float64)"

definition text_row_ok :: "column \<Rightarrow> internal_id \<Rightarrow> bool" where
  "text_row_ok c rid \<longleftrightarrow> (cpresent c ! rid \<longrightarrow>
     (\<lambda>k. cdict c ! unat k) ` set (ctext_terms c ! rid) = set (tokenize_text (craw_text c ! rid)) \<and>
     cdoc_len c ! rid = of_nat (length (tokenize_text (craw_text c ! rid))))"

text \<open>The cell of a coded column is the code itself, zero-extended.\<close>

definition cell_ok :: "column \<Rightarrow> internal_id \<Rightarrow> bool" where
  "cell_ok c rid \<longleftrightarrow> (cpresent c ! rid \<and> (ctype c = Tag \<or> ctype c = Bool) \<longrightarrow> ucast (ucast (cdata c ! rid) :: u32) = cdata c ! rid)"

definition rows_ok :: "column \<Rightarrow> nat \<Rightarrow> bool" where
  "rows_ok c n \<longleftrightarrow> length (cdata c) = n \<and> length (cpresent c) = n \<and>
     (ctype c = Text \<longrightarrow> length (ctext_terms c) = n \<and> length (cdoc_len c) = n \<and> length (craw_text c) = n \<and>
       (\<forall>rid < n. text_row_ok c rid)) \<and>
     (\<forall>rid < n. cell_ok c rid \<and> distinct (row_codes c rid) \<and> (\<forall>k \<in> set (row_codes c rid). unat k < length (ccount c)))"

definition counts_ok :: "column \<Rightarrow> internal_id set \<Rightarrow> bool" where
  "counts_ok c L \<longleftrightarrow> (\<forall>k. unat k < length (ccount c) \<longrightarrow> ccount c ! unat k = of_nat (card (holders c L k))) \<and>
     (ctype c = Text \<longrightarrow> clive_docs c = of_nat (card (present_in c L)) \<and>
       ctotal_len c = (\<Sum>rid \<in> present_in c L. ucast (cdoc_len c ! rid)))"

definition index_ok :: "column \<Rightarrow> internal_id set \<Rightarrow> bool" where
  "index_ok c L \<longleftrightarrow> (\<forall>t. cindex c = Some t \<longrightarrow> bt_ok t \<and>
     mset (bt_contents t) = image_mset (\<lambda>rid. (sortable_key c rid, rid)) (mset_set (present_in c L)))"

definition posts_ok :: "column \<Rightarrow> nat \<Rightarrow> internal_id set \<Rightarrow> internal_id set \<Rightarrow> bool" where
  "posts_ok c n P E \<longleftrightarrow> (\<forall>rid \<in> P. \<forall>k \<in> set (row_codes c rid). rid \<in> set (cpostings c ! unat k)) \<and>
     (\<forall>ps \<in> set (cpostings c). \<forall>rid \<in> set ps. rid < n) \<and>
     (\<forall>rid \<in> E. \<forall>k. unat k < length (cpostings c) \<longrightarrow> rid \<in> set (cpostings c ! unat k) \<longrightarrow> k \<in> set (row_codes c rid))"

definition col_inv :: "column \<Rightarrow> nat \<Rightarrow> internal_id set \<Rightarrow> internal_id set \<Rightarrow> internal_id set \<Rightarrow> internal_id set \<Rightarrow> bool" where
  "col_inv c n Lc Li P E \<longleftrightarrow> dict_ok c \<and> rows_ok c n \<and> Lc \<subseteq> {..<n} \<and> Li \<subseteq> {..<n} \<and> P \<subseteq> {..<n} \<and>
     E \<subseteq> {..<n} \<and> counts_ok c Lc \<and> index_ok c Li \<and> posts_ok c n P E"

lemma col_invD:
  assumes "col_inv c n Lc Li P E"
  shows "dict_ok c" "rows_ok c n" "Lc \<subseteq> {..<n}" "Li \<subseteq> {..<n}" "P \<subseteq> {..<n}" "counts_ok c Lc" "index_ok c Li" "posts_ok c n P E"
    "finite Lc" "finite Li" "finite P" "E \<subseteq> {..<n}"
  using assms by (auto simp: col_inv_def intro: finite_subset)

lemma finite_holders [simp]: "finite L \<Longrightarrow> finite (holders c L k)"
  by (simp add: holders_def)

lemma finite_present [simp]: "finite L \<Longrightarrow> finite (present_in c L)"
  by (simp add: present_in_def)

lemma holders_insert: "holders c (insert rid L) k = (if k \<in> set (row_codes c rid) then insert rid (holders c L k) else holders c L k)"
  by (auto simp: holders_def)

lemma holders_remove: "holders c (L - {rid}) k = holders c L k - {rid}"
  by (auto simp: holders_def)

lemma present_insert: "present_in c (insert rid L) = (if cpresent c ! rid then insert rid (present_in c L) else present_in c L)"
  by (auto simp: present_in_def)

lemma present_remove: "present_in c (L - {rid}) = present_in c L - {rid}"
  by (auto simp: present_in_def)

lemma holders_notin [simp]: "rid \<notin> L \<Longrightarrow> rid \<notin> holders c L k"
  by (simp add: holders_def)

lemma present_notin [simp]: "rid \<notin> L \<Longrightarrow> rid \<notin> present_in c L"
  by (simp add: present_in_def)

section \<open>Counting\<close>

lemma length_bump [simp]: "length (bump inc cnt k) = length cnt"
  by (simp add: bump_def)

lemma length_foldl_bump [simp]: "length (foldl (bump inc) cnt ks) = length cnt"
  by (induction ks arbitrary: cnt) simp_all

lemma foldl_bump_nth:
  "distinct ks \<Longrightarrow> unat k < length cnt \<Longrightarrow>
    foldl (bump inc) cnt ks ! unat k = cnt ! unat k + (if k \<in> set ks then (if inc then 1 else - 1) else 0)"
proof (induction ks arbitrary: cnt)
  case (Cons x ks)
  have "bump inc cnt x ! unat k = (if k = x then cnt ! unat k + (if inc then 1 else - 1) else cnt ! unat k)"
    using Cons.prems(2) by (auto simp: bump_def nth_list_update word_unat_eq_iff)
  then show ?case using Cons.IH [of "bump inc cnt x"] Cons.prems by auto
qed simp

lemma adjust_count_count: "ccount (adjust_count inc rid c) = foldl (bump inc) (ccount c) (row_codes c rid)"
  by (simp add: adjust_count_def row_codes_def Let_def)

lemma adjust_count_frame [simp]:
  "ctype (adjust_count inc rid c) = ctype c" "cdata (adjust_count inc rid c) = cdata c"
  "cpresent (adjust_count inc rid c) = cpresent c" "cdict (adjust_count inc rid c) = cdict c"
  "ccodes (adjust_count inc rid c) = ccodes c" "ctext_terms (adjust_count inc rid c) = ctext_terms c"
  "cdoc_len (adjust_count inc rid c) = cdoc_len c" "craw_text (adjust_count inc rid c) = craw_text c"
  "cpostings (adjust_count inc rid c) = cpostings c" "cindex (adjust_count inc rid c) = cindex c"
  by (simp_all add: adjust_count_def Let_def)

text \<open>Rows, and what is read from them, of columns that agree on their rows.\<close>

lemma row_codes_cong:
  "ctype c' = ctype c \<Longrightarrow> cdata c' = cdata c \<Longrightarrow> cpresent c' = cpresent c \<Longrightarrow> ctext_terms c' = ctext_terms c \<Longrightarrow>
    row_codes c' = row_codes c"
  by (rule ext) (simp add: row_codes_def)

lemma row_codes_count [simp]: "row_codes (adjust_count inc rid c) = row_codes c"
  by (rule row_codes_cong) simp_all

lemma present_count [simp]: "present_in (adjust_count inc rid c) = present_in c"
  by (rule ext) (simp add: present_in_def)

lemma holders_count [simp]: "holders (adjust_count inc rid c) = holders c"
  by (intro ext) (simp add: holders_def)

lemma sortable_key_count [simp]: "sortable_key (adjust_count inc rid c) = sortable_key c"
  by (rule ext) (simp add: sortable_key_def)

lemma adjust_count_rest:
  assumes "dict_ok c" "rows_ok c n" "index_ok c Li" "posts_ok c n P E"
  shows "dict_ok (adjust_count inc rid c)" "rows_ok (adjust_count inc rid c) n"
    "index_ok (adjust_count inc rid c) Li" "posts_ok (adjust_count inc rid c) n P E"
  using assms
  by (simp_all add: dict_ok_def rows_ok_def index_ok_def posts_ok_def text_row_ok_def cell_ok_def adjust_count_count)

lemma adjust_count_docs:
  "ctype c = Text \<Longrightarrow> clive_docs (adjust_count inc rid c) = (if cpresent c ! rid then (if inc then clive_docs c + 1 else clive_docs c - 1) else clive_docs c)"
  "ctype c = Text \<Longrightarrow> ctotal_len (adjust_count inc rid c) = (if cpresent c ! rid then (if inc then ctotal_len c + ucast (cdoc_len c ! rid)
     else ctotal_len c - ucast (cdoc_len c ! rid)) else ctotal_len c)"
  by (simp_all add: adjust_count_def Let_def)

lemma count_in:
  assumes inv: "col_inv c n Lc Li P E" and rid: "rid < n" "rid \<notin> Lc"
  shows "col_inv (adjust_count True rid c) n (insert rid Lc) Li P E"
proof -
  note I = col_invD [OF inv]
  let ?c = "adjust_count True rid c"
  have d: "distinct (row_codes c rid)" using I(2) rid(1) by (simp add: rows_ok_def)
  have "ccount ?c ! unat k = of_nat (card (holders ?c (insert rid Lc) k))" if "unat k < length (ccount ?c)" for k
  proof -
    have k: "unat k < length (ccount c)" using that by (simp add: adjust_count_count)
    then have "ccount ?c ! unat k = of_nat (card (holders c Lc k)) + (if k \<in> set (row_codes c rid) then 1 else 0)"
      using I(6) foldl_bump_nth [OF d k] by (simp add: adjust_count_count counts_ok_def)
    also have "\<dots> = of_nat (card (holders c (insert rid Lc) k))"
      using rid(2) I(9) by (simp add: holders_insert add.commute)
    finally show ?thesis by simp
  qed
  moreover have "clive_docs ?c = of_nat (card (present_in ?c (insert rid Lc))) \<and>
      ctotal_len ?c = (\<Sum>r \<in> present_in ?c (insert rid Lc). ucast (cdoc_len ?c ! r))" if "ctype c = Text"
    using I(6,9) that rid(2) by (simp add: counts_ok_def adjust_count_docs present_insert add.commute)
  ultimately have "counts_ok ?c (insert rid Lc)" by (simp add: counts_ok_def)
  then show ?thesis using adjust_count_rest [OF I(1,2,7,8)] I(3-5,12) rid(1) by (simp add: col_inv_def)
qed

lemma count_out:
  assumes inv: "col_inv c n Lc Li P E" and rid: "rid \<in> Lc"
  shows "col_inv (adjust_count False rid c) n (Lc - {rid}) Li P E"
proof -
  note I = col_invD [OF inv]
  let ?c = "adjust_count False rid c"
  have d: "distinct (row_codes c rid)" using I(2,3) rid by (auto simp: rows_ok_def)
  have "ccount ?c ! unat k = of_nat (card (holders ?c (Lc - {rid}) k))" if "unat k < length (ccount ?c)" for k
  proof -
    have k: "unat k < length (ccount c)" using that by (simp add: adjust_count_count)
    have "holders c Lc k = (if k \<in> set (row_codes c rid) then insert rid (holders c (Lc - {rid}) k) else holders c (Lc - {rid}) k)"
      using rid holders_insert [of c rid "Lc - {rid}" k] by (simp add: insert_absorb)
    then have "of_nat (card (holders c Lc k)) = of_nat (card (holders c (Lc - {rid}) k)) + (if k \<in> set (row_codes c rid) then 1 else 0 :: u32)"
      using I(9) by (simp add: add.commute)
    then have "ccount ?c ! unat k = of_nat (card (holders c (Lc - {rid}) k))"
      using I(6) k foldl_bump_nth [OF d k] by (simp add: adjust_count_count counts_ok_def)
    then show ?thesis by simp
  qed
  moreover have "clive_docs ?c = of_nat (card (present_in ?c (Lc - {rid}))) \<and>
      ctotal_len ?c = (\<Sum>r \<in> present_in ?c (Lc - {rid}). ucast (cdoc_len ?c ! r))" if t: "ctype c = Text"
  proof (cases "cpresent c ! rid")
    case True
    have "present_in c Lc = insert rid (present_in c (Lc - {rid}))"
      using rid True present_insert [of c rid "Lc - {rid}"] by (simp add: insert_absorb)
    then show ?thesis using I(6,9) t True
      by (simp add: counts_ok_def adjust_count_docs)
  next
    case False
    have "present_in c Lc = present_in c (Lc - {rid})" using False by (auto simp: present_in_def)
    then show ?thesis using I(6) t False
      by (simp add: counts_ok_def adjust_count_docs)
  qed
  ultimately have "counts_ok ?c (Lc - {rid})" by (simp add: counts_ok_def)
  then show ?thesis using adjust_count_rest [OF I(1,2,7,8)] I(3-5,12) by (auto simp: col_inv_def)
qed


section \<open>The ordered index\<close>

lemma with_index_cong:
  "row_codes (c\<lparr>cindex := x\<rparr>) = row_codes c" "present_in (c\<lparr>cindex := x\<rparr>) = present_in c"
  "holders (c\<lparr>cindex := x\<rparr>) = holders c" "sortable_key (c\<lparr>cindex := x\<rparr>) = sortable_key c"
  by (auto simp: row_codes_def present_in_def holders_def sortable_key_def fun_eq_iff)

lemma col_inv_with_index:
  assumes "col_inv c n Lc Li P E" and "Li' \<subseteq> {..<n}" and "cindex c \<noteq> None" and "bt_ok t"
    and "mset (bt_contents t) = image_mset (\<lambda>rid. (sortable_key c rid, rid)) (mset_set (present_in c Li'))"
  shows "col_inv (c\<lparr>cindex := Some t\<rparr>) n Lc Li' P E"
proof -
  let ?c = "c\<lparr>cindex := Some t\<rparr>"
  note I = col_invD [OF assms(1)]
  have "dict_ok ?c" using I(1) assms(3) by (simp add: dict_ok_def)
  moreover have "rows_ok ?c n" using I(2) by (simp add: rows_ok_def with_index_cong text_row_ok_def cell_ok_def)
  moreover have "counts_ok ?c Lc" using I(6) by (simp add: counts_ok_def with_index_cong)
  moreover have "index_ok ?c Li'" using assms(4,5) by (simp add: index_ok_def with_index_cong)
  moreover have "posts_ok ?c n P E" using I(8) by (simp add: posts_ok_def with_index_cong)
  ultimately show ?thesis using I(3,5,12) assms(2) by (simp add: col_inv_def)
qed

lemma col_inv_no_index:
  assumes "col_inv c n Lc Li P E" and "Li' \<subseteq> {..<n}" and "cindex c = None \<or> present_in c Li' = present_in c Li"
  shows "col_inv c n Lc Li' P E"
  using assms by (auto simp: col_inv_def index_ok_def)

lemma index_in:
  assumes inv: "col_inv c n Lc Li P E" and rid: "rid < n" "rid \<notin> Li"
  shows "returns (adjust_index True rid) c LengthError (\<lambda>c. col_inv c n Lc (insert rid Li) P E)"
proof -
  note I = col_invD [OF inv]
  have sub: "insert rid Li \<subseteq> {..<n}" using I(4) rid(1) by simp
  show ?thesis
  proof (cases "cindex c = None \<or> \<not> cpresent c ! rid")
    case True
    then have "col_inv c n Lc (insert rid Li) P E"
      by (intro col_inv_no_index [OF inv sub]) (auto simp: present_insert)
    moreover have "adjust_index True rid c = Some (None, c)" using True by (auto simp: adjust_index_def split: option.split)
    ultimately show ?thesis by (intro returnsI) auto
  next
    case False
    then obtain t where t: "cindex c = Some t" and p: "cpresent c ! rid" by auto
    have ok: "bt_ok t" and con: "mset (bt_contents t) = image_mset (\<lambda>rid. (sortable_key c rid, rid)) (mset_set (present_in c Li))"
      using I(7) t by (auto simp: index_ok_def)
    from bt.ins_ok [OF ok, of "sortable_key c rid" rid] obtain e t' where
      ins: "bt_insert t (sortable_key c rid) rid = Some (e, t')" "e = None \<longrightarrow> bt_ok t'" by blast
    have "mset (bt_contents t') = add_mset (sortable_key c rid, rid) (mset (bt_contents t))" by (rule bt.ins_mset [OF ok ins(1)])
    then have "mset (bt_contents t') = image_mset (\<lambda>rid. (sortable_key c rid, rid)) (mset_set (present_in c (insert rid Li)))"
      using con p rid(2) I(10) by (simp add: present_insert)
    then have "e = None \<longrightarrow> col_inv (c\<lparr>cindex := Some t'\<rparr>) n Lc (insert rid Li) P E"
      using ins(2) t by (intro impI col_inv_with_index [OF inv sub]) auto
    moreover have "e = None \<or> e = Some LengthError" using bt_insert_error [OF ok ins(1)] by blast
    moreover have "adjust_index True rid c = Some (e, c\<lparr>cindex := Some t'\<rparr>)"
      using ins(1) t p by (simp add: adjust_index_def Let_def)
    ultimately show ?thesis by (intro returnsI) auto
  qed
qed

lemma index_out:
  assumes inv: "col_inv c n Lc Li P E" and rid: "rid \<in> Li"
  shows "returns (adjust_index False rid) c LengthError (\<lambda>c. col_inv c n Lc (Li - {rid}) P E)"
proof -
  note I = col_invD [OF inv]
  have sub: "Li - {rid} \<subseteq> {..<n}" using I(4) by auto
  show ?thesis
  proof (cases "cindex c = None \<or> \<not> cpresent c ! rid")
    case True
    then have "col_inv c n Lc (Li - {rid}) P E"
      by (intro col_inv_no_index [OF inv sub]) (auto simp: present_in_def)
    moreover have "adjust_index False rid c = Some (None, c)" using True by (auto simp: adjust_index_def split: option.split)
    ultimately show ?thesis by (intro returnsI) auto
  next
    case False
    then obtain t where t: "cindex c = Some t" and p: "cpresent c ! rid" by auto
    have ok: "bt_ok t" and con: "mset (bt_contents t) = image_mset (\<lambda>rid. (sortable_key c rid, rid)) (mset_set (present_in c Li))"
      using I(7) t by (auto simp: index_ok_def)
    from bt.del_ok [OF ok, of "sortable_key c rid" rid] obtain b t' where
      del: "bt_remove t (sortable_key c rid) rid = Some (b, t')" "bt_ok t'" by blast
    have "mset (bt_contents t') = mset (bt_contents t) - {#(sortable_key c rid, rid)#}" by (rule bt.del_mset [OF ok del(1)])
    moreover have "present_in c Li = insert rid (present_in c (Li - {rid}))"
      using p rid by (auto simp: present_in_def)
    then have "mset_set (present_in c Li) = add_mset rid (mset_set (present_in c (Li - {rid})))"
      using I(10) by simp
    ultimately have "mset (bt_contents t') = image_mset (\<lambda>rid. (sortable_key c rid, rid)) (mset_set (present_in c (Li - {rid})))"
      using con by simp
    then have "col_inv (c\<lparr>cindex := Some t'\<rparr>) n Lc (Li - {rid}) P E"
      using del(2) t by (intro col_inv_with_index [OF inv sub]) auto
    moreover have "adjust_index False rid c = Some (None, c\<lparr>cindex := Some t'\<rparr>)"
      using del(1) t p by (simp add: adjust_index_def Let_def)
    ultimately show ?thesis by (intro returnsI) auto
  qed
qed

section \<open>Postings\<close>

lemma add_posting_postings: "cpostings (add_posting rid c) = foldl (post rid) (cpostings c) (row_codes c rid)"
  by (simp add: add_posting_def row_codes_def)

lemma add_posting_frame [simp]:
  "ctype (add_posting rid c) = ctype c" "cdata (add_posting rid c) = cdata c"
  "cpresent (add_posting rid c) = cpresent c" "cdict (add_posting rid c) = cdict c"
  "ccodes (add_posting rid c) = ccodes c" "ctext_terms (add_posting rid c) = ctext_terms c"
  "cdoc_len (add_posting rid c) = cdoc_len c" "craw_text (add_posting rid c) = craw_text c"
  "ccount (add_posting rid c) = ccount c" "cindex (add_posting rid c) = cindex c"
  "clive_docs (add_posting rid c) = clive_docs c" "ctotal_len (add_posting rid c) = ctotal_len c"
  by (simp_all add: add_posting_def)

lemma add_posting_cong [simp]:
  "row_codes (add_posting rid c) = row_codes c" "present_in (add_posting rid c) = present_in c"
  "holders (add_posting rid c) = holders c" "sortable_key (add_posting rid c) = sortable_key c"
  by (auto simp: row_codes_def present_in_def holders_def sortable_key_def fun_eq_iff)

lemma length_post [simp]: "length (post rid ps k) = length ps"
  by (simp add: post_def)

lemma length_foldl_post [simp]: "length (foldl (post rid) ps ks) = length ps"
  by (induction ks arbitrary: ps) simp_all

lemma set_post_nth: "i < length ps \<Longrightarrow> set (post rid ps k ! i) = (if i = unat k then insert rid (set (ps ! i)) else set (ps ! i))"
  by (auto simp: post_def nth_list_update)

lemma set_foldl_post_nth:
  "i < length ps \<Longrightarrow> set (foldl (post rid) ps ks ! i) = (if i \<in> unat ` set ks then insert rid (set (ps ! i)) else set (ps ! i))"
  by (induction ks arbitrary: ps) (auto simp: set_post_nth)

lemma unat_image: "unat k \<in> unat ` S \<longleftrightarrow> k \<in> S"
  by (metis imageE imageI word_unat_eq_iff)

lemma post_in:
  assumes inv: "col_inv c n Lc Li P E" and rid: "rid < n"
  shows "col_inv (add_posting rid c) n Lc Li (insert rid P) E"
proof -
  note I = col_invD [OF inv]
  let ?c = "add_posting rid c"
  have ids: "\<forall>i < length (cpostings c). set (cpostings ?c ! i) =
      (if i \<in> unat ` set (row_codes c rid) then insert rid (set (cpostings c ! i)) else set (cpostings c ! i))"
    by (simp add: add_posting_postings set_foldl_post_nth)
  have range: "unat k < length (cpostings c)" if "r \<in> insert rid P" "k \<in> set (row_codes c r)" for r k
    using that I(1,2,5) rid by (auto simp: rows_ok_def dict_ok_def)
  have "posts_ok ?c n (insert rid P) E"
    unfolding posts_ok_def add_posting_cong
  proof (intro conjI ballI allI)
    fix r k assume rk: "r \<in> insert rid P" "k \<in> set (row_codes c r)"
    show "r \<in> set (cpostings ?c ! unat k)"
    proof (cases "r = rid")
      case True
      then show ?thesis using ids range [OF rk] rk(2) by simp
    next
      case False
      then have "r \<in> set (cpostings c ! unat k)" using rk I(8) by (auto simp: posts_ok_def)
      then show ?thesis using ids range [OF rk] by auto
    qed
  next
    fix ps r assume ps: "ps \<in> set (cpostings ?c)" and r: "r \<in> set ps"
    then obtain i where i: "i < length (cpostings c)" "ps = cpostings ?c ! i"
      by (auto simp: in_set_conv_nth add_posting_postings)
    then have "r \<in> insert rid (set (cpostings c ! i))" using ids r by (auto split: if_splits)
    then show "r < n" using rid I(8) i(1) by (auto simp: posts_ok_def)
  next
    fix r assume r: "r \<in> E"
    fix k show "unat k < length (cpostings ?c) \<longrightarrow> r \<in> set (cpostings ?c ! unat k) \<longrightarrow> k \<in> set (row_codes c r)"
    proof (intro impI)
      assume k: "unat k < length (cpostings ?c)" "r \<in> set (cpostings ?c ! unat k)"
      then have l: "unat k < length (cpostings c)" by (simp add: add_posting_postings)
      have "r = rid \<and> k \<in> set (row_codes c rid) \<or> r \<in> set (cpostings c ! unat k)"
        using k(2) ids [rule_format, OF l] by (auto simp: unat_image split: if_splits)
      then show "k \<in> set (row_codes c r)" using I(8) r l by (auto simp: posts_ok_def)
    qed
  qed
  moreover have "dict_ok ?c" using I(1) by (simp add: dict_ok_def add_posting_postings)
  moreover have "rows_ok ?c n" "counts_ok ?c Lc" "index_ok ?c Li"
    using I(2,6,7) by (simp_all add: rows_ok_def counts_ok_def index_ok_def text_row_ok_def cell_ok_def)
  ultimately show ?thesis using I(3-5,12) rid by (simp add: col_inv_def)
qed

end
