(* ===== verification/Column_Rows.thy ===== *)
theory Column_Rows
  imports Column_Inv
begin

text \<open>
  Writing rows of a column: interning keeps the dictionary a bijection between codes and
  strings and leaves every other row alone; appending, copying and overwriting a row keep the
  invariant of \<open>Column_Inv\<close> and store the value that reading gives back.
\<close>

section \<open>Interning\<close>

text \<open>The column after interning: the dictionary, the counts and the postings may have grown.\<close>

definition same_rows :: "column \<Rightarrow> column \<Rightarrow> bool" where
  "same_rows c c' \<longleftrightarrow> ctype c' = ctype c \<and> cdata c' = cdata c \<and> cpresent c' = cpresent c \<and>
     ctext_terms c' = ctext_terms c \<and> cdoc_len c' = cdoc_len c \<and> clive_docs c' = clive_docs c \<and>
     ctotal_len c' = ctotal_len c \<and> craw_text c' = craw_text c \<and> cindex c' = cindex c"

definition dict_grown :: "column \<Rightarrow> column \<Rightarrow> bool" where
  "dict_grown c c' \<longleftrightarrow> (\<exists>ds. cdict c' = cdict c @ ds \<and> ccount c' = ccount c @ replicate (length ds) 0 \<and>
     cpostings c' = cpostings c @ replicate (length ds) [])"

definition grown :: "column \<Rightarrow> column \<Rightarrow> bool" where
  "grown c c' \<longleftrightarrow> dict_ok c' \<and> same_rows c c' \<and> dict_grown c c'"

lemma grownD:
  assumes "grown c c'"
  shows "dict_ok c'" "ctype c' = ctype c" "cdata c' = cdata c" "cpresent c' = cpresent c" "ctext_terms c' = ctext_terms c"
    "cdoc_len c' = cdoc_len c" "clive_docs c' = clive_docs c" "ctotal_len c' = ctotal_len c" "craw_text c' = craw_text c"
    "cindex c' = cindex c"
  using assms by (simp_all add: grown_def same_rows_def)

lemma grown_refl: "dict_ok c \<Longrightarrow> grown c c"
  by (simp add: grown_def same_rows_def dict_grown_def)

lemma dict_grown_trans:
  assumes "dict_grown a b" and "dict_grown b c"
  shows "dict_grown a c"
proof -
  from assms(1) obtain ds where a: "cdict b = cdict a @ ds" "ccount b = ccount a @ replicate (length ds) 0"
    "cpostings b = cpostings a @ replicate (length ds) []" unfolding dict_grown_def by (elim exE conjE) rule
  from assms(2) obtain es where b: "cdict c = cdict b @ es" "ccount c = ccount b @ replicate (length es) 0"
    "cpostings c = cpostings b @ replicate (length es) []" unfolding dict_grown_def by (elim exE conjE) rule
  show ?thesis
    using a b unfolding dict_grown_def by (intro exI [of _ "ds @ es"]) (simp add: replicate_add)
qed

lemma grown_trans: "grown a b \<Longrightarrow> grown b c \<Longrightarrow> grown a c"
  using dict_grown_trans [of a b c] by (simp add: grown_def same_rows_def)

lemma unat_dict: "n < 2 ^ 32 \<Longrightarrow> unat (of_nat n :: u32) = n"
  using take_bit_nat_eq_self [of n 32] by (simp add: unsigned_of_nat)

lemma intern_grown:
  assumes ok: "dict_ok c" and t: "ctype c = Tag \<or> ctype c = Text" and room: "length (cdict c) < 2 ^ 32"
    and i: "intern c s = (k, c')"
  shows "grown c c'" and "unat k < length (cdict c')" and "cdict c' ! unat k = s"
    and "length (cdict c') \<le> Suc (length (cdict c))"
proof -
  have "grown c c' \<and> unat k < length (cdict c') \<and> cdict c' ! unat k = s \<and> length (cdict c') \<le> Suc (length (cdict c))"
  proof (cases "ccodes c s")
    case (Some x)
    then show ?thesis using ok i by (auto simp: intern_def dict_ok_def intro: grown_refl)
  next
    case None
    let ?n = "length (cdict c)"
    have n: "unat (of_nat ?n :: u32) = ?n" using room by (rule unat_dict)
    have "(k, c') = (of_nat ?n, c\<lparr>cdict := cdict c @ [s], ccodes := (ccodes c)(s \<mapsto> of_nat ?n), ccount := ccount c @ [0],
        cpostings := cpostings c @ [[]]\<rparr>)"
      unfolding i [symmetric] using None by (simp add: intern_def Let_def)
    then have k: "k = of_nat ?n" and c': "c' = c\<lparr>cdict := cdict c @ [s], ccodes := (ccodes c)(s \<mapsto> of_nat ?n),
        ccount := ccount c @ [0], cpostings := cpostings c @ [[]]\<rparr>" by (rule prod.inject [THEN iffD1, THEN conjunct1], rule prod.inject [THEN iffD1, THEN conjunct2])
    have new: "s \<notin> set (cdict c)"
    proof
      assume "s \<in> set (cdict c)"
      then obtain j where j: "j < ?n" "cdict c ! j = s" by (auto simp: in_set_conv_nth)
      then have "unat (of_nat j :: u32) = j" using room by (intro unat_dict) simp
      then have "ccodes c s = Some (of_nat j)" using ok j by (simp add: dict_ok_def)
      then show False using None by simp
    qed
    have codes: "(ccodes c' u = Some x) = (unat x < length (cdict c') \<and> cdict c' ! unat x = u)" for u x
    proof (cases "unat x = ?n")
      case True
      then have "x = of_nat ?n" using n by (metis word_unat_eq_iff)
      then show ?thesis using ok n new None by (auto simp: c' dict_ok_def)
    next
      case False
      then have "x \<noteq> of_nat ?n" using n by auto
      then show ?thesis using ok False new None by (auto simp: c' dict_ok_def nth_append)
    qed
    have "dict_ok c'"
      using ok t room codes new unfolding dict_ok_def c' by (elim disjE) simp_all
    then have "grown c c'" by (simp add: grown_def dict_grown_def same_rows_def c' exI [of _ "[s]"])
    then show ?thesis using n by (simp add: c' k)
  qed
  then show "grown c c'" "unat k < length (cdict c')" "cdict c' ! unat k = s" "length (cdict c') \<le> Suc (length (cdict c))"
    by simp_all
qed

lemma grown_dict_nth: "grown c c' \<Longrightarrow> i < length (cdict c) \<Longrightarrow> cdict c' ! i = cdict c ! i"
  by (auto simp: grown_def dict_grown_def nth_append)

lemma grown_length: "grown c c' \<Longrightarrow> length (cdict c) \<le> length (cdict c')"
  by (auto simp: grown_def dict_grown_def)

lemma intern_tokens:
  assumes "dict_ok c" "ctype c = Text" "length (cdict c) + length toks \<le> 2 ^ 32"
    and "distinct ks" "\<forall>k \<in> set ks. unat k < length (cdict c)"
    and "foldl intern_token (ks, c) toks = (codes, c')"
  shows "grown c c' \<and> distinct codes \<and> (\<forall>k \<in> set codes. unat k < length (cdict c')) \<and>
    (\<lambda>k. cdict c' ! unat k) ` set codes = (\<lambda>k. cdict c ! unat k) ` set ks \<union> set toks"
  using assms
proof (induction toks arbitrary: ks c)
  case Nil
  then show ?case by (auto intro: grown_refl)
next
  case (Cons tok toks)
  obtain k d where i: "intern c tok = (k, d)" by fastforce
  have room: "length (cdict c) < 2 ^ 32" using Cons.prems(3) by simp
  note G = intern_grown [OF Cons.prems(1) disjI2 [OF Cons.prems(2)] room i]
  let ?ks = "if k \<in> set ks then ks else ks @ [k]"
  have tk: "intern_token (ks, c) tok = (?ks, d)" using i by (simp add: intern_token_def)
  have step: "foldl intern_token (?ks, d) toks = (codes, c')"
    using Cons.prems(6) tk by simp
  have ks: "\<forall>x \<in> set ks. unat x < length (cdict d) \<and> cdict d ! unat x = cdict c ! unat x"
    using Cons.prems(5) grown_dict_nth [OF G(1)] grown_length [OF G(1)] by fastforce
  have "grown d c' \<and> distinct codes \<and> (\<forall>k \<in> set codes. unat k < length (cdict c')) \<and>
    (\<lambda>k. cdict c' ! unat k) ` set codes = (\<lambda>k. cdict d ! unat k) ` set ?ks \<union> set toks"
  proof (rule Cons.IH [OF grownD(1) [OF G(1)] _ _ _ _ step])
    show "ctype d = Text" using grownD(2) [OF G(1)] Cons.prems(2) by simp
    show "length (cdict d) + length toks \<le> 2 ^ 32" using G(4) Cons.prems(3) by simp
    show "distinct ?ks" using Cons.prems(4) by simp
    show "\<forall>x \<in> set ?ks. unat x < length (cdict d)" using ks G(2) by simp
  qed
  moreover have "(\<lambda>k. cdict d ! unat k) ` set ?ks = (\<lambda>k. cdict c ! unat k) ` set ks \<union> {tok}"
    using ks G(3) by (auto simp: image_iff)
  ultimately show ?case using grown_trans [OF G(1)] by auto
qed

lemma intern_terms_grown:
  assumes "dict_ok c" "ctype c = Text" "length (cdict c) + length (tokenize_text s) \<le> 2 ^ 32"
    and "intern_terms c s = (codes, dlen, c')"
  shows "grown c c'" "distinct codes" "\<forall>k \<in> set codes. unat k < length (cdict c')"
    "(\<lambda>k. cdict c' ! unat k) ` set codes = set (tokenize_text s)" "dlen = of_nat (length (tokenize_text s))"
proof -
  have f: "foldl intern_token ([], c) (tokenize_text s) = (codes, c')" and d: "dlen = of_nat (length (tokenize_text s))"
    using assms(4) by (auto simp: intern_terms_def Let_def split: prod.splits)
  show "dlen = of_nat (length (tokenize_text s))" by (rule d)
  show "grown c c'" "distinct codes" "\<forall>k \<in> set codes. unat k < length (cdict c')"
    "(\<lambda>k. cdict c' ! unat k) ` set codes = set (tokenize_text s)"
    using intern_tokens [OF assms(1,2,3) _ _ f] by simp_all
qed

section \<open>Changing one row\<close>

definition same_row :: "column \<Rightarrow> column \<Rightarrow> internal_id \<Rightarrow> bool" where
  "same_row c c' r \<longleftrightarrow> cdata c' ! r = cdata c ! r \<and> cpresent c' ! r = cpresent c ! r \<and> row_codes c' r = row_codes c r \<and>
     sortable_key c' r = sortable_key c r \<and>
     (ctype c = Text \<longrightarrow> ctext_terms c' ! r = ctext_terms c ! r \<and> cdoc_len c' ! r = cdoc_len c ! r \<and> craw_text c' ! r = craw_text c ! r)"

text \<open>A column whose dictionary has grown and of whose rows one is new or rewritten.\<close>

definition row_changed :: "column \<Rightarrow> column \<Rightarrow> nat \<Rightarrow> nat \<Rightarrow> internal_id \<Rightarrow> bool" where
  "row_changed c c' n n' rid \<longleftrightarrow> n \<le> n' \<and> ctype c' = ctype c \<and> dict_ok c' \<and> cindex c' = cindex c \<and>
     clive_docs c' = clive_docs c \<and> ctotal_len c' = ctotal_len c \<and>
     dict_grown c c' \<and> length (cdata c') = n' \<and> length (cpresent c') = n' \<and>
     (ctype c = Text \<longrightarrow> length (ctext_terms c') = n' \<and> length (cdoc_len c') = n' \<and> length (craw_text c') = n' \<and>
        text_row_ok c' rid) \<and>
     (\<forall>r < n'. r = rid \<or> r < n \<and> same_row c c' r) \<and>
     cell_ok c' rid \<and> distinct (row_codes c' rid) \<and> (\<forall>k \<in> set (row_codes c' rid). unat k < length (ccount c'))"

lemma row_changedD:
  assumes "row_changed c c' n n' rid"
  shows "n \<le> n'" "ctype c' = ctype c" "dict_ok c'" "cindex c' = cindex c" "clive_docs c' = clive_docs c"
    "ctotal_len c' = ctotal_len c" "dict_grown c c'" "length (cdata c') = n'" "length (cpresent c') = n'"
    "ctype c = Text \<Longrightarrow> length (ctext_terms c') = n'" "ctype c = Text \<Longrightarrow> length (cdoc_len c') = n'"
    "ctype c = Text \<Longrightarrow> length (craw_text c') = n'" "ctype c = Text \<Longrightarrow> text_row_ok c' rid"
    "r < n' \<Longrightarrow> r \<noteq> rid \<Longrightarrow> r < n" "r < n' \<Longrightarrow> r \<noteq> rid \<Longrightarrow> same_row c c' r"
    "distinct (row_codes c' rid)" "\<forall>k \<in> set (row_codes c' rid). unat k < length (ccount c')" "cell_ok c' rid"
  using assms unfolding row_changed_def by blast+

lemma same_rowD:
  assumes "same_row c c' r"
  shows "cpresent c' ! r = cpresent c ! r" "row_codes c' r = row_codes c r" "sortable_key c' r = sortable_key c r"
    "ctype c = Text \<Longrightarrow> ctext_terms c' ! r = ctext_terms c ! r" "ctype c = Text \<Longrightarrow> cdoc_len c' ! r = cdoc_len c ! r"
    "ctype c = Text \<Longrightarrow> craw_text c' ! r = craw_text c ! r" "cdata c' ! r = cdata c ! r"
  using assms by (simp_all add: same_row_def)

lemma dict_grownE:
  assumes "dict_grown c c'"
  obtains ds where "cdict c' = cdict c @ ds" "ccount c' = ccount c @ replicate (length ds) 0"
    "cpostings c' = cpostings c @ replicate (length ds) []"
  using assms unfolding dict_grown_def by (elim exE conjE)

lemma row_changed_rows:
  assumes "rows_ok c n" "dict_ok c" "row_changed c c' n n' rid"
  shows "rows_ok c' n'"
proof -
  note D = row_changedD [OF assms(3)]
  obtain ds where ds: "cdict c' = cdict c @ ds" "ccount c' = ccount c @ replicate (length ds) 0"
    by (rule dict_grownE [OF D(7)])
  have "cell_ok c' r \<and> distinct (row_codes c' r) \<and> (\<forall>k \<in> set (row_codes c' r). unat k < length (ccount c'))" if r: "r < n'" for r
  proof (cases "r = rid")
    case True
    then show ?thesis using D(16-18) by simp
  next
    case False
    then have "cell_ok c r \<and> distinct (row_codes c r) \<and> (\<forall>k \<in> set (row_codes c r). unat k < length (ccount c))"
      using assms(1) D(14) [OF r False] by (simp add: rows_ok_def)
    then show ?thesis using same_rowD(1,2,7) [OF D(15) [OF r False]] D(2) ds(2) by (auto simp: cell_ok_def)
  qed
  moreover have "text_row_ok c' r" if r: "r < n'" and t: "ctype c = Text" for r
  proof (cases "r = rid")
    case False
    note s = D(14,15) [OF r False]
    have old: "text_row_ok c r" using assms(1) s(1) t by (simp add: rows_ok_def)
    have "cdict c' ! unat k = cdict c ! unat k" if "k \<in> set (ctext_terms c ! r)" "cpresent c ! r" for k
    proof -
      have "unat k < length (ccount c)" using that s(1) assms(1) t by (simp add: rows_ok_def row_codes_def)
      then have "unat k < length (cdict c)" using assms(2) t by (simp add: dict_ok_def)
      then show ?thesis by (simp add: ds(1) nth_append)
    qed
    then have "cpresent c ! r \<Longrightarrow> (\<lambda>k. cdict c' ! unat k) ` set (ctext_terms c ! r) = (\<lambda>k. cdict c ! unat k) ` set (ctext_terms c ! r)"
      by (rule image_cong [OF refl])
    then show ?thesis using old same_rowD [OF s(2)] t by (simp add: text_row_ok_def)
  qed (use D(13) t in simp)
  ultimately show ?thesis using D(2,8-12) by (simp add: rows_ok_def)
qed

lemma row_changed_inv:
  assumes inv: "col_inv c n Lc Li P E" and ch: "row_changed c c' n n' rid" and out: "rid \<notin> Lc" "rid \<notin> Li"
  shows "col_inv c' n' Lc Li (P - {rid}) (E - {rid})"
proof -
  note I = col_invD [OF inv]
  note D = row_changedD [OF ch]
  obtain ds where "cdict c' = cdict c @ ds" and ds: "ccount c' = ccount c @ replicate (length ds) 0"
    "cpostings c' = cpostings c @ replicate (length ds) []" by (rule dict_grownE [OF D(7)])
  have same: "same_row c c' r" if "r < n" "r \<noteq> rid" for r using that D(1,15) by simp
  have sameL: "same_row c c' r" if "L \<subseteq> {..<n}" "rid \<notin> L" "r \<in> L" for L r using same [of r] that by blast
  have pres: "present_in c' L = present_in c L" if "L \<subseteq> {..<n}" "rid \<notin> L" for L
    using same_rowD(1) [OF sameL [OF that]] by (auto simp: present_in_def)
  have hold: "holders c' L k = holders c L k" if "L \<subseteq> {..<n}" "rid \<notin> L" for L k
    using same_rowD(2) [OF sameL [OF that]] by (auto simp: holders_def)
  have "ccount c' ! unat k = of_nat (card (holders c' Lc k))" if k: "unat k < length (ccount c')" for k
  proof (cases "unat k < length (ccount c)")
    case True
    then show ?thesis using I(3,6) hold [OF I(3) out(1)] ds(1) by (simp add: counts_ok_def nth_append)
  next
    case False
    then have "holders c Lc k = {}" using I(2,3) by (auto simp: holders_def rows_ok_def)
    moreover have "ccount c' ! unat k = 0" using False k ds(1) by (auto simp: nth_append)
    ultimately show ?thesis using hold [OF I(3) out(1)] by simp
  qed
  moreover have "(\<Sum>r \<in> present_in c' Lc. ucast (cdoc_len c' ! r)) = (\<Sum>r \<in> present_in c Lc. ucast (cdoc_len c ! r) :: u64)"
    if "ctype c = Text"
  proof (rule sum.cong [OF pres [OF I(3) out(1)]])
    fix r assume "r \<in> present_in c Lc"
    then have "r \<in> Lc" by (simp add: present_in_def)
    then have "same_row c c' r" using same I(3) out(1) by auto
    then show "(ucast (cdoc_len c' ! r) :: u64) = ucast (cdoc_len c ! r)" using that by (simp add: same_row_def)
  qed
  ultimately have "counts_ok c' Lc"
    using I(6) D(2,5,6) pres [OF I(3) out(1)] by (simp add: counts_ok_def)
  moreover have "index_ok c' Li"
  proof -
    have "image_mset (\<lambda>r. (sortable_key c' r, r)) (mset_set (present_in c Li)) =
        image_mset (\<lambda>r. (sortable_key c r, r)) (mset_set (present_in c Li))"
    proof (rule image_mset_cong)
      fix r assume "r \<in># mset_set (present_in c Li)"
      then have "r \<in> Li" using I(10) by (simp add: present_in_def)
      then show "(sortable_key c' r, r) = (sortable_key c r, r)" using same I(4) out(2) by (auto simp: same_row_def)
    qed
    then show ?thesis using I(7) D(4) pres [OF I(4) out(2)] by (simp add: index_ok_def)
  qed
  moreover have "posts_ok c' n' (P - {rid}) (E - {rid})"
    unfolding posts_ok_def
  proof (intro conjI ballI allI)
    fix r k assume r: "r \<in> P - {rid}" "k \<in> set (row_codes c' r)"
    then have s: "same_row c c' r" "r < n" using same I(5) by auto
    then have "k \<in> set (row_codes c r)" using r by (simp add: same_row_def)
    moreover have "unat k < length (cpostings c)" using calculation s(2) I(1,2) by (auto simp: rows_ok_def dict_ok_def)
    ultimately show "r \<in> set (cpostings c' ! unat k)" using r I(8) by (simp add: posts_ok_def ds(2) nth_append)
  next
    fix ps r assume "ps \<in> set (cpostings c')" "r \<in> set ps"
    then have "r < n" using I(8) by (auto simp: posts_ok_def ds(2))
    then show "r < n'" using D(1) by simp
  next
    fix r assume r: "r \<in> E - {rid}"
    fix k show "unat k < length (cpostings c') \<longrightarrow> r \<in> set (cpostings c' ! unat k) \<longrightarrow> k \<in> set (row_codes c' r)"
    proof (intro impI)
      assume k: "unat k < length (cpostings c')" "r \<in> set (cpostings c' ! unat k)"
      then have l: "unat k < length (cpostings c)" by (auto simp: ds(2) nth_append split: if_splits)
      then have "k \<in> set (row_codes c r)" using k(2) r I(8) by (simp add: posts_ok_def ds(2) nth_append)
      then show "k \<in> set (row_codes c' r)" using same_rowD(2) [OF same [of r]] r I(12) by auto
    qed
  qed
  moreover have "rows_ok c' n'" using row_changed_rows [OF I(2,1) ch] .
  ultimately show ?thesis using I(3-5,12) D(1,3) by (auto simp: col_inv_def)
qed

section \<open>Writing a value\<close>

text \<open>
  A value that fits a column: of the column's type, with room in the dictionary for its terms.
  A Boolean is a code of the two-entry count and postings, so its raw bits are 0 or 1.
\<close>

definition value_fits :: "column \<Rightarrow> attr_value option \<Rightarrow> bool" where
  "value_fits c ov \<longleftrightarrow> (case ov of None \<Rightarrow> True
   | Some v \<Rightarrow> vtype v = ctype c \<and> (ctype c = Bool \<longrightarrow> raw v = 0 \<or> raw v = 1) \<and>
       (ctype c = Tag \<longrightarrow> length (cdict c) < 2 ^ 32) \<and>
       (ctype c = Text \<longrightarrow> length (cdict c) + length (tokenize_text (vtext v)) \<le> 2 ^ 32))"

text \<open>What reading a row back gives: the value as its constructor made it, a tag with its code.\<close>

definition reads_as :: "attr_value option \<Rightarrow> attr_value \<Rightarrow> bool" where
  "reads_as ov w \<longleftrightarrow> (case ov of None \<Rightarrow> w = attr_null
   | Some v \<Rightarrow> vtype w = vtype v \<and> (if vtype v = Tag \<or> vtype v = Text then vtext w = vtext v else raw w = raw v \<and> vtext w = []))"

lemma same_row_other:
  assumes "ctype c' = ctype c" "cpresent c' ! r = cpresent c ! r" "cdata c' ! r = cdata c ! r"
    "ctype c = Text \<Longrightarrow> ctext_terms c' ! r = ctext_terms c ! r \<and> cdoc_len c' ! r = cdoc_len c ! r \<and> craw_text c' ! r = craw_text c ! r"
  shows "same_row c c' r"
  using assms by (simp add: same_row_def row_codes_def sortable_key_def)

text \<open>
  The three ways a row is written, over one notion of writing: \<open>f\<close> puts the cell into each
  of the arrays.
\<close>

definition put_cell :: "(nat \<Rightarrow> nat) \<Rightarrow> column \<Rightarrow> column \<Rightarrow> nat \<Rightarrow> nat \<Rightarrow> bool" where
  "put_cell g c c' n rid \<longleftrightarrow> length (cdata c') = g n \<and> length (cpresent c') = g n \<and>
     (\<forall>r < g n. r \<noteq> rid \<longrightarrow> r < n \<and> cdata c' ! r = cdata c ! r \<and> cpresent c' ! r = cpresent c ! r) \<and>
     (ctype c = Text \<longrightarrow> length (ctext_terms c') = g n \<and> length (cdoc_len c') = g n \<and> length (craw_text c') = g n \<and>
       (\<forall>r < g n. r \<noteq> rid \<longrightarrow> ctext_terms c' ! r = ctext_terms c ! r \<and> cdoc_len c' ! r = cdoc_len c ! r \<and>
          craw_text c' ! r = craw_text c ! r))"

lemma row_changedI:
  assumes "put_cell g c c' n rid" "n \<le> g n" "ctype c' = ctype c" "dict_ok c'" "cindex c' = cindex c" "clive_docs c' = clive_docs c"
    "ctotal_len c' = ctotal_len c" "dict_grown c c'" "ctype c = Text \<Longrightarrow> text_row_ok c' rid"
    "cell_ok c' rid" "distinct (row_codes c' rid)" "\<forall>k \<in> set (row_codes c' rid). unat k < length (ccount c')"
  shows "row_changed c c' n (g n) rid"
proof -
  have "\<forall>r < g n. r = rid \<or> r < n \<and> same_row c c' r"
    using assms(1,3) by (auto simp: put_cell_def intro!: same_row_other)
  then show ?thesis using assms by (simp add: row_changed_def put_cell_def)
qed

definition same_dict :: "column \<Rightarrow> column \<Rightarrow> bool" where
  "same_dict d c' \<longleftrightarrow> ctype c' = ctype d \<and> cdict c' = cdict d \<and> ccodes c' = ccodes d \<and> ccount c' = ccount d \<and>
     cpostings c' = cpostings d \<and> clive_docs c' = clive_docs d \<and> ctotal_len c' = ctotal_len d \<and> cindex c' = cindex d"

lemma row_changed_grown:
  assumes g: "grown c d" and s: "same_dict d c'" and p: "put_cell g c c' n rid" "n \<le> g n"
    and row: "cpresent c' ! rid \<Longrightarrow> cell_ok c' rid \<and> distinct (row_codes c' rid) \<and> (\<forall>k \<in> set (row_codes c' rid). unat k < length (ccount c')) \<and>
      (ctype c = Text \<longrightarrow> text_row_ok c' rid)"
  shows "row_changed c c' n (g n) rid"
proof (rule row_changedI [OF p])
  show "dict_ok c'" using grownD(1) [OF g] s by (simp add: same_dict_def dict_ok_def)
  show "dict_grown c c'" using g s by (simp add: grown_def same_dict_def dict_grown_def)
  show "text_row_ok c' rid" if "ctype c = Text" using row that by (cases "cpresent c' ! rid") (simp_all add: text_row_ok_def)
  show "cell_ok c' rid" using row by (cases "cpresent c' ! rid") (simp_all add: cell_ok_def)
  show "distinct (row_codes c' rid)" "\<forall>k \<in> set (row_codes c' rid). unat k < length (ccount c')"
    using row by (cases "cpresent c' ! rid"; simp add: row_codes_def)+
qed (use s grownD [OF g] in \<open>simp_all add: same_dict_def\<close>)

lemma code_in_range:
  fixes k :: u32
  shows "ucast (ucast k :: u64) = k" and "unat (ucast k :: u64) = unat k"
proof -
  show "ucast (ucast k :: u64) = k" by (rule bit_eqI) (auto simp: bit_ucast_iff dest: bit_imp_le_length)
  have "unat k < 2 ^ 32" using unsigned_less [of k] by simp
  then have "unat k < 2 ^ 64" by (rule less_le_trans) simp
  then show "unat (ucast k :: u64) = unat k" by (simp add: unsigned_ucast_eq take_bit_nat_eq_self)
qed

lemma dict_ok_cells [simp]:
  "dict_ok (c\<lparr>cdata := x\<rparr>) = dict_ok c" "dict_ok (c\<lparr>craw_text := y\<rparr>) = dict_ok c"
  by (simp_all add: dict_ok_def)

lemma append_value_changed:
  assumes ok: "dict_ok c" "rows_ok c n" and fits: "value_fits c ov"
  shows "row_changed c (append_value ov c) n (Suc n) n"
    and "reads_as ov (get_value (append_value ov c) n)"
proof -
  note L = ok(2) [unfolded rows_ok_def]
  have "row_changed c (append_value ov c) n (Suc n) n \<and> reads_as ov (get_value (append_value ov c) n)"
  proof (cases ov)
    case None
    have "row_changed c (append_value ov c) n (Suc n) n"
      by (rule row_changed_grown [OF grown_refl [OF ok(1)]])
        (use None L in \<open>auto simp: same_dict_def put_cell_def append_value_def Let_def nth_append\<close>)
    then show ?thesis using None L by (auto simp: reads_as_def get_value_def append_value_def Let_def nth_append)
  next
    case (Some v)
    then have v: "vtype v = ctype c" using fits by (simp add: value_fits_def)
    consider (terms) "ctype c = Text" | (tag) "ctype c = Tag" | (raw) "ctype c \<noteq> Text" "ctype c \<noteq> Tag" by blast
    then show ?thesis
    proof cases
      case terms
      obtain ks dl d where i: "intern_terms (c\<lparr>cdata := cdata c @ [0], craw_text := craw_text c @ [vtext v]\<rparr>) (vtext v) = (ks, dl, d)"
        (is "intern_terms ?c _ = _") by (metis prod_cases3)
      have ok': "dict_ok ?c" using ok(1) by simp
      have room: "length (cdict ?c) + length (tokenize_text (vtext v)) \<le> 2 ^ 32"
        using fits Some terms by (simp add: value_fits_def)
      note G = intern_terms_grown [OF ok' _ room i]
      have t': "ctype ?c = Text" using terms by simp
      note F = grownD [OF G(1) [OF t']]
      define c' where "c' = append_value ov c"
      have app: "c' = d\<lparr>ctext_terms := ctext_terms d @ [ks], cdoc_len := cdoc_len d @ [dl], cpresent := cpresent d @ [True]\<rparr>"
        using Some terms i by (simp add: c'_def append_value_def Let_def)
      have g: "grown c (d\<lparr>cdata := cdata c, craw_text := craw_text c\<rparr>)"
        using G(1) [OF t'] by (simp add: grown_def same_rows_def dict_grown_def)
      have cnt: "length (ccount d) = length (cdict d)" using F(1,2) terms by (simp add: dict_ok_def)
      have codes: "row_codes c' n = ks" using L F terms by (simp add: app row_codes_def nth_append)
      have "row_changed c c' n (Suc n) n"
      proof (rule row_changed_grown [OF g])
        show "same_dict (d\<lparr>cdata := cdata c, craw_text := craw_text c\<rparr>) c'" by (simp add: app same_dict_def)
        show "put_cell Suc c c' n n" using L F terms by (auto simp: app put_cell_def nth_append)
        show "cell_ok c' n \<and> distinct (row_codes c' n) \<and> (\<forall>k \<in> set (row_codes c' n). unat k < length (ccount c')) \<and>
            (ctype c = Text \<longrightarrow> text_row_ok c' n)"
          using G(2-5) [OF t'] codes cnt L F terms by (auto simp: app cell_ok_def text_row_ok_def nth_append)
      qed simp
      moreover have "reads_as ov (get_value c' n)" using L F terms Some v
        by (simp add: app reads_as_def get_value_def nth_append attr_text_def)
      ultimately show ?thesis by (simp add: c'_def)
    next
      case tag
      obtain k d where i: "intern c (vtext v) = (k, d)" by fastforce
      have room: "length (cdict c) < 2 ^ 32" using fits Some tag by (simp add: value_fits_def)
      note G = intern_grown [OF ok(1) disjI1 [OF tag] room i]
      note F = grownD [OF G(1)]
      have app: "append_value ov c = d\<lparr>cdata := cdata d @ [ucast k], cpresent := cpresent d @ [True]\<rparr>"
        using Some v tag i by (simp add: append_value_def Let_def)
      have cnt: "length (ccount d) = length (cdict d)" using F(1,2) tag by (simp add: dict_ok_def)
      have "row_changed c (append_value ov c) n (Suc n) n"
        by (rule row_changed_grown [OF G(1)])
          (use app L F G(2) cnt tag in \<open>auto simp: same_dict_def put_cell_def cell_ok_def row_codes_def nth_append code_in_range\<close>)
      then show ?thesis using app L F G(3) tag Some v
        by (simp add: reads_as_def get_value_def nth_append attr_tag_def code_in_range)
    next
      case raw
      have app: "append_value ov c = c\<lparr>cdata := cdata c @ [raw v], cpresent := cpresent c @ [True]\<rparr>"
        using Some v raw by (simp add: append_value_def Let_def)
      have cnt: "ctype c = Bool \<Longrightarrow> length (ccount c) = 2" using ok(1) by (simp add: dict_ok_def)
      have b: "ctype c = Bool \<Longrightarrow> raw v = 0 \<or> raw v = 1" using fits Some by (simp add: value_fits_def)
      have "row_changed c (append_value ov c) n (Suc n) n"
        by (rule row_changed_grown [OF grown_refl [OF ok(1)]])
          (use app L cnt b raw in \<open>auto simp: same_dict_def put_cell_def cell_ok_def row_codes_def nth_append\<close>)
      then show ?thesis using app L raw Some v
        by (simp add: reads_as_def get_value_def nth_append)
    qed
  qed
  then show "row_changed c (append_value ov c) n (Suc n) n" "reads_as ov (get_value (append_value ov c) n)"
    by simp_all
qed

lemma write_value_changed:
  assumes ok: "dict_ok c" "rows_ok c n" and fits: "value_fits c ov" and rid: "rid < n"
  shows "row_changed c (write_value rid ov c) n n rid"
    and "reads_as ov (get_value (write_value rid ov c) rid)"
proof -
  note L = ok(2) [unfolded rows_ok_def] rid
  define g where "g = (\<lambda>m::nat. m)"
  have [simp]: "g m = m" for m by (simp add: g_def)
  have "row_changed c (write_value rid ov c) n (g n) rid \<and> reads_as ov (get_value (write_value rid ov c) rid)"
  proof (cases ov)
    case None
    have "row_changed c (write_value rid ov c) n (g n) rid"
      by (rule row_changed_grown [OF grown_refl [OF ok(1)]])
        (use None L in \<open>auto simp: same_dict_def put_cell_def write_value_def Let_def\<close>)
    then show ?thesis using None L by (auto simp: reads_as_def get_value_def write_value_def Let_def)
  next
    case (Some v)
    then have v: "vtype v = ctype c" using fits by (simp add: value_fits_def)
    consider (terms) "ctype c = Text" | (tag) "ctype c = Tag" | (raw) "ctype c \<noteq> Text" "ctype c \<noteq> Tag" by blast
    then show ?thesis
    proof cases
      case terms
      obtain ks dl d where i: "intern_terms (c\<lparr>craw_text := (craw_text c)[rid := vtext v]\<rparr>) (vtext v) = (ks, dl, d)"
        (is "intern_terms ?c _ = _") by (metis prod_cases3)
      have ok': "dict_ok ?c" using ok(1) by simp
      have room: "length (cdict ?c) + length (tokenize_text (vtext v)) \<le> 2 ^ 32"
        using fits Some terms by (simp add: value_fits_def)
      note G = intern_terms_grown [OF ok' _ room i]
      have t': "ctype ?c = Text" using terms by simp
      note F = grownD [OF G(1) [OF t']]
      define c' where "c' = write_value rid ov c"
      have app: "c' = d\<lparr>ctext_terms := (ctext_terms d)[rid := ks], cdoc_len := (cdoc_len d)[rid := dl], cpresent := (cpresent d)[rid := True]\<rparr>"
        using Some terms i by (simp add: c'_def write_value_def Let_def)
      have g: "grown c (d\<lparr>craw_text := craw_text c\<rparr>)"
        using G(1) [OF t'] by (simp add: grown_def same_rows_def dict_grown_def)
      have cnt: "length (ccount d) = length (cdict d)" using F(1,2) terms by (simp add: dict_ok_def)
      have codes: "row_codes c' rid = ks" using L F terms by (simp add: app row_codes_def)
      have "row_changed c c' n (g n) rid"
      proof (rule row_changed_grown [OF g])
        show "same_dict (d\<lparr>craw_text := craw_text c\<rparr>) c'" by (simp add: app same_dict_def)
        show "put_cell g c c' n rid" using L F terms by (auto simp: app put_cell_def)
        show "cell_ok c' rid \<and> distinct (row_codes c' rid) \<and> (\<forall>k \<in> set (row_codes c' rid). unat k < length (ccount c')) \<and>
            (ctype c = Text \<longrightarrow> text_row_ok c' rid)"
          using G(2-5) [OF t'] codes cnt L F terms by (auto simp: app cell_ok_def text_row_ok_def)
      qed simp
      moreover have "reads_as ov (get_value c' rid)" using L F terms Some v
        by (simp add: app reads_as_def get_value_def attr_text_def)
      ultimately show ?thesis by (simp add: c'_def)
    next
      case tag
      obtain k d where i: "intern c (vtext v) = (k, d)" by fastforce
      have room: "length (cdict c) < 2 ^ 32" using fits Some tag by (simp add: value_fits_def)
      note G = intern_grown [OF ok(1) disjI1 [OF tag] room i]
      note F = grownD [OF G(1)]
      have app: "write_value rid ov c = d\<lparr>cdata := (cdata d)[rid := ucast k], cpresent := (cpresent d)[rid := True]\<rparr>"
        using Some v tag i by (simp add: write_value_def Let_def)
      have cnt: "length (ccount d) = length (cdict d)" using F(1,2) tag by (simp add: dict_ok_def)
      have "row_changed c (write_value rid ov c) n (g n) rid"
        by (rule row_changed_grown [OF G(1)])
          (use app L F G(2) cnt tag in \<open>auto simp: same_dict_def put_cell_def cell_ok_def row_codes_def code_in_range\<close>)
      then show ?thesis using app L F G(3) tag Some v
        by (simp add: reads_as_def get_value_def attr_tag_def code_in_range)
    next
      case raw
      have app: "write_value rid ov c = c\<lparr>cdata := (cdata c)[rid := raw v], cpresent := (cpresent c)[rid := True]\<rparr>"
        using Some v raw by (simp add: write_value_def Let_def)
      have cnt: "ctype c = Bool \<Longrightarrow> length (ccount c) = 2" using ok(1) by (simp add: dict_ok_def)
      have b: "ctype c = Bool \<Longrightarrow> raw v = 0 \<or> raw v = 1" using fits Some by (simp add: value_fits_def)
      have "row_changed c (write_value rid ov c) n (g n) rid"
        by (rule row_changed_grown [OF grown_refl [OF ok(1)]])
          (use app L cnt b raw in \<open>auto simp: same_dict_def put_cell_def cell_ok_def row_codes_def\<close>)
      then show ?thesis using app L raw Some v
        by (simp add: reads_as_def get_value_def)
    qed
  qed
  then show "row_changed c (write_value rid ov c) n n rid" "reads_as ov (get_value (write_value rid ov c) rid)"
    by simp_all
qed

end
