(* ===== verification/Column_Ops.thy ===== *)
theory Column_Ops
  imports Column_Rows
begin

text \<open>
  The operations of the store on one column keep its invariant: writing, copying and
  overwriting a row, marking it live or dead, compaction, clearing and the rebuild of the
  derived state.
\<close>

section \<open>What reading sees\<close>

text \<open>The declared type, and whether there is an ordered index.\<close>

definition same_kind :: "column \<Rightarrow> column \<Rightarrow> bool" where
  "same_kind c c' \<longleftrightarrow> ctype c' = ctype c \<and> (cindex c' = None \<longleftrightarrow> cindex c = None)"

definition same_cells :: "column \<Rightarrow> column \<Rightarrow> bool" where
  "same_cells c c' \<longleftrightarrow> same_kind c c' \<and> cdata c' = cdata c \<and> cpresent c' = cpresent c \<and> cdict c' = cdict c \<and>
     ctext_terms c' = ctext_terms c \<and> cdoc_len c' = cdoc_len c \<and> craw_text c' = craw_text c"

lemma same_cells_type: "same_cells c c' \<Longrightarrow> ctype c' = ctype c"
  by (simp add: same_cells_def same_kind_def)

lemma same_kind_trans: "same_kind a b \<Longrightarrow> same_kind b c \<Longrightarrow> same_kind a c"
  by (simp add: same_kind_def)

lemma row_changed_kind: "row_changed c c' n n' rid \<Longrightarrow> same_kind c c'"
  by (simp add: same_kind_def row_changedD)

lemma same_cells_refl [simp]: "same_cells c c"
  by (simp add: same_cells_def same_kind_def)

lemma same_cells_trans: "same_cells a b \<Longrightarrow> same_cells b c \<Longrightarrow> same_cells a c"
  by (simp add: same_cells_def same_kind_def)

lemma same_cells_get: "same_cells c c' \<Longrightarrow> get_value c' = get_value c"
  by (rule ext) (simp add: same_cells_def same_kind_def get_value_def)

lemma same_cells_fits: "same_cells c c' \<Longrightarrow> value_fits c' = value_fits c"
  by (rule ext) (simp add: same_cells_def same_kind_def value_fits_def split: option.split)

lemma same_cells_count [simp]: "same_cells c (adjust_count inc rid c)"
  by (simp add: same_cells_def same_kind_def)

lemma same_cells_post [simp]: "same_cells c (add_posting rid c)"
  by (simp add: same_cells_def same_kind_def)

lemma same_cells_index: "adjust_index inc rid c = Some (e, c') \<Longrightarrow> same_cells c c'"
  by (auto simp: adjust_index_def same_cells_def same_kind_def Let_def split: option.splits if_splits prod.splits)

lemma row_changed_get:
  assumes "dict_ok c" "rows_ok c n" "row_changed c c' n n' rid" "r < n" "r \<noteq> rid"
  shows "get_value c' r = get_value c r"
proof -
  note D = row_changedD [OF assms(3)]
  have r: "r < n'" using D(1) assms(4) by simp
  note s = same_rowD [OF D(15) [OF r assms(5)]]
  obtain ds where ds: "cdict c' = cdict c @ ds" by (rule dict_grownE [OF D(7)])
  have "unat (cdata c ! r) < length (cdict c)" if "ctype c = Tag" "cpresent c ! r"
  proof -
    have "cell_ok c r" "unat (ucast (cdata c ! r) :: u32) < length (ccount c)"
      using assms(2,4) that by (simp_all add: rows_ok_def row_codes_def)
    then show ?thesis using assms(1) that code_in_range(2) [of "ucast (cdata c ! r)"] by (simp add: cell_ok_def dict_ok_def)
  qed
  then show ?thesis using s(1,6,7) D(2) by (simp add: get_value_def ds nth_append)
qed

section \<open>Appending\<close>

lemma posts_new:
  assumes "posts_ok c n P E" "n \<le> r"
  shows "posts_ok c n P (insert r E)"
proof -
  have "r \<notin> set (cpostings c ! i)" if "i < length (cpostings c)" for i
    using assms that by (fastforce simp: posts_ok_def)
  then show ?thesis using assms(1) by (simp add: posts_ok_def)
qed

lemma appended:
  assumes inv: "col_inv c n L L P E" and ch: "row_changed c c' n (Suc n) n"
  shows "col_inv c' (Suc n) L L P (insert n E)"
proof -
  note I = col_invD [OF inv]
  have out: "n \<notin> L" "P - {n} = P" "E - {n} = E" using I(3,5,12) by auto
  have inv': "col_inv c' (Suc n) L L P E"
    using row_changed_inv [OF inv ch out(1) out(1)] out(2,3) by simp
  have "posts_ok c' n P E"
  proof -
    obtain ds where "cdict c' = cdict c @ ds" "ccount c' = ccount c @ replicate (length ds) 0"
      and p: "cpostings c' = cpostings c @ replicate (length ds) []" by (rule dict_grownE [OF row_changedD(7) [OF ch]])
    have "\<forall>ps \<in> set (cpostings c'). \<forall>rid \<in> set ps. rid < n" using I(8) by (auto simp: p posts_ok_def)
    then show ?thesis using col_invD(8) [OF inv'] by (simp add: posts_ok_def)
  qed
  then have "posts_ok c' n P (insert n E)" by (rule posts_new) simp
  then have "posts_ok c' (Suc n) P (insert n E)" by (auto simp: posts_ok_def less_SucI)
  then show ?thesis using inv' by (simp add: col_inv_def)
qed

text \<open>One column of \<open>append_row\<close>: the row is written, then posted.\<close>

lemma append_value_inv:
  assumes inv: "col_inv c n L L P E" and fits: "value_fits c ov"
  shows "col_inv (append_value ov c) (Suc n) L L P (insert n E)"
    and "reads_as ov (get_value (append_value ov c) n)"
    and "\<And>r. r < n \<Longrightarrow> get_value (append_value ov c) r = get_value c r"
    and "same_kind c (append_value ov c)"
proof -
  note I = col_invD [OF inv]
  note A = append_value_changed [OF I(1,2) fits]
  show "col_inv (append_value ov c) (Suc n) L L P (insert n E)" by (rule appended [OF inv A(1)])
  show "reads_as ov (get_value (append_value ov c) n)" by (rule A(2))
  show "get_value (append_value ov c) r = get_value c r" if "r < n" for r
    using row_changed_get [OF I(1,2) A(1) that] that by simp
  show "same_kind c (append_value ov c)" by (rule row_changed_kind [OF A(1)])
qed

lemma append_copy_changed:
  assumes ok: "dict_ok c" "rows_ok c n" and src: "src < n"
  shows "row_changed c (append_copy src c) n (Suc n) n"
proof -
  note L = ok(2) [unfolded rows_ok_def] src
  define c' where "c' = append_copy src c"
  have codes: "row_codes c' n = row_codes c src"
    using L by (auto simp: c'_def append_copy_def Let_def row_codes_def nth_append)
  have "row_changed c c' n (Suc n) n"
  proof (rule row_changed_grown [OF grown_refl [OF ok(1)]])
    show "same_dict c c'" by (simp add: c'_def append_copy_def same_dict_def Let_def)
    show "put_cell Suc c c' n n" using L by (auto simp: c'_def append_copy_def Let_def put_cell_def nth_append)
    have "ccount c' = ccount c" by (simp add: c'_def append_copy_def Let_def)
    moreover have "cell_ok c' n" using L by (auto simp: c'_def append_copy_def Let_def cell_ok_def nth_append)
    moreover have "ctype c = Text \<longrightarrow> text_row_ok c' n"
      using L by (auto simp: c'_def append_copy_def Let_def text_row_ok_def nth_append)
    ultimately show "cell_ok c' n \<and> distinct (row_codes c' n) \<and> (\<forall>k \<in> set (row_codes c' n). unat k < length (ccount c')) \<and>
        (ctype c = Text \<longrightarrow> text_row_ok c' n)"
      unfolding codes using L by simp
  qed simp
  then show ?thesis by (simp add: c'_def)
qed

lemma append_copy_inv:
  assumes inv: "col_inv c n L L P E" and src: "src < n"
  shows "col_inv (append_copy src c) (Suc n) L L P (insert n E)"
    and "get_value (append_copy src c) n = get_value c src"
    and "\<And>r. r < n \<Longrightarrow> get_value (append_copy src c) r = get_value c r"
    and "same_kind c (append_copy src c)"
proof -
  note I = col_invD [OF inv]
  note A = append_copy_changed [OF I(1,2) src]
  show "col_inv (append_copy src c) (Suc n) L L P (insert n E)" by (rule appended [OF inv A])
  show "get_value (append_copy src c) n = get_value c src"
    using I(2) src by (auto simp: append_copy_def Let_def get_value_def rows_ok_def nth_append)
  show "get_value (append_copy src c) r = get_value c r" if "r < n" for r
    using row_changed_get [OF I(1,2) A that] that by simp
  show "same_kind c (append_copy src c)" by (rule row_changed_kind [OF A])
qed

section \<open>Overwriting\<close>

lemma set_value_inv:
  assumes inv: "col_inv c n L L P E" and rid: "rid \<in> L" and fits: "value_fits c ov"
  shows "returns (set_value rid ov) c LengthError (\<lambda>c'. col_inv c' n L L (insert rid P) (E - {rid}) \<and> same_kind c c' \<and>
     reads_as ov (get_value c' rid) \<and> (\<forall>r < n. r \<noteq> rid \<longrightarrow> get_value c' r = get_value c r))"
proof -
  let ?new = "\<lambda>c'. same_kind c c' \<and> reads_as ov (get_value c' rid) \<and> (\<forall>r < n. r \<noteq> rid \<longrightarrow> get_value c' r = get_value c r)"
  have n: "rid < n" using col_invD(3) [OF inv] rid by auto
  have ins: "insert rid (L - {rid}) = L" "insert rid (P - {rid}) = insert rid P" using rid by auto
  have keep: "?new d'" if "?new d" "same_cells d d'" for d d'
    using that same_cells_get [OF that(2)] same_kind_trans [of c d d'] by (simp add: same_cells_def)
  show ?thesis unfolding set_value_def
  proof (rule returns_then, unfold returns_upd)
    show "col_inv (adjust_count False rid c) n (L - {rid}) L P E \<and> same_cells c (adjust_count False rid c)"
      using count_out [OF inv rid] by simp
    fix c1 assume c1: "col_inv c1 n (L - {rid}) L P E \<and> same_cells c c1"
    show "returns (and_then (adjust_index False rid) (and_then (upd (write_value rid ov)) (and_then (upd (adjust_count True rid))
        (and_then (adjust_index True rid) (upd (add_posting rid)))))) c1 LengthError
        (\<lambda>c'. col_inv c' n L L (insert rid P) (E - {rid}) \<and> ?new c')"
    proof (rule returns_then [OF returns_and [OF index_out [OF conjunct1 [OF c1] rid]]])
      show "adjust_index False rid c1 = Some (e, c2) \<Longrightarrow> same_cells c c2" for e c2
        using same_cells_trans [OF conjunct2 [OF c1] same_cells_index] by blast
      fix c2 assume c2: "col_inv c2 n (L - {rid}) (L - {rid}) P E \<and> same_cells c c2"
      note I = col_invD [OF conjunct1 [OF c2]]
      have f2: "value_fits c2 ov" using fits same_cells_fits [OF conjunct2 [OF c2]] by simp
      note W = write_value_changed [OF I(1,2) f2 n]
      let ?c3 = "write_value rid ov c2"
      have i3: "col_inv ?c3 n (L - {rid}) (L - {rid}) (P - {rid}) (E - {rid})"
        by (rule row_changed_inv [OF conjunct1 [OF c2] W(1)]) simp_all
      have new3: "?new ?c3"
        using W(2) row_changed_kind [OF W(1)] same_kind_trans [of c c2 ?c3] row_changed_get [OF I(1,2) W(1)] c2 same_cells_get [OF conjunct2 [OF c2]]
        by (simp add: same_cells_def)
      show "returns (and_then (upd (write_value rid ov)) (and_then (upd (adjust_count True rid))
          (and_then (adjust_index True rid) (upd (add_posting rid))))) c2 LengthError
          (\<lambda>c'. col_inv c' n L L (insert rid P) (E - {rid}) \<and> ?new c')"
      proof (rule returns_then, unfold returns_upd, rule refl, rule returns_then, unfold returns_upd)
        fix s assume "s = ?c3"
        then show "col_inv (adjust_count True rid s) n L (L - {rid}) (P - {rid}) (E - {rid}) \<and> ?new (adjust_count True rid s)"
          using count_in [OF i3 n] ins(1) keep [OF new3 same_cells_count] by simp
      next
        fix c4 assume c4: "col_inv c4 n L (L - {rid}) (P - {rid}) (E - {rid}) \<and> ?new c4"
        have out: "rid \<notin> L - {rid}" by simp
        show "returns (and_then (adjust_index True rid) (upd (add_posting rid))) c4 LengthError
            (\<lambda>c'. col_inv c' n L L (insert rid P) (E - {rid}) \<and> ?new c')"
        proof (rule returns_then [OF returns_and [OF index_in [OF conjunct1 [OF c4] n out]]])
          show "adjust_index True rid c4 = Some (e, c5) \<Longrightarrow> ?new c5" for e c5
            using keep [OF conjunct2 [OF c4] same_cells_index] by blast
          fix c5 assume c5: "col_inv c5 n L (insert rid (L - {rid})) (P - {rid}) (E - {rid}) \<and> ?new c5"
          have p: "col_inv (add_posting rid c5) n L L (insert rid P) (E - {rid})"
            using post_in [OF conjunct1 [OF c5] n] unfolding ins .
          show "returns (upd (add_posting rid)) c5 LengthError (\<lambda>c'. col_inv c' n L L (insert rid P) (E - {rid}) \<and> ?new c')"
            unfolding returns_upd using p keep [OF conjunct2 [OF c5] same_cells_post] by (rule conjI)
        qed
      qed
    qed
  qed
qed

section \<open>Publishing, deleting and deriving\<close>

lemma mark_live_column:
  assumes inv: "col_inv c n L L P E" and rid: "rid < n" "rid \<notin> L"
  shows "returns (and_then (upd (adjust_count True rid)) (adjust_index True rid)) c LengthError
    (\<lambda>c'. col_inv c' n (insert rid L) (insert rid L) P E \<and> same_cells c c')"
proof (rule returns_then, unfold returns_upd, rule refl)
  fix s assume s: "s = adjust_count True rid c"
  have "col_inv s n (insert rid L) L P E" unfolding s by (rule count_in [OF inv rid])
  note R = returns_and [OF index_in [OF this rid]]
  show "returns (adjust_index True rid) s LengthError (\<lambda>c'. col_inv c' n (insert rid L) (insert rid L) P E \<and> same_cells c c')"
    by (rule R) (rule same_cells_trans [OF _ same_cells_index], simp_all add: s)
qed

lemma mark_dead_column:
  assumes inv: "col_inv c n L L P E" and rid: "rid \<in> L"
  shows "returns (and_then (upd (adjust_count False rid)) (adjust_index False rid)) c LengthError
    (\<lambda>c'. col_inv c' n (L - {rid}) (L - {rid}) P E \<and> same_cells c c')"
proof (rule returns_then, unfold returns_upd, rule refl)
  fix s assume s: "s = adjust_count False rid c"
  have "col_inv s n (L - {rid}) L P E" unfolding s by (rule count_out [OF inv rid])
  note R = returns_and [OF index_out [OF this rid]]
  show "returns (adjust_index False rid) s LengthError (\<lambda>c'. col_inv c' n (L - {rid}) (L - {rid}) P E \<and> same_cells c c')"
    by (rule R) (rule same_cells_trans [OF _ same_cells_index], simp_all add: s)
qed

lemma derive_row_column:
  assumes inv: "col_inv c n L L P E" and rid: "rid < n" "rid \<notin> L"
  shows "returns (derive_row rid) c LengthError
    (\<lambda>c'. col_inv c' n (insert rid L) (insert rid L) (insert rid P) E \<and> same_cells c c')"
  unfolding derive_row_def
proof (rule returns_then, unfold returns_upd, rule refl)
  fix s assume s: "s = adjust_count True rid c"
  have i: "col_inv s n (insert rid L) L P E" unfolding s by (rule count_in [OF inv rid])
  show "returns (and_then (adjust_index True rid) (upd (add_posting rid))) s LengthError
    (\<lambda>c'. col_inv c' n (insert rid L) (insert rid L) (insert rid P) E \<and> same_cells c c')"
  proof (rule returns_then [OF returns_and [OF index_in [OF i rid]]])
    show "adjust_index True rid s = Some (e, c2) \<Longrightarrow> same_cells c c2" for e c2
      by (rule same_cells_trans [OF _ same_cells_index]) (simp_all add: s)
    fix c2 assume c2: "col_inv c2 n (insert rid L) (insert rid L) P E \<and> same_cells c c2"
    show "returns (upd (add_posting rid)) c2 LengthError
      (\<lambda>c'. col_inv c' n (insert rid L) (insert rid L) (insert rid P) E \<and> same_cells c c')"
      unfolding returns_upd using post_in [OF conjunct1 [OF c2] rid(1)] same_cells_trans [OF conjunct2 [OF c2] same_cells_post] by simp
  qed
qed

section \<open>Clearing\<close>

lemma fresh_index_ok: "bt_ok fresh_index" "bt_contents fresh_index = []"
  using make_btree_ok [of 128 "2 ^ 20"] fresh_index_made by auto

lemma clear_column_inv:
  assumes "dict_ok c"
  shows "col_inv (clear_column c) 0 {} {} {} {}" and "same_kind c (clear_column c)"
proof -
  show "same_kind c (clear_column c)" by (simp add: clear_column_def same_kind_def Let_def)
  show "col_inv (clear_column c) 0 {} {} {} {}"
    using assms fresh_index_ok
    by (auto simp: col_inv_def clear_column_def Let_def dict_ok_def rows_ok_def counts_ok_def index_ok_def posts_ok_def
        holders_def present_in_def text_row_ok_def)
qed

lemma reset_derived_inv:
  assumes "dict_ok c" "rows_ok c n"
  shows "col_inv (reset_derived c) n {} {} {} {..<n}" and "same_cells c (reset_derived c)"
proof -
  let ?c = "reset_derived c"
  show s: "same_cells c ?c" by (simp add: reset_derived_def Let_def same_cells_def same_kind_def)
  have [simp]: "row_codes ?c = row_codes c"
    by (rule row_codes_cong) (simp_all add: reset_derived_def Let_def)
  have len: "length (ccount ?c) = length (ccount c)" by (simp add: reset_derived_def Let_def)
  have "ccount ?c = map (\<lambda>_. 0) (ccount c)" "cpostings ?c = map (\<lambda>_. []) (cpostings c)"
    using assms(1) by (auto simp: reset_derived_def Let_def dict_ok_def)
  moreover have "cindex ?c = map_option (\<lambda>_. fresh_index) (cindex c)" by (simp add: reset_derived_def Let_def)
  moreover have "ccodes ?c = ccodes c" by (simp add: reset_derived_def Let_def)
  moreover have "ctype c = Text \<Longrightarrow> clive_docs ?c = 0 \<and> ctotal_len ?c = 0" by (simp add: reset_derived_def Let_def)
  ultimately show "col_inv ?c n {} {} {} {..<n}"
    using assms s fresh_index_ok
    by (auto simp: col_inv_def same_cells_def same_kind_def dict_ok_def rows_ok_def counts_ok_def index_ok_def posts_ok_def
        holders_def present_in_def text_row_ok_def cell_ok_def)
qed

lemma new_column_inv:
  assumes "attr_kind s \<noteq> Null" "indexed s \<longrightarrow> attr_kind s = Int64 \<or> attr_kind s = Float64"
  shows "col_inv (new_column s) 0 {} {} {} {}" "ctype (new_column s) = attr_kind s"
    "cindex (new_column s) = None \<longleftrightarrow> \<not> indexed s"
  using assms fresh_index_ok
  by (auto simp: col_inv_def new_column_def dict_ok_def rows_ok_def counts_ok_def index_ok_def posts_ok_def
      holders_def present_in_def nth_Cons' less_Suc_eq_0_disj numeral_2_eq_2)

end
