(* ===== verification/Column_Permute.thy ===== *)
theory Column_Permute
  imports Column_Ops
begin

text \<open>
  Compaction of one column: the rows move to the numbering of the list of live rows, the
  counts stay, the postings and the ordered index are built again for the new numbering.
\<close>

definition moved :: "internal_id list \<Rightarrow> column \<Rightarrow> column" where
  "moved live c =
     (let c = c\<lparr>cdata := map ((!) (cdata c)) live, cpresent := map ((!) (cpresent c)) live\<rparr>;
          c = (if ctype c = Text then c\<lparr>ctext_terms := map ((!) (ctext_terms c)) live,
              cdoc_len := map ((!) (cdoc_len c)) live, craw_text := map ((!) (craw_text c)) live\<rparr> else c)
      in c\<lparr>cpostings := map (\<lambda>_. []) (cpostings c)\<rparr>)"

abbreviation post_all :: "column \<Rightarrow> internal_id list \<Rightarrow> column" where
  "post_all \<equiv> foldl (\<lambda>c rid. add_posting rid c)"

lemma post_all_plain: "\<not> coded c \<Longrightarrow> post_all c rids = c"
proof (induction rids)
  case (Cons r rids)
  then have "add_posting r c = c" by (auto simp: coded_def add_posting_def)
  then show ?case using Cons by simp
qed simp

lemma post_all_index: "post_all (c\<lparr>cindex := x\<rparr>) rids = (post_all c rids)\<lparr>cindex := x\<rparr>"
proof (induction rids arbitrary: c)
  case (Cons r rids)
  have "add_posting r (c\<lparr>cindex := x\<rparr>) = (add_posting r c)\<lparr>cindex := x\<rparr>" by (simp add: add_posting_def)
  then show ?case using Cons by simp
qed simp

lemma post_all_cindex [simp]: "cindex (post_all c rids) = cindex c"
  by (induction rids arbitrary: c) simp_all

lemma post_all_same: "same_cells c (post_all c rids)"
  by (induction rids arbitrary: c) (auto intro: same_cells_trans [OF same_cells_post])

lemma moved_fields [simp]:
  "ctype (moved live c) = ctype c" "cdict (moved live c) = cdict c" "ccodes (moved live c) = ccodes c"
  "ccount (moved live c) = ccount c" "clive_docs (moved live c) = clive_docs c" "ctotal_len (moved live c) = ctotal_len c"
  "cindex (moved live c) = cindex c" "cdata (moved live c) = map ((!) (cdata c)) live"
  "cpresent (moved live c) = map ((!) (cpresent c)) live" "cpostings (moved live c) = map (\<lambda>_. []) (cpostings c)"
  "ctype c = Text \<Longrightarrow> ctext_terms (moved live c) = map ((!) (ctext_terms c)) live"
  "ctype c = Text \<Longrightarrow> cdoc_len (moved live c) = map ((!) (cdoc_len c)) live"
  "ctype c = Text \<Longrightarrow> craw_text (moved live c) = map ((!) (craw_text c)) live"
  by (simp_all add: moved_def Let_def)

lemma permute_rows_moved:
  assumes "dict_ok c"
  shows "permute_rows live c = post_all (moved live c) [0..<length live]"
proof (cases "coded c")
  case True
  then show ?thesis by (auto simp: permute_rows_def moved_def Let_def coded_def)
next
  case False
  have "cpostings c = []" using assms False by (auto simp: dict_ok_def coded_def)
  then have "permute_rows live c = moved live c"
    using False by (auto simp: permute_rows_def moved_def Let_def coded_def)
  then show ?thesis using post_all_plain [of "moved live c"] False by (simp add: coded_def)
qed

lemma moved_row:
  assumes "i < length live"
  shows "row_codes (moved live c) i = row_codes c (live ! i)" "sortable_key (moved live c) i = sortable_key c (live ! i)"
    "cell_ok (moved live c) i = cell_ok c (live ! i)" "ctype c = Text \<Longrightarrow> text_row_ok (moved live c) i = text_row_ok c (live ! i)"
    "get_value (moved live c) i = get_value c (live ! i)"
  using assms by (auto simp: row_codes_def sortable_key_def cell_ok_def text_row_ok_def get_value_def)

lemma moved_sets:
  assumes "distinct live"
  shows "bij_betw ((!) live) (holders (moved live c) {..<length live} k) (holders c (set live) k)"
    "bij_betw ((!) live) (present_in (moved live c) {..<length live}) (present_in c (set live))"
proof -
  have b: "bij_betw ((!) live) {..<length live} (set live)" using assms bij_betw_nth by blast
  have sub: "bij_betw ((!) live) {i \<in> {..<length live}. Q (live ! i)} {r \<in> set live. Q r}" for Q
    by (rule bij_betw_subset [OF b]) (auto simp: in_set_conv_nth)
  have "holders (moved live c) {..<length live} k = {i \<in> {..<length live}. k \<in> set (row_codes c (live ! i))}"
    by (auto simp: holders_def moved_row)
  then show "bij_betw ((!) live) (holders (moved live c) {..<length live} k) (holders c (set live) k)"
    using sub [of "\<lambda>r. k \<in> set (row_codes c r)"] by (simp add: holders_def)
  have "present_in (moved live c) {..<length live} = {i \<in> {..<length live}. cpresent c ! (live ! i)}"
    by (auto simp: present_in_def)
  then show "bij_betw ((!) live) (present_in (moved live c) {..<length live}) (present_in c (set live))"
    using sub [of "\<lambda>r. cpresent c ! r"] by (simp add: present_in_def)
qed

lemma moved_inv:
  assumes inv: "col_inv c n L L P E" and live: "distinct live" "set live = L"
    and ix: "d = moved live c\<lparr>cindex := map_option (\<lambda>_. fresh_index) (cindex c)\<rparr>"
  shows "col_inv d (length live) {..<length live} {} {} {..<length live}"
proof -
  note I = col_invD [OF inv]
  note B = moved_sets [OF live(1), of c, unfolded live(2)]
  let ?m = "moved live c"
  have src: "live ! i < n" if "i < length live" for i using that live(2) I(3) nth_mem by blast
  have "dict_ok d" using I(1) by (auto simp: ix dict_ok_def)
  moreover have "rows_ok d (length live)"
  proof -
    have "cell_ok d i = cell_ok c (live ! i) \<and> row_codes d i = row_codes c (live ! i)" if "i < length live" for i
      using moved_row [OF that, of c] by (simp add: ix with_index_cong cell_ok_def)
    moreover have text_d: "text_row_ok d i" if "i < length live" "ctype c = Text" for i
      using moved_row(4) [OF that] I(2) src [OF that(1)] that(2) by (simp add: ix text_row_ok_def rows_ok_def)
    moreover have "distinct (row_codes c (live ! i)) \<and> (\<forall>k \<in> set (row_codes c (live ! i)). unat k < length (ccount c))"
      if "i < length live" for i using I(2) src [OF that] by (simp add: rows_ok_def)
    ultimately have "\<forall>i < length live. cell_ok d i \<and> distinct (row_codes d i) \<and> (\<forall>k \<in> set (row_codes d i). unat k < length (ccount d))"
      using moved_row(3) I(2) src by (simp add: rows_ok_def ix)
    moreover have "\<forall>i < length live. ctype c = Text \<longrightarrow> text_row_ok d i" using text_d by blast
    ultimately show ?thesis by (simp add: rows_ok_def ix)
  qed
  moreover have "counts_ok d {..<length live}"
  proof -
    have "ccount d ! unat k = of_nat (card (holders d {..<length live} k))" if "unat k < length (ccount d)" for k
      using that I(6) bij_betw_same_card [OF B(1) [of k]] by (simp add: ix counts_ok_def with_index_cong)
    moreover have "(\<Sum>rid \<in> present_in d {..<length live}. ucast (cdoc_len d ! rid)) = (\<Sum>rid \<in> present_in c L. ucast (cdoc_len c ! rid) :: u64)"
      if "ctype c = Text"
    proof -
      have "(\<Sum>rid \<in> present_in d {..<length live}. ucast (cdoc_len d ! rid) :: u64) =
          (\<Sum>rid \<in> present_in ?m {..<length live}. ucast (cdoc_len c ! (live ! rid)))"
        using that by (intro sum.cong) (auto simp: ix with_index_cong present_in_def)
      also have "\<dots> = (\<Sum>rid \<in> present_in c L. ucast (cdoc_len c ! rid))"
        by (rule sum.reindex_bij_betw [OF B(2)])
      finally show ?thesis .
    qed
    ultimately show ?thesis using I(6) bij_betw_same_card [OF B(2)] by (simp add: ix counts_ok_def with_index_cong)
  qed
  moreover have "index_ok d {}" using fresh_index_ok by (auto simp: ix index_ok_def present_in_def)
  moreover have "posts_ok d (length live) {} {..<length live}" by (auto simp: ix posts_ok_def)
  ultimately show ?thesis by (simp add: col_inv_def)
qed

lemma post_all_inv:
  "col_inv c n Lc Li P E \<Longrightarrow> set rids \<subseteq> {..<n} \<Longrightarrow> col_inv (post_all c rids) n Lc Li (set rids \<union> P) E"
proof (induction rids arbitrary: c P)
  case (Cons r rids)
  then have "col_inv (add_posting r c) n Lc Li (insert r P) E" by (intro post_in) auto
  from Cons.IH [OF this] show ?case using Cons.prems(2) by simp
qed simp

lemma index_all_inv:
  assumes "col_inv c n L {} P E"
  shows "returns (for_each [0..<n] (adjust_index True)) c LengthError (\<lambda>c'. col_inv c' n L {..<n} P E \<and> same_cells c c')"
proof -
  have "returns (for_each [0..<n] (adjust_index True)) c LengthError
      (\<lambda>c'. (\<lambda>ids c'. col_inv c' n L (set ids) P E \<and> same_cells c c') [0..<n] c')"
  proof (rule returns_for_each)
    show "col_inv c n L (set []) P E \<and> same_cells c c" using assms by simp
    fix ids r rest s assume split: "[0..<n] = ids @ r # rest" and s: "col_inv s n L (set ids) P E \<and> same_cells c s"
    have "distinct (ids @ r # rest)" "r \<in> set [0..<n]" by (metis split distinct_upt) (simp only: split, simp)
    then have r: "r < n" "r \<notin> set ids" by auto
    show "returns (adjust_index True r) s LengthError (\<lambda>c'. col_inv c' n L (set (ids @ [r])) P E \<and> same_cells c c')"
      using returns_and [OF index_in [OF conjunct1 [OF s] r]] same_cells_trans [OF conjunct2 [OF s] same_cells_index]
      by simp
  qed
  moreover have "set [0..<n] = {..<n}" by auto
  ultimately show ?thesis by simp
qed

lemma permute_column_inv:
  assumes inv: "col_inv c n L L P E" and live: "distinct live" "set live = L"
  defines "m \<equiv> length live"
  shows "returns (permute_column live) c LengthError (\<lambda>c'. col_inv c' m {..<m} {..<m} {..<m} {..<m} \<and> same_kind c c' \<and>
    (\<forall>i < m. get_value c' i = get_value c (live ! i)))"
proof -
  note I = col_invD [OF inv]
  let ?x = "map_option (\<lambda>_. fresh_index) (cindex c)"
  let ?d = "(permute_rows live c)\<lparr>cindex := ?x\<rparr>"
  have d: "?d = post_all (moved live c\<lparr>cindex := ?x\<rparr>) [0..<m]"
    using permute_rows_moved [OF I(1)] by (simp add: post_all_index m_def)
  have pres: "length (cpresent (permute_rows live c)) = m"
    using post_all_same [of "moved live c" "[0..<m]"] permute_rows_moved [OF I(1), of live]
    by (simp add: same_cells_def same_kind_def m_def)
  have pix: "cindex (permute_rows live c) = cindex c"
    unfolding permute_rows_moved [OF I(1)] by (simp add: post_all_cindex)
  have inv_d: "col_inv ?d m {..<m} {} {..<m} {..<m}"
    using post_all_inv [OF moved_inv [OF inv live refl], of "[0..<m]"] unfolding d m_def by (simp add: lessThan_atLeast0)
  have same: "same_cells (moved live c\<lparr>cindex := ?x\<rparr>) ?d" unfolding d by (rule post_all_same)
  then have get: "get_value ?d i = get_value c (live ! i)" if "i < m" for i
    using same_cells_get [OF same] moved_row(5) [of i live c] that by (simp add: m_def get_value_def)
  have ty: "same_kind c ?d" using same by (simp add: same_cells_def same_kind_def)
  show ?thesis
  proof (cases "cindex c")
    case None
    have "(permute_rows live c)\<lparr>cindex := None\<rparr> = permute_rows live c"
      by (rule column.equality) (use None pix in simp_all)
    then have e: "permute_column live c = Some (None, ?d)"
      using None pix by (simp add: permute_column_def and_then_def upd_def)
    have "col_inv ?d m {..<m} {..<m} {..<m} {..<m}" by (rule col_inv_no_index [OF inv_d]) (simp_all add: None)
    then show ?thesis using e get ty by (simp add: returns_def)
  next
    case (Some t)
    then have e: "permute_column live c = for_each [0..<m] (adjust_index True) ?d"
      using pix pres by (simp add: permute_column_def and_then_def upd_def)
    have "returns (for_each [0..<m] (adjust_index True)) ?d LengthError (\<lambda>c'. col_inv c' m {..<m} {..<m} {..<m} {..<m} \<and>
        same_kind c c' \<and> (\<forall>i < m. get_value c' i = get_value c (live ! i)))"
    proof (rule returns_mono [OF index_all_inv [OF inv_d]])
      fix c' assume c': "col_inv c' m {..<m} {..<m} {..<m} {..<m} \<and> same_cells ?d c'"
      have "same_kind c c'" using conjunct2 [OF c'] same_kind_trans [OF ty] by (simp add: same_cells_def)
      then show "col_inv c' m {..<m} {..<m} {..<m} {..<m} \<and> same_kind c c' \<and> (\<forall>i < m. get_value c' i = get_value c (live ! i))"
        unfolding same_cells_get [OF conjunct2 [OF c']]
        by (intro conjI allI impI) (rule conjunct1 [OF c'], assumption, erule get)
    qed
    then show ?thesis using e by (simp add: returns_def)
  qed
qed

end
