(* ===== verification/Metadata.thy ===== *)
theory Metadata
  imports Column_Permute
begin

text \<open>
  The metadata store: \<open>class MetadataStore\<close> of \<open>include/metadata.h\<close> and
  \<open>src/metadata.cpp\<close>. One column per declared attribute and one payload per row, all
  indexed by the internal id. An operation is an action on the store: a \<open>length_error\<close> out
  of an ordered index leaves the columns before the failing one already changed.
\<close>

record mstore =
  mschema :: "attr_spec list"
  mcolumns :: "column list"
  mpayloads :: "bytes list"
  mrows :: nat
  mfingerprint :: u64

definition make_store :: "attr_spec list \<Rightarrow> mstore res" where
  "make_store schema = (case check_schema schema of
     Some e \<Rightarrow> Inl e
   | None \<Rightarrow> Inr \<lparr>mschema = schema, mcolumns = map new_column schema, mpayloads = [], mrows = 0,
       mfingerprint = compute_fingerprint schema\<rparr>)"

definition on_column :: "nat \<Rightarrow> column action \<Rightarrow> mstore action" where
  "on_column a f m = (case f (mcolumns m ! a) of
     None \<Rightarrow> None | Some (e, c) \<Rightarrow> Some (e, m\<lparr>mcolumns := (mcolumns m)[a := c]\<rparr>))"

text \<open>\<open>for (size_t a = 0; a < columns_.size(); ++a)\<close>\<close>

definition each_column :: "(nat \<Rightarrow> column action) \<Rightarrow> mstore action" where
  "each_column f m = for_each [0..<length (mcolumns m)] (\<lambda>a. on_column a (f a)) m"

section \<open>Rows\<close>

text \<open>The attribute of a record for a column, none if it is absent or null.\<close>

definition attr_at :: "meta_record \<Rightarrow> nat \<Rightarrow> attr_value option" where
  "attr_at rec a = (if attrs rec = [] \<or> vtype (attrs rec ! a) = Null then None else Some (attrs rec ! a))"

definition checked :: "meta_record \<Rightarrow> mstore action \<Rightarrow> mstore action" where
  "checked rec f m = (case validate (mschema m) rec of Some e \<Rightarrow> Some (Some e, m) | None \<Rightarrow> f m)"

definition append_row :: "meta_record \<Rightarrow> mstore action" where
  "append_row rec = checked rec (\<lambda>m. let rid = mrows m in
     and_then (each_column (\<lambda>a. upd (append_value (attr_at rec a))))
       (and_then (upd (\<lambda>m. m\<lparr>mpayloads := mpayloads m @ [payload rec], mrows := mrows m + 1\<rparr>))
         (each_column (\<lambda>a. upd (add_posting rid)))) m)"

definition append_row_copy :: "internal_id \<Rightarrow> mstore action" where
  "append_row_copy src = (\<lambda>m. let rid = mrows m in
     and_then (each_column (\<lambda>a. upd (append_copy src)))
       (and_then (upd (\<lambda>m. m\<lparr>mpayloads := mpayloads m @ [mpayloads m ! src], mrows := mrows m + 1\<rparr>))
         (each_column (\<lambda>a. upd (add_posting rid)))) m)"

definition set_row :: "internal_id \<Rightarrow> meta_record \<Rightarrow> mstore action" where
  "set_row rid rec = checked rec
     (and_then (each_column (\<lambda>a. set_value rid (attr_at rec a)))
       (upd (\<lambda>m. m\<lparr>mpayloads := (mpayloads m)[rid := payload rec]\<rparr>)))"

definition mark_live :: "internal_id \<Rightarrow> mstore action" where
  "mark_live rid = each_column (\<lambda>a. and_then (upd (adjust_count True rid)) (adjust_index True rid))"

definition mark_dead :: "internal_id \<Rightarrow> mstore action" where
  "mark_dead rid = each_column (\<lambda>a. and_then (upd (adjust_count False rid)) (adjust_index False rid))"

definition permute :: "internal_id list \<Rightarrow> mstore action" where
  "permute live =
     and_then (each_column (\<lambda>a. permute_column live))
       (upd (\<lambda>m. m\<lparr>mpayloads := map ((!) (mpayloads m)) live, mrows := length live\<rparr>))"

definition clear_rows :: "mstore \<Rightarrow> mstore" where
  "clear_rows m = m\<lparr>mcolumns := map clear_column (mcolumns m), mpayloads := [], mrows := 0\<rparr>"

definition rebuild_derived_state :: "bool list \<Rightarrow> mstore action" where
  "rebuild_derived_state deleted = (\<lambda>m.
     and_then (upd (\<lambda>m. m\<lparr>mcolumns := map reset_derived (mcolumns m)\<rparr>))
       (for_each [0..<mrows m] (\<lambda>rid. if deleted ! rid then (\<lambda>m. Some (None, m))
          else each_column (\<lambda>a. derive_row rid))) m)"

section \<open>Reading\<close>

definition read_attr :: "mstore \<Rightarrow> internal_id \<Rightarrow> nat \<Rightarrow> attr_value" where
  "read_attr m rid a = get_value (mcolumns m ! a) rid"

definition get_row :: "mstore \<Rightarrow> internal_id \<Rightarrow> meta_record" where
  "get_row m rid = \<lparr>attrs = map (\<lambda>a. read_attr m rid a) [0..<length (mcolumns m)], payload = mpayloads m ! rid\<rparr>"

definition tag_code :: "mstore \<Rightarrow> nat \<Rightarrow> bytes \<Rightarrow> u32 option" where
  "tag_code m a s = ccodes (mcolumns m ! a) s"

definition live_count :: "mstore \<Rightarrow> nat \<Rightarrow> u32 \<Rightarrow> u32" where
  "live_count m a code = code_count (mcolumns m ! a) code"

definition row_postings :: "mstore \<Rightarrow> nat \<Rightarrow> u32 \<Rightarrow> internal_id list" where
  "row_postings m a code = code_postings (mcolumns m ! a) code"

section \<open>Predicates\<close>

record resolved =
  rpredicate :: predicate
  allowlist :: "internal_id list option"

definition is_live :: "bool list \<Rightarrow> internal_id \<Rightarrow> bool" where
  "is_live deleted rid \<longleftrightarrow> rid < length deleted \<and> \<not> deleted ! rid"

text \<open>No value is a range scan of the index that does not return.\<close>

definition resolve :: "mstore \<Rightarrow> predicate \<Rightarrow> bool list \<Rightarrow> resolved res option" where
  "resolve m p deleted = (let c = mcolumns m ! pattr p; out = (\<lambda>ids. Some (Inr \<lparr>rpredicate = p, allowlist = ids\<rparr>)) in
     if pkind p = Eq then
       (if ctype c \<noteq> Tag \<and> ctype c \<noteq> Bool then Some (Inl InvalidArgument)
        else if vtype (eq_value p) \<noteq> ctype c then Some (Inl InvalidArgument)
        else (let hits = (\<lambda>code. out (Some (filter (is_live deleted) (row_postings m (pattr p) code)))) in
          if ctype c = Tag then
            (case tag_code m (pattr p) (vtext (eq_value p)) of None \<Rightarrow> out (Some []) | Some code \<Rightarrow> hits code)
          else hits (if raw (eq_value p) \<noteq> 0 then 1 else 0)))
     else
       (if ctype c \<noteq> Int64 \<and> ctype c \<noteq> Float64 then Some (Inl InvalidArgument)
        else if vtype (lo_value p) \<noteq> ctype c \<or> vtype (hi_value p) \<noteq> ctype c then Some (Inl InvalidArgument)
        else if cindex c = None then out None
        else (let key = (\<lambda>v. if ctype c = Int64 then sortable_bits_int (raw v) else sortable_bits_double (raw v)) in
          (case column_range c (key (lo_value p)) (key (hi_value p)) of None \<Rightarrow> None | Some ids \<Rightarrow> out (Some ids)))))"

end
