(* ===== verification/Metadata_Inv.thy ===== *)
theory Metadata_Inv
  imports Metadata
begin

text \<open>
  The invariant of the metadata store, and that every operation keeps it and changes the rows
  the way it says. A store is in use between an operation and the next one with one set \<open>L\<close>
  of live rows; \<open>P\<close> are the rows posted, \<open>E\<close> those not overwritten since the postings were
  built.
\<close>

section \<open>Loops over the columns\<close>

definition frame :: "mstore \<Rightarrow> mstore \<Rightarrow> bool" where
  "frame m m' \<longleftrightarrow> mschema m' = mschema m \<and> mpayloads m' = mpayloads m \<and> mrows m' = mrows m \<and>
     mfingerprint m' = mfingerprint m \<and> length (mcolumns m') = length (mcolumns m)"

lemma frame_refl [simp]: "frame m m"
  by (simp add: frame_def)

lemma frame_trans: "frame a b \<Longrightarrow> frame b c \<Longrightarrow> frame a c"
  by (simp add: frame_def)

lemma frameD:
  assumes "frame m m'"
  shows "mschema m' = mschema m" "mpayloads m' = mpayloads m" "mrows m' = mrows m" "mfingerprint m' = mfingerprint m"
    "length (mcolumns m') = length (mcolumns m)"
  using assms by (simp_all add: frame_def)

lemma on_column_returns:
  assumes "returns f (mcolumns m ! a) err Q" and "a < length (mcolumns m)"
  shows "returns (on_column a f) m err (\<lambda>m'. frame m m' \<and> Q (mcolumns m' ! a) \<and> (\<forall>x. x \<noteq> a \<longrightarrow> mcolumns m' ! x = mcolumns m ! x))"
proof -
  from assms(1) obtain e c where f: "f (mcolumns m ! a) = Some (e, c)" "if e = None then Q c else e = Some err"
    unfolding returns_def by blast
  then have "on_column a f m = Some (e, m\<lparr>mcolumns := (mcolumns m)[a := c]\<rparr>)" by (simp add: on_column_def)
  then show ?thesis using f(2) assms(2) by (simp add: returns_def frame_def)
qed

lemma each_column_returns:
  assumes step: "\<And>a. a < length (mcolumns m) \<Longrightarrow> returns (f a) (mcolumns m ! a) err (Q a)"
  shows "returns (each_column f) m err (\<lambda>m'. frame m m' \<and> (\<forall>a < length (mcolumns m). Q a (mcolumns m' ! a)))"
proof -
  let ?N = "length (mcolumns m)"
  let ?I = "\<lambda>as m'. frame m m' \<and>
     (\<forall>a < ?N. if a \<in> set as then Q a (mcolumns m' ! a) else mcolumns m' ! a = mcolumns m ! a)"
  have "returns (for_each [0..<?N] (\<lambda>a. on_column a (f a))) m err (?I [0..<?N])"
  proof (rule returns_for_each [where I = ?I])
    show "?I [] m" by simp
    fix as a rest s assume split: "[0..<?N] = as @ a # rest" and s: "?I as s"
    have "distinct (as @ a # rest)" "a \<in> set [0..<?N]" by (metis split distinct_upt) (simp only: split, simp)
    then have a: "a < ?N" "a \<notin> set as" by auto
    have len: "a < length (mcolumns s)" using s a(1) frameD(5) by auto
    have r: "returns (f a) (mcolumns s ! a) err (Q a)" using step [OF a(1)] s a by simp
    show "returns (on_column a (f a)) s err (?I (as @ [a]))"
    proof (rule returns_mono [OF on_column_returns [OF r len]])
      fix m' assume m': "frame s m' \<and> Q a (mcolumns m' ! a) \<and> (\<forall>x. x \<noteq> a \<longrightarrow> mcolumns m' ! x = mcolumns s ! x)"
      have "if x \<in> set (as @ [a]) then Q x (mcolumns m' ! x) else mcolumns m' ! x = mcolumns m ! x" if "x < ?N" for x
        using m' s that a by (cases "x = a") simp_all
      then show "?I (as @ [a]) m'" using frame_trans [of m s m'] m' s by blast
    qed
  qed
  then show ?thesis unfolding each_column_def by (simp add: returns_def)
qed

lemma each_column_upd:
  "returns (each_column (\<lambda>a. upd (g a))) m err (\<lambda>m'. frame m m' \<and> (\<forall>a < length (mcolumns m). mcolumns m' ! a = g a (mcolumns m ! a)))"
  by (rule each_column_returns) simp

section \<open>The invariant\<close>

definition store_ok :: "attr_spec list \<Rightarrow> mstore \<Rightarrow> internal_id set \<Rightarrow> internal_id set \<Rightarrow> internal_id set \<Rightarrow> bool" where
  "store_ok schema m L P E \<longleftrightarrow> mschema m = schema \<and> mfingerprint m = compute_fingerprint schema \<and>
     length (mcolumns m) = length schema \<and> length (mpayloads m) = mrows m \<and>
     L \<subseteq> {..<mrows m} \<and> P \<subseteq> {..<mrows m} \<and> E \<subseteq> {..<mrows m} \<and>
     (\<forall>a < length schema. col_inv (mcolumns m ! a) (mrows m) L L P E \<and>
        ctype (mcolumns m ! a) = attr_kind (schema ! a) \<and> (cindex (mcolumns m ! a) = None \<longleftrightarrow> \<not> indexed (schema ! a)))"

lemma store_okD:
  assumes "store_ok schema m L P E"
  shows "mschema m = schema" "mfingerprint m = compute_fingerprint schema" "length (mcolumns m) = length schema"
    "length (mpayloads m) = mrows m" "L \<subseteq> {..<mrows m}" "P \<subseteq> {..<mrows m}" "E \<subseteq> {..<mrows m}"
    "a < length schema \<Longrightarrow> col_inv (mcolumns m ! a) (mrows m) L L P E"
    "a < length schema \<Longrightarrow> ctype (mcolumns m ! a) = attr_kind (schema ! a)"
    "a < length schema \<Longrightarrow> cindex (mcolumns m ! a) = None \<longleftrightarrow> \<not> indexed (schema ! a)"
  using assms by (simp_all add: store_ok_def)

text \<open>From one store to the next: what the columns and the rest must do.\<close>

lemma store_okI:
  assumes "store_ok schema m L P E" "mschema m' = mschema m" "mfingerprint m' = mfingerprint m"
    "length (mcolumns m') = length (mcolumns m)" "length (mpayloads m') = mrows m'"
    "L' \<subseteq> {..<mrows m'}" "P' \<subseteq> {..<mrows m'}" "E' \<subseteq> {..<mrows m'}"
    "\<And>a. a < length schema \<Longrightarrow> col_inv (mcolumns m' ! a) (mrows m') L' L' P' E' \<and> same_kind (mcolumns m ! a) (mcolumns m' ! a)"
  shows "store_ok schema m' L' P' E'"
  using assms by (simp add: store_ok_def same_kind_def)

text \<open>A record that fits: validated, with room in the dictionaries and Boolean bits 0 or 1.\<close>

definition record_fits :: "mstore \<Rightarrow> meta_record \<Rightarrow> bool" where
  "record_fits m rec \<longleftrightarrow> validate (mschema m) rec = None \<and> (\<forall>a < length (mcolumns m). value_fits (mcolumns m ! a) (attr_at rec a))"

text \<open>What reading a row gives back after writing a record.\<close>

definition row_reads_as :: "mstore \<Rightarrow> internal_id \<Rightarrow> meta_record \<Rightarrow> bool" where
  "row_reads_as m rid rec \<longleftrightarrow> payload (get_row m rid) = payload rec \<and>
     (\<forall>a < length (mcolumns m). reads_as (attr_at rec a) (read_attr m rid a))"

lemma get_row_cong:
  assumes "length (mcolumns m') = length (mcolumns m)" "mpayloads m' ! r' = mpayloads m ! r"
    "\<And>a. a < length (mcolumns m) \<Longrightarrow> get_value (mcolumns m' ! a) r' = get_value (mcolumns m ! a) r"
  shows "get_row m' r' = get_row m r"
  using assms by (simp add: get_row_def read_attr_def)

section \<open>The operations\<close>

lemma returns_checked: "validate (mschema m) rec = None \<Longrightarrow> returns f m err Q \<Longrightarrow> returns (checked rec f) m err Q"
  by (simp add: returns_def checked_def)

lemma returns_app: "returns (f m) m err Q \<Longrightarrow> returns (\<lambda>m. f m m) m err Q"
  by (simp add: returns_def)

text \<open>The common end of both appends: the payload, the row count, the postings.\<close>

lemma append_tail:
  assumes ok: "store_ok schema m L P E" and fr: "frame m m1"
    and col: "\<And>a. a < length schema \<Longrightarrow> col_inv (mcolumns m1 ! a) (Suc (mrows m)) L L P (insert (mrows m) E) \<and>
      same_kind (mcolumns m ! a) (mcolumns m1 ! a) \<and> Q a (get_value (mcolumns m1 ! a) (mrows m)) \<and>
      (\<forall>r < mrows m. get_value (mcolumns m1 ! a) r = get_value (mcolumns m ! a) r)"
  shows "returns (and_then (upd (\<lambda>m. m\<lparr>mpayloads := mpayloads m @ [p], mrows := mrows m + 1\<rparr>)) (each_column (\<lambda>a. upd (add_posting (mrows m)))))
    m1 err (\<lambda>m'. store_ok schema m' L (insert (mrows m) P) (insert (mrows m) E) \<and> mrows m' = Suc (mrows m) \<and>
      mpayloads m' = mpayloads m @ [p] \<and> (\<forall>a < length schema. Q a (get_value (mcolumns m' ! a) (mrows m))) \<and>
      (\<forall>r < mrows m. get_row m' r = get_row m r))"
proof (rule returns_then, unfold returns_upd, rule refl)
  note O = store_okD [OF ok]
  let ?n = "mrows m"
  fix s assume s: "s = m1\<lparr>mpayloads := mpayloads m1 @ [p], mrows := mrows m1 + 1\<rparr>"
  note F = frameD [OF fr]
  have N: "length (mcolumns s) = length schema" using s F O(3) by simp
  show "returns (each_column (\<lambda>a. upd (add_posting ?n))) s err (\<lambda>m'. store_ok schema m' L (insert ?n P) (insert ?n E) \<and>
      mrows m' = Suc ?n \<and> mpayloads m' = mpayloads m @ [p] \<and> (\<forall>a < length schema. Q a (get_value (mcolumns m' ! a) ?n)) \<and>
      (\<forall>r < ?n. get_row m' r = get_row m r))"
  proof (rule returns_mono [OF each_column_upd], unfold N, elim conjE)
    fix m' assume f: "frame s m'" and c: "\<forall>a < length schema. mcolumns m' ! a = add_posting ?n (mcolumns s ! a)"
    note G = frameD [OF f]
    have rows: "mrows m' = Suc ?n" "mpayloads m' = mpayloads m @ [p]" using G s F by simp_all
    have cols: "col_inv (mcolumns m' ! a) (Suc ?n) L L (insert ?n P) (insert ?n E) \<and> same_kind (mcolumns m ! a) (mcolumns m' ! a)"
      if "a < length schema" for a
      using post_in [OF conjunct1 [OF col [OF that]]] col [OF that] c that s by (simp add: same_kind_def)
    have get: "get_value (mcolumns m' ! a) = get_value (mcolumns m1 ! a)" if "a < length schema" for a
      using c that s same_cells_get [OF same_cells_post] by simp
    have L: "L \<subseteq> {..<mrows m'}" "insert ?n P \<subseteq> {..<mrows m'}" "insert ?n E \<subseteq> {..<mrows m'}"
      using O(5-7) rows by auto
    have len: "length (mcolumns m') = length (mcolumns m)" using G(5) N O(3) by simp
    have "store_ok schema m' L (insert ?n P) (insert ?n E)"
      by (rule store_okI [OF ok _ _ len _ L]) (use cols G s F O(4) rows in simp_all)
    moreover have "get_row m' r = get_row m r" if "r < ?n" for r
      by (rule get_row_cong [OF len]) (use that get col O(3,4) rows in \<open>simp_all add: nth_append\<close>)
    ultimately show "store_ok schema m' L (insert ?n P) (insert ?n E) \<and> mrows m' = Suc ?n \<and> mpayloads m' = mpayloads m @ [p] \<and>
        (\<forall>a < length schema. Q a (get_value (mcolumns m' ! a) ?n)) \<and> (\<forall>r < ?n. get_row m' r = get_row m r)"
      using rows get col by simp
  qed
qed

lemma append_row_ok:
  assumes ok: "store_ok schema m L P E" and fits: "record_fits m rec"
  shows "returns (append_row rec) m err (\<lambda>m'. store_ok schema m' L (insert (mrows m) P) (insert (mrows m) E) \<and>
     mrows m' = Suc (mrows m) \<and> row_reads_as m' (mrows m) rec \<and> (\<forall>r < mrows m. get_row m' r = get_row m r))"
proof -
  note O = store_okD [OF ok]
  have v: "validate (mschema m) rec = None" using fits by (simp add: record_fits_def)
  show ?thesis unfolding append_row_def Let_def
  proof (rule returns_checked [OF v], rule returns_app, rule returns_then [OF each_column_upd], unfold O(3), elim conjE)
    fix m1 assume f: "frame m m1" and c: "\<forall>a < length schema. mcolumns m1 ! a = append_value (attr_at rec a) (mcolumns m ! a)"
    let ?Q = "\<lambda>a. reads_as (attr_at rec a)"
    have col: "col_inv (mcolumns m1 ! a) (Suc (mrows m)) L L P (insert (mrows m) E) \<and>
      same_kind (mcolumns m ! a) (mcolumns m1 ! a) \<and> ?Q a (get_value (mcolumns m1 ! a) (mrows m)) \<and>
      (\<forall>r < mrows m. get_value (mcolumns m1 ! a) r = get_value (mcolumns m ! a) r)" if a: "a < length schema" for a
    proof -
      have "value_fits (mcolumns m ! a) (attr_at rec a)" using fits a O(3) by (simp add: record_fits_def)
      from append_value_inv [OF O(8) [OF a] this] show ?thesis using c a by simp
    qed
    note T = append_tail [where Q = ?Q, OF ok f col]
    show "returns (and_then (upd (\<lambda>m. m\<lparr>mpayloads := mpayloads m @ [payload rec], mrows := mrows m + 1\<rparr>)) (each_column (\<lambda>a. upd (add_posting (mrows m)))))
      m1 err (\<lambda>m'. store_ok schema m' L (insert (mrows m) P) (insert (mrows m) E) \<and>
        mrows m' = Suc (mrows m) \<and> row_reads_as m' (mrows m) rec \<and> (\<forall>r < mrows m. get_row m' r = get_row m r))"
    proof (rule returns_mono [OF T], assumption, elim conjE)
      fix m' assume s: "store_ok schema m' L (insert (mrows m) P) (insert (mrows m) E)" "mrows m' = Suc (mrows m)"
        "mpayloads m' = mpayloads m @ [payload rec]" "\<forall>a < length schema. ?Q a (get_value (mcolumns m' ! a) (mrows m))"
        "\<forall>r < mrows m. get_row m' r = get_row m r"
      have "row_reads_as m' (mrows m) rec"
        using s(3,4) O(4) store_okD(3) [OF s(1)] by (simp add: row_reads_as_def get_row_def read_attr_def nth_append)
      then show "store_ok schema m' L (insert (mrows m) P) (insert (mrows m) E) \<and>
        mrows m' = Suc (mrows m) \<and> row_reads_as m' (mrows m) rec \<and> (\<forall>r < mrows m. get_row m' r = get_row m r)"
        using s by simp
    qed
  qed
qed

lemma append_row_copy_ok:
  assumes ok: "store_ok schema m L P E" and src: "src < mrows m"
  shows "returns (append_row_copy src) m err (\<lambda>m'. store_ok schema m' L (insert (mrows m) P) (insert (mrows m) E) \<and>
     mrows m' = Suc (mrows m) \<and> get_row m' (mrows m) = get_row m src \<and> (\<forall>r < mrows m. get_row m' r = get_row m r))"
proof -
  note O = store_okD [OF ok]
  show ?thesis unfolding append_row_copy_def Let_def
  proof (rule returns_app, rule returns_then [OF each_column_upd], unfold O(3), elim conjE)
    fix m1 assume f: "frame m m1" and c: "\<forall>a < length schema. mcolumns m1 ! a = append_copy src (mcolumns m ! a)"
    let ?Q = "\<lambda>a w. w = get_value (mcolumns m ! a) src"
    have col: "col_inv (mcolumns m1 ! a) (Suc (mrows m)) L L P (insert (mrows m) E) \<and>
      same_kind (mcolumns m ! a) (mcolumns m1 ! a) \<and> ?Q a (get_value (mcolumns m1 ! a) (mrows m)) \<and>
      (\<forall>r < mrows m. get_value (mcolumns m1 ! a) r = get_value (mcolumns m ! a) r)" if a: "a < length schema" for a
      using append_copy_inv [OF O(8) [OF a] src] c a by simp
    note T = append_tail [where Q = ?Q, OF ok f col]
    have p: "mpayloads m1 = mpayloads m" using frameD(2) [OF f] .
    show "returns (and_then (upd (\<lambda>m. m\<lparr>mpayloads := mpayloads m @ [mpayloads m ! src], mrows := mrows m + 1\<rparr>)) (each_column (\<lambda>a. upd (add_posting (mrows m)))))
      m1 err (\<lambda>m'. store_ok schema m' L (insert (mrows m) P) (insert (mrows m) E) \<and>
        mrows m' = Suc (mrows m) \<and> get_row m' (mrows m) = get_row m src \<and> (\<forall>r < mrows m. get_row m' r = get_row m r))"
    proof -
      show ?thesis
      proof (unfold returns_upd_then p, rule returns_mono [OF T [unfolded returns_upd_then p]], assumption, elim conjE)
        fix m' assume s: "store_ok schema m' L (insert (mrows m) P) (insert (mrows m) E)" "mrows m' = Suc (mrows m)"
          "mpayloads m' = mpayloads m @ [mpayloads m ! src]" "\<forall>a < length schema. ?Q a (get_value (mcolumns m' ! a) (mrows m))"
          "\<forall>r < mrows m. get_row m' r = get_row m r"
        have "get_row m' (mrows m) = get_row m src"
          by (rule get_row_cong) (use s(3,4) src O(3,4) store_okD(3) [OF s(1)] in \<open>simp_all add: nth_append\<close>)
        then show "store_ok schema m' L (insert (mrows m) P) (insert (mrows m) E) \<and>
          mrows m' = Suc (mrows m) \<and> get_row m' (mrows m) = get_row m src \<and> (\<forall>r < mrows m. get_row m' r = get_row m r)"
          using s by simp
      qed
    qed
  qed
qed

text \<open>Operations that leave the payloads and the row count alone.\<close>

lemma columns_only:
  assumes ok: "store_ok schema m L P E" and f: "frame m m'" and sub: "L' \<subseteq> {..<mrows m}" "P' \<subseteq> {..<mrows m}" "E' \<subseteq> {..<mrows m}"
    and c: "\<And>a. a < length schema \<Longrightarrow> col_inv (mcolumns m' ! a) (mrows m) L' L' P' E' \<and> same_kind (mcolumns m ! a) (mcolumns m' ! a)"
  shows "store_ok schema m' L' P' E'"
  by (rule store_okI [OF ok]) (use frameD [OF f] store_okD [OF ok] sub c in simp_all)

lemma frame_rows:
  assumes "frame m m'" "\<And>a. a < length (mcolumns m) \<Longrightarrow> get_value (mcolumns m' ! a) r = get_value (mcolumns m ! a) r"
  shows "get_row m' r = get_row m r"
  by (rule get_row_cong) (use assms frameD in simp_all)

lemma publish_ok:
  assumes ok: "store_ok schema m L P E" and sub: "L' \<subseteq> {..<mrows m}" "P' \<subseteq> {..<mrows m}"
    and c: "\<And>a. a < length schema \<Longrightarrow> returns (f a) (mcolumns m ! a) LengthError
      (\<lambda>c'. col_inv c' (mrows m) L' L' P' E \<and> same_cells (mcolumns m ! a) c')"
  shows "returns (each_column f) m LengthError (\<lambda>m'. store_ok schema m' L' P' E \<and> mrows m' = mrows m \<and> get_row m' = get_row m)"
proof -
  note O = store_okD [OF ok]
  have c': "\<And>a. a < length (mcolumns m) \<Longrightarrow> returns (f a) (mcolumns m ! a) LengthError
      (\<lambda>c'. col_inv c' (mrows m) L' L' P' E \<and> same_cells (mcolumns m ! a) c')" using c O(3) by simp
  show ?thesis
  proof (rule returns_mono [OF each_column_returns [OF c']], assumption, unfold O(3), elim conjE)
    fix m' assume f: "frame m m'"
      and a: "\<forall>a < length schema. col_inv (mcolumns m' ! a) (mrows m) L' L' P' E \<and> same_cells (mcolumns m ! a) (mcolumns m' ! a)"
    have "store_ok schema m' L' P' E"
      by (rule columns_only [OF ok f sub O(7)]) (use a in \<open>simp add: same_cells_def\<close>)
    moreover have get: "get_value (mcolumns m' ! a) = get_value (mcolumns m ! a)" if "a < length schema" for a
      using a that same_cells_get by blast
    moreover have "get_row m' = get_row m"
      by (rule ext, rule frame_rows [OF f]) (use get O(3) in simp)
    ultimately show "store_ok schema m' L' P' E \<and> mrows m' = mrows m \<and> get_row m' = get_row m"
      using frameD(3) [OF f] by simp
  qed
qed

lemma mark_live_ok:
  assumes ok: "store_ok schema m L P E" and rid: "rid < mrows m" "rid \<notin> L"
  shows "returns (mark_live rid) m LengthError (\<lambda>m'. store_ok schema m' (insert rid L) P E \<and> mrows m' = mrows m \<and> get_row m' = get_row m)"
  unfolding mark_live_def
  by (rule publish_ok [OF ok]) (use store_okD [OF ok] rid mark_live_column in auto)

lemma mark_dead_ok:
  assumes ok: "store_ok schema m L P E" and rid: "rid \<in> L"
  shows "returns (mark_dead rid) m LengthError (\<lambda>m'. store_ok schema m' (L - {rid}) P E \<and> mrows m' = mrows m \<and> get_row m' = get_row m)"
  unfolding mark_dead_def
  by (rule publish_ok [OF ok]) (use store_okD [OF ok] rid mark_dead_column in auto)

lemma set_row_ok:
  assumes ok: "store_ok schema m L P E" and fits: "record_fits m rec" and rid: "rid \<in> L"
  shows "returns (set_row rid rec) m LengthError (\<lambda>m'. store_ok schema m' L (insert rid P) (E - {rid}) \<and> mrows m' = mrows m \<and>
     row_reads_as m' rid rec \<and> (\<forall>r < mrows m. r \<noteq> rid \<longrightarrow> get_row m' r = get_row m r))"
proof -
  note O = store_okD [OF ok]
  have n: "rid < mrows m" using O(5) rid by auto
  have v: "validate (mschema m) rec = None" using fits by (simp add: record_fits_def)
  let ?Q = "\<lambda>a c'. col_inv c' (mrows m) L L (insert rid P) (E - {rid}) \<and> same_kind (mcolumns m ! a) c' \<and>
     reads_as (attr_at rec a) (get_value c' rid) \<and> (\<forall>r < mrows m. r \<noteq> rid \<longrightarrow> get_value c' r = get_value (mcolumns m ! a) r)"
  have step: "returns (set_value rid (attr_at rec a)) (mcolumns m ! a) LengthError (?Q a)" if "a < length (mcolumns m)" for a
  proof -
    have "value_fits (mcolumns m ! a) (attr_at rec a)" using fits that by (simp add: record_fits_def)
    from set_value_inv [OF O(8) rid this] show ?thesis using that O(3) by simp
  qed
  show ?thesis unfolding set_row_def
  proof (rule returns_checked [OF v], rule returns_then [OF each_column_returns [where Q = ?Q, OF step]], assumption, unfold O(3) returns_upd, elim conjE)
    fix m1 assume f: "frame m m1" and c: "\<forall>a < length schema. ?Q a (mcolumns m1 ! a)"
    note F = frameD [OF f]
    let ?m = "m1\<lparr>mpayloads := (mpayloads m1)[rid := payload rec]\<rparr>"
    have "store_ok schema ?m L (insert rid P) (E - {rid})"
      by (rule store_okI [OF ok]) (use F O n c in auto)
    moreover have "row_reads_as ?m rid rec"
      using c F O n by (simp add: row_reads_as_def get_row_def read_attr_def)
    moreover have "get_row ?m r = get_row m r" if "r < mrows m" "r \<noteq> rid" for r
      by (rule get_row_cong) (use F O c that in simp_all)
    ultimately show "store_ok schema ?m L (insert rid P) (E - {rid}) \<and> mrows ?m = mrows m \<and>
        row_reads_as ?m rid rec \<and> (\<forall>r < mrows m. r \<noteq> rid \<longrightarrow> get_row ?m r = get_row m r)"
      using F by simp
  qed
qed

lemma permute_ok:
  assumes ok: "store_ok schema m L P E" and live: "distinct live" "set live = L"
  shows "returns (permute live) m LengthError (\<lambda>m'. store_ok schema m' {..<length live} {..<length live} {..<length live} \<and>
     mrows m' = length live \<and> (\<forall>i < length live. get_row m' i = get_row m (live ! i)))"
proof -
  note O = store_okD [OF ok]
  let ?k = "length live"
  let ?Q = "\<lambda>a c'. col_inv c' ?k {..<?k} {..<?k} {..<?k} {..<?k} \<and> same_kind (mcolumns m ! a) c' \<and>
    (\<forall>i < ?k. get_value c' i = get_value (mcolumns m ! a) (live ! i))"
  have step: "returns (permute_column live) (mcolumns m ! a) LengthError (?Q a)" if "a < length (mcolumns m)" for a
    using permute_column_inv [OF O(8) live] that O(3) by simp
  show ?thesis unfolding permute_def
  proof (rule returns_then [OF each_column_returns [where Q = ?Q, OF step]], assumption, unfold O(3) returns_upd, elim conjE)
    fix m1 assume f: "frame m m1" and c: "\<forall>a < length schema. ?Q a (mcolumns m1 ! a)"
    note F = frameD [OF f]
    let ?m = "m1\<lparr>mpayloads := map ((!) (mpayloads m1)) live, mrows := ?k\<rparr>"
    have "store_ok schema ?m {..<?k} {..<?k} {..<?k}"
      by (rule store_okI [OF ok]) (use F O c in simp_all)
    moreover have "get_row ?m i = get_row m (live ! i)" if "i < ?k" for i
      by (rule get_row_cong) (use F O c that in simp_all)
    ultimately show "store_ok schema ?m {..<?k} {..<?k} {..<?k} \<and> mrows ?m = ?k \<and> (\<forall>i < ?k. get_row ?m i = get_row m (live ! i))"
      by simp
  qed
qed

lemma clear_rows_ok:
  assumes ok: "store_ok schema m L P E"
  shows "store_ok schema (clear_rows m) {} {} {}" "mrows (clear_rows m) = 0"
proof -
  note O = store_okD [OF ok]
  show "store_ok schema (clear_rows m) {} {} {}"
    by (rule store_okI [OF ok])
      (use O clear_column_inv col_invD(1) [OF O(8)] in \<open>simp_all add: clear_rows_def\<close>)
qed (simp add: clear_rows_def)

section \<open>Rebuilding the derived state\<close>

text \<open>What a store read from a file provides: rows and dictionaries, nothing derived.\<close>

definition loaded_ok :: "attr_spec list \<Rightarrow> mstore \<Rightarrow> bool" where
  "loaded_ok schema m \<longleftrightarrow> mschema m = schema \<and> mfingerprint m = compute_fingerprint schema \<and>
     length (mcolumns m) = length schema \<and> length (mpayloads m) = mrows m \<and>
     (\<forall>a < length schema. dict_ok (mcolumns m ! a) \<and> rows_ok (mcolumns m ! a) (mrows m) \<and>
        ctype (mcolumns m ! a) = attr_kind (schema ! a) \<and> (cindex (mcolumns m ! a) = None \<longleftrightarrow> \<not> indexed (schema ! a)))"

lemma store_ok_loaded: "store_ok schema m L P E \<Longrightarrow> loaded_ok schema m"
  by (auto simp: store_ok_def loaded_ok_def dest: col_invD(1,2))

definition live_rows :: "bool list \<Rightarrow> nat \<Rightarrow> internal_id set" where
  "live_rows deleted n = {rid. rid < n \<and> \<not> deleted ! rid}"

lemma returns_pure: "Q s \<Longrightarrow> returns (\<lambda>m. Some (None, m)) s err Q"
  by (simp add: returns_def)

lemma rebuild_ok:
  assumes ok: "loaded_ok schema m"
  defines "n \<equiv> mrows m"
  shows "returns (rebuild_derived_state deleted) m LengthError (\<lambda>m'.
     store_ok schema m' (live_rows deleted n) (live_rows deleted n) {..<n} \<and> mrows m' = n \<and> get_row m' = get_row m)"
proof -
  let ?m0 = "m\<lparr>mcolumns := map reset_derived (mcolumns m)\<rparr>"
  let ?I = "\<lambda>ids m'. store_ok schema m' (live_rows deleted n \<inter> set ids) (live_rows deleted n \<inter> set ids) {..<n} \<and>
    mrows m' = n \<and> get_row m' = get_row m"
  have cols: "col_inv (reset_derived (mcolumns m ! a)) n {} {} {} {..<n} \<and> same_cells (mcolumns m ! a) (reset_derived (mcolumns m ! a))"
    if "a < length schema" for a
    using reset_derived_inv [of "mcolumns m ! a" n] ok that by (simp add: loaded_ok_def n_def)
  have start: "?I [] ?m0"
  proof -
    have "store_ok schema ?m0 {} {} {..<n}"
      using ok cols by (simp add: loaded_ok_def store_ok_def same_cells_def same_kind_def n_def)
    moreover have "get_row ?m0 = get_row m"
    proof (rule ext, rule get_row_cong)
      fix r a assume a: "a < length (mcolumns m)"
      then have "same_cells (mcolumns m ! a) (reset_derived (mcolumns m ! a))" using cols ok by (simp add: loaded_ok_def)
      then show "get_value (mcolumns ?m0 ! a) r = get_value (mcolumns m ! a) r" using a same_cells_get by simp
    qed simp_all
    ultimately show ?thesis by (simp add: n_def)
  qed
  have step: "returns (if deleted ! r then (\<lambda>m. Some (None, m)) else each_column (\<lambda>a. derive_row r)) s LengthError (?I (ids @ [r]))"
    if split: "[0..<n] = ids @ r # rest" and s: "?I ids s" for ids r rest s
  proof -
    have "distinct (ids @ r # rest)" "r \<in> set [0..<n]" by (metis split distinct_upt) (simp only: split, simp)
    then have r: "r < n" "r \<notin> set ids" by auto
    show ?thesis
    proof (cases "deleted ! r")
      case True
      then have "live_rows deleted n \<inter> set (ids @ [r]) = live_rows deleted n \<inter> set ids" by (auto simp: live_rows_def)
      then show ?thesis using True s by (simp add: returns_pure del: set_append)
    next
      case False
      then have e: "live_rows deleted n \<inter> set (ids @ [r]) = insert r (live_rows deleted n \<inter> set ids)"
        using r by (auto simp: live_rows_def)
      note S = conjunct1 [OF s]
      note O = store_okD [OF S]
      have n: "mrows s = n" "get_row s = get_row m" using s by simp_all
      have "returns (each_column (\<lambda>a. derive_row r)) s LengthError (\<lambda>m'. store_ok schema m' (insert r (live_rows deleted n \<inter> set ids))
          (insert r (live_rows deleted n \<inter> set ids)) {..<n} \<and> mrows m' = mrows s \<and> get_row m' = get_row s)"
        by (rule publish_ok [OF S]) (use O n r derive_row_column in auto)
      then show ?thesis using False unfolding e n by simp
    qed
  qed
  have loop: "returns (for_each [0..<n] (\<lambda>r. if deleted ! r then (\<lambda>m. Some (None, m)) else each_column (\<lambda>a. derive_row r)))
      ?m0 LengthError (?I [0..<n])"
    by (rule returns_for_each [where I = ?I, OF start]) (rule step)
  have all: "live_rows deleted n \<inter> set [0..<n] = live_rows deleted n" by (auto simp: live_rows_def)
  show ?thesis unfolding rebuild_derived_state_def
  proof (rule returns_app, unfold returns_upd_then, fold n_def, rule returns_mono [OF loop])
    fix m' assume "?I [0..<n] m'"
    then show "store_ok schema m' (live_rows deleted n) (live_rows deleted n) {..<n} \<and> mrows m' = n \<and> get_row m' = get_row m"
      unfolding all .
  qed
qed

lemma make_store_ok:
  assumes "make_store schema = Inr m"
  shows "store_ok schema m {} {} {}" "mrows m = 0"
proof -
  have c: "check_schema schema = None"
    and m: "m = \<lparr>mschema = schema, mcolumns = map new_column schema, mpayloads = [], mrows = 0, mfingerprint = compute_fingerprint schema\<rparr>"
    using assms by (auto simp: make_store_def split: option.splits)
  have "attr_kind (schema ! a) \<noteq> Null" "indexed (schema ! a) \<longrightarrow> attr_kind (schema ! a) = Int64 \<or> attr_kind (schema ! a) = Float64"
    if "a < length schema" for a
    using c that nth_mem [OF that] by (auto simp: check_schema_def split: if_splits)
  then show "store_ok schema m {} {} {}" using new_column_inv by (simp add: store_ok_def m)
  show "mrows m = 0" by (simp add: m)
qed

end
