(* ===== verification/Metadata_Codec.thy ===== *)
theory Metadata_Codec
  imports Metadata_Inv Serialize
begin

text \<open>
  \<open>MetadataStore::serialize\<close> and \<open>deserialize\<close>. The rows and the dictionaries are written;
  the codes and lengths of texts are tokenized again on reading, the counts, the postings and
  the ordered indexes are left to \<open>rebuild_derived_state\<close>. A byte that is no enumerator is read
  as \<open>Null\<close>, which like it has no codes; on an exception the half-read store is dropped.
\<close>

section \<open>The code\<close>

definition put_column :: "bytes \<Rightarrow> column \<Rightarrow> bytes" where
  "put_column buf c =
     (let buf = put buf (attr_code (ctype c));
          buf = put buf (of_nat (length (cdata c)) :: u64);
          buf = foldl put buf (cdata c);
          buf = foldl put buf (map (\<lambda>p. if p then 1 else 0 :: u8) (cpresent c));
          buf = put buf (of_nat (length (cdict c)) :: u64);
          buf = foldl put_string buf (cdict c)
      in if ctype c = Text then foldl put_string (put buf (of_nat (length (craw_text c)) :: u64)) (craw_text c) else buf)"

definition serialize :: "bytes \<Rightarrow> mstore \<Rightarrow> bytes" where
  "serialize buf m =
     (let buf = put buf (mfingerprint m);
          buf = put buf (of_nat (mrows m) :: u64);
          buf = put buf (of_nat (length (mcolumns m)) :: u64);
          buf = foldl put_column buf (mcolumns m);
          buf = put buf (of_nat (length (mpayloads m)) :: u64)
      in foldl put_bytes buf (mpayloads m))"

definition type_of_byte :: "u8 \<Rightarrow> attr_type" where
  "type_of_byte b = (case attr_type_of b of Some t \<Rightarrow> t | None \<Rightarrow> Null)"

text \<open>\<open>codes.emplace(dict[i], i)\<close> keeps the first code of a string.\<close>

definition load_codes :: "bytes list \<Rightarrow> bytes \<rightharpoonup> u32" where
  "load_codes dict = foldl (\<lambda>m (i, s). case m s of None \<Rightarrow> m(s \<mapsto> of_nat i) | Some _ \<Rightarrow> m) Map.empty (enumerate 0 dict)"

definition load_terms :: "column \<Rightarrow> nat \<Rightarrow> column" where
  "load_terms c i =
     (if \<not> cpresent c ! i then c
      else (case intern_terms c (craw_text c ! i) of (codes, dlen, c) \<Rightarrow>
        c\<lparr>ctext_terms := (ctext_terms c)[i := codes], cdoc_len := (cdoc_len c)[i := dlen]\<rparr>))"

definition get_texts :: "column \<Rightarrow> bytes \<Rightarrow> (column \<times> bytes) res" where
  "get_texts c r =
     bind_res (get r) (\<lambda>(n_raw :: u64, r). bind_res (get_many (unat n_raw) get_string r) (\<lambda>(raws, r).
       Inr (foldl load_terms (c\<lparr>craw_text := raws, ctext_terms := replicate (unat n_raw) [], cdoc_len := replicate (unat n_raw) 0\<rparr>)
         [0..<unat n_raw], r)))"

definition size_derived :: "column \<Rightarrow> column" where
  "size_derived c =
     (if ctype c = Tag \<or> ctype c = Text then c\<lparr>ccount := replicate (length (cdict c)) 0, cpostings := replicate (length (cdict c)) []\<rparr>
      else if ctype c = Bool then c\<lparr>ccount := replicate 2 0, cpostings := replicate 2 []\<rparr>
      else c\<lparr>ccount := [], cpostings := []\<rparr>)"

definition get_column :: "column \<Rightarrow> bytes \<Rightarrow> (column \<times> bytes) res" where
  "get_column c r =
     bind_res (get r) (\<lambda>(ty :: u8, r). bind_res (get r) (\<lambda>(n :: u64, r).
     bind_res (get_many (unat n) get r) (\<lambda>(data, r). bind_res (get_many (unat n) get r) (\<lambda>(pres :: u8 list, r).
     bind_res (get r) (\<lambda>(n_dict :: u64, r). bind_res (get_many (unat n_dict) get_string r) (\<lambda>(dict, r).
       let c = c\<lparr>ctype := type_of_byte ty, cdata := data, cpresent := map (\<lambda>p. p \<noteq> 0) pres, cdict := dict, ccodes := load_codes dict\<rparr>
       in bind_res (if ctype c = Text then get_texts c r else Inr (c, r)) (\<lambda>(c, r). Inr (size_derived c, r))))))))"

fun get_columns :: "column list \<Rightarrow> bytes \<Rightarrow> (column list \<times> bytes) res" where
  "get_columns [] r = Inr ([], r)"
| "get_columns (c # cs) r =
     bind_res (get_column c r) (\<lambda>(c, r). bind_res (get_columns cs r) (\<lambda>(cs, r). Inr (c # cs, r)))"

definition deserialize :: "mstore \<Rightarrow> bytes \<Rightarrow> (mstore \<times> bytes) res" where
  "deserialize m r =
     bind_res (get r) (\<lambda>(fp, r).
       if fp \<noteq> mfingerprint m then Inl RuntimeError
       else bind_res (get r) (\<lambda>(rows :: u64, r). bind_res (get r) (\<lambda>(n_cols :: u64, r).
         if unat n_cols \<noteq> length (mcolumns m) then Inl RuntimeError
         else bind_res (get_columns (mcolumns m) r) (\<lambda>(cols, r). bind_res (get r) (\<lambda>(n_pay :: u64, r).
           bind_res (get_many (unat n_pay) get_bytes r) (\<lambda>(pays, r).
             Inr (m\<lparr>mrows := unat rows, mcolumns := cols, mpayloads := pays\<rparr>, r)))))))"

section \<open>Terms known to the dictionary\<close>

definition codes_match :: "column \<Rightarrow> bool" where
  "codes_match c \<longleftrightarrow> (\<forall>s k. ccodes c s = Some k \<longleftrightarrow> unat k < length (cdict c) \<and> cdict c ! unat k = s)"

lemma intern_known:
  assumes "codes_match c" "length (cdict c) \<le> 2 ^ 32" "s \<in> set (cdict c)"
  shows "\<exists>k. intern c s = (k, c) \<and> unat k < length (cdict c) \<and> cdict c ! unat k = s"
proof -
  obtain j where j: "j < length (cdict c)" "cdict c ! j = s" using assms(3) by (auto simp: in_set_conv_nth)
  then have "unat (of_nat j :: u32) = j" using assms(2) by (intro unat_dict) simp
  then have "ccodes c s = Some (of_nat j)" using assms(1) j by (simp add: codes_match_def)
  then have "intern c s = (of_nat j, c)" by (simp add: intern_def)
  then show ?thesis using j \<open>unat (of_nat j :: u32) = j\<close> by (intro exI [of _ "of_nat j"]) simp
qed

lemma intern_tokens_known:
  assumes "codes_match c" "length (cdict c) \<le> 2 ^ 32" "set toks \<subseteq> set (cdict c)" "distinct ks" "\<forall>k \<in> set ks. unat k < length (cdict c)"
  shows "\<exists>codes. foldl intern_token (ks, c) toks = (codes, c) \<and> distinct codes \<and> (\<forall>k \<in> set codes. unat k < length (cdict c)) \<and>
    (\<lambda>k. cdict c ! unat k) ` set codes = (\<lambda>k. cdict c ! unat k) ` set ks \<union> set toks"
  using assms(3-5)
proof (induction toks arbitrary: ks)
  case (Cons tok toks)
  obtain k where k: "intern c tok = (k, c)" "unat k < length (cdict c)" "cdict c ! unat k = tok"
    using intern_known [OF assms(1,2), of tok] Cons.prems(1) by auto
  let ?ks = "if k \<in> set ks then ks else ks @ [k]"
  have tk: "intern_token (ks, c) tok = (?ks, c)" using k(1) by (simp add: intern_token_def)
  obtain codes where c: "foldl intern_token (?ks, c) toks = (codes, c)" "distinct codes" "\<forall>k \<in> set codes. unat k < length (cdict c)"
    "(\<lambda>k. cdict c ! unat k) ` set codes = (\<lambda>k. cdict c ! unat k) ` set ?ks \<union> set toks"
  proof -
    have "distinct ?ks" "\<forall>k \<in> set ?ks. unat k < length (cdict c)" "set toks \<subseteq> set (cdict c)" using Cons.prems k(2) by auto
    from Cons.IH [OF this(3,1,2)] show ?thesis using that by (elim exE conjE) blast
  qed
  have "(\<lambda>k. cdict c ! unat k) ` set ?ks = (\<lambda>k. cdict c ! unat k) ` set ks \<union> {tok}" using k(3) by auto
  then show ?case using c tk by (intro exI [of _ codes]) simp
qed simp

lemma intern_terms_known:
  assumes "codes_match c" "length (cdict c) \<le> 2 ^ 32" "set (tokenize_text s) \<subseteq> set (cdict c)"
  shows "\<exists>codes. intern_terms c s = (codes, of_nat (length (tokenize_text s)), c) \<and> distinct codes \<and>
    (\<forall>k \<in> set codes. unat k < length (cdict c)) \<and> (\<lambda>k. cdict c ! unat k) ` set codes = set (tokenize_text s)"
  using intern_tokens_known [OF assms, of "[]"] by (auto simp: intern_terms_def Let_def)

lemma load_codes_match:
  assumes "distinct d" "length d \<le> 2 ^ 32"
  shows "load_codes d s = Some k \<longleftrightarrow> unat k < length d \<and> d ! unat k = s"
  using assms
proof (induction d arbitrary: s k rule: rev_induct)
  case Nil
  then show ?case by (simp add: load_codes_def)
next
  case (snoc x d)
  have n: "unat (of_nat (length d) :: u32) = length d" using snoc.prems(2) by (intro unat_dict) simp
  have new: "load_codes d x = None" using snoc by (cases "load_codes d x") auto
  have step: "load_codes (d @ [x]) = (load_codes d)(x \<mapsto> of_nat (length d))"
    using new by (simp add: load_codes_def enumerate_append_eq)
  show ?case
  proof (cases "s = x")
    case True
    have "k = of_nat (length d) \<longleftrightarrow> unat k < length (d @ [x]) \<and> (d @ [x]) ! unat k = x"
    proof
      assume "k = of_nat (length d)" then show "unat k < length (d @ [x]) \<and> (d @ [x]) ! unat k = x" using n by simp
    next
      assume a: "unat k < length (d @ [x]) \<and> (d @ [x]) ! unat k = x"
      have "unat k = length d"
      proof (rule ccontr)
        assume "unat k \<noteq> length d"
        then have "unat k < length d" using a by simp
        moreover from this have "d ! unat k = x" using a by (simp add: nth_append)
        ultimately show False using snoc.prems(1) by auto
      qed
      then show "k = of_nat (length d)" using n by (metis word_unat_eq_iff)
    qed
    then show ?thesis using True step by auto
  next
    case False
    then show ?thesis using step snoc.IH [of s k] snoc.prems by (auto simp: nth_append less_Suc_eq)
  qed
qed

section \<open>A column is read back\<close>

lemma foldl_put: "foldl put buf (xs :: 'a::len word list) = buf @ concat (map word_bytes xs)"
  by (rule foldl_appends) (simp add: put_def)

lemma foldl_put_string: "foldl put_string buf xs = buf @ concat (map (put_string []) xs)"
  by (rule foldl_appends) (rule put_string_append)

lemma foldl_put_bytes: "foldl put_bytes buf xs = buf @ concat (map (put_bytes []) xs)"
  by (rule foldl_appends) (rule put_bytes_append)

lemma put_column_append: "put_column buf c = buf @ put_column [] c"
  by (simp add: put_column_def Let_def foldl_put foldl_put_string put_def)

lemma foldl_put_column: "foldl put_column buf cs = buf @ concat (map (put_column []) cs)"
  by (rule foldl_appends) (rule put_column_append)

lemma serialize_append: "serialize buf m = buf @ serialize [] m"
  by (simp add: serialize_def Let_def foldl_put_column foldl_put_bytes put_def)

text \<open>What fits the widths of the format.\<close>

definition column_fits :: "column \<Rightarrow> nat \<Rightarrow> bool" where
  "column_fits c n \<longleftrightarrow> n < 2 ^ 64 \<and> (\<forall>s \<in> set (cdict c). length s < 2 ^ 64) \<and>
     (ctype c = Text \<longrightarrow> (\<forall>s \<in> set (craw_text c). length s < 2 ^ 64))"

lemma type_of_code [simp]: "type_of_byte (attr_code t) = t"
  by (simp add: type_of_byte_def)

text \<open>The texts of a column whose dictionary knows their terms, after the first \<open>k\<close> rows.\<close>

definition texts_loaded :: "column \<Rightarrow> column \<Rightarrow> nat \<Rightarrow> bool" where
  "texts_loaded d c k \<longleftrightarrow> (\<exists>ts ls. c = d\<lparr>ctext_terms := ts, cdoc_len := ls\<rparr> \<and> length ts = length (ctext_terms d) \<and> length ls = length (cdoc_len d) \<and>
     (\<forall>i < k. cpresent d ! i \<longrightarrow> distinct (ts ! i) \<and> (\<forall>x \<in> set (ts ! i). unat x < length (cdict d)) \<and>
        (\<lambda>x. cdict d ! unat x) ` set (ts ! i) = set (tokenize_text (craw_text d ! i)) \<and>
        ls ! i = of_nat (length (tokenize_text (craw_text d ! i)))))"

lemma load_terms_step:
  assumes "codes_match d" "length (cdict d) \<le> 2 ^ 32" "k < length (ctext_terms d)" "k < length (cdoc_len d)"
    and "cpresent d ! k \<Longrightarrow> set (tokenize_text (craw_text d ! k)) \<subseteq> set (cdict d)" and "texts_loaded d c k"
  shows "texts_loaded d (load_terms c k) (Suc k)"
proof -
  from assms(6) obtain ts ls where c: "c = d\<lparr>ctext_terms := ts, cdoc_len := ls\<rparr>" and l: "length ts = length (ctext_terms d)" "length ls = length (cdoc_len d)"
    and old: "\<forall>i < k. cpresent d ! i \<longrightarrow> distinct (ts ! i) \<and> (\<forall>x \<in> set (ts ! i). unat x < length (cdict d)) \<and>
        (\<lambda>x. cdict d ! unat x) ` set (ts ! i) = set (tokenize_text (craw_text d ! i)) \<and>
        ls ! i = of_nat (length (tokenize_text (craw_text d ! i)))" unfolding texts_loaded_def by (elim exE conjE) rule
  show ?thesis
  proof (cases "cpresent d ! k")
    case False
    then have "load_terms c k = c" by (simp add: load_terms_def c)
    then show ?thesis using False c l old unfolding texts_loaded_def
      by (intro exI [of _ ts] exI [of _ ls]) (simp add: less_Suc_eq)
  next
    case True
    have "codes_match c" using assms(1) by (simp add: c codes_match_def)
    moreover have "length (cdict c) \<le> 2 ^ 32" "set (tokenize_text (craw_text d ! k)) \<subseteq> set (cdict c)"
      using assms(2,5) True by (simp_all add: c)
    ultimately obtain codes where i: "intern_terms c (craw_text d ! k) = (codes, of_nat (length (tokenize_text (craw_text d ! k))), c)"
      "distinct codes" "\<forall>x \<in> set codes. unat x < length (cdict c)" "(\<lambda>x. cdict c ! unat x) ` set codes = set (tokenize_text (craw_text d ! k))"
      using intern_terms_known by blast
    have "load_terms c k = d\<lparr>ctext_terms := ts[k := codes], cdoc_len := ls[k := of_nat (length (tokenize_text (craw_text d ! k)))]\<rparr>"
      using True i(1) by (simp add: load_terms_def c)
    moreover have "\<forall>j < Suc k. cpresent d ! j \<longrightarrow> distinct (ts[k := codes] ! j) \<and> (\<forall>x \<in> set (ts[k := codes] ! j). unat x < length (cdict d)) \<and>
        (\<lambda>x. cdict d ! unat x) ` set (ts[k := codes] ! j) = set (tokenize_text (craw_text d ! j)) \<and>
        ls[k := of_nat (length (tokenize_text (craw_text d ! k)))] ! j = of_nat (length (tokenize_text (craw_text d ! j)))"
      using old i(2-4) l assms(3,4) by (auto simp: less_Suc_eq c)
    ultimately show ?thesis using l unfolding texts_loaded_def
      by (intro exI [of _ "ts[k := codes]"] exI [of _ "ls[k := of_nat (length (tokenize_text (craw_text d ! k)))]"]) simp
  qed
qed

lemma load_terms_all:
  assumes "codes_match d" "length (cdict d) \<le> 2 ^ 32" "length (ctext_terms d) = n" "length (cdoc_len d) = n"
    and "\<And>i. i < n \<Longrightarrow> cpresent d ! i \<Longrightarrow> set (tokenize_text (craw_text d ! i)) \<subseteq> set (cdict d)"
  shows "texts_loaded d (foldl load_terms d [0..<n]) n"
proof -
  have "k \<le> n \<Longrightarrow> texts_loaded d (foldl load_terms d [0..<k]) k" for k
  proof (induction k)
    case 0
    show ?case unfolding texts_loaded_def by (intro exI [of _ "ctext_terms d"] exI [of _ "cdoc_len d"]) simp
  next
    case (Suc k)
    then show ?case using load_terms_step [OF assms(1,2), of k "foldl load_terms d [0..<k]"] assms(3-5) by simp
  qed
  then show ?thesis by simp
qed

text \<open>A column with the rows and the dictionary of \<open>c\<close>, ready for the rebuild.\<close>

definition reloaded :: "column \<Rightarrow> nat \<Rightarrow> column \<Rightarrow> column \<Rightarrow> bool" where
  "reloaded c n c0 c' \<longleftrightarrow> dict_ok c' \<and> rows_ok c' n \<and> ctype c' = ctype c \<and> cindex c' = cindex c0 \<and>
     (\<forall>r < n. get_value c' r = get_value c r)"

lemma texts_known:
  assumes "dict_ok c" "rows_ok c n" "ctype c = Text" "i < n" "cpresent c ! i"
  shows "set (tokenize_text (craw_text c ! i)) \<subseteq> set (cdict c)"
proof -
  have "\<forall>k \<in> set (ctext_terms c ! i). unat k < length (cdict c)"
    using assms by (simp add: rows_ok_def dict_ok_def row_codes_def)
  moreover have "(\<lambda>k. cdict c ! unat k) ` set (ctext_terms c ! i) = set (tokenize_text (craw_text c ! i))"
    using assms by (simp add: rows_ok_def text_row_ok_def)
  ultimately show ?thesis by (metis (no_types, lifting) image_subsetI nth_mem)
qed

lemma size_derived_fields [simp]:
  "ctype (size_derived c) = ctype c" "cdata (size_derived c) = cdata c" "cpresent (size_derived c) = cpresent c"
  "cdict (size_derived c) = cdict c" "ccodes (size_derived c) = ccodes c" "ctext_terms (size_derived c) = ctext_terms c"
  "cdoc_len (size_derived c) = cdoc_len c" "craw_text (size_derived c) = craw_text c" "cindex (size_derived c) = cindex c"
  "length (cpostings (size_derived c)) = length (ccount (size_derived c))"
  "length (ccount (size_derived c)) = (if ctype c = Tag \<or> ctype c = Text then length (cdict c) else if ctype c = Bool then 2 else 0)"
  by (simp_all add: size_derived_def)

lemma size_derived_ok:
  assumes ok: "dict_ok c" "rows_ok c n" and ix: "cindex d \<noteq> None \<longrightarrow> ctype c = Int64 \<or> ctype c = Float64"
    and d: "ctype d = ctype c" "cdata d = cdata c" "cpresent d = cpresent c" "cdict d = cdict c" "codes_match d"
    and tx: "ctype c = Text \<Longrightarrow> craw_text d = craw_text c \<and> length (ctext_terms d) = n \<and> length (cdoc_len d) = n \<and>
      (\<forall>i < n. cpresent c ! i \<longrightarrow> distinct (ctext_terms d ! i) \<and> (\<forall>x \<in> set (ctext_terms d ! i). unat x < length (cdict c)) \<and>
        (\<lambda>x. cdict c ! unat x) ` set (ctext_terms d ! i) = set (tokenize_text (craw_text c ! i)) \<and>
        cdoc_len d ! i = of_nat (length (tokenize_text (craw_text c ! i))))"
  shows "reloaded c n d (size_derived d)"
proof -
  let ?c = "size_derived d"
  have "dict_ok ?c" using ok(1) ix d by (auto simp: dict_ok_def codes_match_def)
  moreover have "rows_ok ?c n"
  proof -
    have "cell_ok ?c r \<and> distinct (row_codes ?c r) \<and> (\<forall>k \<in> set (row_codes ?c r). unat k < length (ccount ?c))" if r: "r < n" for r
    proof (cases "ctype c = Text")
      case True
      then show ?thesis using tx [OF True] r d by (auto simp: cell_ok_def row_codes_def)
    next
      case False
      then have "row_codes ?c r = row_codes c r" using d by (simp add: row_codes_def)
      moreover have "cell_ok ?c r = cell_ok c r" using d by (simp add: cell_ok_def)
      moreover have "cell_ok c r \<and> distinct (row_codes c r) \<and> (\<forall>k \<in> set (row_codes c r). unat k < length (ccount c))"
        using ok(2) r by (simp add: rows_ok_def)
      moreover have "length (ccount ?c) = length (ccount c)" using ok(1) False d by (auto simp: dict_ok_def)
      ultimately show ?thesis by simp
    qed
    moreover have "text_row_ok ?c r" if "r < n" "ctype c = Text" for r
      using tx [OF that(2)] that(1) d by (simp add: text_row_ok_def)
    ultimately show ?thesis using ok(2) d tx by (simp add: rows_ok_def)
  qed
  moreover have "get_value ?c r = get_value c r" if "r < n" for r
    using d tx by (auto simp: get_value_def)
  ultimately show ?thesis using d by (simp add: reloaded_def)
qed

lemma get_column_put:
  assumes ok: "dict_ok c" "rows_ok c n" "column_fits c n" and ix: "cindex c0 \<noteq> None \<longrightarrow> ctype c = Int64 \<or> ctype c = Float64"
  shows "\<exists>c'. get_column c0 (put_column [] c @ rest) = Inr (c', rest) \<and> reloaded c n c0 c'"
proof -
  have n: "length (cdata c) = n" "length (cpresent c) = n" using ok(2) by (simp_all add: rows_ok_def)
  have len: "unat (of_nat n :: u64) = n" "unat (of_nat (length (cdict c)) :: u64) = length (cdict c)"
    using ok(1,3) by (auto simp: column_fits_def dict_ok_def intro!: unat_of_nat_64)
  define pres where "pres = map (\<lambda>p. if p then 1 else 0 :: u8) (cpresent c)"
  have p: "map (\<lambda>p. p \<noteq> 0) pres = cpresent c" "length pres = n"
    by (simp_all add: pres_def n comp_def cong: map_cong)
  have data: "get_many n get (concat (map word_bytes (cdata c)) @ r) = Inr (cdata c, r)" for r
    using u64c.get_many_enc [of "cdata c" r] n by simp
  have pr: "get_many n get (concat (map word_bytes pres) @ r) = Inr (pres, r)" for r
    using u8c.get_many_enc [of pres r] p by simp
  have dict: "get_many (length (cdict c)) get_string (concat (map (put_string []) (cdict c)) @ r) = Inr (cdict c, r)" for r
    using ok(3) by (intro stringc.get_many_enc) (simp add: column_fits_def)
  let ?d = "c0\<lparr>ctype := ctype c, cdata := cdata c, cpresent := cpresent c, cdict := cdict c, ccodes := load_codes (cdict c)\<rparr>"
  let ?tail = "if ctype c = Text then word_bytes (of_nat (length (craw_text c)) :: u64) @ concat (map (put_string []) (craw_text c)) else []"
  have e: "put_column [] c @ rest = word_bytes (attr_code (ctype c)) @ word_bytes (of_nat n :: u64) @ concat (map word_bytes (cdata c)) @
      concat (map word_bytes pres) @ word_bytes (of_nat (length (cdict c)) :: u64) @ concat (map (put_string []) (cdict c)) @ ?tail @ rest"
    by (simp add: put_column_def Let_def foldl_put foldl_put_string put_def n pres_def)
  have g: "get_column c0 (put_column [] c @ rest) =
      bind_res (if ctype c = Text then get_texts ?d (?tail @ rest) else Inr (?d, ?tail @ rest)) (\<lambda>(c, r). Inr (size_derived c, r))"
    unfolding e get_column_def by (simp add: u8c.dec_enc u64c.dec_enc data pr dict len p)
  have cm: "codes_match c'" if "cdict c' = cdict c" "ccodes c' = load_codes (cdict c)" for c'
    using ok(1) load_codes_match that by (simp add: codes_match_def dict_ok_def)
  show ?thesis
  proof (cases "ctype c = Text")
    case False
    then have "get_column c0 (put_column [] c @ rest) = Inr (size_derived ?d, rest)" using g by simp
    moreover have "reloaded c n ?d (size_derived ?d)"
      by (rule size_derived_ok [OF ok(1,2)]) (use ix False cm in simp_all)
    ultimately show ?thesis by (simp add: reloaded_def)
  next
    case True
    have raw: "length (craw_text c) = n" using ok(2) True by (simp add: rows_ok_def)
    have raws: "get_many n get_string (concat (map (put_string []) (craw_text c)) @ r) = Inr (craw_text c, r)" for r
      using stringc.get_many_enc [of "craw_text c" r] ok(3) True raw by (simp add: column_fits_def)
    let ?d0 = "?d\<lparr>craw_text := craw_text c, ctext_terms := replicate n [], cdoc_len := replicate n 0\<rparr>"
    let ?d1 = "foldl load_terms ?d0 [0..<n]"
    have t: "get_column c0 (put_column [] c @ rest) = Inr (size_derived ?d1, rest)"
      unfolding g using True raw len raws by (simp add: get_texts_def u64c.dec_enc)
    have loaded: "texts_loaded ?d0 ?d1 n"
      by (rule load_terms_all) (use cm ok(1) texts_known [OF ok(1,2) True] in \<open>auto simp: dict_ok_def\<close>)
    then obtain ts ls where d1: "?d1 = ?d0\<lparr>ctext_terms := ts, cdoc_len := ls\<rparr>" "length ts = n" "length ls = n"
      "\<forall>i < n. cpresent c ! i \<longrightarrow> distinct (ts ! i) \<and> (\<forall>x \<in> set (ts ! i). unat x < length (cdict c)) \<and>
        (\<lambda>x. cdict c ! unat x) ` set (ts ! i) = set (tokenize_text (craw_text c ! i)) \<and>
        ls ! i = of_nat (length (tokenize_text (craw_text c ! i)))"
      unfolding texts_loaded_def by (elim exE conjE) simp
    have "reloaded c n ?d1 (size_derived ?d1)"
      unfolding d1(1) by (rule size_derived_ok [OF ok(1,2)]) (use ix True cm d1 in simp_all)
    then show ?thesis using t by (simp add: reloaded_def d1(1))
  qed
qed

section \<open>The store is read back\<close>

definition store_fits :: "mstore \<Rightarrow> bool" where
  "store_fits m \<longleftrightarrow> mrows m < 2 ^ 64 \<and> length (mcolumns m) < 2 ^ 64 \<and> (\<forall>c \<in> set (mcolumns m). column_fits c (mrows m)) \<and>
     (\<forall>p \<in> set (mpayloads m). length p < 2 ^ 64)"

lemma get_columns_put:
  assumes "length cs0 = length cs" "\<forall>i < length cs. dict_ok (cs ! i) \<and> rows_ok (cs ! i) n \<and> column_fits (cs ! i) n \<and>
      (cindex (cs0 ! i) \<noteq> None \<longrightarrow> ctype (cs ! i) = Int64 \<or> ctype (cs ! i) = Float64)"
  shows "\<exists>cs'. get_columns cs0 (concat (map (put_column []) cs) @ rest) = Inr (cs', rest) \<and> length cs' = length cs \<and>
    (\<forall>i < length cs. reloaded (cs ! i) n (cs0 ! i) (cs' ! i))"
  using assms
proof (induction cs0 cs rule: list_induct2)
  case (Cons c0 cs0 c cs)
  obtain c' where c: "get_column c0 (put_column [] c @ (concat (map (put_column []) cs) @ rest)) = Inr (c', concat (map (put_column []) cs) @ rest)"
    "reloaded c n c0 c'"
    using get_column_put [of c n c0 "concat (map (put_column []) cs) @ rest"] Cons.prems by force
  have "\<forall>i < length cs. dict_ok (cs ! i) \<and> rows_ok (cs ! i) n \<and> column_fits (cs ! i) n \<and>
      (cindex (cs0 ! i) \<noteq> None \<longrightarrow> ctype (cs ! i) = Int64 \<or> ctype (cs ! i) = Float64)"
    using Cons.prems by force
  from Cons.IH [OF this] obtain cs' where cs: "get_columns cs0 (concat (map (put_column []) cs) @ rest) = Inr (cs', rest)"
    "length cs' = length cs" "\<forall>i < length cs. reloaded (cs ! i) n (cs0 ! i) (cs' ! i)" by blast
  show ?case using c cs by (intro exI [of _ "c' # cs'"]) (simp add: nth_Cons split: nat.split)
qed simp

lemma deserialize_serialize:
  assumes ok: "store_ok schema m L P E" and fits: "store_fits m" and m0: "store_ok schema m0 L0 P0 E0"
  shows "\<exists>m'. deserialize m0 (serialize [] m @ rest) = Inr (m', rest) \<and> loaded_ok schema m' \<and> mrows m' = mrows m \<and>
    (\<forall>r < mrows m. get_row m' r = get_row m r)"
proof -
  note O = store_okD [OF ok] and O0 = store_okD [OF m0]
  let ?cs = "mcolumns m"
  have len: "length (mcolumns m0) = length ?cs" using O(3) O0(3) by simp
  have col: "\<forall>i < length ?cs. dict_ok (?cs ! i) \<and> rows_ok (?cs ! i) (mrows m) \<and> column_fits (?cs ! i) (mrows m) \<and>
      (cindex (mcolumns m0 ! i) \<noteq> None \<longrightarrow> ctype (?cs ! i) = Int64 \<or> ctype (?cs ! i) = Float64)"
  proof (intro allI impI)
    fix i assume i: "i < length ?cs"
    then have s: "i < length schema" using O(3) by simp
    have "cindex (mcolumns m0 ! i) \<noteq> None \<Longrightarrow> ctype (mcolumns m0 ! i) = Int64 \<or> ctype (mcolumns m0 ! i) = Float64"
      using col_invD(1) [OF O0(8) [OF s]] by (simp add: dict_ok_def)
    then have "cindex (mcolumns m0 ! i) \<noteq> None \<longrightarrow> ctype (?cs ! i) = Int64 \<or> ctype (?cs ! i) = Float64"
      using O(9) [OF s] O0(9) [OF s] by simp
    then show "dict_ok (?cs ! i) \<and> rows_ok (?cs ! i) (mrows m) \<and> column_fits (?cs ! i) (mrows m) \<and>
      (cindex (mcolumns m0 ! i) \<noteq> None \<longrightarrow> ctype (?cs ! i) = Int64 \<or> ctype (?cs ! i) = Float64)"
      using col_invD(1,2) [OF O(8) [OF s]] fits i by (simp add: store_fits_def)
  qed
  let ?pay = "word_bytes (of_nat (length (mpayloads m)) :: u64) @ concat (map (put_bytes []) (mpayloads m)) @ rest"
  obtain cs' where cs: "get_columns (mcolumns m0) (concat (map (put_column []) ?cs) @ ?pay) = Inr (cs', ?pay)" "length cs' = length ?cs"
    "\<forall>i < length ?cs. reloaded (?cs ! i) (mrows m) (mcolumns m0 ! i) (cs' ! i)"
    using get_columns_put [OF len col, of ?pay] by blast
  have pay: "get_many (length (mpayloads m)) get_bytes (concat (map (put_bytes []) (mpayloads m)) @ rest) = Inr (mpayloads m, rest)"
    using fits by (intro bytesc.get_many_enc) (simp add: store_fits_def)
  have n: "unat (of_nat (mrows m) :: u64) = mrows m" "unat (of_nat (length ?cs) :: u64) = length ?cs"
    "unat (of_nat (length (mpayloads m)) :: u64) = length (mpayloads m)"
    using fits O(4) by (auto simp: store_fits_def intro!: unat_of_nat_64)
  let ?m = "m0\<lparr>mrows := mrows m, mcolumns := cs', mpayloads := mpayloads m\<rparr>"
  have e: "serialize [] m @ rest = word_bytes (mfingerprint m) @ word_bytes (of_nat (mrows m) :: u64) @ word_bytes (of_nat (length ?cs) :: u64) @
      concat (map (put_column []) ?cs) @ ?pay"
    by (simp add: serialize_def Let_def foldl_put_column foldl_put_bytes put_def)
  have "deserialize m0 (serialize [] m @ rest) = Inr (?m, rest)"
    unfolding e deserialize_def using O(2) O0(2) n cs(1) pay len by (simp add: u64c.dec_enc)
  moreover have "loaded_ok schema ?m"
    using O O0 cs(2,3) by (simp add: loaded_ok_def reloaded_def)
  moreover have "get_row ?m r = get_row m r" if "r < mrows m" for r
    by (rule get_row_cong) (use cs(2,3) that in \<open>simp_all add: reloaded_def\<close>)
  ultimately show ?thesis by (intro exI [of _ ?m]) simp
qed

end
