(* ===== verification/Metadata_Spec.thy ===== *)
theory Metadata_Spec
  imports Metadata_Codec
begin

text \<open>
  What the metadata store promises its client. \<open>store_run\<close> are the states a client that keeps
  the preconditions reaches by operations that do not throw, beside the rows as the client wrote
  them: the store is a refinement of that list of records, and its counts and predicates are
  exact for it.
\<close>

section \<open>Runs\<close>

inductive store_run :: "attr_spec list \<Rightarrow> mstore \<Rightarrow> meta_record list \<Rightarrow> internal_id set \<Rightarrow> internal_id set \<Rightarrow> internal_id set \<Rightarrow> bool"
  for schema where
  run_make: "make_store schema = Inr m \<Longrightarrow> store_run schema m [] {} {} {}"
| run_append: "store_run schema m rows L P E \<Longrightarrow> record_fits m rec \<Longrightarrow> append_row rec m = Some (None, m') \<Longrightarrow>
    store_run schema m' (rows @ [rec]) L (insert (length rows) P) (insert (length rows) E)"
| run_copy: "store_run schema m rows L P E \<Longrightarrow> src < length rows \<Longrightarrow> append_row_copy src m = Some (None, m') \<Longrightarrow>
    store_run schema m' (rows @ [rows ! src]) L (insert (length rows) P) (insert (length rows) E)"
| run_live: "store_run schema m rows L P E \<Longrightarrow> rid \<in> P \<Longrightarrow> rid \<notin> L \<Longrightarrow> mark_live rid m = Some (None, m') \<Longrightarrow>
    store_run schema m' rows (insert rid L) P E"
| run_dead: "store_run schema m rows L P E \<Longrightarrow> rid \<in> L \<Longrightarrow> mark_dead rid m = Some (None, m') \<Longrightarrow>
    store_run schema m' rows (L - {rid}) P E"
| run_set: "store_run schema m rows L P E \<Longrightarrow> record_fits m rec \<Longrightarrow> rid \<in> L \<Longrightarrow> set_row rid rec m = Some (None, m') \<Longrightarrow>
    store_run schema m' (rows[rid := rec]) L (insert rid P) (E - {rid})"
| run_permute: "store_run schema m rows L P E \<Longrightarrow> distinct live \<Longrightarrow> set live = L \<Longrightarrow> permute live m = Some (None, m') \<Longrightarrow>
    store_run schema m' (map ((!) rows) live) {..<length live} {..<length live} {..<length live}"
| run_clear: "store_run schema m rows L P E \<Longrightarrow> store_run schema (clear_rows m) [] {} {} {}"
| run_rebuild: "store_run schema m rows L P E \<Longrightarrow> rebuild_derived_state deleted m = Some (None, m') \<Longrightarrow>
    store_run schema m' rows (live_rows deleted (length rows)) (live_rows deleted (length rows)) {..<length rows}"
| run_load: "store_run schema m rows L P E \<Longrightarrow> store_fits m \<Longrightarrow> make_store schema = Inr m0 \<Longrightarrow>
    deserialize m0 (serialize [] m @ rest) = Inr (m1, rest) \<Longrightarrow> rebuild_derived_state deleted m1 = Some (None, m') \<Longrightarrow>
    store_run schema m' rows (live_rows deleted (length rows)) (live_rows deleted (length rows)) {..<length rows}"

text \<open>The rows of the store read as the records; every live row is posted.\<close>

definition rows_read :: "mstore \<Rightarrow> meta_record list \<Rightarrow> bool" where
  "rows_read m rows \<longleftrightarrow> mrows m = length rows \<and> (\<forall>r < length rows. row_reads_as m r (rows ! r))"

lemma row_reads_cong:
  assumes "get_row m' r' = get_row m r" "length (mcolumns m') = length (mcolumns m)"
  shows "row_reads_as m' r' rec = row_reads_as m r rec"
proof -
  have "\<forall>a < length (mcolumns m). read_attr m' r' a = read_attr m r a"
    using arg_cong [OF assms(1), of attrs] assms(2) by (simp add: get_row_def)
  moreover have "payload (get_row m' r') = payload (get_row m r)" using assms(1) by simp
  ultimately show ?thesis using assms(2) by (simp add: row_reads_as_def)
qed

lemma returnsD: "returns f s err Q \<Longrightarrow> f s = Some (None, s') \<Longrightarrow> Q s'"
  by (auto simp: returns_def)

lemma rows_read_step:
  assumes R: "rows_read m rows" and S: "store_ok schema m L P E" "store_ok schema m' L' P' E'" and n: "mrows m' = length rows'"
    and step: "\<And>r. r < length rows' \<Longrightarrow> row_reads_as m' r (rows' ! r) \<or>
      (\<exists>r0 < length rows. get_row m' r = get_row m r0 \<and> rows' ! r = rows ! r0)"
  shows "store_ok schema m' L' P' E' \<and> rows_read m' rows'"
proof -
  have "row_reads_as m' r (rows' ! r)" if "r < length rows'" for r
    using step [OF that]
  proof (elim disjE exE conjE)
    fix r0 assume r0: "r0 < length rows" "get_row m' r = get_row m r0" "rows' ! r = rows ! r0"
    have "row_reads_as m r0 (rows ! r0)" using R r0(1) by (simp add: rows_read_def)
    then show ?thesis using row_reads_cong [OF r0(2)] store_okD(3) [OF S(1)] store_okD(3) [OF S(2)] r0(3) by simp
  qed
  then show ?thesis using n S(2) by (simp add: rows_read_def)
qed

lemma store_run_ok: "store_run schema m rows L P E \<Longrightarrow> store_ok schema m L P E \<and> rows_read m rows"
proof (induction rule: store_run.induct)
  case (run_make m)
  then show ?case using make_store_ok by (simp add: rows_read_def)
next
  case (run_append m rows L P E rec m')
  then have S: "store_ok schema m L P E" and R: "rows_read m rows" by simp_all
  have n: "mrows m = length rows" using R by (simp add: rows_read_def)
  note D = returnsD [OF append_row_ok [OF S run_append(2)] run_append(3), unfolded n]
  show ?case
  proof (rule rows_read_step [OF R S conjunct1 [OF D]])
    fix r assume "r < length (rows @ [rec])"
    then show "row_reads_as m' r ((rows @ [rec]) ! r) \<or> (\<exists>r0 < length rows. get_row m' r = get_row m r0 \<and> (rows @ [rec]) ! r = rows ! r0)"
      using D by (cases "r = length rows") (simp_all add: nth_append exI [of _ r])
  qed (use D in simp)
next
  case (run_copy m rows L P E src m')
  then have S: "store_ok schema m L P E" and R: "rows_read m rows" by simp_all
  have n: "mrows m = length rows" using R by (simp add: rows_read_def)
  have src: "src < mrows m" using run_copy(2) n by simp
  note D = returnsD [OF append_row_copy_ok [OF S src] run_copy(3), unfolded n]
  show ?case
  proof (rule rows_read_step [OF R S conjunct1 [OF D]])
    fix r assume "r < length (rows @ [rows ! src])"
    then show "row_reads_as m' r ((rows @ [rows ! src]) ! r) \<or>
        (\<exists>r0 < length rows. get_row m' r = get_row m r0 \<and> (rows @ [rows ! src]) ! r = rows ! r0)"
      using D run_copy(2) by (cases "r = length rows") (simp_all add: nth_append exI [of _ r] exI [of _ src])
  qed (use D in simp)
next
  case (run_live m rows L P E rid m')
  then have S: "store_ok schema m L P E" and R: "rows_read m rows" by simp_all
  have rid: "rid < mrows m" using run_live(2) store_okD(6) [OF S] by auto
  note D = returnsD [OF mark_live_ok [OF S rid run_live(3)] run_live(4)]
  show ?case by (rule rows_read_step [OF R S conjunct1 [OF D]]) (use D R in \<open>auto simp: rows_read_def\<close>)
next
  case (run_dead m rows L P E rid m')
  then have S: "store_ok schema m L P E" and R: "rows_read m rows" by simp_all
  note D = returnsD [OF mark_dead_ok [OF S run_dead(2)] run_dead(3)]
  show ?case by (rule rows_read_step [OF R S conjunct1 [OF D]]) (use D R in \<open>auto simp: rows_read_def\<close>)
next
  case (run_set m rows L P E rec rid m')
  then have S: "store_ok schema m L P E" and R: "rows_read m rows" by simp_all
  have n: "mrows m = length rows" using R by (simp add: rows_read_def)
  note D = returnsD [OF set_row_ok [OF S run_set(2,3)] run_set(4), unfolded n]
  show ?case
  proof (rule rows_read_step [OF R S conjunct1 [OF D]])
    fix r assume "r < length (rows[rid := rec])"
    then show "row_reads_as m' r (rows[rid := rec] ! r) \<or> (\<exists>r0 < length rows. get_row m' r = get_row m r0 \<and> rows[rid := rec] ! r = rows ! r0)"
      using D by (cases "r = rid") auto
  qed (use D in simp)
next
  case (run_permute m rows L P E live m')
  then have S: "store_ok schema m L P E" and R: "rows_read m rows" by simp_all
  have live: "live ! i < length rows" if "i < length live" for i
    using that run_permute(3) store_okD(5) [OF S] R nth_mem [OF that] by (auto simp: rows_read_def)
  note D = returnsD [OF permute_ok [OF S run_permute(2,3)] run_permute(4)]
  show ?case
    by (rule rows_read_step [OF R S conjunct1 [OF D]]) (use D live in auto)
next
  case (run_clear m rows L P E)
  then show ?case using clear_rows_ok by (auto simp: rows_read_def)
next
  case (run_rebuild m rows L P E deleted m')
  then have S: "store_ok schema m L P E" and R: "rows_read m rows" by simp_all
  have n: "mrows m = length rows" using R by (simp add: rows_read_def)
  note D = returnsD [OF rebuild_ok [OF store_ok_loaded [OF S]] run_rebuild(2), unfolded n]
  show ?case by (rule rows_read_step [OF R S conjunct1 [OF D]]) (use D R in \<open>auto simp: rows_read_def\<close>)
next
  case (run_load m rows L P E m0 rest m1 deleted m')
  then have S: "store_ok schema m L P E" and R: "rows_read m rows" by simp_all
  have n: "mrows m = length rows" using R by (simp add: rows_read_def)
  obtain m'' where m'': "deserialize m0 (serialize [] m @ rest) = Inr (m'', rest)" "loaded_ok schema m''" "mrows m'' = mrows m"
    "\<forall>r < mrows m. get_row m'' r = get_row m r"
    using deserialize_serialize [OF S run_load(2) make_store_ok(1) [OF run_load(3)]] by blast
  have "m'' = m1" using m''(1) run_load(4) by simp
  note D = returnsD [OF rebuild_ok [OF m''(2), unfolded this] run_load(5)] and eq = m''(3,4) [unfolded this]
  show ?case by (rule rows_read_step [OF R S conjunct1 [OF D, unfolded eq n]]) (use D R eq n in \<open>auto simp: rows_read_def\<close>)
qed

lemma run_posted: "store_run schema m rows L P E \<Longrightarrow> L \<subseteq> P"
  by (induction rule: store_run.induct) auto

section \<open>Values of a row\<close>

definition tag_of :: "meta_record \<Rightarrow> nat \<Rightarrow> bytes option" where
  "tag_of rec a = map_option vtext (attr_at rec a)"

definition raw_of :: "meta_record \<Rightarrow> nat \<Rightarrow> u64 option" where
  "raw_of rec a = map_option raw (attr_at rec a)"

definition terms_of :: "meta_record \<Rightarrow> nat \<Rightarrow> bytes list" where
  "terms_of rec a = (case attr_at rec a of None \<Rightarrow> [] | Some v \<Rightarrow> tokenize_text (vtext v))"

lemma attr_at_not_null: "attr_at rec a = Some v \<Longrightarrow> vtype v \<noteq> Null"
  by (auto simp: attr_at_def split: if_splits)

text \<open>The cells of a column, by the record last written to the row.\<close>

lemma run_cell:
  assumes run: "store_run schema m rows L P E" and a: "a < length schema" and r: "r < length rows"
  defines "c \<equiv> mcolumns m ! a"
  shows "cpresent c ! r \<longleftrightarrow> attr_at (rows ! r) a \<noteq> None"
    and "ctype c = Tag \<Longrightarrow> cpresent c ! r \<Longrightarrow> tag_of (rows ! r) a = Some (cdict c ! unat (cdata c ! r))"
    and "ctype c \<noteq> Tag \<Longrightarrow> ctype c \<noteq> Text \<Longrightarrow> cpresent c ! r \<Longrightarrow> raw_of (rows ! r) a = Some (cdata c ! r)"
    and "ctype c = Text \<Longrightarrow> cpresent c ! r \<Longrightarrow> terms_of (rows ! r) a = tokenize_text (craw_text c ! r)"
proof -
  note S = store_run_ok [OF run]
  note I = col_invD [OF store_okD(8) [OF conjunct1 [OF S] a], folded c_def]
  have len: "a < length (mcolumns m)" using store_okD(3) [OF conjunct1 [OF S]] a by simp
  have rd: "reads_as (attr_at (rows ! r) a) (get_value c r)"
    using S r len by (auto simp: rows_read_def row_reads_as_def read_attr_def c_def)
  have ty: "ctype c \<noteq> Null" using I(1) by (simp add: dict_ok_def)
  show p: "cpresent c ! r \<longleftrightarrow> attr_at (rows ! r) a \<noteq> None"
    using rd ty attr_at_not_null [of "rows ! r" a]
    by (auto simp: reads_as_def get_value_def attr_null_def attr_tag_def attr_text_def split: option.splits if_splits)
  show "ctype c = Tag \<Longrightarrow> cpresent c ! r \<Longrightarrow> tag_of (rows ! r) a = Some (cdict c ! unat (cdata c ! r))"
    using rd p by (auto simp: reads_as_def get_value_def attr_tag_def tag_of_def)
  show "ctype c \<noteq> Tag \<Longrightarrow> ctype c \<noteq> Text \<Longrightarrow> cpresent c ! r \<Longrightarrow> raw_of (rows ! r) a = Some (cdata c ! r)"
    using rd p by (auto simp: reads_as_def get_value_def raw_of_def split: if_splits)
  show "ctype c = Text \<Longrightarrow> cpresent c ! r \<Longrightarrow> terms_of (rows ! r) a = tokenize_text (craw_text c ! r)"
    using rd p by (auto simp: reads_as_def get_value_def attr_text_def terms_of_def)
qed

text \<open>A code in a row, by the string it stands for.\<close>

definition value_in :: "attr_type \<Rightarrow> meta_record \<Rightarrow> nat \<Rightarrow> bytes \<Rightarrow> bool" where
  "value_in t rec a s \<longleftrightarrow> (if t = Text then s \<in> set (terms_of rec a) else tag_of rec a = Some s)"

lemma run_codes:
  assumes run: "store_run schema m rows L P E" and a: "a < length schema" and r: "r < length rows"
    and ty: "attr_kind (schema ! a) = Tag \<or> attr_kind (schema ! a) = Text"
    and k: "ccodes (mcolumns m ! a) s = Some k"
  shows "k \<in> set (row_codes (mcolumns m ! a) r) \<longleftrightarrow> value_in (attr_kind (schema ! a)) (rows ! r) a s"
proof -
  define c where "c = mcolumns m ! a"
  note S = store_run_ok [OF run]
  note I = col_invD [OF store_okD(8) [OF conjunct1 [OF S] a], folded c_def]
  note C = run_cell [OF run a r, folded c_def]
  have ct: "ctype c = attr_kind (schema ! a)" using store_okD(9) [OF conjunct1 [OF S] a] by (simp add: c_def)
  have n: "r < mrows m" using S r by (simp add: rows_read_def)
  have ks: "unat k < length (cdict c)" "cdict c ! unat k = s" using I(1) k by (simp_all add: dict_ok_def c_def)
  have inj: "k' = k" if "unat k' < length (cdict c)" "cdict c ! unat k' = s" for k'
  proof -
    have "ccodes c s = Some k'" using I(1) that by (simp add: dict_ok_def)
    then show ?thesis using k by (simp add: c_def)
  qed
  have cnt: "length (ccount c) = length (cdict c)" using I(1) ct ty by (auto simp: dict_ok_def)
  have rng: "\<forall>k' \<in> set (row_codes c r). unat k' < length (cdict c)" using I(2) n cnt by (simp add: rows_ok_def)
  show ?thesis
  proof (cases "cpresent c ! r")
    case False
    then have "attr_at (rows ! r) a = None" using C(1) by simp
    then show ?thesis using False unfolding c_def [symmetric] by (simp add: row_codes_def value_in_def tag_of_def terms_of_def)
  next
    case p: True
    show ?thesis
    proof (cases "ctype c = Text")
      case True
      have "text_row_ok c r" using I(2) n True by (simp add: rows_ok_def)
      then have e: "(\<lambda>k. cdict c ! unat k) ` set (row_codes c r) = set (terms_of (rows ! r) a)"
        using p True C(4) by (simp add: text_row_ok_def row_codes_def)
      have "k \<in> set (row_codes c r) \<longleftrightarrow> s \<in> (\<lambda>k. cdict c ! unat k) ` set (row_codes c r)"
      proof
        assume "k \<in> set (row_codes c r)"
        then show "s \<in> (\<lambda>k. cdict c ! unat k) ` set (row_codes c r)" using ks(2) by (intro image_eqI [of _ _ k]) simp_all
      next
        assume "s \<in> (\<lambda>k. cdict c ! unat k) ` set (row_codes c r)"
        then obtain k' where k': "k' \<in> set (row_codes c r)" "cdict c ! unat k' = s" by auto
        then have "k' = k" using inj rng by simp
        then show "k \<in> set (row_codes c r)" using k'(1) by simp
      qed
      then show ?thesis using e True ct by (simp add: c_def value_in_def)
    next
      case False
      then have tag: "ctype c = Tag" using ct ty by simp
      have "cell_ok c r" using I(2) n by (simp add: rows_ok_def)
      then have d: "unat (cdata c ! r) = unat (ucast (cdata c ! r) :: u32)"
        using p tag code_in_range(2) [of "ucast (cdata c ! r)"] by (simp add: cell_ok_def)
      define k' :: u32 where "k' = ucast (cdata c ! r)"
      have codes: "row_codes c r = [k']" using p tag by (simp add: row_codes_def k'_def)
      then have "unat k' < length (cdict c)" using rng by simp
      then have "k = k' \<longleftrightarrow> cdict c ! unat k' = s" using inj [of k'] ks(2) by blast
      then have "k \<in> set (row_codes c r) \<longleftrightarrow> cdict c ! unat k' = s" by (simp add: codes)
      also have "unat k' = unat (cdata c ! r)" using d by (simp add: k'_def)
      finally show ?thesis using C(2) [OF tag p] tag ct by (simp add: c_def value_in_def)
    qed
  qed
qed

section \<open>Counts\<close>

lemma run_rows_lt: "store_run schema m rows L P E \<Longrightarrow> r \<in> L \<Longrightarrow> r < length rows"
  using store_okD(5) [OF conjunct1 [OF store_run_ok]] store_run_ok by (fastforce simp: rows_read_def)

lemma run_holders:
  assumes run: "store_run schema m rows L P E" and a: "a < length schema"
    and ty: "attr_kind (schema ! a) = Tag \<or> attr_kind (schema ! a) = Text"
    and k: "tag_code m a s = Some k"
  shows "holders (mcolumns m ! a) L k = {r \<in> L. value_in (attr_kind (schema ! a)) (rows ! r) a s}"
proof -
  have k': "ccodes (mcolumns m ! a) s = Some k" using k by (simp add: tag_code_def)
  show ?thesis using run_codes [OF run a _ ty k'] run_rows_lt [OF run] by (auto simp: holders_def)
qed

lemma run_uncoded:
  assumes run: "store_run schema m rows L P E" and a: "a < length schema"
    and ty: "attr_kind (schema ! a) = Tag \<or> attr_kind (schema ! a) = Text"
    and k: "tag_code m a s = None" and r: "r < length rows"
  shows "\<not> value_in (attr_kind (schema ! a)) (rows ! r) a s"
proof
  assume v: "value_in (attr_kind (schema ! a)) (rows ! r) a s"
  define c where "c = mcolumns m ! a"
  note S = store_run_ok [OF run]
  note I = col_invD [OF store_okD(8) [OF conjunct1 [OF S] a], folded c_def]
  note C = run_cell [OF run a r, folded c_def]
  have ct: "ctype c = attr_kind (schema ! a)" using store_okD(9) [OF conjunct1 [OF S] a] by (simp add: c_def)
  have n: "r < mrows m" using S r by (simp add: rows_read_def)
  have none: "ccodes c s = None" using k by (simp add: tag_code_def c_def)
  have absent: "s \<noteq> cdict c ! unat j" if "unat j < length (cdict c)" for j :: u32
  proof
    assume "s = cdict c ! unat j"
    then have "ccodes c s = Some j" using I(1) that by (simp add: dict_ok_def)
    then show False using none by simp
  qed
  have cnt: "length (ccount c) = length (cdict c)" using I(1) ct ty by (auto simp: dict_ok_def)
  have rng: "\<forall>k' \<in> set (row_codes c r). unat k' < length (cdict c)" using I(2) n cnt by (simp add: rows_ok_def)
  have p: "cpresent c ! r" using v C(1) by (auto simp: value_in_def terms_of_def tag_of_def split: if_splits)
  show False
  proof (cases "ctype c = Text")
    case True
    have "text_row_ok c r" using I(2) n True by (simp add: rows_ok_def)
    then have "s \<in> (\<lambda>k. cdict c ! unat k) ` set (row_codes c r)"
      using p True C(4) v ct by (simp add: text_row_ok_def row_codes_def value_in_def)
    then show False using absent rng by auto
  next
    case False
    then have tag: "ctype c = Tag" using ct ty by simp
    have "cell_ok c r" using I(2) n by (simp add: rows_ok_def)
    then have d: "unat (cdata c ! r) = unat (ucast (cdata c ! r) :: u32)"
      using p tag code_in_range(2) [of "ucast (cdata c ! r)"] by (simp add: cell_ok_def)
    have "unat (ucast (cdata c ! r) :: u32) < length (cdict c)" using rng p tag by (simp add: row_codes_def)
    then show False using absent C(2) [OF tag p] v tag ct d by (auto simp: value_in_def)
  qed
qed

text \<open>
  C32: the store is a list of rows. Whatever operations a client runs, reading a row gives the
  attributes and the payload last written to it, whatever was copied, renumbered or deleted in
  between, and the row count is the number of rows.
\<close>

theorem store_refines_rows:
  assumes "store_run schema m rows L P E"
  shows "mrows m = length rows \<and> (\<forall>r < length rows. row_reads_as m r (rows ! r))"
  using store_run_ok [OF assms] by (simp add: rows_read_def)

text \<open>
  C35: the live count of a tag or of a term is exact after any run: it is the number, modulo
  \<open>2 ^ 32\<close>, of live rows that hold the tag or contain the term; a string without a code is in
  no row.
\<close>

theorem live_count_exact:
  assumes "store_run schema m rows L P E" and "a < length schema"
    and "attr_kind (schema ! a) = Tag \<or> attr_kind (schema ! a) = Text"
  shows "case tag_code m a s of
      Some code \<Rightarrow> live_count m a code = of_nat (card {r \<in> L. value_in (attr_kind (schema ! a)) (rows ! r) a s})
    | None \<Rightarrow> \<forall>r < length rows. \<not> value_in (attr_kind (schema ! a)) (rows ! r) a s"
proof (cases "tag_code m a s")
  case None
  then show ?thesis using run_uncoded [OF assms None] by simp
next
  case (Some k)
  note S = store_run_ok [OF assms(1)]
  note I = col_invD [OF store_okD(8) [OF conjunct1 [OF S] assms(2)]]
  have ct: "ctype (mcolumns m ! a) = attr_kind (schema ! a)" using store_okD(9) [OF conjunct1 [OF S] assms(2)] .
  have "unat k < length (ccount (mcolumns m ! a))" using I(1) Some ct assms(3) by (auto simp: dict_ok_def tag_code_def)
  then show ?thesis
    using Some I(6) run_holders [OF assms Some] by (simp add: counts_ok_def live_count_def code_count_def)
qed

section \<open>Predicates\<close>

text \<open>What an equality predicate and a range predicate mean for a record.\<close>

definition eq_matches :: "attr_type \<Rightarrow> meta_record \<Rightarrow> nat \<Rightarrow> attr_value \<Rightarrow> bool" where
  "eq_matches t rec a v \<longleftrightarrow> (if t = Tag then tag_of rec a = Some (vtext v)
     else raw_of rec a = Some (if raw v \<noteq> 0 then 1 else 0))"

text \<open>
  A range is one of values: a double that is a NaN lies in none, and \<open>-0.0\<close> and \<open>+0.0\<close> are equal.
  The ordered index compares keys, under which \<open>-0.0\<close> comes before \<open>+0.0\<close>: a row with a zero of
  the other sign than a bound of zero may be passed over.
\<close>

definition value_le :: "attr_type \<Rightarrow> u64 \<Rightarrow> u64 \<Rightarrow> bool" where
  "value_le t x y \<longleftrightarrow> (if t = Int64 then sint x \<le> sint y
     else \<not> double_is_nan x \<and> \<not> double_is_nan y \<and> double_value x \<le> double_value y)"

definition in_bounds :: "attr_type \<Rightarrow> meta_record \<Rightarrow> nat \<Rightarrow> attr_value \<Rightarrow> attr_value \<Rightarrow> bool" where
  "in_bounds t rec a lo hi \<longleftrightarrow> (case raw_of rec a of None \<Rightarrow> False
     | Some x \<Rightarrow> value_le t (raw lo) x \<and> value_le t x (raw hi))"

definition zero_passed :: "attr_type \<Rightarrow> meta_record \<Rightarrow> nat \<Rightarrow> attr_value \<Rightarrow> attr_value \<Rightarrow> bool" where
  "zero_passed t rec a lo hi \<longleftrightarrow> t = Float64 \<and>
     (raw_of rec a = Some minus_zero \<and> raw lo = 0 \<or> raw_of rec a = Some 0 \<and> raw hi = minus_zero)"

definition key_le :: "attr_type \<Rightarrow> u64 \<Rightarrow> u64 \<Rightarrow> bool" where
  "key_le t x y \<longleftrightarrow> (if t = Int64 then sint x \<le> sint y
     else \<not> (double_value y < double_value x \<or> (y = minus_zero \<and> x = 0)))"

lemma nan_outside:
  assumes "double_is_nan x" and "\<not> double_is_nan y"
  shows "if sign_bit x then double_value x < double_value y else double_value y < double_value x"
  using assms unfolding double_value_le_iff double_is_nan_def by auto

lemma key_range:
  assumes "t = Float64 \<longrightarrow> \<not> double_is_nan lo \<and> \<not> double_is_nan hi" and "t = Int64 \<or> t = Float64"
  shows "key_le t lo x \<and> key_le t x hi \<longleftrightarrow> value_le t lo x \<and> value_le t x hi \<and>
    \<not> (t = Float64 \<and> (x = minus_zero \<and> lo = 0 \<or> x = 0 \<and> hi = minus_zero))"
proof (cases "t = Int64")
  case False
  then have t: "t = Float64" using assms(2) by simp
  have "double_value x < double_value lo \<or> double_value hi < double_value x" if "double_is_nan x"
    using nan_outside [OF that, of lo] nan_outside [OF that, of hi] assms(1) t by (auto split: if_splits)
  then show ?thesis using assms(1) t by (auto simp: key_le_def value_le_def not_less)
qed (simp add: key_le_def value_le_def)

lemma posting_match:
  assumes run: "store_run schema m rows L P E" and a: "a < length schema"
    and ty: "attr_kind (schema ! a) = Tag \<or> attr_kind (schema ! a) = Bool" and r: "r < length rows"
    and k: "if attr_kind (schema ! a) = Tag then tag_code m a (vtext v) = Some k else k = (if raw v \<noteq> 0 then 1 else 0)"
  shows "k \<in> set (row_codes (mcolumns m ! a) r) \<longleftrightarrow> eq_matches (attr_kind (schema ! a)) (rows ! r) a v"
proof (cases "attr_kind (schema ! a) = Tag")
  case True
  then show ?thesis using run_codes [OF run a r] k by (simp add: eq_matches_def value_in_def tag_code_def)
next
  case False
  define c where "c = mcolumns m ! a"
  note S = store_run_ok [OF run]
  note I = col_invD [OF store_okD(8) [OF conjunct1 [OF S] a], folded c_def]
  have ct: "ctype c = Bool" using store_okD(9) [OF conjunct1 [OF S] a] ty False by (simp add: c_def)
  have n: "r < mrows m" using S r by (simp add: rows_read_def)
  have k: "k = (if raw v \<noteq> 0 then 1 else 0)" using k False by simp
  note C = run_cell [OF run a r, folded c_def]
  show ?thesis
  proof (cases "cpresent c ! r")
    case p: True
    have "cell_ok c r" using I(2) n by (simp add: rows_ok_def)
    then have e: "ucast (ucast (cdata c ! r) :: u32) = cdata c ! r" using p ct by (simp add: cell_ok_def)
    have "k = ucast (cdata c ! r) \<longleftrightarrow> cdata c ! r = (if raw v \<noteq> 0 then 1 else 0)"
    proof
      assume "k = ucast (cdata c ! r)"
      then have "cdata c ! r = ucast k" using e by simp
      then show "cdata c ! r = (if raw v \<noteq> 0 then 1 else 0)" by (simp add: k)
    next
      assume "cdata c ! r = (if raw v \<noteq> 0 then 1 else 0)"
      then show "k = ucast (cdata c ! r)" by (simp add: k)
    qed
    then show ?thesis using p ct C(3) ty False by (simp add: row_codes_def eq_matches_def c_def)
  next
    case p: False
    then have "attr_at (rows ! r) a = None" using C(1) by simp
    then show ?thesis using p False unfolding c_def [symmetric] by (simp add: row_codes_def eq_matches_def raw_of_def)
  qed
qed

lemma resolve_eq_ids:
  assumes run: "store_run schema m rows L P E" and a: "a < length schema"
    and ty: "attr_kind (schema ! a) = Tag \<or> attr_kind (schema ! a) = Bool" and v: "vtype v = attr_kind (schema ! a)"
    and live: "\<forall>r. is_live deleted r \<longleftrightarrow> r \<in> L"
  shows "\<exists>ids. resolve m (pred_eq a v) deleted = Some (Inr \<lparr>rpredicate = pred_eq a v, allowlist = Some ids\<rparr>) \<and>
    set ids \<subseteq> L \<and> {r \<in> L. eq_matches (attr_kind (schema ! a)) (rows ! r) a v} \<subseteq> set ids \<and>
    (\<forall>r \<in> set ids. r \<in> E \<longrightarrow> eq_matches (attr_kind (schema ! a)) (rows ! r) a v)"
proof -
  define c where "c = mcolumns m ! a"
  note S = store_run_ok [OF run]
  note I = col_invD [OF store_okD(8) [OF conjunct1 [OF S] a], folded c_def]
  have ct: "ctype c = attr_kind (schema ! a)" using store_okD(9) [OF conjunct1 [OF S] a] by (simp add: c_def)
  have LP: "L \<subseteq> P" by (rule run_posted [OF run])
  show ?thesis
  proof (cases "attr_kind (schema ! a) = Tag \<and> tag_code m a (vtext v) = None")
    case True
    then have "resolve m (pred_eq a v) deleted = Some (Inr \<lparr>rpredicate = pred_eq a v, allowlist = Some []\<rparr>)"
      using ct v by (simp add: resolve_def pred_eq_def c_def)
    moreover have "\<not> eq_matches (attr_kind (schema ! a)) (rows ! r) a v" if "r \<in> L" for r
      using run_uncoded [OF run a _ conjunct2 [OF True] run_rows_lt [OF run that]] True
      by (simp add: value_in_def eq_matches_def)
    ultimately show ?thesis by auto
  next
    case False
    define k :: u32 where "k = (if attr_kind (schema ! a) = Tag then the (tag_code m a (vtext v)) else if raw v \<noteq> 0 then 1 else 0)"
    have k: "if attr_kind (schema ! a) = Tag then tag_code m a (vtext v) = Some k else k = (if raw v \<noteq> 0 then 1 else 0)"
      using False by (auto simp: k_def)
    have rng: "unat k < length (cpostings c)"
    proof (cases "attr_kind (schema ! a) = Tag")
      case True
      then show ?thesis using k I(1) ct by (auto simp: dict_ok_def tag_code_def c_def)
    next
      case False
      then show ?thesis using k I(1) ct ty by (auto simp: dict_ok_def)
    qed
    let ?ids = "filter (is_live deleted) (cpostings c ! unat k)"
    have "resolve m (pred_eq a v) deleted = Some (Inr \<lparr>rpredicate = pred_eq a v, allowlist = Some ?ids\<rparr>)"
      using ct v ty k rng by (auto simp: resolve_def pred_eq_def c_def [symmetric] row_postings_def code_postings_def Let_def split: if_splits)
    moreover have "set ?ids \<subseteq> L" using live by auto
    moreover have "{r \<in> L. eq_matches (attr_kind (schema ! a)) (rows ! r) a v} \<subseteq> set ?ids"
    proof
      fix r assume r: "r \<in> {r \<in> L. eq_matches (attr_kind (schema ! a)) (rows ! r) a v}"
      then have "k \<in> set (row_codes c r)"
        using posting_match [OF run a ty run_rows_lt [OF run] k] by (simp add: c_def)
      then show "r \<in> set ?ids" using r I(8) LP live by (auto simp: posts_ok_def)
    qed
    moreover have "eq_matches (attr_kind (schema ! a)) (rows ! r) a v" if "r \<in> set ?ids" "r \<in> E" for r
    proof -
      have "k \<in> set (row_codes c r)" using that I(8) rng by (simp add: posts_ok_def)
      moreover have "r \<in> L" using that live by simp
      ultimately show ?thesis using posting_match [OF run a ty run_rows_lt [OF run] k] by (simp add: c_def)
    qed
    ultimately show ?thesis by blast
  qed
qed

text \<open>
  C34: an equality predicate resolves to an allowlist with every live row that holds the value,
  and with no other row that has not been overwritten since the postings were built; on a store
  without overwrites the allowlist is exact.
\<close>

theorem resolve_eq_complete:
  assumes "store_run schema m rows L P E" and "a < length schema"
    and "attr_kind (schema ! a) = Tag \<or> attr_kind (schema ! a) = Bool" and "vtype v = attr_kind (schema ! a)"
    and "\<forall>r. is_live deleted r \<longleftrightarrow> r \<in> L"
  shows "\<exists>ids. resolve m (pred_eq a v) deleted = Some (Inr \<lparr>rpredicate = pred_eq a v, allowlist = Some ids\<rparr>) \<and>
    set ids \<subseteq> L \<and> {r \<in> L. eq_matches (attr_kind (schema ! a)) (rows ! r) a v} \<subseteq> set ids \<and>
    (\<forall>r \<in> set ids. r \<in> E \<longrightarrow> eq_matches (attr_kind (schema ! a)) (rows ! r) a v)"
  by (rule resolve_eq_ids [OF assms])

lemma sortable_le:
  "sortable_bits_int x \<le> sortable_bits_int y \<longleftrightarrow> key_le Int64 x y"
  "sortable_bits_double x \<le> sortable_bits_double y \<longleftrightarrow> key_le Float64 x y"
  using sortable_bits_int_less [of y x] sortable_bits_double_less [of y x] by (auto simp: key_le_def not_less [symmetric])

lemma mset_set_list: "finite X \<Longrightarrow> mset xs = mset_set X \<Longrightarrow> distinct xs \<and> set xs = X"
  by (metis distinct_count_atmost_1 count_mset_set(1,3) finite_set_mset_mset_set set_mset_mset)

lemma range_rows:
  assumes inv: "col_inv c n L L P E" and t: "cindex c = Some t"
  shows "\<exists>ids. column_range c lo hi = Some ids \<and> distinct ids \<and> sorted (map (sortable_key c) ids) \<and>
    set ids = {r \<in> L. cpresent c ! r \<and> lo \<le> sortable_key c r \<and> sortable_key c r \<le> hi}"
proof -
  note I = col_invD [OF inv]
  let ?e = "\<lambda>r. (sortable_key c r, r)"
  let ?X = "{r \<in> present_in c L. lo \<le> sortable_key c r \<and> sortable_key c r \<le> hi}"
  have ok: "bt_ok t" and con: "mset (bt_contents t) = image_mset ?e (mset_set (present_in c L))"
    using I(7) t by (auto simp: index_ok_def)
  obtain es where es: "bt_range t lo hi = Some es" using bt.rng_ok [OF ok] by blast
  note R = bt.rng_sound_complete [OF ok es]
  have fin: "finite ?X" using I(9) by simp
  have m: "mset es = image_mset ?e (mset_set ?X)"
    using R con I(9) by (simp add: filter_mset_image_mset filter_mset_mset_set)
  have "set_mset (mset es) = ?e ` ?X" unfolding m using fin by simp
  then have el: "e \<in> set es \<Longrightarrow> e = ?e (snd e)" for e by auto
  let ?ids = "map snd es"
  have "mset ?ids = mset_set ?X" using m by (simp add: multiset.map_comp comp_def)
  then have ids: "distinct ?ids" "set ?ids = ?X" using mset_set_list [OF fin] by blast+
  have "map fst es = map (sortable_key c) ?ids" using el by simp (metis fst_conv)
  then have "sorted (map (sortable_key c) ?ids)" using R by metis
  moreover have "?X = {r \<in> L. cpresent c ! r \<and> lo \<le> sortable_key c r \<and> sortable_key c r \<le> hi}"
    by (auto simp: present_in_def)
  ultimately show ?thesis using ids es t by (intro exI [of _ ?ids]) (simp add: column_range_def)
qed

lemma resolve_range_complete:
  assumes "store_run schema m rows L P E" and "a < length schema" and "indexed (schema ! a)"
    and "attr_kind (schema ! a) = Int64 \<or> attr_kind (schema ! a) = Float64"
    and "vtype lo = attr_kind (schema ! a)" and "vtype hi = attr_kind (schema ! a)"
    and "attr_kind (schema ! a) = Float64 \<longrightarrow> \<not> double_is_nan (raw lo) \<and> \<not> double_is_nan (raw hi)"
  shows "\<exists>ids. resolve m (pred_range a lo hi) deleted = Some (Inr \<lparr>rpredicate = pred_range a lo hi, allowlist = Some ids\<rparr>) \<and>
    distinct ids \<and> set ids = {r \<in> L. in_bounds (attr_kind (schema ! a)) (rows ! r) a lo hi \<and> \<not> zero_passed (attr_kind (schema ! a)) (rows ! r) a lo hi} \<and>
    sorted_wrt (\<lambda>x y. value_le (attr_kind (schema ! a)) (the (raw_of (rows ! x) a)) (the (raw_of (rows ! y) a))) ids"
proof -
  define c where "c = mcolumns m ! a"
  define ty where "ty = attr_kind (schema ! a)"
  note S = store_run_ok [OF assms(1)]
  note inv = store_okD(8) [OF conjunct1 [OF S] assms(2), folded c_def]
  have ct: "ctype c = ty" using store_okD(9) [OF conjunct1 [OF S] assms(2)] by (simp add: c_def ty_def)
  have num: "ty = Int64 \<or> ty = Float64" using assms(4) by (simp add: ty_def)
  obtain t where t: "cindex c = Some t" using store_okD(10) [OF conjunct1 [OF S] assms(2)] assms(3) by (auto simp: c_def)
  let ?key = "\<lambda>x. if ty = Int64 then sortable_bits_int x else sortable_bits_double x"
  have le: "?key x \<le> ?key y \<longleftrightarrow> key_le ty x y" for x y using sortable_le num by auto
  have key: "sortable_key c r = ?key (cdata c ! r)" for r by (simp add: sortable_key_def ct)
  obtain ids where ids: "column_range c (?key (raw lo)) (?key (raw hi)) = Some ids" "distinct ids" "sorted (map (sortable_key c) ids)"
    "set ids = {r \<in> L. cpresent c ! r \<and> ?key (raw lo) \<le> sortable_key c r \<and> sortable_key c r \<le> ?key (raw hi)}"
    using range_rows [OF inv t] by blast
  have cell: "cpresent c ! r \<longleftrightarrow> raw_of (rows ! r) a \<noteq> None" "cpresent c ! r \<Longrightarrow> raw_of (rows ! r) a = Some (cdata c ! r)"
    if "r \<in> L" for r
    using run_cell [OF assms(1,2) run_rows_lt [OF assms(1) that], folded c_def] ct num by (auto simp: raw_of_def)
  note kr = key_range [OF assms(7) [folded ty_def] num]
  have one: "cpresent c ! r \<and> ?key (raw lo) \<le> sortable_key c r \<and> sortable_key c r \<le> ?key (raw hi) \<longleftrightarrow>
      in_bounds ty (rows ! r) a lo hi \<and> \<not> zero_passed ty (rows ! r) a lo hi" if "r \<in> L" for r
    unfolding key le kr using cell [OF that] by (cases "cpresent c ! r") (auto simp: in_bounds_def zero_passed_def)
  then have set: "set ids = {r \<in> L. in_bounds ty (rows ! r) a lo hi \<and> \<not> zero_passed ty (rows ! r) a lo hi}"
    unfolding ids(4) by blast
  have "sorted_wrt (\<lambda>x y. value_le ty (the (raw_of (rows ! x) a)) (the (raw_of (rows ! y) a))) ids"
  proof (rule sorted_wrt_mono_rel [of _ "\<lambda>x y. sortable_key c x \<le> sortable_key c y"])
    show "sorted_wrt (\<lambda>x y. sortable_key c x \<le> sortable_key c y) ids" using ids(3) by (simp add: sorted_wrt_map)
    fix x y assume "x \<in> set ids" "y \<in> set ids" "sortable_key c x \<le> sortable_key c y"
    then have "key_le ty (cdata c ! x) (cdata c ! y)" "raw_of (rows ! x) a = Some (cdata c ! x)" "raw_of (rows ! y) a = Some (cdata c ! y)"
      and "in_bounds ty (rows ! x) a lo hi" "in_bounds ty (rows ! y) a lo hi"
      using cell(2) [of x] cell(2) [of y] ids(4) le set by (auto simp: key)
    then have "value_le ty (cdata c ! x) (cdata c ! y)" using num by (auto simp: key_le_def value_le_def in_bounds_def not_less)
    then have "value_le ty (the (raw_of (rows ! x) a)) (the (raw_of (rows ! y) a))" using \<open>raw_of (rows ! x) a = _\<close> \<open>raw_of (rows ! y) a = _\<close> by simp
    then show "value_le ty (the (raw_of (rows ! x) a)) (the (raw_of (rows ! y) a))" by simp
  qed
  moreover have "resolve m (pred_range a lo hi) deleted = Some (Inr \<lparr>rpredicate = pred_range a lo hi, allowlist = Some ids\<rparr>)"
    using ct num t ids(1) assms(5,6) by (auto simp: resolve_def pred_range_def c_def [symmetric] ty_def [symmetric] Let_def)
  ultimately show ?thesis using set ids(2) by (auto simp: ty_def [symmetric])
qed

text \<open>
  C33: a range predicate on an indexed attribute, with bounds that are no NaN, resolves to exactly
  the live rows whose value lies between the bounds, each once and in ascending order, whatever
  inserts, deletes and overwrites went before; except that of two zeros of a double, equal as
  values, a row with \<open>-0.0\<close> is passed over when the lower bound is \<open>+0.0\<close>, and one with \<open>+0.0\<close> when
  the upper bound is \<open>-0.0\<close>. Rows that hold a NaN are never among them.
\<close>

theorem resolve_range_exact:
  assumes "store_run schema m rows L P E" and "a < length schema" and "indexed (schema ! a)"
    and "attr_kind (schema ! a) = Int64 \<or> attr_kind (schema ! a) = Float64"
    and "vtype lo = attr_kind (schema ! a)" and "vtype hi = attr_kind (schema ! a)"
    and "attr_kind (schema ! a) = Float64 \<longrightarrow> \<not> double_is_nan (raw lo) \<and> \<not> double_is_nan (raw hi)"
  shows "\<exists>ids. resolve m (pred_range a lo hi) deleted = Some (Inr \<lparr>rpredicate = pred_range a lo hi, allowlist = Some ids\<rparr>) \<and>
    distinct ids \<and> set ids = {r \<in> L. in_bounds (attr_kind (schema ! a)) (rows ! r) a lo hi \<and> \<not> zero_passed (attr_kind (schema ! a)) (rows ! r) a lo hi} \<and>
    sorted_wrt (\<lambda>x y. value_le (attr_kind (schema ! a)) (the (raw_of (rows ! x) a)) (the (raw_of (rows ! y) a))) ids"
  by (rule resolve_range_complete [OF assms])

section \<open>A concrete run\<close>

definition demo_schema :: "attr_spec list" where
  "demo_schema = [\<lparr>attr_name = [0x63], attr_kind = Tag, indexed = False\<rparr>]"

definition demo_record :: "bytes \<Rightarrow> meta_record" where
  "demo_record s = \<lparr>attrs = [attr_tag s], payload = [7]\<rparr>"

definition after_op :: "mstore action \<Rightarrow> mstore \<Rightarrow> mstore" where
  "after_op f m = snd (the (f m))"

definition demo0 :: mstore where
  "demo0 = \<lparr>mschema = demo_schema, mcolumns = map new_column demo_schema, mpayloads = [], mrows = 0,
     mfingerprint = compute_fingerprint demo_schema\<rparr>"

definition demo1 :: mstore where "demo1 = after_op (append_row (demo_record [1])) demo0"
definition demo2 :: mstore where "demo2 = after_op (mark_live 0) demo1"
definition demo3 :: mstore where "demo3 = after_op (set_row 0 (demo_record [2])) demo2"

lemma after_op: "map_option fst (f m) = Some None \<Longrightarrow> f m = Some (None, after_op f m)"
  by (auto simp: after_op_def)

lemma demo_steps:
  "map_option fst (append_row (demo_record [1]) demo0) = Some None" "map_option fst (mark_live 0 demo1) = Some None"
  "map_option fst (set_row 0 (demo_record [2]) demo2) = Some None"
  by code_simp+

lemma demo_fits: "record_fits demo0 (demo_record [1])" "record_fits demo2 (demo_record [2])"
proof -
  have "length (mcolumns demo0) = 1" "length (mcolumns demo2) = 1" "ctype (mcolumns demo0 ! 0) = Tag" "ctype (mcolumns demo2 ! 0) = Tag"
    "length (cdict (mcolumns demo0 ! 0)) = 0" "length (cdict (mcolumns demo2 ! 0)) = 1"
    "validate (mschema demo0) (demo_record [1]) = None" "validate (mschema demo2) (demo_record [2]) = None"
    by code_simp+
  then show "record_fits demo0 (demo_record [1])" "record_fits demo2 (demo_record [2])"
    by (auto simp: record_fits_def value_fits_def demo_record_def attr_at_def attr_tag_def)
qed

lemma demo_run:
  "store_run demo_schema demo2 [demo_record [1]] {0} {0} {0}"
  "store_run demo_schema demo3 [demo_record [2]] {0} {0} {}"
proof -
  have "make_store demo_schema = Inr demo0" by (simp add: make_store_def demo0_def check_schema_def demo_schema_def)
  from run_append [OF run_make [OF this] demo_fits(1) after_op [of "append_row (demo_record [1])" demo0, OF demo_steps(1)]]
  have 1: "store_run demo_schema demo1 [demo_record [1]] {} {0} {0}" by (simp add: demo1_def)
  from run_live [OF 1 _ _ after_op [of "mark_live 0" demo1, OF demo_steps(2)]]
  show 2: "store_run demo_schema demo2 [demo_record [1]] {0} {0} {0}" by (simp add: demo2_def)
  from run_set [OF 2 demo_fits(2) _ after_op [of "set_row 0 (demo_record [2])" demo2, OF demo_steps(3)]]
  show "store_run demo_schema demo3 [demo_record [2]] {0} {0} {}" by (simp add: demo3_def)
qed

text \<open>
  An equality predicate is not exact after an overwrite: the row now holding the tag \<open>2\<close> is
  still in the allowlist of the tag \<open>1\<close>, because \<open>resolve\<close> filters the postings by liveness only.
\<close>

lemma resolve_eq_stale:
  "store_run demo_schema demo3 [demo_record [2]] {0} {0} {} \<and>
   map_option (map_sum (\<lambda>_. ()) allowlist) (resolve demo3 (pred_eq 0 (attr_tag [1])) [False]) = Some (Inr (Some [0])) \<and>
   vtext (read_attr demo3 0 0) = [2]"
proof -
  have "map_option (map_sum (\<lambda>_. ()) allowlist) (resolve demo3 (pred_eq 0 (attr_tag [1])) [False]) = Some (Inr (Some [0]))"
    by code_simp
  moreover have "vtext (read_attr demo3 0 0) = [2]" by code_simp
  ultimately show ?thesis using demo_run by blast
qed

theorem store_refines_rows_witness: "mrows demo3 = 1 \<and> row_reads_as demo3 0 (demo_record [2])"
  using store_refines_rows [OF demo_run(2)] by simp

theorem live_count_exact_witness: "live_count demo3 0 1 = 1"
proof -
  have "{r \<in> {0}. value_in (attr_kind (demo_schema ! 0)) ([demo_record [2]] ! r) 0 [2]} = {0}"
    by (auto simp: demo_schema_def value_in_def tag_of_def attr_at_def demo_record_def attr_tag_def)
  moreover have "tag_code demo3 0 [2] = Some 1" by code_simp
  moreover have "0 < length demo_schema" "attr_kind (demo_schema ! 0) = Tag \<or> attr_kind (demo_schema ! 0) = Text"
    by (simp_all add: demo_schema_def)
  ultimately show ?thesis using live_count_exact [OF demo_run(2), of 0 "[2]"] by simp
qed

theorem resolve_eq_complete_witness:
  "\<exists>ids. resolve demo2 (pred_eq 0 (attr_tag [1])) [False] = Some (Inr \<lparr>rpredicate = pred_eq 0 (attr_tag [1]), allowlist = Some ids\<rparr>) \<and>
     set ids = {0}"
proof -
  have live: "\<forall>r. is_live [False] r \<longleftrightarrow> r \<in> {0}" by (auto simp: is_live_def)
  have "0 < length demo_schema" "attr_kind (demo_schema ! 0) = Tag \<or> attr_kind (demo_schema ! 0) = Bool"
    "vtype (attr_tag [1]) = attr_kind (demo_schema ! 0)" by (simp_all add: demo_schema_def attr_tag_def)
  from resolve_eq_complete [OF demo_run(1) this live] obtain ids where
    "resolve demo2 (pred_eq 0 (attr_tag [1])) [False] = Some (Inr \<lparr>rpredicate = pred_eq 0 (attr_tag [1]), allowlist = Some ids\<rparr>)"
    "set ids \<subseteq> {0}" "{r \<in> {0}. eq_matches (attr_kind (demo_schema ! 0)) ([demo_record [1]] ! r) 0 (attr_tag [1])} \<subseteq> set ids" by blast
  moreover have "{r \<in> {0}. eq_matches (attr_kind (demo_schema ! 0)) ([demo_record [1]] ! r) 0 (attr_tag [1])} = {0}"
    by (auto simp: demo_schema_def eq_matches_def tag_of_def attr_at_def demo_record_def attr_tag_def)
  ultimately show ?thesis by blast
qed

definition demo_index_schema :: "attr_spec list" where
  "demo_index_schema = [\<lparr>attr_name = [0x6E], attr_kind = Int64, indexed = True\<rparr>]"

definition demo_int :: "u64 \<Rightarrow> meta_record" where
  "demo_int x = \<lparr>attrs = [attr_int x], payload = []\<rparr>"

definition demo_index0 :: mstore where
  "demo_index0 = \<lparr>mschema = demo_index_schema, mcolumns = map new_column demo_index_schema, mpayloads = [], mrows = 0,
     mfingerprint = compute_fingerprint demo_index_schema\<rparr>"

definition demo4 :: mstore where "demo4 = after_op (append_row (demo_int 5)) demo_index0"
definition demo5 :: mstore where "demo5 = after_op (mark_live 0) demo4"

lemma fresh_index_insert: "\<exists>t. bt_insert fresh_index k v = Some (None, t)"
proof -
  note F = make_btree_ok [OF fresh_index_made]
  have "bt_ok fresh_index" "bt_height fresh_index = Some 1" "length (nodes fresh_index) + 1 + 1 < max_nodes fresh_index"
    using F by (auto simp: fresh_index_def)
  from bt_insert_room [OF this] show ?thesis by blast
qed

lemma demo4_eq: "append_row (demo_int 5) demo_index0 = Some (None, demo4)"
  "demo4 = demo_index0\<lparr>mcolumns := [(new_column (hd demo_index_schema))\<lparr>cdata := [5], cpresent := [True]\<rparr>], mpayloads := [[]], mrows := 1\<rparr>"
  by (simp_all add: demo4_def after_op_def append_row_def checked_def validate_def demo_int_def demo_index_schema_def attr_int_def attr_at_def new_column_def
      each_column_def on_column_def upd_def and_then_def append_value_def add_posting_def demo_index0_def)

lemma mark_live_single:
  "mcolumns m = [c] \<Longrightarrow> adjust_index True rid (adjust_count True rid c) = Some (None, c') \<Longrightarrow> mark_live rid m = Some (None, m\<lparr>mcolumns := [c']\<rparr>)"
  by (simp add: mark_live_def each_column_def on_column_def upd_def and_then_def)

lemma demo5_eq:
  obtains t where "mark_live 0 demo4 = Some (None, demo5)" "demo5 = demo4\<lparr>mcolumns := [(hd (mcolumns demo4))\<lparr>cindex := Some t\<rparr>]\<rparr>"
proof -
  let ?c = "(new_column (hd demo_index_schema))\<lparr>cdata := [5], cpresent := [True]\<rparr>"
  have c: "mcolumns demo4 = [?c]" by (simp add: demo4_eq(2))
  obtain t where t: "bt_insert fresh_index (sortable_bits_int 5) 0 = Some (None, t)" using fresh_index_insert by blast
  have f: "ctype ?c = Int64" "cindex ?c = Some fresh_index" "cpresent ?c ! 0" "sortable_key ?c 0 = sortable_bits_int 5"
    by (simp_all add: demo_index_schema_def new_column_def sortable_key_def)
  have "adjust_count True 0 ?c = ?c" using f by (simp add: adjust_count_def)
  moreover have "adjust_index True 0 ?c = Some (None, ?c\<lparr>cindex := Some t\<rparr>)" unfolding adjust_index_def f(2,4) using f(3) t by (simp del: nth_Cons_0)
  ultimately have "mark_live 0 demo4 = Some (None, demo4\<lparr>mcolumns := [?c\<lparr>cindex := Some t\<rparr>]\<rparr>)"
    by (intro mark_live_single [OF c]) simp
  then show ?thesis by (intro that [of t]) (simp_all add: demo5_def after_op_def c)
qed

lemma demo_index_steps:
  "make_store demo_index_schema = Inr demo_index0" "record_fits demo_index0 (demo_int 5)"
  "append_row (demo_int 5) demo_index0 = Some (None, demo4)" "mark_live 0 demo4 = Some (None, demo5)"
proof -
  show "make_store demo_index_schema = Inr demo_index0" by (simp add: make_store_def check_schema_def demo_index_schema_def demo_index0_def)
  show "record_fits demo_index0 (demo_int 5)"
    by (simp add: record_fits_def validate_def demo_int_def demo_index_schema_def attr_int_def attr_at_def value_fits_def new_column_def demo_index0_def)
  show "append_row (demo_int 5) demo_index0 = Some (None, demo4)" by (rule demo4_eq)
  show "mark_live 0 demo4 = Some (None, demo5)" by (rule demo5_eq)
qed

lemma demo_index_run: "store_run demo_index_schema demo5 [demo_int 5] {0} {0} {0}"
proof -
  note run_append [OF run_make [OF demo_index_steps(1)] demo_index_steps(2,3)]
  from run_live [OF this _ _ demo_index_steps(4)] show ?thesis by simp
qed

theorem resolve_range_exact_witness:
  "\<exists>ids. resolve demo5 (pred_range 0 (attr_int 3) (attr_int 7)) [False] =
     Some (Inr \<lparr>rpredicate = pred_range 0 (attr_int 3) (attr_int 7), allowlist = Some ids\<rparr>) \<and> set ids = {0}"
proof -
  let ?v = "\<lambda>x. attr_int x"
  have s: "0 < length demo_index_schema" "indexed (demo_index_schema ! 0)"
    "attr_kind (demo_index_schema ! 0) = Int64 \<or> attr_kind (demo_index_schema ! 0) = Float64"
    "vtype (attr_int 3) = attr_kind (demo_index_schema ! 0)" "vtype (attr_int 7) = attr_kind (demo_index_schema ! 0)"
    "attr_kind (demo_index_schema ! 0) = Float64 \<longrightarrow> \<not> double_is_nan (raw (attr_int 3)) \<and> \<not> double_is_nan (raw (attr_int 7))"
    by (simp_all add: demo_index_schema_def attr_int_def)
  have "in_bounds Int64 (demo_int 5) 0 (attr_int 3) (attr_int 7)"
    by (simp add: in_bounds_def raw_of_def attr_at_def demo_int_def attr_int_def value_le_def)
  then have m: "{r \<in> {0}. in_bounds (attr_kind (demo_index_schema ! 0)) ([demo_int 5] ! r) 0 (attr_int 3) (attr_int 7) \<and>
      \<not> zero_passed (attr_kind (demo_index_schema ! 0)) ([demo_int 5] ! r) 0 (attr_int 3) (attr_int 7)} = {0}"
    by (auto simp: demo_index_schema_def zero_passed_def)
  show ?thesis using resolve_range_exact [OF demo_index_run s, of "[False]", unfolded m] by blast
qed

section \<open>Storing and loading\<close>

text \<open>
  C37: a serialized store is read back, whatever follows it in the file, into any store of the
  same schema, and the rebuild that a load runs next restores the whole invariant: the same
  rows, with counts, postings and ordered indexes exact for the rows not deleted.
\<close>

theorem serialize_restores:
  assumes "store_ok schema m L P E" and "store_fits m" and "make_store schema = Inr m0"
  shows "\<exists>m'. deserialize m0 (serialize [] m @ rest) = Inr (m', rest) \<and>
    returns (rebuild_derived_state deleted) m' LengthError (\<lambda>m''.
      store_ok schema m'' (live_rows deleted (mrows m)) (live_rows deleted (mrows m)) {..<mrows m} \<and>
      mrows m'' = mrows m \<and> (\<forall>r < mrows m. get_row m'' r = get_row m r))"
proof -
  obtain m' where d: "deserialize m0 (serialize [] m @ rest) = Inr (m', rest)" "loaded_ok schema m'" "mrows m' = mrows m"
    "\<forall>r < mrows m. get_row m' r = get_row m r"
    using deserialize_serialize [OF assms(1,2) make_store_ok(1) [OF assms(3)]] by blast
  have "returns (rebuild_derived_state deleted) m' LengthError (\<lambda>m''.
      store_ok schema m'' (live_rows deleted (mrows m)) (live_rows deleted (mrows m)) {..<mrows m} \<and>
      mrows m'' = mrows m \<and> (\<forall>r < mrows m. get_row m'' r = get_row m r))"
    by (rule returns_mono [OF rebuild_ok [OF d(2)]]) (use d(3,4) in auto)
  then show ?thesis using d(1) by blast
qed

theorem serialize_restores_witness:
  "\<exists>m'. deserialize demo0 (serialize [] demo3 @ [9]) = Inr (m', [9]) \<and>
    returns (rebuild_derived_state [False]) m' LengthError (\<lambda>m''.
      store_ok demo_schema m'' (live_rows [False] (mrows demo3)) (live_rows [False] (mrows demo3)) {..<mrows demo3} \<and>
      mrows m'' = mrows demo3 \<and> (\<forall>r < mrows demo3. get_row m'' r = get_row demo3 r))"
proof -
  have "make_store demo_schema = Inr demo0" by (simp add: make_store_def demo0_def check_schema_def demo_schema_def)
  moreover have "store_fits demo3"
  proof -
    have "mrows demo3 = 1" "length (mcolumns demo3) = 1" "map cdict (mcolumns demo3) = [[[1], [2]]]" "map ctype (mcolumns demo3) = [Tag]"
      "mpayloads demo3 = [[7]]" by code_simp+
    moreover from this obtain c where "mcolumns demo3 = [c]" by (cases "mcolumns demo3") auto
    ultimately show ?thesis by (simp add: store_fits_def column_fits_def)
  qed
  ultimately show ?thesis using serialize_restores [OF conjunct1 [OF store_run_ok [OF demo_run(2)]]] by blast
qed

end
