(* ===== verification/Ranking.thy ===== *)
theory Ranking
  imports Prelude
begin

text \<open>
  The ranked results of the searches: \<open>std::nth_element\<close> with \<open>std::sort\<close>, and
  \<open>std::partial_sort\<close>, both cut to the best \<open>k\<close>. The order of equal keys is not specified,
  nor is the order in which an unordered container is walked; a model of both is a stable sort
  of some permutation of the candidates, and the parameter \<open>arrange\<close> ranges over all of them.
  A score or a distance is a real number: the rounding of \<open>float\<close> and \<open>double\<close> is not
  modelled.
\<close>

text \<open>The list in the order \<open>arrange\<close> gives it, when that is a permutation of it.\<close>

definition permuted :: "('a list \<Rightarrow> 'a list) \<Rightarrow> 'a list \<Rightarrow> 'a list" where
  "permuted arrange xs = (if mset (arrange xs) = mset xs then arrange xs else xs)"

lemma mset_permuted [simp]: "mset (permuted arrange xs) = mset xs"
  by (simp add: permuted_def)

definition best :: "('a \<Rightarrow> 'k::linorder) \<Rightarrow> ('a list \<Rightarrow> 'a list) \<Rightarrow> nat \<Rightarrow> 'a list \<Rightarrow> 'a list" where
  "best key arrange k xs = take k (sort_key key (permuted arrange xs))"

lemma best_min: "best key arrange (min K (length xs)) xs = best key arrange K xs"
  by (simp add: best_def min_def) (metis length_sort mset_permuted nle_le size_mset take_all_iff)

text \<open>
  The contract of a ranked selection: the \<open>k\<close> best of the candidates, in order, and no
  candidate left out is better than one returned.
\<close>

definition ranks :: "('a \<Rightarrow> 'k::linorder) \<Rightarrow> nat \<Rightarrow> 'a list \<Rightarrow> 'a list \<Rightarrow> bool" where
  "ranks key k xs ys \<longleftrightarrow> sorted (map key ys) \<and> length ys = min k (length xs) \<and>
     (\<exists>rest. mset xs = mset ys + mset rest \<and> (\<forall>y \<in> set ys. \<forall>r \<in> set rest. key y \<le> key r))"

lemma best_ranks: "ranks key k xs (best key arrange k xs)"
proof -
  let ?s = "sort_key key (permuted arrange xs)"
  have m: "mset ?s = mset xs" by simp
  have s: "sorted (map key (take k ?s @ drop k ?s))" by simp
  have "\<forall>y \<in> set (take k ?s). \<forall>r \<in> set (drop k ?s). key y \<le> key r"
    using s unfolding map_append sorted_append by auto
  moreover have "mset xs = mset (take k ?s) + mset (drop k ?s)"
    by (metis m mset_append append_take_drop_id)
  moreover have "length ?s = length xs" using m by (metis size_mset)
  ultimately show ?thesis using s unfolding ranks_def best_def map_append sorted_append
    by (intro conjI exI [of _ "drop k ?s"]) simp_all
qed

lemma ranksD:
  assumes "ranks key k xs ys"
  shows "sorted (map key ys)" "length ys = min k (length xs)" "set ys \<subseteq> set xs" "distinct xs \<Longrightarrow> distinct ys"
    "x \<in> set xs \<Longrightarrow> x \<notin> set ys \<Longrightarrow> y \<in> set ys \<Longrightarrow> key y \<le> key x"
proof -
  from assms obtain rest where m: "mset xs = mset ys + mset rest" and le: "\<forall>y \<in> set ys. \<forall>r \<in> set rest. key y \<le> key r"
    and s: "sorted (map key ys)" "length ys = min k (length xs)" unfolding ranks_def by blast
  show "sorted (map key ys)" "length ys = min k (length xs)" by (fact s)+
  have set: "set xs = set ys \<union> set rest" using m by (metis set_mset_mset set_mset_union)
  then show "set ys \<subseteq> set xs" by simp
  show "distinct ys" if "distinct xs"
  proof -
    have "mset xs = mset (ys @ rest)" using m by simp
    then have "distinct (ys @ rest)" using that mset_eq_imp_distinct_iff by blast
    then show ?thesis by simp
  qed
  show "x \<in> set xs \<Longrightarrow> x \<notin> set ys \<Longrightarrow> y \<in> set ys \<Longrightarrow> key y \<le> key x" using le set by blast
qed

lemma ranks_map:
  assumes r: "ranks key k xs ys" and eq: "\<And>x. x \<in> set xs \<Longrightarrow> key' (f x) = key x"
  shows "ranks key' k (map f xs) (map f ys)"
proof -
  from r obtain rest where m: "mset xs = mset ys + mset rest" and le: "\<forall>y \<in> set ys. \<forall>x \<in> set rest. key y \<le> key x"
    and s: "sorted (map key ys)" "length ys = min k (length xs)" unfolding ranks_def by blast
  have sub: "set ys \<subseteq> set xs" "set rest \<subseteq> set xs" using m by (metis set_mset_mset set_mset_union Un_upper1, metis set_mset_mset set_mset_union Un_upper2)
  have "map key' (map f ys) = map key ys" using sub eq by (auto simp: subset_iff)
  then have "sorted (map key' (map f ys))" using s(1) by (simp only:)
  moreover have "mset (map f xs) = mset (map f ys) + mset (map f rest)" using m by (metis mset_map image_mset_union)
  moreover have "\<forall>y \<in> set (map f ys). \<forall>x \<in> set (map f rest). key' y \<le> key' x"
  proof -
    have "key' (f y) \<le> key' (f x)" if "y \<in> set ys" "x \<in> set rest" for y x
      using le sub eq [of x] eq [of y] that by (simp add: subset_iff)
    then show ?thesis by simp
  qed
  ultimately show ?thesis using s(2) unfolding ranks_def by (intro conjI exI [of _ "map f rest"]) simp_all
qed

text \<open>
  Dropping candidates after an over-wide selection: if the selection is wide enough for the
  candidates dropped, the first \<open>k\<close> that stay are a ranked selection of those that stay.
\<close>

lemma ranks_filter:
  assumes r: "ranks key w xs ys" and wide: "min (k + length (filter (\<lambda>x. \<not> Q x) xs)) (length xs) \<le> w"
  shows "ranks key k (filter Q xs) (take k (filter Q ys))"
proof -
  from r obtain rest where m: "mset xs = mset ys + mset rest" and le: "\<forall>y \<in> set ys. \<forall>x \<in> set rest. key y \<le> key x"
    and s: "sorted (map key ys)" "length ys = min w (length xs)" unfolding ranks_def by blast
  let ?zs = "filter Q ys"
  have sf: "sorted (map key (take k ?zs @ drop k ?zs))" using sorted_filter [OF s(1), of Q] by simp
  have mf: "mset (filter Q xs) = mset ?zs + mset (filter Q rest)" using m by (metis filter_union_mset mset_filter)
  have "length xs = length ys + length rest" using m by (metis size_mset size_union)
  have split: "length (filter Q xs) + length (filter (\<lambda>x. \<not> Q x) xs) = length xs"
    by (rule sum_length_filter_compl)
  have split': "length ?zs + length (filter (\<lambda>x. \<not> Q x) ys) = length ys" by (rule sum_length_filter_compl)
  have "mset (filter (\<lambda>x. \<not> Q x) xs) = mset (filter (\<lambda>x. \<not> Q x) ys) + mset (filter (\<lambda>x. \<not> Q x) rest)"
    using m by (metis filter_union_mset mset_filter)
  then have out: "length (filter (\<lambda>x. \<not> Q x) xs) = length (filter (\<lambda>x. \<not> Q x) ys) + length (filter (\<lambda>x. \<not> Q x) rest)"
    by (metis size_mset size_union)
  have "length (filter Q xs) = length ?zs + length (filter Q rest)" using mf by (metis size_mset size_union)
  moreover have "k \<le> length ?zs \<or> rest = []"
  proof (cases rest)
    case (Cons r rs)
    then have "length ys < length xs" using \<open>length xs = length ys + length rest\<close> by simp
    then have "length ys = w" "k + length (filter (\<lambda>x. \<not> Q x) xs) \<le> w" using s(2) wide by (simp_all add: min_def split: if_splits)
    then show ?thesis using split' out by linarith
  qed simp
  ultimately have len: "length (take k ?zs) = min k (length (filter Q xs))" by auto
  have "mset (filter Q xs) = mset (take k ?zs) + mset (drop k ?zs @ filter Q rest)"
    using mf by (metis add.assoc append_take_drop_id mset_append)
  moreover have "\<forall>y \<in> set (take k ?zs). \<forall>x \<in> set (drop k ?zs @ filter Q rest). key y \<le> key x"
  proof (intro ballI)
    fix y x assume y: "y \<in> set (take k ?zs)" and x: "x \<in> set (drop k ?zs @ filter Q rest)"
    then have "y \<in> set ys" by (auto dest: in_set_takeD)
    then show "key y \<le> key x" using x y sf le unfolding map_append sorted_append by auto
  qed
  ultimately show ?thesis using sf len unfolding ranks_def map_append sorted_append
    by (intro conjI exI [of _ "drop k ?zs @ filter Q rest"]) simp_all
qed

end
