(* ===== verification/Text_Search.thy ===== *)
theory Text_Search
  imports Metadata_Spec Ranking
begin

text \<open>
  \<open>MetadataStore::search_text\<close>: BM25 ranking over the term postings. The statistics come from
  the counters the store keeps up to date; the specification computes them from the rows.
\<close>

section \<open>The code\<close>

definition query_codes :: "mstore \<Rightarrow> nat \<Rightarrow> bytes \<Rightarrow> u32 list" where
  "query_codes m a query = foldl (\<lambda>codes tok. case tag_code m a tok of
     None \<Rightarrow> codes | Some code \<Rightarrow> if code \<in> set codes then codes else codes @ [code]) [] (tokenize_text query)"

definition text_live_count :: "mstore \<Rightarrow> nat \<Rightarrow> nat" where
  "text_live_count m a = unat (clive_docs (mcolumns m ! a))"

definition text_avg_doc_len :: "mstore \<Rightarrow> nat \<Rightarrow> real" where
  "text_avg_doc_len m a = (let c = mcolumns m ! a in
     if clive_docs c \<noteq> 0 then real (unat (ctotal_len c)) / real (unat (clive_docs c)) else 0)"

definition bm25_idf :: "real \<Rightarrow> real \<Rightarrow> real" where
  "bm25_idf N df = ln (1 + (N - df + 1 / 2) / (df + 1 / 2))"

definition bm25_norm :: "real \<Rightarrow> real \<Rightarrow> real \<Rightarrow> real \<Rightarrow> real" where
  "bm25_norm k1 b doc_len avgdl = k1 * (1 - b + b * (if avgdl > 0 then doc_len / avgdl else 0))"

text \<open>The scoring loop over the query terms, each with its idf; \<open>tokens\<close> are those of the document.\<close>

definition bm25_score :: "real \<Rightarrow> real \<Rightarrow> bytes list \<Rightarrow> (bytes \<times> real) list \<Rightarrow> real" where
  "bm25_score k1 nrm tokens terms = foldl (\<lambda>score (t, idf). let f = real (count_list tokens t) in
     if f = 0 then score else score + idf * (f * (k1 + 1)) / (f + nrm)) 0 terms"

definition text_candidates :: "mstore \<Rightarrow> nat \<Rightarrow> bool list \<Rightarrow> internal_id list option \<Rightarrow> u32 list \<Rightarrow> internal_id list" where
  "text_candidates m a deleted allow codes = remdups (concat (map (\<lambda>code.
     filter (\<lambda>rid. is_live deleted rid \<and> cpresent (mcolumns m ! a) ! rid \<and> (case allow of None \<Rightarrow> True | Some ids \<Rightarrow> rid \<in> set ids))
       (row_postings m a code)) codes))"

definition search_text :: "((internal_id \<times> real) list \<Rightarrow> (internal_id \<times> real) list) \<Rightarrow> mstore \<Rightarrow> nat \<Rightarrow> bytes \<Rightarrow> nat \<Rightarrow>
    bool list \<Rightarrow> internal_id list option \<Rightarrow> real \<Rightarrow> real \<Rightarrow> (internal_id \<times> real) list res" where
  "search_text arrange m a query K deleted allow k1 b = (let c = mcolumns m ! a in
     if ctype c \<noteq> Text then Inl InvalidArgument
     else let term_codes = query_codes m a query in
       if term_codes = [] then Inr []
       else let N = real (text_live_count m a); avgdl = text_avg_doc_len m a in
         if N = 0 then Inr []
         else let terms = map (\<lambda>code. (cdict c ! unat code, bm25_idf N (real (unat (live_count m a code))))) term_codes;
             score = (\<lambda>rid. bm25_score k1 (bm25_norm k1 b (real (unat (cdoc_len c ! rid))) avgdl) (tokenize_text (craw_text c ! rid)) terms)
           in Inr (best (\<lambda>x. - snd x) arrange K (map (\<lambda>rid. (rid, score rid)) (text_candidates m a deleted allow term_codes))))"

section \<open>BM25 from the rows\<close>

definition docs :: "meta_record list \<Rightarrow> internal_id set \<Rightarrow> nat \<Rightarrow> internal_id set" where
  "docs rows L a = {r \<in> L. attr_at (rows ! r) a \<noteq> None}"

definition doc_freq :: "meta_record list \<Rightarrow> internal_id set \<Rightarrow> nat \<Rightarrow> bytes \<Rightarrow> nat" where
  "doc_freq rows L a t = card {r \<in> L. t \<in> set (terms_of (rows ! r) a)}"

definition avg_len :: "meta_record list \<Rightarrow> internal_id set \<Rightarrow> nat \<Rightarrow> real" where
  "avg_len rows L a = (\<Sum>r \<in> docs rows L a. real (length (terms_of (rows ! r) a))) / real (card (docs rows L a))"

definition bm25 :: "meta_record list \<Rightarrow> internal_id set \<Rightarrow> nat \<Rightarrow> real \<Rightarrow> real \<Rightarrow> bytes \<Rightarrow> internal_id \<Rightarrow> real" where
  "bm25 rows L a k1 b query r = (\<Sum>t \<in> set (tokenize_text query) \<inter> set (terms_of (rows ! r) a).
     let f = real (count_list (terms_of (rows ! r) a) t) in
     bm25_idf (real (card (docs rows L a))) (real (doc_freq rows L a t)) * (f * (k1 + 1)) /
       (f + bm25_norm k1 b (real (length (terms_of (rows ! r) a))) (avg_len rows L a)))"

lemma foldl_sum: "foldl (\<lambda>s x. s + g x) (z::real) xs = z + sum_list (map g xs)"
  by (induction xs arbitrary: z) (simp_all add: algebra_simps)

lemma bm25_score_sum:
  "bm25_score k1 nrm tokens terms = (\<Sum>(t, idf) \<leftarrow> terms. if t \<in> set tokens then
     idf * (real (count_list tokens t) * (k1 + 1)) / (real (count_list tokens t) + nrm) else 0)"
proof -
  have e: "(\<lambda>score (t, idf). let f = real (count_list tokens t) in
     if f = 0 then score else score + idf * (f * (k1 + 1)) / (f + nrm)) =
     (\<lambda>s x. s + (case x of (t, idf) \<Rightarrow> if t \<in> set tokens then
       idf * (real (count_list tokens t) * (k1 + 1)) / (real (count_list tokens t) + nrm) else 0))"
    by (auto simp: fun_eq_iff Let_def count_list_0_iff split: prod.split)
  show ?thesis unfolding bm25_score_def e foldl_sum by simp
qed

section \<open>The query terms\<close>

lemma query_codes_set: "distinct (query_codes m a query) \<and> set (query_codes m a query) = {k. \<exists>t \<in> set (tokenize_text query). tag_code m a t = Some k}"
proof -
  have "distinct cs \<Longrightarrow> distinct (foldl (\<lambda>codes tok. case tag_code m a tok of None \<Rightarrow> codes
      | Some code \<Rightarrow> if code \<in> set codes then codes else codes @ [code]) cs toks) \<and>
    set (foldl (\<lambda>codes tok. case tag_code m a tok of None \<Rightarrow> codes
      | Some code \<Rightarrow> if code \<in> set codes then codes else codes @ [code]) cs toks) = set cs \<union> {k. \<exists>t \<in> set toks. tag_code m a t = Some k}" for cs toks
  proof (induction toks arbitrary: cs)
    case (Cons t toks)
    show ?case
    proof (cases "tag_code m a t")
      case None
      then show ?thesis using Cons by simp
    next
      case (Some k)
      have "distinct (if k \<in> set cs then cs else cs @ [k])" using Cons.prems by simp
      from Cons.IH [OF this] show ?thesis using Some by auto
    qed
  qed simp
  from this [of "[]" "tokenize_text query"] show ?thesis by (simp add: query_codes_def)
qed

section \<open>The counters are the statistics\<close>

lemma unat_small: "n < 2 ^ LENGTH('a) \<Longrightarrow> unat (of_nat n :: 'a::len word) = n"
  by (simp add: unsigned_of_nat take_bit_nat_eq_self)

text \<open>A text attribute of a store after a run, within the width of its counters.\<close>

definition text_run :: "attr_spec list \<Rightarrow> mstore \<Rightarrow> meta_record list \<Rightarrow> internal_id set \<Rightarrow> internal_id set \<Rightarrow> internal_id set \<Rightarrow> nat \<Rightarrow> bool" where
  "text_run schema m rows L P E a \<longleftrightarrow> store_run schema m rows L P E \<and> a < length schema \<and> attr_kind (schema ! a) = Text \<and>
     length rows < 2 ^ 32 \<and> (\<forall>r < length rows. length (terms_of (rows ! r) a) < 2 ^ 32)"

lemma text_runD:
  assumes "text_run schema m rows L P E a"
  shows "store_run schema m rows L P E" "a < length schema" "attr_kind (schema ! a) = Text"
    "col_inv (mcolumns m ! a) (length rows) L L P E" "ctype (mcolumns m ! a) = Text" "finite L"
    "\<And>r. r \<in> L \<Longrightarrow> r < length rows" "\<And>X. X \<subseteq> L \<Longrightarrow> card X < 2 ^ 32"
    "\<And>r. r \<in> L \<Longrightarrow> cpresent (mcolumns m ! a) ! r \<longleftrightarrow> r \<in> docs rows L a"
    "\<And>r. r \<in> docs rows L a \<Longrightarrow> r \<in> L \<and> r < length rows \<and> cpresent (mcolumns m ! a) ! r"
proof -
  show run: "store_run schema m rows L P E" and a: "a < length schema" and ty: "attr_kind (schema ! a) = Text"
    using assms by (simp_all add: text_run_def)
  note S = store_run_ok [OF run]
  show inv: "col_inv (mcolumns m ! a) (length rows) L L P E"
    using store_okD(8) [OF conjunct1 [OF S] a] S by (simp add: rows_read_def)
  show "ctype (mcolumns m ! a) = Text" using store_okD(9) [OF conjunct1 [OF S] a] ty by simp
  show fin: "finite L" by (rule col_invD(9) [OF inv])
  show lt: "\<And>r. r \<in> L \<Longrightarrow> r < length rows" by (rule run_rows_lt [OF run])
  show "card X < 2 ^ 32" if "X \<subseteq> L" for X
  proof -
    have "card X \<le> card {..<length rows}" using that lt by (intro card_mono) auto
    then show ?thesis using assms by (simp add: text_run_def)
  qed
  show pres: "\<And>r. r \<in> L \<Longrightarrow> cpresent (mcolumns m ! a) ! r \<longleftrightarrow> r \<in> docs rows L a"
    using run_cell(1) [OF run a lt] by (auto simp: docs_def)
  show "\<And>r. r \<in> docs rows L a \<Longrightarrow> r \<in> L \<and> r < length rows \<and> cpresent (mcolumns m ! a) ! r"
    using pres lt by (auto simp: docs_def)
qed

lemma present_docs: "text_run schema m rows L P E a \<Longrightarrow> present_in (mcolumns m ! a) L = docs rows L a"
  using text_runD(9) by (fastforce simp: present_in_def docs_def)

lemma doc_tokens:
  assumes T: "text_run schema m rows L P E a" and r: "r \<in> docs rows L a"
  shows "tokenize_text (craw_text (mcolumns m ! a) ! r) = terms_of (rows ! r) a"
proof -
  note D = text_runD(10) [OF T r]
  show ?thesis using run_cell(4) [OF text_runD(1,2) [OF T], of r] D text_runD(5) [OF T] by simp
qed

lemma doc_length:
  assumes T: "text_run schema m rows L P E a" and r: "r \<in> docs rows L a"
  shows "unat (cdoc_len (mcolumns m ! a) ! r) = length (terms_of (rows ! r) a)"
proof -
  note D = text_runD(10) [OF T r]
  have "text_row_ok (mcolumns m ! a) r" using col_invD(2) [OF text_runD(4) [OF T]] D text_runD(5) [OF T] by (simp add: rows_ok_def)
  then have "cdoc_len (mcolumns m ! a) ! r = of_nat (length (terms_of (rows ! r) a))"
    using D doc_tokens [OF T r] by (simp add: text_row_ok_def)
  moreover have "length (terms_of (rows ! r) a) < 2 ^ 32" using T D by (simp add: text_run_def)
  ultimately show ?thesis using unat_small [where 'a = 32] by simp
qed

lemma docs_count:
  assumes T: "text_run schema m rows L P E a"
  shows "text_live_count m a = card (docs rows L a)"
proof -
  have "card (docs rows L a) < 2 ^ 32" by (rule text_runD(8) [OF T]) (auto simp: docs_def)
  then have "card (docs rows L a) < 2 ^ 64" by (rule less_trans) simp
  then show ?thesis using col_invD(6) [OF text_runD(4) [OF T]] text_runD(5) [OF T] present_docs [OF T] unat_small [where 'a = 64]
    by (simp add: text_live_count_def counts_ok_def)
qed

lemma docs_total:
  assumes T: "text_run schema m rows L P E a"
  shows "unat (ctotal_len (mcolumns m ! a)) = (\<Sum>r \<in> docs rows L a. length (terms_of (rows ! r) a))" (is "_ = ?s")
proof -
  let ?len = "\<lambda>r. length (terms_of (rows ! r) a)"
  have "ucast (cdoc_len (mcolumns m ! a) ! r) = (of_nat (?len r) :: u64)" if "r \<in> docs rows L a" for r
  proof -
    have "(of_nat (unat (cdoc_len (mcolumns m ! a) ! r)) :: u64) = ucast (cdoc_len (mcolumns m ! a) ! r)" by simp
    then show ?thesis using doc_length [OF T that] by simp
  qed
  then have e: "ctotal_len (mcolumns m ! a) = of_nat ?s"
    using col_invD(6) [OF text_runD(4) [OF T]] text_runD(5) [OF T] present_docs [OF T] by (simp add: counts_ok_def)
  have "?s \<le> (\<Sum>r \<in> docs rows L a. 2 ^ 32)"
    by (rule sum_mono) (use T text_runD(10) [OF T] in \<open>auto simp: text_run_def intro: less_imp_le\<close>)
  also have "\<dots> = card (docs rows L a) * 2 ^ 32" by simp
  also have "\<dots> < 2 ^ 32 * 2 ^ 32"
    using text_runD(8) [OF T, of "docs rows L a"] by (intro mult_strict_right_mono) (auto simp: docs_def)
  finally have "?s < 2 ^ LENGTH(64)" by simp
  from unat_small [OF this] show ?thesis unfolding e .
qed

lemma docs_avg:
  assumes T: "text_run schema m rows L P E a"
  shows "text_avg_doc_len m a = avg_len rows L a"
proof -
  have "clive_docs (mcolumns m ! a) = 0 \<longleftrightarrow> card (docs rows L a) = 0"
    using docs_count [OF T] unat_eq_zero [of "clive_docs (mcolumns m ! a)"] by (simp add: text_live_count_def)
  then show ?thesis using docs_total [OF T] docs_count [OF T] by (auto simp: text_avg_doc_len_def avg_len_def text_live_count_def Let_def)
qed

lemma term_holders:
  assumes T: "text_run schema m rows L P E a" and k: "tag_code m a t = Some k"
  shows "holders (mcolumns m ! a) L k = {r \<in> L. t \<in> set (terms_of (rows ! r) a)}"
  using run_holders [OF text_runD(1,2) [OF T] _ k] text_runD(3) [OF T] by (simp add: value_in_def)

lemma term_df:
  assumes T: "text_run schema m rows L P E a" and k: "tag_code m a t = Some k"
  shows "unat (live_count m a k) = doc_freq rows L a t"
proof -
  note I = col_invD [OF text_runD(4) [OF T]]
  have "unat k < length (ccount (mcolumns m ! a))" using I(1) k text_runD(5) [OF T] by (auto simp: dict_ok_def tag_code_def)
  then have "live_count m a k = of_nat (doc_freq rows L a t)"
    using I(6) term_holders [OF T k] by (simp add: counts_ok_def live_count_def code_count_def doc_freq_def)
  moreover have "doc_freq rows L a t < 2 ^ 32" unfolding doc_freq_def by (rule text_runD(8) [OF T]) auto
  ultimately show ?thesis using unat_small [where 'a = 32] by simp
qed

lemma term_of_code: "text_run schema m rows L P E a \<Longrightarrow> tag_code m a t = Some k \<Longrightarrow> cdict (mcolumns m ! a) ! unat k = t"
  using col_invD(1) [OF text_runD(4)] by (simp add: dict_ok_def tag_code_def)

lemma coded_term:
  assumes T: "text_run schema m rows L P E a" and r: "r \<in> L" "t \<in> set (terms_of (rows ! r) a)"
  shows "\<exists>k. tag_code m a t = Some k"
proof (cases "tag_code m a t")
  case None
  have "\<not> value_in (attr_kind (schema ! a)) (rows ! r) a t"
    by (rule run_uncoded [OF text_runD(1,2) [OF T] _ None text_runD(7) [OF T r(1)]]) (simp add: text_runD(3) [OF T])
  then show ?thesis using r(2) text_runD(3) [OF T] by (simp add: value_in_def)
qed simp

section \<open>The ranking\<close>

definition hits_term :: "meta_record list \<Rightarrow> nat \<Rightarrow> bytes \<Rightarrow> internal_id \<Rightarrow> bool" where
  "hits_term rows a query r \<longleftrightarrow> set (tokenize_text query) \<inter> set (terms_of (rows ! r) a) \<noteq> {}"

definition allowed :: "internal_id list option \<Rightarrow> internal_id \<Rightarrow> bool" where
  "allowed allow r \<longleftrightarrow> (case allow of None \<Rightarrow> True | Some ids \<Rightarrow> r \<in> set ids)"

lemma docs_term: "r \<in> L \<Longrightarrow> t \<in> set (terms_of (rows ! r) a) \<Longrightarrow> r \<in> docs rows L a"
  by (cases "attr_at (rows ! r) a") (simp_all add: docs_def terms_of_def)

lemma term_posting:
  assumes T: "text_run schema m rows L P E a" and k: "tag_code m a t = Some k" and r: "r \<in> L"
  shows "t \<in> set (terms_of (rows ! r) a) \<Longrightarrow> r \<in> set (row_postings m a k)"
    and "r \<in> E \<Longrightarrow> r \<in> set (row_postings m a k) \<Longrightarrow> t \<in> set (terms_of (rows ! r) a)"
proof -
  note I = col_invD [OF text_runD(4) [OF T]]
  have rng: "unat k < length (cpostings (mcolumns m ! a))" using I(1) k text_runD(5) [OF T] by (auto simp: dict_ok_def tag_code_def)
  have h: "k \<in> set (row_codes (mcolumns m ! a) r) \<longleftrightarrow> t \<in> set (terms_of (rows ! r) a)"
    using term_holders [OF T k] r by (auto simp: holders_def)
  have "r \<in> P" using run_posted [OF text_runD(1) [OF T]] r by auto
  then show "t \<in> set (terms_of (rows ! r) a) \<Longrightarrow> r \<in> set (row_postings m a k)"
    using h I(8) rng by (simp add: posts_ok_def row_postings_def code_postings_def)
  show "r \<in> E \<Longrightarrow> r \<in> set (row_postings m a k) \<Longrightarrow> t \<in> set (terms_of (rows ! r) a)"
    using h I(8) rng by (simp add: posts_ok_def row_postings_def code_postings_def)
qed

lemma candidates:
  fixes allow :: "internal_id list option" and query :: bytes
  assumes T: "text_run schema m rows L P E a" and live: "\<forall>r. is_live deleted r \<longleftrightarrow> r \<in> L"
  defines "C \<equiv> text_candidates m a deleted allow (query_codes m a query)"
  shows "distinct C" "r \<in> set C \<Longrightarrow> r \<in> docs rows L a \<and> allowed allow r \<and> (r \<in> E \<longrightarrow> hits_term rows a query r)"
    "r \<in> L \<Longrightarrow> allowed allow r \<Longrightarrow> hits_term rows a query r \<Longrightarrow> r \<in> set C"
proof -
  note Q = conjunct2 [OF query_codes_set [of m a query]]
  show "distinct C" by (simp add: C_def text_candidates_def)
  have C: "r \<in> set C \<longleftrightarrow> r \<in> L \<and> cpresent (mcolumns m ! a) ! r \<and> allowed allow r \<and>
      (\<exists>t \<in> set (tokenize_text query). \<exists>k. tag_code m a t = Some k \<and> r \<in> set (row_postings m a k))" for r
    using live by (auto simp: C_def text_candidates_def allowed_def Q split: option.splits)
  show "r \<in> docs rows L a \<and> allowed allow r \<and> (r \<in> E \<longrightarrow> hits_term rows a query r)" if "r \<in> set C"
    using that term_posting(2) [OF T] text_runD(9) [OF T] unfolding C hits_term_def by blast
  show "r \<in> set C" if r: "r \<in> L" "allowed allow r" "hits_term rows a query r"
  proof -
    obtain t where t: "t \<in> set (tokenize_text query)" "t \<in> set (terms_of (rows ! r) a)" using r(3) by (auto simp: hits_term_def)
    obtain k where k: "tag_code m a t = Some k" using coded_term [OF T r(1) t(2)] by blast
    have "r \<in> docs rows L a" by (rule docs_term [OF r(1) t(2)])
    then show ?thesis unfolding C using r t k term_posting(1) [OF T k r(1) t(2)] text_runD(9) [OF T r(1)] by blast
  qed
qed

definition code_terms :: "mstore \<Rightarrow> nat \<Rightarrow> u32 list \<Rightarrow> (bytes \<times> real) list" where
  "code_terms m a codes = map (\<lambda>code. (cdict (mcolumns m ! a) ! unat code,
     bm25_idf (real (text_live_count m a)) (real (unat (live_count m a code))))) codes"

lemma score_bm25:
  assumes T: "text_run schema m rows L P E a" and r: "r \<in> docs rows L a"
  shows "bm25_score k1 (bm25_norm k1 b (real (unat (cdoc_len (mcolumns m ! a) ! r))) (text_avg_doc_len m a))
      (tokenize_text (craw_text (mcolumns m ! a) ! r)) (code_terms m a (query_codes m a query)) = bm25 rows L a k1 b query r"
proof -
  let ?toks = "terms_of (rows ! r) a" and ?Q = "query_codes m a query"
  let ?nrm = "bm25_norm k1 b (real (length ?toks)) (avg_len rows L a)"
  let ?w = "\<lambda>t. bm25_idf (real (card (docs rows L a))) (real (doc_freq rows L a t)) * (real (count_list ?toks t) * (k1 + 1)) /
    (real (count_list ?toks t) + ?nrm)"
  let ?str = "\<lambda>k. cdict (mcolumns m ! a) ! unat k"
  note Q = query_codes_set [of m a query]
  have tm: "tag_code m a (?str k) = Some k \<and> ?str k \<in> set (tokenize_text query)" if k: "k \<in> set ?Q" for k
  proof -
    obtain t where t: "t \<in> set (tokenize_text query)" "tag_code m a t = Some k" using k Q by blast
    then show ?thesis using term_of_code [OF T t(2)] by simp
  qed
  have "inj_on ?str (set ?Q)"
  proof (rule inj_onI)
    fix x y assume x: "x \<in> set ?Q" and y: "y \<in> set ?Q" and e: "?str x = ?str y"
    show "x = y" using conjunct1 [OF tm [OF x]] conjunct1 [OF tm [OF y]] unfolding e by simp
  qed
  moreover have "set ?Q \<inter> {k. ?str k \<in> set ?toks} \<subseteq> set ?Q" by blast
  ultimately have inj: "inj_on ?str (set ?Q \<inter> {k. ?str k \<in> set ?toks})" by (rule inj_on_subset)
  have img: "?str ` (set ?Q \<inter> {k. ?str k \<in> set ?toks}) = set (tokenize_text query) \<inter> set ?toks"
  proof
    show "?str ` (set ?Q \<inter> {k. ?str k \<in> set ?toks}) \<subseteq> set (tokenize_text query) \<inter> set ?toks" using tm by auto
    show "set (tokenize_text query) \<inter> set ?toks \<subseteq> ?str ` (set ?Q \<inter> {k. ?str k \<in> set ?toks})"
    proof
      fix t assume t: "t \<in> set (tokenize_text query) \<inter> set ?toks"
      then obtain k where k: "tag_code m a t = Some k" using coded_term [OF T] text_runD(10) [OF T r] by blast
      then show "t \<in> ?str ` (set ?Q \<inter> {k. ?str k \<in> set ?toks})" using t Q term_of_code [OF T k] by force
    qed
  qed
  have "bm25_score k1 ?nrm ?toks (code_terms m a ?Q) = (\<Sum>k \<leftarrow> ?Q. if ?str k \<in> set ?toks then ?w (?str k) else 0)"
    unfolding bm25_score_sum code_terms_def map_map
  proof (intro arg_cong [where f = sum_list] map_cong refl)
    fix k assume "k \<in> set ?Q"
    then have "unat (live_count m a k) = doc_freq rows L a (?str k)" using tm term_df [OF T] by blast
    then show "((\<lambda>(t, idf). if t \<in> set ?toks then idf * (real (count_list ?toks t) * (k1 + 1)) / (real (count_list ?toks t) + ?nrm) else 0) \<circ>
        (\<lambda>code. (?str code, bm25_idf (real (text_live_count m a)) (real (unat (live_count m a code)))))) k =
        (if ?str k \<in> set ?toks then ?w (?str k) else 0)" by (simp del: of_nat_unat add: docs_count [OF T])
  qed
  also have "\<dots> = (\<Sum>k \<in> set ?Q. if ?str k \<in> set ?toks then ?w (?str k) else 0)"
    using Q by (simp add: sum_list_distinct_conv_sum_set)
  also have "\<dots> = (\<Sum>k \<in> set ?Q \<inter> {k. ?str k \<in> set ?toks}. ?w (?str k))" by (simp add: sum.inter_restrict)
  also have "\<dots> = (\<Sum>t \<in> set (tokenize_text query) \<inter> set ?toks. ?w t)"
    unfolding img [symmetric] by (rule sum.reindex [OF inj, unfolded comp_def, symmetric])
  finally show ?thesis by (simp del: of_nat_unat add: bm25_def Let_def doc_tokens [OF T r] doc_length [OF T r] docs_avg [OF T])
qed

text \<open>
  C36: lexical search implements BM25. Whatever writes went before, the hits are distinct live
  rows in the allowlist, ordered by descending score, at most \<open>K\<close>; the score of each is the
  BM25 weight computed from the texts of the live rows; every live allowed row with a query term
  is a hit unless \<open>K\<close> hits score at least as high; and a hit without any query term is a row
  overwritten since the postings were built.
\<close>

theorem search_text_bm25:
  assumes "text_run schema m rows L P E a" and "\<forall>r. is_live deleted r \<longleftrightarrow> r \<in> L"
  shows "\<exists>hits. search_text arrange m a query K deleted allow k1 b = Inr hits \<and>
    distinct (map fst hits) \<and> sorted (map (\<lambda>h. - snd h) hits) \<and> length hits \<le> K \<and>
    (\<forall>(r, s) \<in> set hits. r \<in> L \<and> allowed allow r \<and> s = bm25 rows L a k1 b query r \<and> (r \<in> E \<longrightarrow> hits_term rows a query r)) \<and>
    (\<forall>r \<in> L. allowed allow r \<and> hits_term rows a query r \<and> r \<notin> fst ` set hits \<longrightarrow>
       length hits = K \<and> (\<forall>h \<in> set hits. bm25 rows L a k1 b query r \<le> snd h))"
proof -
  note T = assms(1)
  note ct = text_runD(5) [OF T]
  define C where "C = text_candidates m a deleted allow (query_codes m a query)"
  note CC = candidates [OF T assms(2), where allow = allow and query = query, folded C_def]
  show ?thesis
  proof (cases "query_codes m a query = [] \<or> text_live_count m a = 0")
    case True
    then have "search_text arrange m a query K deleted allow k1 b = Inr []" using ct by (auto simp: search_text_def Let_def)
    moreover have "\<not> hits_term rows a query r" if "r \<in> L" for r
    proof
      assume "hits_term rows a query r"
      then obtain t where t: "t \<in> set (tokenize_text query)" "t \<in> set (terms_of (rows ! r) a)" by (auto simp: hits_term_def)
      then have "query_codes m a query \<noteq> []" using coded_term [OF T that t(2)] query_codes_set [of m a query] by force
      moreover have "r \<in> docs rows L a" by (rule docs_term [OF that t(2)])
      then have "text_live_count m a \<noteq> 0" using text_runD(6) [OF T] docs_count [OF T] by (auto simp: docs_def)
      ultimately show False using True by simp
    qed
    ultimately show ?thesis by simp
  next
    case False
    let ?score = "bm25 rows L a k1 b query"
    let ?xs = "map (\<lambda>r. (r, ?score r)) C"
    define hits where "hits = best (\<lambda>x. - snd x) arrange K ?xs"
    let ?code = "\<lambda>r. bm25_score k1 (bm25_norm k1 b (real (unat (cdoc_len (mcolumns m ! a) ! r))) (text_avg_doc_len m a))
      (tokenize_text (craw_text (mcolumns m ! a) ! r)) (code_terms m a (query_codes m a query))"
    have sc: "map (\<lambda>r. (r, ?code r)) C = ?xs" using score_bm25 [OF T] CC(2) by (intro map_cong) auto
    have "search_text arrange m a query K deleted allow k1 b = Inr (best (\<lambda>x. - snd x) arrange K (map (\<lambda>r. (r, ?code r)) C))"
      using False ct by (simp add: search_text_def Let_def C_def code_terms_def)
    then have s: "search_text arrange m a query K deleted allow k1 b = Inr hits" unfolding sc hits_def .
    have "ranks (\<lambda>x. - snd x) K ?xs hits" unfolding hits_def by (rule best_ranks)
    note R = ranksD [OF this]
    have ds: "distinct ?xs" using CC(1) by (simp add: distinct_map inj_on_def)
    have el: "h = (fst h, ?score (fst h))" "fst h \<in> set C" if "h \<in> set hits" for h using that R(3) by auto
    have "distinct (map fst hits)"
      unfolding distinct_map using R(4) [OF ds] el(1) by (metis inj_onI)
    moreover have "length hits = K" if "r \<in> L" "allowed allow r" "hits_term rows a query r" "r \<notin> fst ` set hits" for r
    proof -
      have "(r, ?score r) \<in> set ?xs" using CC(3) that by auto
      moreover have "(r, ?score r) \<notin> set hits" using that(4) by force
      ultimately have "set hits \<noteq> set ?xs" by blast
      moreover have "length hits = length ?xs \<Longrightarrow> set hits = set ?xs"
        using R(3,4) ds by (metis card_subset_eq distinct_card finite_set)
      ultimately show ?thesis using R(2) by linarith
    qed
    moreover have "?score r \<le> snd h" if "r \<in> L" "allowed allow r" "hits_term rows a query r" "r \<notin> fst ` set hits" "h \<in> set hits" for r h
    proof -
      have "(r, ?score r) \<in> set ?xs" "(r, ?score r) \<notin> set hits" using CC(3) that(1-3) that(4) by force+
      from R(5) [OF this that(5)] show ?thesis by simp
    qed
    moreover have "\<forall>(r, s) \<in> set hits. r \<in> L \<and> allowed allow r \<and> s = ?score r \<and> (r \<in> E \<longrightarrow> hits_term rows a query r)"
      using el CC(2) text_runD(10) [OF T] by fastforce
    ultimately show ?thesis using s R(1,2) by (intro exI [of _ hits]) simp
  qed
qed

section \<open>A concrete run\<close>

definition demo_text_schema :: "attr_spec list" where
  "demo_text_schema = [\<lparr>attr_name = [0x74], attr_kind = Text, indexed = False\<rparr>]"

definition demo_doc :: "bytes \<Rightarrow> meta_record" where
  "demo_doc s = \<lparr>attrs = [attr_text s], payload = []\<rparr>"

definition text0 :: mstore where
  "text0 = \<lparr>mschema = demo_text_schema, mcolumns = map new_column demo_text_schema, mpayloads = [], mrows = 0,
     mfingerprint = compute_fingerprint demo_text_schema\<rparr>"

definition text1 :: mstore where "text1 = after_op (append_row (demo_doc [0x68])) text0"
definition text2 :: mstore where "text2 = after_op (mark_live 0) text1"
definition text3 :: mstore where "text3 = after_op (set_row 0 (demo_doc [0x69])) text2"

lemma text_steps:
  "map_option fst (append_row (demo_doc [0x68]) text0) = Some None" "map_option fst (mark_live 0 text1) = Some None"
  "map_option fst (set_row 0 (demo_doc [0x69]) text2) = Some None"
  by code_simp+

lemma tokenize_letter: "tokenize_text [0x68] = [[0x68]]" "tokenize_text [0x69] = [[0x69]]"
  by code_simp+

lemma text_fits: "record_fits text0 (demo_doc [0x68])" "record_fits text2 (demo_doc [0x69])"
proof -
  have "length (mcolumns text0) = 1" "length (mcolumns text2) = 1" "ctype (mcolumns text0 ! 0) = Text" "ctype (mcolumns text2 ! 0) = Text"
    "length (cdict (mcolumns text0 ! 0)) = 0" "length (cdict (mcolumns text2 ! 0)) = 1"
    "validate (mschema text0) (demo_doc [0x68]) = None" "validate (mschema text2) (demo_doc [0x69]) = None"
    by code_simp+
  then show "record_fits text0 (demo_doc [0x68])" "record_fits text2 (demo_doc [0x69])"
    by (auto simp: record_fits_def value_fits_def demo_doc_def attr_at_def attr_text_def tokenize_letter)
qed

lemma demo_text_run:
  "store_run demo_text_schema text2 [demo_doc [0x68]] {0} {0} {0}"
  "store_run demo_text_schema text3 [demo_doc [0x69]] {0} {0} {}"
proof -
  have "make_store demo_text_schema = Inr text0" by (simp add: make_store_def text0_def check_schema_def demo_text_schema_def)
  from run_append [OF run_make [OF this] text_fits(1) after_op [of "append_row (demo_doc [0x68])" text0, OF text_steps(1)]]
  have 1: "store_run demo_text_schema text1 [demo_doc [0x68]] {} {0} {0}" by (simp add: text1_def)
  from run_live [OF 1 _ _ after_op [of "mark_live 0" text1, OF text_steps(2)]]
  show 2: "store_run demo_text_schema text2 [demo_doc [0x68]] {0} {0} {0}" by (simp add: text2_def)
  from run_set [OF 2 text_fits(2) _ after_op [of "set_row 0 (demo_doc [0x69])" text2, OF text_steps(3)]]
  show "store_run demo_text_schema text3 [demo_doc [0x69]] {0} {0} {}" by (simp add: text3_def)
qed

lemma demo_doc_terms: "terms_of (demo_doc [0x68]) 0 = [[0x68]]" "terms_of (demo_doc [0x69]) 0 = [[0x69]]"
  by (simp_all add: terms_of_def attr_at_def demo_doc_def attr_text_def tokenize_letter)

theorem search_text_bm25_witness:
  "\<exists>hits. search_text rev text2 0 [0x68] 1 [False] None (6 / 5) (3 / 4) = Inr hits \<and> fst ` set hits = {0}"
proof -
  have T: "text_run demo_text_schema text2 [demo_doc [0x68]] {0} {0} {0} 0"
    using demo_text_run(1) by (simp add: text_run_def demo_doc_terms) (simp add: demo_text_schema_def)
  have live: "\<forall>r. is_live [False] r \<longleftrightarrow> r \<in> {0}" by (auto simp: is_live_def)
  let ?rows = "[demo_doc [0x68]]"
  have hit: "hits_term ?rows 0 [0x68] 0" by (simp add: hits_term_def demo_doc_terms tokenize_letter)
  show ?thesis using search_text_bm25 [OF T live, of rev "[0x68]" 1 None "6 / 5" "3 / 4"]
  proof (elim exE conjE)
    fix hits
    assume h: "search_text rev text2 0 [0x68] 1 [False] None (6 / 5) (3 / 4) = Inr hits"
      and sound: "\<forall>(r, s) \<in> set hits. r \<in> {0} \<and> allowed None r \<and> s = bm25 ?rows {0} 0 (6 / 5) (3 / 4) [0x68] r \<and>
        (r \<in> {0} \<longrightarrow> hits_term ?rows 0 [0x68] r)"
      and compl: "\<forall>r \<in> {0}. allowed None r \<and> hits_term ?rows 0 [0x68] r \<and> r \<notin> fst ` set hits \<longrightarrow>
        length hits = 1 \<and> (\<forall>h \<in> set hits. bm25 ?rows {0} 0 (6 / 5) (3 / 4) [0x68] r \<le> snd h)"
    have "hits \<noteq> []" using compl hit by (auto simp: allowed_def)
    then have "fst ` set hits \<noteq> {}" by simp
    moreover have "fst ` set hits \<subseteq> {0}" using sound by auto
    ultimately have "fst ` set hits = {0}" by (metis subset_singleton_iff)
    then show ?thesis using h by (intro exI [of _ hits] conjI)
  qed
qed

text \<open>A row overwritten with another text stays a candidate of its old terms, and scores nothing.\<close>

lemma search_text_stale:
  "store_run demo_text_schema text3 [demo_doc [0x69]] {0} {0} {} \<and>
   text_candidates text3 0 [False] None (query_codes text3 0 [0x68]) = [0] \<and> \<not> hits_term [demo_doc [0x69]] 0 [0x68] 0"
proof -
  have "text_candidates text3 0 [False] None (query_codes text3 0 [0x68]) = [0]" by code_simp
  then show ?thesis using demo_text_run(2) by (simp add: hits_term_def demo_doc_terms tokenize_letter)
qed

end
