(* ===== verification/Filter_Planner.thy ===== *)
theory Filter_Planner
  imports Prelude
begin

text \<open>
  \<open>src/filter_planner.cpp\<close>: the cost model that picks between post-filtering and
  pre-filtering. A \<open>double\<close> is a real number; rounding is not modelled.
\<close>

datatype filter_strategy = Post | Pre

record filter_calibration =
  c_index :: real
  c_scan :: real

record calibration_point =
  px :: real
  py :: real

definition fit_through_origin :: "calibration_point list \<Rightarrow> real" where
  "fit_through_origin points = (let (sum_xy, sum_xx) = foldl (\<lambda>(xy, xx) p. (xy + px p * py p, xx + px p * px p)) (0, 0) points
     in if sum_xx = 0 then 0 else sum_xy / sum_xx)"

definition calibrate :: "calibration_point list \<Rightarrow> calibration_point list \<Rightarrow> filter_calibration" where
  "calibrate post_points pre_points = \<lparr>c_index = fit_through_origin post_points, c_scan = fit_through_origin pre_points\<rparr>"

definition predicted_post_cost_us :: "filter_calibration \<Rightarrow> nat \<Rightarrow> nat \<Rightarrow> real \<Rightarrow> real" where
  "predicted_post_cost_us c N K s = (let want = real K + real N * (1 - s) in c_index c * want)"

definition predicted_pre_cost_us :: "filter_calibration \<Rightarrow> nat \<Rightarrow> nat \<Rightarrow> real \<Rightarrow> real" where
  "predicted_pre_cost_us c N d s = (let scan = real N * s * real d in c_scan c * scan)"

definition plan_strategy :: "filter_calibration \<Rightarrow> nat \<Rightarrow> nat \<Rightarrow> nat \<Rightarrow> real \<Rightarrow> filter_strategy" where
  "plan_strategy c N d K s =
     (let post = predicted_post_cost_us c N K s; pre = predicted_pre_cost_us c N d s in if post < pre then Post else Pre)"

definition default_filter_calibration :: filter_calibration where
  "default_filter_calibration = \<lparr>c_index = 1859288 / 1000000, c_scan = 1214 / 1000000\<rparr>"

section \<open>Least squares\<close>

definition residual :: "real \<Rightarrow> calibration_point list \<Rightarrow> real" where
  "residual c points = (\<Sum>p \<leftarrow> points. (py p - c * px p)\<^sup>2)"

lemma fit_sums:
  "foldl (\<lambda>(xy, xx) p. (xy + px p * py p, xx + px p * px p)) (a, b) points =
     (a + (\<Sum>p \<leftarrow> points. px p * py p), b + (\<Sum>p \<leftarrow> points. px p * px p))"
  by (induction points arbitrary: a b) simp_all

lemma residual_expand:
  "residual c points = (\<Sum>p \<leftarrow> points. (py p)\<^sup>2) - 2 * c * (\<Sum>p \<leftarrow> points. px p * py p) + c\<^sup>2 * (\<Sum>p \<leftarrow> points. px p * px p)"
  unfolding residual_def by (induction points) (simp_all add: power2_eq_square algebra_simps)

lemma sum_squares_zero:
  "(\<Sum>p \<leftarrow> points. px p * px p) = 0 \<Longrightarrow> p \<in> set points \<Longrightarrow> px p = 0"
proof -
  have nonneg: "0 \<le> (\<Sum>p \<leftarrow> ps. px p * px p)" for ps by (rule sum_list_nonneg) auto
  show "(\<Sum>p \<leftarrow> points. px p * px p) = 0 \<Longrightarrow> p \<in> set points \<Longrightarrow> px p = 0"
  proof (induction points)
    case (Cons q points)
    then have "px q * px q = 0 \<and> (\<Sum>p \<leftarrow> points. px p * px p) = 0"
      using nonneg [of points] by (simp add: add_nonneg_eq_0_iff)
    then show ?case using Cons by auto
  qed simp
qed

text \<open>
  The fitted constant is a least-squares fit through the origin: no other constant has a
  smaller sum of squared residuals on the measured points.
\<close>

theorem fit_least_squares: "residual (fit_through_origin points) points \<le> residual c points"
proof -
  let ?xy = "\<Sum>p \<leftarrow> points. px p * py p" and ?xx = "\<Sum>p \<leftarrow> points. px p * px p"
  show ?thesis
  proof (cases "?xx = 0")
    case True
    have "(\<Sum>p \<leftarrow> points. px p * py p) = (\<Sum>p \<leftarrow> points. 0)"
      using sum_squares_zero [OF True] by (intro arg_cong [where f = sum_list] map_cong) auto
    then have "?xy = 0" by simp
    then show ?thesis using True by (simp add: residual_expand)
  next
    case False
    have pos: "0 < ?xx" using False sum_list_nonneg [of "map (\<lambda>p. px p * px p) points"] by fastforce
    have fit: "fit_through_origin points = ?xy / ?xx" using False by (simp add: fit_through_origin_def fit_sums)
    have "residual c points - residual (?xy / ?xx) points = ?xx * (c - ?xy / ?xx)\<^sup>2"
      using False by (simp add: residual_expand power2_eq_square field_simps)
    moreover have "0 \<le> ?xx * (c - ?xy / ?xx)\<^sup>2" using pos by simp
    ultimately show ?thesis using fit by simp
  qed
qed

section \<open>The crossover\<close>

text \<open>
  C39: for a calibrated model, with positive cost per node of the index, over a non-empty
  database the planner post-filters exactly above
  one selectivity, the crossover of the two cost lines, and it never picks the strategy it
  predicts to be dearer.
\<close>

theorem plan_crossover:
  assumes "0 < c_index c" and "0 \<le> c_scan c" and "0 < N"
  shows "(plan_strategy c N d K s = Post \<longleftrightarrow> c_index c * (real K + real N) / (real N * (c_index c + c_scan c * real d)) < s) \<and>
    (plan_strategy c N d K s = Post \<longrightarrow> predicted_post_cost_us c N K s \<le> predicted_pre_cost_us c N d s) \<and>
    (plan_strategy c N d K s = Pre \<longrightarrow> predicted_pre_cost_us c N d s \<le> predicted_post_cost_us c N K s)"
proof -
  have pos: "0 < real N * (c_index c + c_scan c * real d)" using assms by (simp add: add_pos_nonneg)
  have "c_index c * (real K + real N) / (real N * (c_index c + c_scan c * real d)) < s \<longleftrightarrow>
      c_index c * (real K + real N) < s * (real N * (c_index c + c_scan c * real d))"
    by (rule pos_divide_less_eq [OF pos])
  also have "\<dots> \<longleftrightarrow> c_index c * (real K + real N * (1 - s)) < c_scan c * (real N * s * real d)"
    by (simp add: algebra_simps)
  finally show ?thesis by (auto simp: plan_strategy_def predicted_post_cost_us_def predicted_pre_cost_us_def Let_def)
qed

theorem plan_crossover_witness:
  "plan_strategy default_filter_calibration 1000000 128 10 1 = Post \<and> plan_strategy default_filter_calibration 1000000 128 10 (1 / 2) = Pre"
proof -
  let ?c = default_filter_calibration
  have h: "0 < c_index ?c" "0 \<le> c_scan ?c" "(0 :: nat) < 1000000" by (simp_all add: default_filter_calibration_def)
  note cross = plan_crossover [OF h, where d = 128 and K = 10]
  have "plan_strategy ?c 1000000 128 10 1 = Post" using cross [of 1] by (simp add: default_filter_calibration_def)
  moreover have "plan_strategy ?c 1000000 128 10 (1 / 2) \<noteq> Post" using cross [of "1 / 2"] by (simp add: default_filter_calibration_def)
  ultimately show ?thesis by (cases "plan_strategy ?c 1000000 128 10 (1 / 2)") simp_all
qed

end
