(* ===== verification/Distance.thy ===== *)
theory Distance
  imports Serialize
begin

text \<open>
  The metrics of \<open>include/distance.h\<close> and \<open>src/distance.cpp\<close> on vectors of IEEE-754 single
  precision bit patterns. The functions read the first \<open>d\<close> elements behind their pointers. A
  distance is a real number: the sources are compiled with \<open>-ffast-math\<close>, which leaves the
  rounding and the order of the additions to the compiler and assumes finite values, so
  rounding, overflow to infinity and NaN are not modelled.
\<close>

type_synonym fvec = "float32 list"

section \<open>Values of floats\<close>

text \<open>
  Sign bit 31, eight exponent bits, twenty-three mantissa bits; \<open>scaled_single\<close> is the
  magnitude in units of the least subnormal.
\<close>

definition scaled_single :: "nat \<Rightarrow> nat" where
  "scaled_single n = (let e = n div 2 ^ 23; m = n mod 2 ^ 23 in if e = 0 then m else (2 ^ 23 + m) * 2 ^ (e - 1))"

definition float_value :: "float32 \<Rightarrow> real" where
  "float_value u = (if bit u 31 then -1 else 1) * real (scaled_single (take_bit 31 (unat u))) / 2 ^ 149"

section \<open>The functors\<close>

definition l2_squared :: "fvec \<Rightarrow> fvec \<Rightarrow> nat \<Rightarrow> real" where
  "l2_squared a b d = foldl (\<lambda>total i. let diff = float_value (a ! i) - float_value (b ! i) in total + diff * diff) 0 [0..<d]"

definition neg_inner_product :: "fvec \<Rightarrow> fvec \<Rightarrow> nat \<Rightarrow> real" where
  "neg_inner_product a b d = - foldl (\<lambda>total i. total + float_value (a ! i) * float_value (b ! i)) 0 [0..<d]"

definition vector_norm :: "fvec \<Rightarrow> nat \<Rightarrow> real" where
  "vector_norm v n = sqrt (foldl (\<lambda>t i. t + float_value (v ! i) * float_value (v ! i)) 0 [0..<n])"

definition cosine_distance :: "fvec \<Rightarrow> fvec \<Rightarrow> nat \<Rightarrow> real" where
  "cosine_distance a b d =
     (let na = vector_norm a d; nb = vector_norm b d
      in if na = 0 \<or> nb = 0 then 0 else 1 + neg_inner_product a b d / (na * nb))"

text \<open>\<open>L2Int8\<close>: 8-bit codes, the sum in a 32-bit integer.\<close>

definition l2_int8 :: "8 word list \<Rightarrow> 8 word list \<Rightarrow> nat \<Rightarrow> 32 word" where
  "l2_int8 a b d = foldl (\<lambda>total i. let diff = scast (a ! i) - scast (b ! i) in total + diff * diff) 0 [0..<d]"

datatype metric = L2 | InnerProduct | Cosine

definition metric_code :: "metric \<Rightarrow> u8" where
  "metric_code m = (case m of L2 \<Rightarrow> 0 | InnerProduct \<Rightarrow> 1 | Cosine \<Rightarrow> 2)"

definition metric_fn :: "metric \<Rightarrow> fvec \<Rightarrow> fvec \<Rightarrow> nat \<Rightarrow> real" where
  "metric_fn m = (case m of L2 \<Rightarrow> l2_squared | InnerProduct \<Rightarrow> neg_inner_product | Cosine \<Rightarrow> cosine_distance)"

section \<open>The sums the loops compute\<close>

lemma foldl_plus: "foldl (\<lambda>t i. t + f i) z [0..<d] = z + (\<Sum>i<d. f i)" for z :: "'a::comm_monoid_add"
  by (induction d arbitrary: z) (simp_all add: add.assoc)

definition dot :: "fvec \<Rightarrow> fvec \<Rightarrow> nat \<Rightarrow> real" where
  "dot a b d = (\<Sum>i<d. float_value (a ! i) * float_value (b ! i))"

lemma dot_commute: "dot a b d = dot b a d"
  by (simp add: dot_def mult.commute)

lemma dot_nonneg [simp]: "0 \<le> dot a a d"
  by (simp add: dot_def sum_nonneg)

lemma loop_sums:
  "l2_squared a b d = (\<Sum>i<d. (float_value (a ! i) - float_value (b ! i))\<^sup>2)"
  "neg_inner_product a b d = - dot a b d"
  "vector_norm a d = sqrt (dot a a d)"
  by (simp_all add: l2_squared_def neg_inner_product_def vector_norm_def dot_def foldl_plus Let_def power2_eq_square)

lemma l2_dot: "l2_squared a b d = dot a a d + dot b b d - 2 * dot a b d"
  by (simp add: loop_sums dot_def power2_eq_square algebra_simps sum.distrib sum_subtractf sum_distrib_left)

lemma cauchy_schwarz: "(dot a b d)\<^sup>2 \<le> dot a a d * dot b b d"
proof -
  let ?f = "\<lambda>i. float_value (a ! i)" and ?g = "\<lambda>i. float_value (b ! i)"
  have "2 * dot a a d * dot b b d - 2 * (dot a b d)\<^sup>2 = (\<Sum>i<d. \<Sum>j<d. (?f i * ?g j - ?f j * ?g i)\<^sup>2)"
    by (simp add: dot_def power2_eq_square sum_product algebra_simps sum.distrib sum_subtractf sum_distrib_left
        sum.swap [of "\<lambda>i j. ?f j * (?f j * (?g i * ?g i))"])
  moreover have "0 \<le> (\<Sum>i<d. \<Sum>j<d. (?f i * ?g j - ?f j * ?g i)\<^sup>2)" by (intro sum_nonneg) simp
  ultimately show ?thesis by linarith
qed

section \<open>Laws of the metrics\<close>

lemma cosine_dot:
  "cosine_distance a b d = (if dot a a d = 0 \<or> dot b b d = 0 then 0 else 1 - dot a b d / sqrt (dot a a d * dot b b d))"
  by (simp add: cosine_distance_def loop_sums Let_def real_sqrt_mult)

lemma cosine_range: "0 \<le> cosine_distance a b d \<and> cosine_distance a b d \<le> 2"
proof (cases "dot a a d = 0 \<or> dot b b d = 0")
  case True
  then show ?thesis by (simp add: cosine_dot)
next
  case False
  then have pos: "0 < dot a a d" "0 < dot b b d" by (simp_all add: less_le)
  define s where "s = sqrt (dot a a d * dot b b d)"
  have "0 < s" using pos by (simp add: s_def)
  moreover have "\<bar>dot a b d\<bar> \<le> s" using real_sqrt_le_mono [OF cauchy_schwarz] by (simp add: s_def)
  ultimately have "\<bar>dot a b d / s\<bar> \<le> 1" by (simp add: abs_divide)
  then have "-1 \<le> dot a b d / s \<and> dot a b d / s \<le> 1" unfolding abs_le_iff by linarith
  then show ?thesis using False by (simp add: cosine_dot s_def)
qed

text \<open>
  The metrics are what their names say. The squared Euclidean distance is never negative
  and is zero exactly between vectors of equal values, the cosine distance stays between 0 and
  2, and every metric is symmetric.
\<close>

theorem metric_laws:
  "metric_fn m a b d = metric_fn m b a d \<and>
    0 \<le> metric_fn L2 a b d \<and> (metric_fn L2 a b d = 0 \<longleftrightarrow> (\<forall>i\<in>{..<d}. float_value (a ! i) = float_value (b ! i))) \<and>
    0 \<le> metric_fn Cosine a b d \<and> metric_fn Cosine a b d \<le> 2"
proof -
  have "metric_fn m a b d = metric_fn m b a d"
  proof (cases m)
    case L2
    then show ?thesis by (simp add: metric_fn_def l2_dot dot_commute [of b a])
  next
    case InnerProduct
    then show ?thesis by (simp add: metric_fn_def loop_sums dot_commute [of b a])
  next
    case Cosine
    then show ?thesis by (simp add: metric_fn_def cosine_dot dot_commute [of b a] mult.commute [of "dot b b d"] disj_commute)
  qed
  moreover have "metric_fn L2 a b d = 0 \<longleftrightarrow> (\<forall>i\<in>{..<d}. float_value (a ! i) = float_value (b ! i))"
    by (simp add: metric_fn_def loop_sums sum_nonneg_eq_0_iff)
  ultimately show ?thesis using cosine_range by (simp add: metric_fn_def loop_sums sum_nonneg)
qed

theorem metric_laws_witness: "metric_fn L2 [0x3F800000] [0] 1 \<noteq> 0"
proof -
  have "float_value (([0x3F800000] :: fvec) ! 0) \<noteq> float_value (([0] :: fvec) ! 0)"
    by (simp add: float_value_def scaled_single_def Let_def take_bit_eq_mod)
  then show ?thesis using metric_laws [of L2 "[0x3F800000]" "[0]" 1] by auto
qed

text \<open>
  On vectors of one length the three metrics rank alike: whichever metric a database uses,
  the nearer of two normalised vectors is the same.
\<close>

theorem metrics_rank_alike:
  assumes "dot x x d = dot y y d" and "dot x x d \<noteq> 0" and "dot q q d \<noteq> 0"
  shows "(metric_fn L2 q x d \<le> metric_fn L2 q y d \<longleftrightarrow> metric_fn InnerProduct q x d \<le> metric_fn InnerProduct q y d) \<and>
    (metric_fn Cosine q x d \<le> metric_fn Cosine q y d \<longleftrightarrow> metric_fn InnerProduct q x d \<le> metric_fn InnerProduct q y d)"
proof -
  have pos: "0 < sqrt (dot q q d * dot y y d)" using assms by (simp add: less_le)
  have "metric_fn L2 q x d \<le> metric_fn L2 q y d \<longleftrightarrow> metric_fn InnerProduct q x d \<le> metric_fn InnerProduct q y d"
    using assms(1) by (simp add: metric_fn_def l2_dot loop_sums(2))
  moreover have "metric_fn Cosine q x d \<le> metric_fn Cosine q y d \<longleftrightarrow> metric_fn InnerProduct q x d \<le> metric_fn InnerProduct q y d"
    using assms pos by (simp add: metric_fn_def cosine_dot loop_sums(2) divide_le_cancel)
  ultimately show ?thesis by simp
qed

theorem metrics_rank_alike_witness:
  "metric_fn L2 [0x3F800000, 0] [0x3F800000, 0] 2 \<le> metric_fn L2 [0x3F800000, 0] [0, 0x3F800000] 2 \<and>
    metric_fn Cosine [0x3F800000, 0] [0x3F800000, 0] 2 \<le> metric_fn Cosine [0x3F800000, 0] [0, 0x3F800000] 2"
proof -
  let ?u = "[0x3F800000, 0] :: fvec" and ?v = "[0, 0x3F800000] :: fvec"
  have fv: "float_value 0x3F800000 = 1" "float_value 0 = 0"
    by (simp_all add: float_value_def scaled_single_def Let_def take_bit_eq_mod)
  have dots: "dot ?u ?u 2 = 1" "dot ?v ?v 2 = 1" "dot ?u ?v 2 = 0"
    by (simp_all add: dot_def numeral_2_eq_2 lessThan_Suc fv)
  have ip: "metric_fn InnerProduct ?u ?u 2 \<le> metric_fn InnerProduct ?u ?v 2"
    by (simp add: metric_fn_def loop_sums(2) dots)
  show ?thesis using metrics_rank_alike [of ?u 2 ?v ?u] dots ip by simp
qed

section \<open>Quantized distance\<close>

lemma int8_range: "\<bar>sint a - sint b\<bar> \<le> 255" for a b :: "8 word"
  using sint_greater_eq [of a] sint_less [of a] sint_greater_eq [of b] sint_less [of b] by simp

lemma int8_square: "(sint a - sint b)\<^sup>2 \<le> 65025" for a b :: "8 word"
  using power_mono [OF int8_range [of a b], of 2] by (simp add: power2_abs )

definition int8_l2 :: "8 word list \<Rightarrow> 8 word list \<Rightarrow> nat \<Rightarrow> int" where
  "int8_l2 a b d = (\<Sum>i<d. (sint (a ! i) - sint (b ! i))\<^sup>2)"

lemma l2_int8_of_int: "l2_int8 a b d = of_int (int8_l2 a b d)"
proof -
  have cast: "scast x = (of_int (sint x) :: 32 word)" for x :: "8 word" by (rule scast_eq)
  have "l2_int8 a b d = (\<Sum>i<d. (scast (a ! i) - scast (b ! i)) * (scast (a ! i) - scast (b ! i)))"
    by (simp add: l2_int8_def foldl_plus Let_def)
  also have "\<dots> = of_int (int8_l2 a b d)"
    unfolding int8_l2_def of_int_sum by (rule sum.cong) (simp_all only: cast power2_eq_square of_int_mult of_int_diff)
  finally show ?thesis .
qed

lemma int8_l2_bounds: "0 \<le> int8_l2 a b d \<and> int8_l2 a b d \<le> 65025 * int d"
proof -
  have "int8_l2 a b d \<le> of_nat (card {..<d}) * 65025"
    unfolding int8_l2_def by (rule sum_bounded_above) (rule int8_square)
  then show ?thesis by (simp add: int8_l2_def sum_nonneg)
qed

text \<open>
  C40: up to dimension 33025 the 32-bit accumulator of the quantized distance never overflows,
  and for vectors quantized exactly with one scale the result is the true squared distance
  divided by the square of the scale.
\<close>

theorem l2_int8_exact:
  assumes "d \<le> 33025"
  shows "sint (l2_int8 a b d) = (\<Sum>i<d. (sint (a ! i) - sint (b ! i))\<^sup>2) \<and>
    ((\<forall>i<d. float_value (x ! i) = scale * of_int (sint (a ! i)) \<and> float_value (y ! i) = scale * of_int (sint (b ! i))) \<longrightarrow>
      l2_squared x y d = scale\<^sup>2 * of_int (sint (l2_int8 a b d)))"
proof -
  have "int8_l2 a b d < 2 ^ 31" using int8_l2_bounds [of a b d] assms by simp
  then have s: "sint (l2_int8 a b d) = int8_l2 a b d"
    using int8_l2_bounds [of a b d] by (simp add: l2_int8_of_int signed_of_int signed_take_bit_int_eq_self)
  have "l2_squared x y d = scale\<^sup>2 * of_int (int8_l2 a b d)"
    if "\<forall>i<d. float_value (x ! i) = scale * of_int (sint (a ! i)) \<and> float_value (y ! i) = scale * of_int (sint (b ! i))"
  proof -
    have "l2_squared x y d = (\<Sum>i<d. scale\<^sup>2 * (of_int (sint (a ! i)) - of_int (sint (b ! i)))\<^sup>2)"
      unfolding loop_sums using that by (intro sum.cong) (simp_all add: right_diff_distrib [symmetric] power_mult_distrib)
    then show ?thesis by (simp add: int8_l2_def sum_distrib_left)
  qed
  then show ?thesis using s by (simp add: int8_l2_def)
qed

theorem l2_int8_exact_witness: "sint (l2_int8 [127, 128] [129, 127] 2) = 129541"
proof -
  have "sint (l2_int8 [127, 128] [129, 127] 2) = (\<Sum>i<2. (sint (([127, 128] :: 8 word list) ! i) - sint (([129, 127] :: 8 word list) ! i))\<^sup>2)"
    using l2_int8_exact [of 2 "[127, 128]" "[129, 127]"] by simp
  then show ?thesis by (simp add: numeral_2_eq_2 lessThan_Suc)
qed

end
