(* ===== verification/Vector_Index.thy ===== *)
theory Vector_Index
  imports Distance Ranking
begin

text \<open>
  The interface of an index, \<open>class Index\<close> of \<open>include/index.h\<close>: the virtual functions as a
  record, and what the database relies on as locales. A virtual call may fail an \<open>assert\<close> or
  never return (\<open>None\<close>), and an insertion may throw. A hit is a node with its distance.
\<close>

type_synonym hit = "internal_id \<times> real"

record 'i index_ops =
  ix_new :: 'i
  ix_train :: "fvec \<Rightarrow> nat \<Rightarrow> 'i \<Rightarrow> 'i option"
  ix_add :: "fvec \<Rightarrow> 'i \<Rightarrow> (internal_id \<times> 'i) res option"
  ix_allocate :: "fvec \<Rightarrow> 'i \<Rightarrow> (internal_id \<times> 'i) res option"
  ix_link :: "internal_id \<Rightarrow> 'i \<Rightarrow> 'i option"
  ix_search :: "'i \<Rightarrow> fvec \<Rightarrow> nat \<Rightarrow> hit list option"
  ix_size :: "'i \<Rightarrow> nat"
  ix_serialize :: "bytes \<Rightarrow> 'i \<Rightarrow> bytes"
  ix_deserialize :: "'i \<Rightarrow> bytes \<Rightarrow> ('i \<times> bytes) res"

text \<open>The bodies the base class has: no training, and \<open>add\<close> with a \<open>link\<close> that does nothing.\<close>

definition default_train :: "fvec \<Rightarrow> nat \<Rightarrow> 'i \<Rightarrow> 'i option" where
  "default_train data n i = Some i"

definition default_allocate :: "(fvec \<Rightarrow> 'i \<Rightarrow> (internal_id \<times> 'i) res option) \<Rightarrow> fvec \<Rightarrow> 'i \<Rightarrow> (internal_id \<times> 'i) res option" where
  "default_allocate add vec i = add vec i"

definition default_link :: "internal_id \<Rightarrow> 'i \<Rightarrow> 'i option" where
  "default_link node i = Some i"

section \<open>What a search may answer\<close>

text \<open>
  Every index, an approximate one too, answers with nodes it holds, each once and with its own
  distance, in ascending order and no more than asked.
\<close>

definition sound_hits :: "(fvec \<Rightarrow> fvec \<Rightarrow> real) \<Rightarrow> fvec list \<Rightarrow> fvec \<Rightarrow> nat \<Rightarrow> hit list \<Rightarrow> bool" where
  "sound_hits df xs q K hits \<longleftrightarrow> distinct (map fst hits) \<and> sorted (map snd hits) \<and> length hits \<le> K \<and>
     (\<forall>h \<in> set hits. fst h < length xs \<and> snd h = df q (xs ! fst h))"

definition all_hits :: "(fvec \<Rightarrow> fvec \<Rightarrow> real) \<Rightarrow> fvec list \<Rightarrow> fvec \<Rightarrow> hit list" where
  "all_hits df xs q = map (\<lambda>k. (k, df q (xs ! k))) [0..<length xs]"

lemma map_fst_all_hits [simp]: "map fst (all_hits df xs q) = [0..<length xs]"
  by (simp add: all_hits_def comp_def)

lemma length_all_hits [simp]: "length (all_hits df xs q) = length xs"
  by (simp add: all_hits_def)

lemma set_all_hits: "set (all_hits df xs q) = {h. fst h < length xs \<and> snd h = df q (xs ! fst h)}"
  by (auto simp: all_hits_def image_def intro: prod_eqI)

text \<open>An exact answer is sound.\<close>

lemma distinct_map_subset: "distinct (map f xs) \<Longrightarrow> distinct ys \<Longrightarrow> set ys \<subseteq> set xs \<Longrightarrow> distinct (map f ys)"
  by (meson distinct_map inj_on_subset)

lemma ranks_sound:
  assumes "ranks snd K (all_hits df xs q) hits"
  shows "sound_hits df xs q K hits"
proof -
  note R = ranksD [OF assms]
  have d: "distinct (map fst (all_hits df xs q))" by simp
  then have "distinct (all_hits df xs q)" unfolding distinct_map by blast
  then have "distinct hits" by (rule R(4))
  then have "distinct (map fst hits)" by (rule distinct_map_subset [OF d _ R(3)])
  then show ?thesis using R(1-3) by (auto simp: sound_hits_def set_all_hits)
qed

section \<open>The interfaces\<close>

text \<open>
  What every index gives: it numbers its nodes in the order they come, keeps the vectors, and
  searches soundly. \<open>vecs\<close> are the vectors it holds, \<open>inv\<close> its own invariant.
\<close>

locale vector_index =
  fixes ops :: "'i index_ops" and d :: nat and df :: "fvec \<Rightarrow> fvec \<Rightarrow> real"
    and inv :: "'i \<Rightarrow> bool" and vecs :: "'i \<Rightarrow> fvec list"
  assumes new_ok: "inv (ix_new ops)" "vecs (ix_new ops) = []"
    and add_ok: "inv i \<Longrightarrow> ix_add ops v i = Some (Inr (k, i')) \<Longrightarrow> k = length (vecs i) \<and> vecs i' = vecs i @ [take d v] \<and> inv i'"
    and allocate_ok: "inv i \<Longrightarrow> ix_allocate ops v i = Some (Inr (k, i')) \<Longrightarrow>
      k = length (vecs i) \<and> vecs i' = vecs i @ [take d v] \<and> inv i'"
    and link_ok: "inv i \<Longrightarrow> k < length (vecs i) \<Longrightarrow> ix_link ops k i = Some i' \<Longrightarrow> inv i' \<and> vecs i' = vecs i"
    and size_ok: "inv i \<Longrightarrow> ix_size ops i = length (vecs i)"
    and search_ok: "inv i \<Longrightarrow> ix_search ops i q K = Some hits \<Longrightarrow> sound_hits df (vecs i) q K hits"

text \<open>What compaction needs besides: training a fresh index leaves it empty.\<close>

locale rebuilt_index = vector_index +
  assumes train_ok: "inv i \<Longrightarrow> vecs i = [] \<Longrightarrow> ix_train ops data n i = Some i' \<Longrightarrow> inv i' \<and> vecs i' = []"

text \<open>
  An index whose operations always return, an insertion perhaps with the \<open>length_error\<close> of an
  index that is full, and one whose searches are exact besides.
\<close>

locale returning_index = rebuilt_index +
  assumes add_returns: "inv i \<Longrightarrow> \<exists>r. ix_add ops v i = Some r \<and> (\<forall>e. r = Inl e \<longrightarrow> e = LengthError)"
    and allocate_returns: "inv i \<Longrightarrow> \<exists>r. ix_allocate ops v i = Some r \<and> (\<forall>e. r = Inl e \<longrightarrow> e = LengthError)"
    and train_total: "inv i \<Longrightarrow> \<exists>i'. ix_train ops data n i = Some i'"
    and link_total: "inv i \<Longrightarrow> k < length (vecs i) \<Longrightarrow> \<exists>i'. ix_link ops k i = Some i'"
    and search_total: "inv i \<Longrightarrow> \<exists>hits. ix_search ops i q K = Some hits"

locale exact_index = returning_index +
  assumes search_exact: "inv i \<Longrightarrow> \<exists>hits. ix_search ops i q K = Some hits \<and> ranks snd K (all_hits df (vecs i) q) hits"

text \<open>
  An index that a snapshot can hold: within the widths of the file its bytes are read back, and
  one that can also be compacted serves a durable database.
\<close>

locale stored_index = vector_index +
  assumes serialize_append: "ix_serialize ops buf i = buf @ ix_serialize ops [] i"
    and deserialize_ok: "inv i \<Longrightarrow> d < 2 ^ 32 \<Longrightarrow> length (vecs i) < 2 ^ 32 \<Longrightarrow> \<forall>v \<in> set (vecs i). length v \<le> d \<Longrightarrow>
      \<exists>i'. ix_deserialize ops (ix_new ops) (ix_serialize ops [] i @ rest) = Inr (i', rest) \<and> inv i' \<and> vecs i' = vecs i"

locale database_index = rebuilt_index + stored_index

locale returning_database_index = returning_index + database_index

locale exact_database_index = exact_index + returning_database_index

end
