(* ===== verification/Brute_Index.thy ===== *)
theory Brute_Index
  imports Vector_Index
begin

text \<open>
  The exhaustive index of \<open>src/brute_index.cpp\<close> and \<open>include/brute_index.h\<close>. \<open>metric\<close> is the
  template argument \<open>Dist\<close>; \<open>arrange\<close> stands for the order that \<open>std::nth_element\<close> and
  \<open>std::sort\<close> leave equal distances in.
\<close>

record brute =
  bdim :: nat
  bdata :: "fvec list"

definition make_brute :: "nat \<Rightarrow> brute" where
  "make_brute d = \<lparr>bdim = d, bdata = []\<rparr>"

definition brute_add :: "fvec \<Rightarrow> brute \<Rightarrow> (internal_id \<times> brute) res option" where
  "brute_add vec b = (let b = b\<lparr>bdata := bdata b @ [take (bdim b) vec]\<rparr> in Some (Inr (length (bdata b) - 1, b)))"

definition brute_search :: "metric \<Rightarrow> (hit list \<Rightarrow> hit list) \<Rightarrow> brute \<Rightarrow> fvec \<Rightarrow> nat \<Rightarrow> hit list option" where
  "brute_search m arrange b query K =
     (let all = map (\<lambda>i. (i, metric_fn m query (bdata b ! i) (bdim b))) [0..<length (bdata b)];
          k = min K (length all)
      in Some (best snd arrange k all))"

definition brute_size :: "brute \<Rightarrow> nat" where
  "brute_size b = length (bdata b)"

definition brute_serialize :: "bytes \<Rightarrow> brute \<Rightarrow> bytes" where
  "brute_serialize out b =
     (let out = put (put out (of_nat (bdim b) :: u64)) (of_nat (length (bdata b)) :: u64) in foldl put_floats out (bdata b))"

definition brute_deserialize :: "brute \<Rightarrow> bytes \<Rightarrow> (brute \<times> bytes) res" where
  "brute_deserialize b r = bind_res (get r) (\<lambda>(d :: u64, r). bind_res (get r) (\<lambda>(n :: u64, r).
     bind_res (get_many (unat n) get_floats r) (\<lambda>(vs, r). Inr (b\<lparr>bdim := unat d, bdata := vs\<rparr>, r))))"

definition brute_ops :: "metric \<Rightarrow> (hit list \<Rightarrow> hit list) \<Rightarrow> nat \<Rightarrow> brute index_ops" where
  "brute_ops m arrange d = \<lparr>ix_new = make_brute d, ix_train = default_train, ix_add = brute_add,
     ix_allocate = default_allocate brute_add, ix_link = default_link, ix_search = brute_search m arrange,
     ix_size = brute_size, ix_serialize = brute_serialize, ix_deserialize = brute_deserialize\<rparr>"

section \<open>It is an exact index that can be stored\<close>

definition brute_inv :: "nat \<Rightarrow> brute \<Rightarrow> bool" where
  "brute_inv d b \<longleftrightarrow> bdim b = d"

definition brute_fits :: "brute \<Rightarrow> bool" where
  "brute_fits b \<longleftrightarrow> bdim b < 2 ^ 64 \<and> length (bdata b) < 2 ^ 64 \<and> (\<forall>v \<in> set (bdata b). length v \<le> max_floats)"

lemma brute_added:
  "bdim b = d \<Longrightarrow> brute_add v b = Some (Inr (length (bdata b), b\<lparr>bdata := bdata b @ [take d v]\<rparr>))"
  by (simp add: brute_add_def Let_def)

lemma brute_ops_simps [simp]:
  "ix_new (brute_ops m arrange d) = make_brute d" "ix_train (brute_ops m arrange d) = default_train"
  "ix_add (brute_ops m arrange d) = brute_add" "ix_allocate (brute_ops m arrange d) = brute_add"
  "ix_link (brute_ops m arrange d) = default_link" "ix_search (brute_ops m arrange d) = brute_search m arrange"
  "ix_size (brute_ops m arrange d) = brute_size" "ix_serialize (brute_ops m arrange d) = brute_serialize"
  "ix_deserialize (brute_ops m arrange d) = brute_deserialize"
  by (simp_all add: brute_ops_def default_allocate_def fun_eq_iff)

lemma brute_search_ranks:
  "bdim b = d \<Longrightarrow> \<exists>hits. brute_search m arrange b q K = Some hits \<and> ranks snd K (all_hits (\<lambda>q v. metric_fn m q v d) (bdata b) q) hits"
  using best_ranks [of snd K _ arrange] best_min [of snd arrange K] by (simp add: brute_search_def Let_def all_hits_def)

interpretation brute: exact_index "brute_ops m arrange d" d "\<lambda>q v. metric_fn m q v d" "brute_inv d" bdata for m arrange d
proof (unfold_locales, goal_cases)
  case (7 i q K hits)
  then show ?case using brute_search_ranks [of i d m arrange q K] ranks_sound by (auto simp: brute_inv_def)
next
  case (13 i q K)
  then show ?case using brute_search_ranks [of i d m arrange q K] by (auto simp: brute_inv_def)
qed (use brute_added brute_search_ranks in \<open>auto simp: brute_inv_def make_brute_def brute_size_def default_train_def default_link_def\<close>)

lemma brute_serialize_parts:
  "brute_serialize buf b = buf @ put [] (of_nat (bdim b) :: u64) @ put [] (of_nat (length (bdata b)) :: u64) @ concat (map (put_floats []) (bdata b))"
proof -
  have "foldl put_floats buf vs = buf @ concat (map (put_floats []) vs)" for buf vs
    by (rule foldl_appends) (rule put_floats_append)
  then show ?thesis by (simp add: brute_serialize_def Let_def put_append [of buf] put_append [of "buf @ _"])
qed

lemma brute_deserialize_serialize:
  assumes "brute_fits b"
  shows "brute_deserialize b0 (brute_serialize [] b @ rest) = Inr (b0\<lparr>bdim := bdim b, bdata := bdata b\<rparr>, rest)"
proof -
  have "get_many (length (bdata b)) get_floats (concat (map (put_floats []) (bdata b)) @ rest) = Inr (bdata b, rest)"
    using assms by (intro floatsc.get_many_enc) (simp add: brute_fits_def)
  then show ?thesis using assms
    by (simp add: brute_deserialize_def brute_serialize_parts put_def u64c.dec_enc brute_fits_def unat_of_nat_64)
qed

interpretation brute_file: exact_database_index "brute_ops m arrange d" d "\<lambda>q v. metric_fn m q v d" "brute_inv d" bdata for m arrange d
proof (unfold_locales, goal_cases)
  case (1 buf i)
  then show ?case by (simp add: brute_serialize_parts [of buf] brute_serialize_parts [of "[]"])
next
  case (2 i rest)
  then have "brute_fits i" by (auto simp: brute_fits_def brute_inv_def max_floats_def)
  then show ?case using 2(1) by (simp add: brute_deserialize_serialize make_brute_def brute_inv_def)
qed

text \<open>
  The exhaustive index is exact. Whatever vectors were added, a search returns nodes in
  order of distance, as many as asked or as there are, each once and with its own distance, and
  no node left out is nearer than one returned.
\<close>

theorem brute_search_exact:
  "\<exists>hits. brute_search m arrange b q K = Some hits \<and> length hits = min K (length (bdata b)) \<and>
    distinct (map fst hits) \<and> sorted (map snd hits) \<and>
    (\<forall>h\<in>set hits. fst h < length (bdata b) \<and> snd h = metric_fn m q (bdata b ! fst h) (bdim b)) \<and>
    (\<forall>k\<in>{..<length (bdata b)}. k \<in> set (map fst hits) \<or> (\<forall>h\<in>set hits. snd h \<le> metric_fn m q (bdata b ! k) (bdim b)))"
proof -
  let ?dist = "\<lambda>q v. metric_fn m q v (bdim b)"
  obtain hits where h: "brute_search m arrange b q K = Some hits" "ranks snd K (all_hits ?dist (bdata b) q) hits"
    using brute_search_ranks [OF refl] by blast
  note R = ranksD [OF h(2)]
  have "snd x \<le> ?dist q (bdata b ! k)" if "k < length (bdata b)" "k \<notin> set (map fst hits)" "x \<in> set hits" for k x
    using R(5) [of "(k, ?dist q (bdata b ! k))" x] that by (force simp: set_all_hits)
  then show ?thesis using h(1) R(2) ranks_sound [OF h(2)] by (intro exI [of _ hits]) (auto simp: sound_hits_def)
qed

theorem brute_search_exact_witness:
  "\<exists>hits. brute_search L2 rev \<lparr>bdim = 1, bdata = [[0x40000000], [0]]\<rparr> [0] 1 = Some hits \<and> length hits = 1"
  using brute_search_exact [of L2 rev "\<lparr>bdim = 1, bdata = [[0x40000000], [0]]\<rparr>" "[0]" 1] by auto

end
