(* ===== verification/Vdb.thy ===== *)
theory Vdb
  imports Vector_Index Text_Search Filter_Planner
begin

text \<open>
  The database layer: \<open>class VDB\<close> of \<open>include/vdb.h\<close> and \<open>src/vdb.cpp\<close>, over any index.
  The record \<open>ops\<close> holds the virtual functions of the index that \<open>make_index_\<close> builds for the
  configuration. A critical section under the exclusive lock is one definition, so the three
  phases of an insertion and of an update are separate steps that other calls may come between;
  the call is their composition. \<open>None\<close> is a call that fails an \<open>assert\<close> or does not return.
\<close>

datatype index_kind = Brute | IVF | HNSW

record vdb_config =
  vkind :: index_kind
  vdim :: nat
  vmetric :: metric
  vschema :: "attr_spec list"

record vhit =
  hid :: u64
  hdist :: real
  hpayload :: bytes

record 'i vdb =
  config :: vdb_config
  index :: 'i
  ext_to_int :: "u64 \<rightharpoonup> internal_id"
  int_to_ext :: "u64 list"
  deleted :: "bool list"
  vectors :: "fvec list"
  vmeta :: mstore
  next_ext_id :: u64
  live_total :: u64
  deleted_count :: u64
  calibration :: filter_calibration

definition make_vdb :: "'i index_ops \<Rightarrow> vdb_config \<Rightarrow> 'i vdb res" where
  "make_vdb ops cfg = bind_res (make_store (vschema cfg)) (\<lambda>m.
     Inr \<lparr>config = cfg, index = ix_new ops, ext_to_int = Map.empty, int_to_ext = [], deleted = [], vectors = [],
       vmeta = m, next_ext_id = 0, live_total = 0, deleted_count = 0, calibration = default_filter_calibration\<rparr>)"

section \<open>Methods\<close>

text \<open>A method returns a value or throws, and leaves a state either way.\<close>

type_synonym ('s, 'a) call = "'s \<Rightarrow> ('a res \<times> 's) option"

definition give :: "'a \<Rightarrow> ('s, 'a) call" where
  "give x s = Some (Inr x, s)"

definition modify :: "('s \<Rightarrow> 's) \<Rightarrow> ('s, unit) call" where
  "modify f s = Some (Inr (), f s)"

definition bind_method :: "('s, 'a) call \<Rightarrow> ('a \<Rightarrow> ('s, 'b) call) \<Rightarrow> ('s, 'b) call" where
  "bind_method f g s = (case f s of
     None \<Rightarrow> None | Some (Inl e, s') \<Rightarrow> Some (Inl e, s') | Some (Inr x, s') \<Rightarrow> g x s')"

definition on_meta :: "mstore action \<Rightarrow> ('i vdb, unit) call" where
  "on_meta f s = (case f (vmeta s) of
     None \<Rightarrow> None
   | Some (e, m) \<Rightarrow> Some (case e of None \<Rightarrow> Inr () | Some e \<Rightarrow> Inl e, s\<lparr>vmeta := m\<rparr>))"

definition validated :: "meta_record \<Rightarrow> ('i vdb, 'a) call \<Rightarrow> ('i vdb, 'a) call" where
  "validated rec f s = (case validate (mschema (vmeta s)) rec of Some e \<Rightarrow> Some (Inl e, s) | None \<Rightarrow> f s)"

section \<open>Writing\<close>

definition append_node :: "'i index_ops \<Rightarrow> u64 \<Rightarrow> fvec \<Rightarrow> ('i vdb, internal_id) call" where
  "append_node ops ext vec s = (case ix_add ops vec (index s) of
     None \<Rightarrow> None
   | Some (Inl e) \<Rightarrow> Some (Inl e, s)
   | Some (Inr (iid, i)) \<Rightarrow>
       if iid \<noteq> length (int_to_ext s) then None
       else Some (Inr iid, s\<lparr>index := i, int_to_ext := int_to_ext s @ [ext], deleted := deleted s @ [False],
         vectors := vectors s @ [take (vdim (config s)) vec]\<rparr>))"

definition reserve_id :: "('i vdb, u64) call" where
  "reserve_id s = Some (Inr (next_ext_id s), s\<lparr>next_ext_id := next_ext_id s + 1\<rparr>)"

text \<open>The part that the first phases of an insertion and of an update share.\<close>

definition allocate_node :: "'i index_ops \<Rightarrow> u64 \<Rightarrow> fvec \<Rightarrow> ('i vdb, internal_id) call" where
  "allocate_node ops ext vec s = (case ix_allocate ops vec (index s) of
     None \<Rightarrow> None
   | Some (Inl e) \<Rightarrow> Some (Inl e, s)
   | Some (Inr (iid, i)) \<Rightarrow>
       if iid \<noteq> length (int_to_ext s) then None
       else Some (Inr iid, s\<lparr>index := i, int_to_ext := int_to_ext s @ [ext], deleted := deleted s @ [True],
         deleted_count := deleted_count s + 1, vectors := vectors s @ [take (vdim (config s)) vec]\<rparr>))"

definition insert_allocate :: "'i index_ops \<Rightarrow> u64 \<Rightarrow> fvec \<Rightarrow> meta_record \<Rightarrow> ('i vdb, internal_id) call" where
  "insert_allocate ops ext vec rec = bind_method (allocate_node ops ext vec) (\<lambda>iid.
     bind_method (on_meta (append_row rec)) (\<lambda>_.
     bind_method (modify (\<lambda>s. if next_ext_id s \<le> ext then s\<lparr>next_ext_id := ext + 1\<rparr> else s)) (\<lambda>_. give iid)))"

definition link_node :: "'i index_ops \<Rightarrow> internal_id \<Rightarrow> ('i vdb, unit) call" where
  "link_node ops iid s = (case ix_link ops iid (index s) of None \<Rightarrow> None | Some i \<Rightarrow> Some (Inr (), s\<lparr>index := i\<rparr>))"

definition insert_publish :: "u64 \<Rightarrow> internal_id \<Rightarrow> ('i vdb, unit) call" where
  "insert_publish ext iid = bind_method (modify (\<lambda>s. s\<lparr>deleted := (deleted s)[iid := False], deleted_count := deleted_count s - 1\<rparr>)) (\<lambda>_.
     bind_method (on_meta (mark_live iid)) (\<lambda>_.
     modify (\<lambda>s. s\<lparr>ext_to_int := (ext_to_int s)(ext \<mapsto> iid), live_total := live_total s + 1\<rparr>)))"

definition insert_reserved :: "'i index_ops \<Rightarrow> u64 \<Rightarrow> fvec \<Rightarrow> meta_record \<Rightarrow> ('i vdb, unit) call" where
  "insert_reserved ops ext vec rec = validated rec (bind_method (insert_allocate ops ext vec rec) (\<lambda>iid.
     bind_method (link_node ops iid) (\<lambda>_. insert_publish ext iid)))"

definition vdb_insert :: "'i index_ops \<Rightarrow> fvec \<Rightarrow> meta_record \<Rightarrow> ('i vdb, u64) call" where
  "vdb_insert ops vec rec = validated rec (bind_method reserve_id (\<lambda>ext.
     bind_method (insert_reserved ops ext vec rec) (\<lambda>_. give ext)))"

definition vdb_remove :: "u64 \<Rightarrow> ('i vdb, bool) call" where
  "vdb_remove ext s = (case ext_to_int s ext of
     None \<Rightarrow> Some (Inr False, s)
   | Some iid \<Rightarrow> bind_method (modify (\<lambda>s. s\<lparr>deleted := (deleted s)[iid := True]\<rparr>)) (\<lambda>_.
       bind_method (on_meta (mark_dead iid)) (\<lambda>_.
       bind_method (modify (\<lambda>s. s\<lparr>ext_to_int := (ext_to_int s)(ext := None), live_total := live_total s - 1,
         deleted_count := deleted_count s + 1\<rparr>)) (\<lambda>_. give True))) s)"

text \<open>An update; no record is the overload that carries the row over.\<close>

definition update_allocate :: "'i index_ops \<Rightarrow> u64 \<Rightarrow> fvec \<Rightarrow> meta_record option \<Rightarrow> ('i vdb, (internal_id \<times> internal_id) option) call" where
  "update_allocate ops ext vec orec s = (case ext_to_int s ext of
     None \<Rightarrow> Some (Inr None, s)
   | Some old \<Rightarrow> bind_method (allocate_node ops ext vec) (\<lambda>new.
       bind_method (on_meta (case orec of None \<Rightarrow> append_row_copy old | Some rec \<Rightarrow> append_row rec)) (\<lambda>_. give (Some (new, old)))) s)"

definition update_publish :: "u64 \<Rightarrow> internal_id \<Rightarrow> internal_id \<Rightarrow> ('i vdb, unit) call" where
  "update_publish ext new old = bind_method (modify (\<lambda>s. s\<lparr>deleted := (deleted s)[new := False], deleted_count := deleted_count s - 1\<rparr>)) (\<lambda>_.
     bind_method (on_meta (mark_live new)) (\<lambda>_.
     bind_method (modify (\<lambda>s. s\<lparr>deleted := (deleted s)[old := True], deleted_count := deleted_count s + 1\<rparr>)) (\<lambda>_.
     bind_method (on_meta (mark_dead old)) (\<lambda>_.
     modify (\<lambda>s. s\<lparr>ext_to_int := (ext_to_int s)(ext \<mapsto> new)\<rparr>)))))"

definition vdb_update :: "'i index_ops \<Rightarrow> u64 \<Rightarrow> fvec \<Rightarrow> meta_record option \<Rightarrow> ('i vdb, bool) call" where
  "vdb_update ops ext vec orec = (case orec of None \<Rightarrow> (\<lambda>f. f) | Some rec \<Rightarrow> validated rec)
     (bind_method (update_allocate ops ext vec orec) (\<lambda>r. case r of
        None \<Rightarrow> give False
      | Some (new, old) \<Rightarrow> bind_method (link_node ops new) (\<lambda>_. bind_method (update_publish ext new old) (\<lambda>_. give True))))"

definition vdb_set_metadata :: "u64 \<Rightarrow> meta_record \<Rightarrow> ('i vdb, bool) call" where
  "vdb_set_metadata ext rec = validated rec (\<lambda>s. case ext_to_int s ext of
     None \<Rightarrow> Some (Inr False, s)
   | Some iid \<Rightarrow> bind_method (on_meta (set_row iid rec)) (\<lambda>_. give True) s)"

section \<open>Compaction\<close>

definition live_ids :: "'i vdb \<Rightarrow> internal_id list" where
  "live_ids s = filter (\<lambda>i. \<not> deleted s ! i) [0..<length (int_to_ext s)]"

fun append_all :: "'i index_ops \<Rightarrow> (u64 \<times> fvec) list \<Rightarrow> ('i vdb, unit) call" where
  "append_all ops [] = give ()"
| "append_all ops ((ext, vec) # rest) = bind_method (append_node ops ext vec) (\<lambda>iid.
     bind_method (modify (\<lambda>s. s\<lparr>ext_to_int := (ext_to_int s)(ext \<mapsto> iid)\<rparr>)) (\<lambda>_. append_all ops rest))"

text \<open>
  The live vectors are moved out of the database before the columns are permuted; a moved-from
  \<open>std::vector\<close> is empty.
\<close>

definition move_vectors :: "internal_id list \<Rightarrow> fvec list \<Rightarrow> fvec list" where
  "move_vectors live vs = foldl (\<lambda>vs i. vs[i := []]) vs live"

definition fresh_maps :: "'i index_ops \<Rightarrow> 'i vdb \<Rightarrow> 'i vdb" where
  "fresh_maps ops s = s\<lparr>index := ix_new ops, ext_to_int := Map.empty, int_to_ext := [], deleted := [], vectors := [], deleted_count := 0\<rparr>"

definition train_index :: "'i index_ops \<Rightarrow> fvec list \<Rightarrow> ('i vdb, unit) call" where
  "train_index ops vs s = (if vkind (config s) = IVF \<and> vs \<noteq> []
     then case ix_train ops (concat vs) (length vs) (index s) of None \<Rightarrow> None | Some i \<Rightarrow> Some (Inr (), s\<lparr>index := i\<rparr>)
     else Some (Inr (), s))"

definition compact :: "'i index_ops \<Rightarrow> ('i vdb, unit) call" where
  "compact ops s = (let live = live_ids s; live_vecs = map ((!) (vectors s)) live; live_exts = map ((!) (int_to_ext s)) live in
     bind_method (modify (\<lambda>s. s\<lparr>vectors := move_vectors live (vectors s)\<rparr>)) (\<lambda>_.
     bind_method (on_meta (permute live)) (\<lambda>_.
     bind_method (modify (fresh_maps ops)) (\<lambda>_.
     bind_method (train_index ops live_vecs) (\<lambda>_.
     append_all ops (zip live_exts live_vecs))))) s)"

end
