(* ===== verification/Vdb_Search.thy ===== *)
theory Vdb_Search
  imports Vdb "HOL-Library.AList"
begin

text \<open>
  The readers of \<open>class VDB\<close>. Each runs under the shared lock, so it sees one state; a hybrid
  search takes the lock twice, so it reads two, and writers may come between them. The \<open>size_t\<close> arithmetic of \<open>collect_\<close> wraps modulo \<open>2 ^ 64\<close>.
\<close>

type_synonym 'a answer = "'a res option"

definition bind_answer :: "'a answer \<Rightarrow> ('a \<Rightarrow> 'b answer) \<Rightarrow> 'b answer" where
  "bind_answer r f = (case r of None \<Rightarrow> None | Some (Inl e) \<Rightarrow> Some (Inl e) | Some (Inr x) \<Rightarrow> f x)"

definition map_answer :: "('a \<Rightarrow> 'b) \<Rightarrow> 'a answer \<Rightarrow> 'b answer" where
  "map_answer f r = bind_answer r (\<lambda>x. Some (Inr (f x)))"

section \<open>Lookups\<close>

definition contains :: "'i vdb \<Rightarrow> u64 \<Rightarrow> bool" where
  "contains s ext \<longleftrightarrow> ext_to_int s ext \<noteq> None"

definition get_metadata :: "'i vdb \<Rightarrow> u64 \<Rightarrow> meta_record option" where
  "get_metadata s ext = map_option (get_row (vmeta s)) (ext_to_int s ext)"

definition vdb_size :: "'i vdb \<Rightarrow> u64" where
  "vdb_size s = live_total s"

definition attr_count :: "'i vdb \<Rightarrow> nat \<Rightarrow> u32 \<Rightarrow> u32" where
  "attr_count s a code = live_count (vmeta s) a code"

definition peek_next_id :: "'i vdb \<Rightarrow> u64" where
  "peek_next_id s = next_ext_id s"

section \<open>Searching the index\<close>

definition collect_from :: "'i index_ops \<Rightarrow> 'i vdb \<Rightarrow> fvec \<Rightarrow> nat \<Rightarrow> u64 \<Rightarrow> (internal_id \<Rightarrow> bool) \<Rightarrow> hit list answer" where
  "collect_from ops s query K want keep = (case ix_search ops (index s) query (unat want) of
     None \<Rightarrow> None
   | Some hits \<Rightarrow> (let taken = filter (\<lambda>h. \<not> deleted s ! fst h \<and> keep (fst h)) hits
       in Some (Inr (if K = 0 then taken else take K taken))))"

definition collect :: "'i index_ops \<Rightarrow> 'i vdb \<Rightarrow> fvec \<Rightarrow> nat \<Rightarrow> resolved option \<Rightarrow> hit list answer" where
  "collect ops s query K pred = (let n = of_nat (ix_size ops (index s)) in
     case pred of
       None \<Rightarrow> collect_from ops s query K (min (of_nat K + deleted_count s) n) (\<lambda>_. True)
     | Some p \<Rightarrow> (case allowlist p of
         None \<Rightarrow> Some (Inl InvalidArgument)
       | Some ids \<Rightarrow> collect_from ops s query K (min (of_nat K + (n - of_nat (length ids))) n) (\<lambda>i. i \<in> set ids)))"

definition hit_ids :: "'i vdb \<Rightarrow> hit list \<Rightarrow> u64 list" where
  "hit_ids s hits = map (\<lambda>h. int_to_ext s ! fst h) hits"

definition full_hits :: "'i vdb \<Rightarrow> hit list \<Rightarrow> vhit list" where
  "full_hits s hits = map (\<lambda>h. \<lparr>hid = int_to_ext s ! fst h, hdist = snd h, hpayload = mpayloads (vmeta s) ! fst h\<rparr>) hits"

definition search :: "'i index_ops \<Rightarrow> 'i vdb \<Rightarrow> fvec \<Rightarrow> nat \<Rightarrow> u64 list answer" where
  "search ops s query K = (if K = 0 then Some (Inr []) else map_answer (hit_ids s) (collect ops s query K None))"

definition search_hits :: "'i index_ops \<Rightarrow> 'i vdb \<Rightarrow> fvec \<Rightarrow> nat \<Rightarrow> vhit list answer" where
  "search_hits ops s query K = (if K = 0 then Some (Inr []) else map_answer (full_hits s) (collect ops s query K None))"

definition collect_filtered :: "'i index_ops \<Rightarrow> 'i vdb \<Rightarrow> fvec \<Rightarrow> nat \<Rightarrow> predicate \<Rightarrow> hit list answer" where
  "collect_filtered ops s query K p = bind_answer (resolve (vmeta s) p (deleted s)) (\<lambda>r. collect ops s query K (Some r))"

definition search_where :: "'i index_ops \<Rightarrow> 'i vdb \<Rightarrow> fvec \<Rightarrow> nat \<Rightarrow> predicate \<Rightarrow> u64 list answer" where
  "search_where ops s query K p = (if K = 0 then Some (Inr []) else map_answer (hit_ids s) (collect_filtered ops s query K p))"

definition search_hits_where :: "'i index_ops \<Rightarrow> 'i vdb \<Rightarrow> fvec \<Rightarrow> nat \<Rightarrow> predicate \<Rightarrow> vhit list answer" where
  "search_hits_where ops s query K p = (if K = 0 then Some (Inr []) else map_answer (full_hits s) (collect_filtered ops s query K p))"

section \<open>Scanning the allowlist\<close>

definition prefilter_scan :: "(hit list \<Rightarrow> hit list) \<Rightarrow> metric \<Rightarrow> fvec \<Rightarrow> nat \<Rightarrow> nat \<Rightarrow> internal_id list \<Rightarrow> fvec list \<Rightarrow> hit list" where
  "prefilter_scan arrange m query K d ids vs =
     (let all = map (\<lambda>iid. (iid, metric_fn m query (vs ! iid) d)) ids; k = min K (length all) in best snd arrange k all)"

definition prefilter :: "(hit list \<Rightarrow> hit list) \<Rightarrow> 'i vdb \<Rightarrow> fvec \<Rightarrow> nat \<Rightarrow> internal_id list \<Rightarrow> hit list" where
  "prefilter arrange s query K ids = prefilter_scan arrange (vmetric (config s)) query K (vdim (config s)) ids (vectors s)"

definition collect_prefiltered :: "(hit list \<Rightarrow> hit list) \<Rightarrow> 'i vdb \<Rightarrow> fvec \<Rightarrow> nat \<Rightarrow> predicate \<Rightarrow> hit list answer" where
  "collect_prefiltered arrange s query K p = bind_answer (resolve (vmeta s) p (deleted s)) (\<lambda>r. case allowlist r of
     None \<Rightarrow> Some (Inl InvalidArgument) | Some ids \<Rightarrow> Some (Inr (prefilter arrange s query K ids)))"

definition search_prefiltered :: "(hit list \<Rightarrow> hit list) \<Rightarrow> 'i vdb \<Rightarrow> fvec \<Rightarrow> nat \<Rightarrow> predicate \<Rightarrow> u64 list answer" where
  "search_prefiltered arrange s query K p = (if K = 0 then Some (Inr []) else map_answer (hit_ids s) (collect_prefiltered arrange s query K p))"

definition search_hits_prefiltered :: "(hit list \<Rightarrow> hit list) \<Rightarrow> 'i vdb \<Rightarrow> fvec \<Rightarrow> nat \<Rightarrow> predicate \<Rightarrow> vhit list answer" where
  "search_hits_prefiltered arrange s query K p = (if K = 0 then Some (Inr []) else map_answer (full_hits s) (collect_prefiltered arrange s query K p))"

section \<open>Choosing the strategy\<close>

definition collect_auto :: "'i index_ops \<Rightarrow> (hit list \<Rightarrow> hit list) \<Rightarrow> 'i vdb \<Rightarrow> fvec \<Rightarrow> nat \<Rightarrow> predicate \<Rightarrow> hit list answer" where
  "collect_auto ops arrange s query K p = bind_answer (resolve (vmeta s) p (deleted s)) (\<lambda>r.
     let N = ix_size ops (index s) in
     case allowlist r of
       Some ids \<Rightarrow>
         if 0 < N \<and> plan_strategy (calibration s) N (vdim (config s)) K (real (length ids) / real N) = Pre
         then Some (Inr (prefilter arrange s query K ids))
         else collect ops s query K (Some r)
     | None \<Rightarrow> collect ops s query K (Some r))"

definition search_auto :: "'i index_ops \<Rightarrow> (hit list \<Rightarrow> hit list) \<Rightarrow> 'i vdb \<Rightarrow> fvec \<Rightarrow> nat \<Rightarrow> predicate \<Rightarrow> u64 list answer" where
  "search_auto ops arrange s query K p = (if K = 0 then Some (Inr []) else map_answer (hit_ids s) (collect_auto ops arrange s query K p))"

definition search_hits_auto :: "'i index_ops \<Rightarrow> (hit list \<Rightarrow> hit list) \<Rightarrow> 'i vdb \<Rightarrow> fvec \<Rightarrow> nat \<Rightarrow> predicate \<Rightarrow> vhit list answer" where
  "search_hits_auto ops arrange s query K p = (if K = 0 then Some (Inr []) else map_answer (full_hits s) (collect_auto ops arrange s query K p))"

section \<open>Text and hybrid search\<close>

definition vdb_search_text :: "(hit list \<Rightarrow> hit list) \<Rightarrow> 'i vdb \<Rightarrow> nat \<Rightarrow> bytes \<Rightarrow> nat \<Rightarrow> real \<Rightarrow> real \<Rightarrow> vhit list answer" where
  "vdb_search_text arrange s a query K k1 b = (if K = 0 then Some (Inr [])
     else map_answer (full_hits s) (Some (search_text arrange (vmeta s) a query K (deleted s) None k1 b)))"

definition vdb_search_text_where :: "(hit list \<Rightarrow> hit list) \<Rightarrow> 'i vdb \<Rightarrow> nat \<Rightarrow> bytes \<Rightarrow> nat \<Rightarrow> predicate \<Rightarrow> real \<Rightarrow> real \<Rightarrow> vhit list answer" where
  "vdb_search_text_where arrange s a query K p k1 b = (if K = 0 then Some (Inr [])
     else bind_answer (resolve (vmeta s) p (deleted s)) (\<lambda>r. case allowlist r of
       None \<Rightarrow> Some (Inl InvalidArgument)
     | Some ids \<Rightarrow> map_answer (full_hits s) (Some (search_text arrange (vmeta s) a query K (deleted s) (Some ids) k1 b))))"

text \<open>
  Reciprocal rank fusion. The two hash maps are association lists; the order in which the
  scores are walked is \<open>arrange\<close>'s.
\<close>

definition add_score :: "u64 \<Rightarrow> real \<Rightarrow> (u64 \<times> real) list \<Rightarrow> (u64 \<times> real) list" where
  "add_score ext x score = AList.update ext ((case map_of score ext of None \<Rightarrow> 0 | Some y \<Rightarrow> y) + x) score"

definition emplace_payload :: "u64 \<Rightarrow> bytes \<Rightarrow> (u64 \<times> bytes) list \<Rightarrow> (u64 \<times> bytes) list" where
  "emplace_payload ext p ps = (if map_of ps ext = None then AList.update ext p ps else ps)"

definition fold_hits :: "real \<Rightarrow> vhit list \<Rightarrow> (u64 \<times> real) list \<times> (u64 \<times> bytes) list \<Rightarrow> (u64 \<times> real) list \<times> (u64 \<times> bytes) list" where
  "fold_hits rrf_k hits st = foldl (\<lambda>(score, ps) i. (add_score (hid (hits ! i)) (1 / (rrf_k + real (i + 1))) score,
     emplace_payload (hid (hits ! i)) (hpayload (hits ! i)) ps)) st [0..<length hits]"

definition rrf_fuse :: "((u64 \<times> real) list \<Rightarrow> (u64 \<times> real) list) \<Rightarrow> vhit list \<Rightarrow> vhit list \<Rightarrow> nat \<Rightarrow> real \<Rightarrow> vhit list" where
  "rrf_fuse arrange a b K rrf_k =
     (let (score, payload_of) = fold_hits rrf_k b (fold_hits rrf_k a ([], []));
          ranked = best (\<lambda>x. - snd x) arrange (min K (length score)) score
      in map (\<lambda>(ext, x). \<lparr>hid = ext, hdist = x, hpayload = the (map_of payload_of ext)\<rparr>) ranked)"

definition search_hybrid :: "'i index_ops \<Rightarrow> (hit list \<Rightarrow> hit list) \<Rightarrow> ((u64 \<times> real) list \<Rightarrow> (u64 \<times> real) list) \<Rightarrow> 'i vdb \<Rightarrow> 'i vdb \<Rightarrow>
    fvec \<Rightarrow> nat \<Rightarrow> bytes \<Rightarrow> nat \<Rightarrow> nat \<Rightarrow> real \<Rightarrow> vhit list answer" where
  "search_hybrid ops arrange arr s1 s2 query_vec a query_text K depth rrf_k = (if K = 0 then Some (Inr [])
     else let depth = (if depth = 0 then K else depth) in
       bind_answer (search_hits ops s1 query_vec depth) (\<lambda>vec_hits.
       bind_answer (vdb_search_text arrange s2 a query_text depth (12 / 10) (75 / 100)) (\<lambda>lex_hits.
       Some (Inr (rrf_fuse arr vec_hits lex_hits K rrf_k)))))"

definition search_hybrid_where :: "'i index_ops \<Rightarrow> (hit list \<Rightarrow> hit list) \<Rightarrow> ((u64 \<times> real) list \<Rightarrow> (u64 \<times> real) list) \<Rightarrow> 'i vdb \<Rightarrow> 'i vdb \<Rightarrow>
    fvec \<Rightarrow> nat \<Rightarrow> bytes \<Rightarrow> nat \<Rightarrow> predicate \<Rightarrow> nat \<Rightarrow> real \<Rightarrow> vhit list answer" where
  "search_hybrid_where ops arrange arr s1 s2 query_vec a query_text K p depth rrf_k = (if K = 0 then Some (Inr [])
     else let depth = (if depth = 0 then K else depth) in
       bind_answer (search_hits_auto ops arrange s1 query_vec depth p) (\<lambda>vec_hits.
       bind_answer (vdb_search_text_where arrange s2 a query_text depth p (12 / 10) (75 / 100)) (\<lambda>lex_hits.
       Some (Inr (rrf_fuse arr vec_hits lex_hits K rrf_k)))))"

end
