(* ===== verification/Vdb_Fusion.thy ===== *)
theory Vdb_Fusion
  imports Vdb_Search
begin

text \<open>
  Reciprocal rank fusion, \<open>VDB::rrf_fuse_\<close>: what a fused answer holds.
\<close>

text \<open>What a list of hits adds to the score of an id: \<open>1 / (rrf_k + rank)\<close> for every place it has there.\<close>

definition rank_weight :: "real \<Rightarrow> vhit list \<Rightarrow> u64 \<Rightarrow> real" where
  "rank_weight rrf_k hits ext = (\<Sum>i \<in> {i. i < length hits \<and> hid (hits ! i) = ext}. 1 / (rrf_k + real (i + 1)))"

definition hits_payload :: "vhit list \<Rightarrow> u64 \<Rightarrow> bytes option" where
  "hits_payload hits ext = map_option hpayload (find (\<lambda>h. hid h = ext) hits)"

definition score_of :: "(u64 \<times> real) list \<Rightarrow> u64 \<Rightarrow> real" where
  "score_of score ext = (case map_of score ext of None \<Rightarrow> 0 | Some y \<Rightarrow> y)"

lemma find_append: "find P (xs @ ys) = (case find P xs of None \<Rightarrow> find P ys | Some x \<Rightarrow> Some x)"
  by (induction xs) auto

lemma hits_payload_append:
  "hits_payload (xs @ ys) ext = (case hits_payload xs ext of None \<Rightarrow> hits_payload ys ext | Some p \<Rightarrow> Some p)"
  by (auto simp: hits_payload_def find_append split: option.splits)

lemma hits_payload_known: "ext \<in> hid ` set hits \<Longrightarrow> \<exists>p. hits_payload hits ext = Some p"
  by (induction hits) (auto simp: hits_payload_def)

lemma sorted_descending: "sorted (map (\<lambda>x. - f x) xs) \<Longrightarrow> sorted (rev (map f xs :: real list))"
  by (simp add: sorted_wrt_map sorted_wrt_rev flip: rev_map)

lemma rank_weight_snoc:
  "rank_weight k (hits @ [h]) ext = rank_weight k hits ext + (if hid h = ext then 1 / (k + real (length hits + 1)) else 0)"
proof -
  have "{i. i < length (hits @ [h]) \<and> hid ((hits @ [h]) ! i) = ext} =
      {i. i < length hits \<and> hid (hits ! i) = ext} \<union> (if hid h = ext then {length hits} else {})"
    by (auto simp: nth_append less_Suc_eq)
  moreover have "(\<Sum>i \<in> {i. i < length hits \<and> hid (hits ! i) = ext}. 1 / (k + real (i + 1))) = rank_weight k hits ext"
    by (simp add: rank_weight_def)
  ultimately show ?thesis by (simp add: rank_weight_def sum.union_disjoint)
qed

lemma add_score:
  "score_of (add_score ext x score) y = score_of score y + (if y = ext then x else 0)"
  "fst ` set (add_score ext x score) = insert ext (fst ` set score)"
  "distinct (map fst score) \<Longrightarrow> distinct (map fst (add_score ext x score))"
  by (auto simp: score_of_def add_score_def update_conv' distinct_update dom_update split: option.splits)

lemma emplace_payload:
  "map_of (emplace_payload ext p ps) y = (case map_of ps y of None \<Rightarrow> if y = ext then Some p else None | Some q \<Rightarrow> Some q)"
  by (auto simp: emplace_payload_def update_conv' split: option.splits)

lemma fold_hits_snoc:
  "fold_hits k (hits @ [h]) st = (let (score, ps) = fold_hits k hits st in
     (add_score (hid h) (1 / (k + real (length hits + 1))) score, emplace_payload (hid h) (hpayload h) ps))"
proof -
  have "foldl (\<lambda>(score, ps) i. (add_score (hid ((hits @ [h]) ! i)) (1 / (k + real (i + 1))) score,
      emplace_payload (hid ((hits @ [h]) ! i)) (hpayload ((hits @ [h]) ! i)) ps)) st [0..<length hits] = fold_hits k hits st"
    unfolding fold_hits_def by (rule foldl_cong) (auto simp: nth_append)
  then show ?thesis by (simp add: fold_hits_def Let_def split: prod.splits)
qed

lemma fold_hits:
  assumes "fold_hits k hits (score, ps) = (score', ps')"
  shows "score_of score' ext = score_of score ext + rank_weight k hits ext \<and> fst ` set score' = fst ` set score \<union> hid ` set hits \<and>
    (distinct (map fst score) \<longrightarrow> distinct (map fst score')) \<and>
    map_of ps' ext = (case map_of ps ext of None \<Rightarrow> hits_payload hits ext | Some q \<Rightarrow> Some q)"
  using assms
proof (induction hits arbitrary: score' ps' rule: rev_induct)
  case Nil
  then show ?case by (auto simp: fold_hits_def rank_weight_def hits_payload_def split: option.splits)
next
  case (snoc h hits)
  obtain sc qs where f: "fold_hits k hits (score, ps) = (sc, qs)" by fastforce
  then have s: "score' = add_score (hid h) (1 / (k + real (length hits + 1))) sc" "ps' = emplace_payload (hid h) (hpayload h) qs"
    using snoc.prems by (simp_all add: fold_hits_snoc)
  show ?case using snoc.IH [OF f] by (auto simp: s add_score emplace_payload rank_weight_snoc hits_payload_append
    hits_payload_def [of "[h]"] split: option.splits)
qed

text \<open>
  C19: a hybrid answer is the fusion of the two rankings. It has each id of either once, ranked
  by the sum of \<open>1 / (rrf_k + rank)\<close> over its places in both, the best \<open>K\<close> of them, and
  carries the payload the first ranking that has the id gave.
\<close>

theorem rrf_fuse_exact:
  "let out = rrf_fuse arrange a b K rrf_k; fused = (\<lambda>ext. rank_weight rrf_k a ext + rank_weight rrf_k b ext) in
    distinct (map hid out) \<and> hid ` set out \<subseteq> hid ` set (a @ b) \<and> length out = min K (card (hid ` set (a @ b))) \<and>
    sorted (rev (map hdist out)) \<and>
    (\<forall>h\<in>set out. hdist h = fused (hid h) \<and> hits_payload (a @ b) (hid h) = Some (hpayload h)) \<and>
    (\<forall>x\<in>hid ` set (a @ b). x \<in> hid ` set out \<or> (\<forall>h\<in>set out. fused x \<le> hdist h))"
proof -
  obtain s1 p1 where f1: "fold_hits rrf_k a ([], []) = (s1, p1)" by fastforce
  obtain score ps where f2: "fold_hits rrf_k b (s1, p1) = (score, ps)" by fastforce
  let ?fused = "\<lambda>ext. rank_weight rrf_k a ext + rank_weight rrf_k b ext"
  have d: "distinct (map fst score)" and keys: "fst ` set score = hid ` set (a @ b)"
    and sc: "score_of score ext = ?fused ext" and pl: "map_of ps ext = hits_payload (a @ b) ext" for ext
    using fold_hits [OF f1, of ext] fold_hits [OF f2, of ext]
    by (auto simp: score_of_def hits_payload_append split: option.splits)
  have val: "y = ?fused x" if "(x, y) \<in> set score" for x y using sc [of x] that d by (simp add: score_of_def map_of_is_SomeI)
  define ranked where "ranked = best (\<lambda>x. - snd x) arrange (min K (length score)) score"
  have R: "ranks (\<lambda>x. - snd x) K score ranked"
    using best_ranks [of "\<lambda>x. - snd x" K score arrange] best_min [of "\<lambda>x. - snd x" arrange K score] by (simp add: ranked_def)
  note R = ranksD [OF R]
  have out: "rrf_fuse arrange a b K rrf_k = map (\<lambda>(ext, x). \<lparr>hid = ext, hdist = x, hpayload = the (map_of ps ext)\<rparr>) ranked"
    by (simp add: rrf_fuse_def f1 f2 ranked_def)
  have ids: "map hid (rrf_fuse arrange a b K rrf_k) = map fst ranked" and ds: "map hdist (rrf_fuse arrange a b K rrf_k) = map snd ranked"
    by (auto simp: out)
  define res where "res = rrf_fuse arrange a b K rrf_k"
  have len: "length res = min K (card (hid ` set (a @ b)))"
    using R(2) d keys by (simp add: res_def out) (metis distinct_card length_map set_map)
  have idset: "hid ` set res = fst ` set ranked" and dset: "hdist ` set res = snd ` set ranked"
    using arg_cong [OF ids, of set] arg_cong [OF ds, of set] by (simp_all add: res_def)
  have "distinct ranked" by (rule R(4)) (use d distinct_map in blast)
  then have dist: "distinct (map hid res)" using d R(3) unfolding res_def ids by (meson distinct_map inj_on_subset)
  have desc: "sorted (rev (map hdist res))" unfolding res_def ds by (rule sorted_descending) (rule R(1))
  have hit: "hdist h = ?fused (hid h) \<and> hits_payload (a @ b) (hid h) = Some (hpayload h)" if h: "h \<in> set res" for h
  proof -
    obtain e x where ex: "(e, x) \<in> set ranked" "h = \<lparr>hid = e, hdist = x, hpayload = the (map_of ps e)\<rparr>" using h by (auto simp: res_def out)
    then have "(e, x) \<in> set score" using R(3) by blast
    then show ?thesis using val [of e x] hits_payload_known [of e "a @ b"] keys ex(2) pl [of e] by force
  qed
  have left: "?fused x \<le> hdist h" if x: "x \<in> hid ` set (a @ b)" "x \<notin> hid ` set res" and h: "h \<in> set res" for x h
  proof -
    have "hdist h \<in> snd ` set ranked" using h dset by blast
    then obtain z where z: "z \<in> set ranked" "hdist h = snd z" by auto
    have "x \<in> fst ` set score" using x(1) keys by simp
    then obtain y where y: "(x, y) \<in> set score" by auto
    then have "(x, y) \<notin> set ranked" using x(2) idset by force
    then show ?thesis using R(5) [OF y _ z(1)] val [OF y] z(2) by simp
  qed
  have sub: "hid ` set res \<subseteq> hid ` set (a @ b)" unfolding idset keys [symmetric] by (rule image_mono [OF R(3)])
  have "\<forall>x\<in>hid ` set (a @ b). x \<in> hid ` set res \<or> (\<forall>h\<in>set res. ?fused x \<le> hdist h)" using left by blast
  moreover have "\<forall>h\<in>set res. hdist h = ?fused (hid h) \<and> hits_payload (a @ b) (hid h) = Some (hpayload h)" using hit by blast
  ultimately show ?thesis using dist sub len desc unfolding Let_def res_def [symmetric] by (intro conjI)
qed

text \<open>An id found by both rankings has two terms in its score.\<close>

theorem rrf_fuse_exact_witness:
  "let out = rrf_fuse rev [\<lparr>hid = 1, hdist = 0, hpayload = [7]\<rparr>] [\<lparr>hid = 1, hdist = 5, hpayload = []\<rparr>] 3 60 in
    length out = 1 \<and> (\<forall>h\<in>set out. hid h = 1 \<and> hdist h = 2 / 61 \<and> hpayload h = [7])"
proof -
  have w: "rank_weight 60 [\<lparr>hid = 1, hdist = x, hpayload = p\<rparr>] 1 = 1 / 61" for x p
    using rank_weight_snoc [of 60 "[]" "\<lparr>hid = 1, hdist = x, hpayload = p\<rparr>" 1] by (simp add: rank_weight_def)
  let ?a = "[\<lparr>hid = 1, hdist = 0, hpayload = [7]\<rparr>]" and ?b = "[\<lparr>hid = 1, hdist = 5, hpayload = []\<rparr>] :: vhit list"
  have f: "hid ` set (rrf_fuse rev ?a ?b 3 60) \<subseteq> {1}" "length (rrf_fuse rev ?a ?b 3 60) = 1"
    "\<forall>h\<in>set (rrf_fuse rev ?a ?b 3 60). hdist h = rank_weight 60 ?a (hid h) + rank_weight 60 ?b (hid h) \<and>
       hits_payload (?a @ ?b) (hid h) = Some (hpayload h)"
    using rrf_fuse_exact [of rev ?a ?b 3 60] unfolding Let_def by simp_all
  have "hid h = 1 \<and> hdist h = 2 / 61 \<and> hpayload h = [7]" if "h \<in> set (rrf_fuse rev ?a ?b 3 60)" for h
  proof -
    have "hid h = 1" using f(1) that by blast
    moreover have "hits_payload (?a @ ?b) 1 = Some [7]" by (simp add: hits_payload_def)
    ultimately show ?thesis using bspec [OF f(3) that] by (simp add: w)
  qed
  then show ?thesis using f(2) unfolding Let_def by blast
qed

end
