(* ===== verification/Snapshot.thy ===== *)
theory Snapshot
  imports Vdb
begin

text \<open>
  The snapshot of \<open>src/snapshot.cpp\<close>: the database as the bytes of one file, and back. The
  index is rebuilt by its own \<open>deserialize\<close>, the metadata store by \<open>deserialize\<close> and
  \<open>rebuild_derived_state\<close>. A load that throws leaves an object that its caller, a
  constructor, drops. The file itself is modelled with the durable database.
\<close>

section \<open>The code\<close>

definition kSnapMagic :: u32 where "kSnapMagic = 0x56444253"
definition kSnapVersion :: u16 where "kSnapVersion = 2"

definition put_bool :: "bytes \<Rightarrow> bool \<Rightarrow> bytes" where
  "put_bool buf b = put buf (if b then 1 else 0 :: u8)"

definition get_bool :: "bytes \<Rightarrow> (bool \<times> bytes) res" where
  "get_bool r = bind_res (get r) (\<lambda>(b :: u8, r). Inr (b \<noteq> 0, r))"

definition save_snapshot :: "'i index_ops \<Rightarrow> 'i vdb \<Rightarrow> u64 \<Rightarrow> bytes" where
  "save_snapshot ops s lsn =
     (let buf = put [] kSnapMagic;
          buf = put buf kSnapVersion;
          buf = put buf (of_nat (vdim (config s)) :: u32);
          buf = put buf (metric_code (vmetric (config s)));
          buf = put buf lsn;
          buf = put buf (next_ext_id s);
          buf = put buf (live_total s);
          buf = put buf (deleted_count s);
          buf = put buf (of_nat (length (int_to_ext s)) :: u64);
          buf = foldl put buf (int_to_ext s);
          buf = put buf (of_nat (length (deleted s)) :: u64);
          buf = foldl put_bool buf (deleted s);
          buf = put buf (of_nat (length (vectors s)) :: u64);
          buf = foldl put_floats buf (vectors s);
          buf = serialize buf (vmeta s)
      in ix_serialize ops buf (index s))"

text \<open>The checks and the fields before the metadata.\<close>

definition read_arrays :: "'i vdb \<Rightarrow> bytes \<Rightarrow> ((u64 \<times> 'i vdb) \<times> bytes) res" where
  "read_arrays db r =
     bind_res (get r) (\<lambda>(magic, r). if magic \<noteq> kSnapMagic then Inl RuntimeError else
     bind_res (get r) (\<lambda>(version, r). if version \<noteq> kSnapVersion then Inl RuntimeError else
     bind_res (get r) (\<lambda>(d :: u32, r). bind_res (get r) (\<lambda>(m :: u8, r).
       if unat d \<noteq> vdim (config db) \<or> m \<noteq> metric_code (vmetric (config db)) then Inl RuntimeError else
     bind_res (get r) (\<lambda>(lsn :: u64, r).
     bind_res (get r) (\<lambda>(next, r). bind_res (get r) (\<lambda>(live, r). bind_res (get r) (\<lambda>(dead, r).
     bind_res (get r) (\<lambda>(n_ext :: u64, r). bind_res (get_many (unat n_ext) get r) (\<lambda>(exts, r).
     bind_res (get r) (\<lambda>(n_del :: u64, r). bind_res (get_many (unat n_del) get_bool r) (\<lambda>(dels, r).
     bind_res (get r) (\<lambda>(n_vec :: u64, r). bind_res (get_many (unat n_vec) get_floats r) (\<lambda>(vecs, r).
       Inr ((lsn, db\<lparr>next_ext_id := next, live_total := live, deleted_count := dead,
         int_to_ext := exts, deleted := dels, vectors := vecs\<rparr>), r)))))))))))))))"

definition live_map :: "u64 list \<Rightarrow> bool list \<Rightarrow> u64 \<rightharpoonup> internal_id" where
  "live_map exts dels = foldl (\<lambda>m i. if \<not> dels ! i then m(exts ! i \<mapsto> i) else m) Map.empty [0..<length exts]"

definition load_snapshot :: "'i index_ops \<Rightarrow> 'i vdb \<Rightarrow> bytes \<Rightarrow> (u64 \<times> 'i vdb) res option" where
  "load_snapshot ops db r = (case read_arrays db r of
     Inl e \<Rightarrow> Some (Inl e)
   | Inr ((lsn, db), r) \<Rightarrow> (case deserialize (vmeta db) r of
       Inl e \<Rightarrow> Some (Inl e)
     | Inr (m, r) \<Rightarrow> (case rebuild_derived_state (deleted db) m of
         None \<Rightarrow> None
       | Some (Some e, _) \<Rightarrow> Some (Inl e)
       | Some (None, m) \<Rightarrow> (case ix_deserialize ops (ix_new ops) r of
           Inl e \<Rightarrow> Some (Inl e)
         | Inr (i, _) \<Rightarrow> Some (Inr (lsn, db\<lparr>index := i, ext_to_int := live_map (int_to_ext db) (deleted db), vmeta := m\<rparr>))))))"

section \<open>Reading back\<close>

text \<open>What a snapshot file has room for.\<close>

definition snapshot_fits :: "'i vdb \<Rightarrow> bool" where
  "snapshot_fits s \<longleftrightarrow> vdim (config s) < 2 ^ 32 \<and> length (int_to_ext s) < 2 ^ 32 \<and> store_fits (vmeta s)"

interpretation boolc: codec "put_bool []" get_bool "\<lambda>_. True"
  by unfold_locales (auto simp: put_bool_def get_bool_def put_def u8c.dec_enc get_short)

definition array_bytes :: "'i vdb \<Rightarrow> u64 \<Rightarrow> bytes" where
  "array_bytes s lsn = word_bytes kSnapMagic @ word_bytes kSnapVersion @ word_bytes (of_nat (vdim (config s)) :: u32) @
     word_bytes (metric_code (vmetric (config s))) @ word_bytes lsn @ word_bytes (next_ext_id s) @ word_bytes (live_total s) @
     word_bytes (deleted_count s) @ word_bytes (of_nat (length (int_to_ext s)) :: u64) @ concat (map word_bytes (int_to_ext s)) @
     word_bytes (of_nat (length (deleted s)) :: u64) @ concat (map (put_bool []) (deleted s)) @
     word_bytes (of_nat (length (vectors s)) :: u64) @ concat (map (put_floats []) (vectors s))"

lemma save_snapshot_parts:
  assumes "\<And>buf i. ix_serialize ops buf i = buf @ ix_serialize ops [] i"
  shows "save_snapshot ops s lsn = array_bytes s lsn @ serialize [] (vmeta s) @ ix_serialize ops [] (index s)"
proof -
  have "foldl put_bool buf xs = buf @ concat (map (put_bool []) xs)" for buf xs
    by (rule foldl_appends) (simp add: put_bool_def put_def)
  moreover have "foldl put_floats buf xs = buf @ concat (map (put_floats []) xs)" for buf xs
    by (rule foldl_appends) (rule put_floats_append)
  ultimately show ?thesis
    using assms [of "array_bytes s lsn @ serialize [] (vmeta s)"] serialize_append [of "array_bytes s lsn" "vmeta s"]
    by (simp add: save_snapshot_def array_bytes_def Let_def put_def foldl_put)
qed

lemma read_array_bytes:
  assumes "vdim (config s) < 2 ^ 32" and "length (int_to_ext s) < 2 ^ 64" and "\<forall>v \<in> set (vectors s). length v \<le> max_floats"
    and "length (deleted s) = length (int_to_ext s)" "length (vectors s) = length (int_to_ext s)" and "config db = config s"
  shows "read_arrays db (array_bytes s lsn @ rest) = Inr ((lsn, db\<lparr>next_ext_id := next_ext_id s, live_total := live_total s,
    deleted_count := deleted_count s, int_to_ext := int_to_ext s, deleted := deleted s, vectors := vectors s\<rparr>), rest)"
proof -
  note many = u64c.get_many_enc [of "int_to_ext s"] boolc.get_many_enc [of "deleted s"] floatsc.get_many_enc [of "vectors s"]
  show ?thesis
    using assms many by (simp add: read_arrays_def array_bytes_def u8c.dec_enc u16c.dec_enc u32c.dec_enc u64c.dec_enc unat_of_nat_64 unsigned_of_nat take_bit_nat_eq_self)
qed

end
