(* ===== verification/Durable.thy ===== *)
theory Durable
  imports Snapshot Vdb_Search Wal
begin

text \<open>
  The crash-safe database: \<open>class DurableVDB\<close> of \<open>include/durable_vdb.h\<close> and
  \<open>src/durable_vdb.cpp\<close>, the log and the snapshot around a database in memory. The object owns
  two directories of one disk model: \<open>dwal_dir\<close> for the log's segments and \<open>dhome\<close> for the
  snapshot. A critical section under \<open>write_mutex_\<close> or \<open>commit_mutex_\<close> is one definition; a
  call is their composition, which is what runs when no other thread does, so waiting for a
  condition that only another thread can make true is \<open>None\<close>. The clock is an argument.
\<close>

section \<open>The snapshot's file\<close>

definition rename_file :: "disk \<Rightarrow> string \<Rightarrow> string \<Rightarrow> disk" where
  "rename_file d old new = (case map_of d old of None \<Rightarrow> d | Some f \<Rightarrow> AList.update new f (AList.delete old d))"

definition tmp_path :: "string \<Rightarrow> string" where
  "tmp_path path = path @ ''.tmp''"

text \<open>The file system after each call up to the \<open>rename\<close>: opened and truncated, written, synced.\<close>

definition write_stages :: "disk \<Rightarrow> string \<Rightarrow> bytes \<Rightarrow> disk list" where
  "write_stages d path b =
     (let tmp = tmp_path path;
          d1 = AList.update tmp \<lparr>fdata = [], fdurable = 0\<rparr> d;
          d2 = write_at d1 tmp 0 b;
          d3 = fsync d2 tmp
      in [d1, d2, d3])"

definition write_file_atomic :: "disk \<Rightarrow> string \<Rightarrow> bytes \<Rightarrow> disk" where
  "write_file_atomic d path b = rename_file (last (write_stages d path b)) (tmp_path path) path"

definition read_whole_file :: "disk \<Rightarrow> string \<Rightarrow> bytes res" where
  "read_whole_file d path = (case map_of d path of None \<Rightarrow> Inl RuntimeError | Some f \<Rightarrow> Inr (fdata f))"

definition snapshot_path :: string where
  "snapshot_path = ''snapshot''"

section \<open>The object\<close>

datatype policy = PerOpSync | Periodic

record durable_options =
  dpolicy :: policy
  flush_interval_ms :: nat
  checkpoint_ops :: u64
  wal_seg_max :: nat

record 'i durable =
  dconfig :: vdb_config
  dopts :: durable_options
  ddb :: "'i vdb"
  dwal :: wal
  dwal_dir :: disk
  dhome :: disk
  next_lsn :: u64
  snapshot_id :: u64
  ops_since_checkpoint :: u64
  durable_lsn :: u64
  syncing :: bool
  in_flight :: u64
  last_sync :: nat

definition on_db :: "('i vdb, 'a) call \<Rightarrow> ('i durable, 'a) call" where
  "on_db f s = (case f (ddb s) of None \<Rightarrow> None | Some (r, db) \<Rightarrow> Some (r, s\<lparr>ddb := db\<rparr>))"

definition on_wal :: "(wal \<Rightarrow> disk \<Rightarrow> exn option \<times> wal \<times> disk) \<Rightarrow> ('i durable, unit) call" where
  "on_wal f s = (case f (dwal s) (dwal_dir s) of
     (e, w, d) \<Rightarrow> Some (case e of None \<Rightarrow> Inr () | Some e \<Rightarrow> Inl e, s\<lparr>dwal := w, dwal_dir := d\<rparr>))"

section \<open>Recovery\<close>

definition apply_record :: "'i index_ops \<Rightarrow> wal_record \<Rightarrow> ('i vdb, unit) call" where
  "apply_record ops r =
     (if rtype r = rt_insert then insert_reserved ops (ext_id r) (vec r) (meta r)
      else if rtype r = rt_update then bind_method (vdb_update ops (ext_id r) (vec r) (Some (meta r))) (\<lambda>_. give ())
      else if rtype r = rt_set_meta then bind_method (vdb_set_metadata (ext_id r) (meta r)) (\<lambda>_. give ())
      else if rtype r = rt_delete then bind_method (vdb_remove (ext_id r)) (\<lambda>_. give ())
      else give ())"

text \<open>The callback of the replay; a database that a call left without returning stays \<open>None\<close>.\<close>

definition replay_record :: "'i index_ops \<Rightarrow> u64 \<Rightarrow> 'i vdb option \<Rightarrow> wal_record \<Rightarrow> 'i vdb option res" where
  "replay_record ops covered st r = (case st of
     None \<Rightarrow> Inr None
   | Some db \<Rightarrow> if covered < lsn r
       then (case apply_record ops r db of
           None \<Rightarrow> Inr None | Some (Inl e, _) \<Rightarrow> Inl e | Some (Inr _, db) \<Rightarrow> Inr (Some db))
       else Inr (Some db))"

definition load_home :: "'i index_ops \<Rightarrow> 'i vdb \<Rightarrow> disk \<Rightarrow> (u64 \<times> 'i vdb) res option" where
  "load_home ops db home =
     (if map_of home snapshot_path = None then Some (Inr (0, db))
      else (case read_whole_file home snapshot_path of Inl e \<Rightarrow> Some (Inl e) | Inr b \<Rightarrow> load_snapshot ops db b))"

text \<open>The constructor: \<open>recover_\<close> on a fresh object; one that throws leaves none.\<close>

definition recover :: "'i index_ops \<Rightarrow> vdb_config \<Rightarrow> durable_options \<Rightarrow> disk \<Rightarrow> disk \<Rightarrow> nat \<Rightarrow> 'i durable res option" where
  "recover ops cfg opts home dir now = (case make_vdb ops cfg of
     Inl e \<Rightarrow> Some (Inl e)
   | Inr db0 \<Rightarrow> (case load_home ops db0 home of
       None \<Rightarrow> None
     | Some (Inl e) \<Rightarrow> Some (Inl e)
     | Some (Inr (covered, db)) \<Rightarrow>
         (case wal_open empty_wal dir (of_nat (vdim cfg)) (metric_code (vmetric cfg)) (mfingerprint (vmeta db)) (wal_seg_max opts) of
           (Some e, _, _) \<Rightarrow> Some (Inl e)
         | (None, w, d) \<Rightarrow> (case replay (replay_record ops covered) (Some db) w d of
             (e, None, _, _) \<Rightarrow> None
           | (Some e, Some db, _, _) \<Rightarrow> Some (Inl e)
           | (None, Some db, w, d) \<Rightarrow>
               (let next = max covered (highest_lsn w) + 1 in
                Some (Inr \<lparr>dconfig = cfg, dopts = opts, ddb = db, dwal = w, dwal_dir = d, dhome = home,
                  next_lsn = next, snapshot_id = 0, ops_since_checkpoint = 0, durable_lsn = next - 1,
                  syncing = False, in_flight = 0, last_sync = now\<rparr>))))))"

section \<open>The serial prefix of a mutation\<close>

text \<open>
  Under \<open>write_mutex_\<close>: number the record, append it, count the operation in flight; and whether
  this writer owns the next checkpoint.
\<close>

definition log_op :: "(u64 \<Rightarrow> wal_record) \<Rightarrow> ('i durable, u64 \<times> bool) call" where
  "log_op mk s = (let l = next_lsn s in
     bind_method (modify (\<lambda>s. s\<lparr>next_lsn := next_lsn s + 1\<rparr>)) (\<lambda>_.
     bind_method (on_wal (append_wal (mk l))) (\<lambda>_.
     bind_method (modify (\<lambda>s. s\<lparr>in_flight := in_flight s + 1\<rparr>)) (\<lambda>_.
     bind_method (modify (\<lambda>s. s\<lparr>ops_since_checkpoint := ops_since_checkpoint s + 1\<rparr>)) (\<lambda>_ s.
       if checkpoint_ops (dopts s) \<le> ops_since_checkpoint s then give (l, True) (s\<lparr>ops_since_checkpoint := 0\<rparr>)
       else give (l, False) s)))) s)"

definition insert_prefix :: "fvec \<Rightarrow> meta_record \<Rightarrow> ('i durable, u64 \<times> u64 \<times> bool) call" where
  "insert_prefix v rec s = bind_method (on_db reserve_id) (\<lambda>ext.
     bind_method (log_op (\<lambda>l. \<lparr>rtype = rt_insert, lsn = l, ext_id = ext, vec = take (vdim (dconfig s)) v, meta = rec\<rparr>))
       (\<lambda>(l, ckpt). give (ext, l, ckpt))) s"

definition remove_prefix :: "u64 \<Rightarrow> ('i durable, u64 \<times> bool) call" where
  "remove_prefix ext = log_op (\<lambda>l. \<lparr>rtype = rt_delete, lsn = l, ext_id = ext, vec = [], meta = empty_meta\<rparr>)"

text \<open>A vector-only update logs the attributes that the row has now.\<close>

definition update_prefix :: "u64 \<Rightarrow> fvec \<Rightarrow> meta_record option \<Rightarrow> ('i durable, (meta_record \<times> u64 \<times> bool) option) call" where
  "update_prefix ext v orec s = (case (case orec of Some rec \<Rightarrow> Some rec | None \<Rightarrow> get_metadata (ddb s) ext) of
     None \<Rightarrow> Some (Inr None, s)
   | Some effective \<Rightarrow>
       bind_method (log_op (\<lambda>l. \<lparr>rtype = rt_update, lsn = l, ext_id = ext, vec = take (vdim (dconfig s)) v, meta = effective\<rparr>))
         (\<lambda>(l, ckpt). give (Some (effective, l, ckpt))) s)"

definition set_prefix :: "u64 \<Rightarrow> meta_record \<Rightarrow> ('i durable, u64 \<times> bool) call" where
  "set_prefix ext rec = log_op (\<lambda>l. \<lparr>rtype = rt_set_meta, lsn = l, ext_id = ext, vec = [], meta = rec\<rparr>)"

section \<open>Durability\<close>

definition raise_durable :: "u64 \<Rightarrow> 'i durable \<Rightarrow> 'i durable" where
  "raise_durable synced s = (if durable_lsn s < synced then s\<lparr>durable_lsn := synced\<rparr> else s)"

text \<open>\<open>wal_.sync()\<close> with \<open>commit_mutex_\<close> released: its two parts, and both at once.\<close>

definition start_sync :: "('i durable, string \<times> u64) call" where
  "start_sync s = Some (sync_begin (dwal s), s)"

definition end_sync :: "string \<times> u64 \<Rightarrow> ('i durable, u64) call" where
  "end_sync p s = (case sync_end p (dwal_dir s) of (t, d) \<Rightarrow> Some (Inr t, s\<lparr>dwal_dir := d\<rparr>))"

definition wal_sync :: "('i durable, u64) call" where
  "wal_sync = bind_method start_sync end_sync"

text \<open>The leader of a group commit: the flag, the shared \<open>fsync\<close>, the wake-up of its followers.\<close>

definition lead_commit :: "('i durable, unit) call" where
  "lead_commit =
     bind_method (modify (\<lambda>s. s\<lparr>syncing := True\<rparr>)) (\<lambda>_.
     bind_method wal_sync (\<lambda>synced.
     modify (\<lambda>s. (raise_durable synced s)\<lparr>syncing := False\<rparr>)))"

partial_function (option) group_commit :: "u64 \<Rightarrow> ('i durable, unit) call" where
  "group_commit l s =
     (if durable_lsn s < l
      then if syncing s then None
        else (case lead_commit s of
            None \<Rightarrow> None
          | Some (Inl e, s) \<Rightarrow> Some (Inl e, s)
          | Some (Inr _, s) \<Rightarrow> group_commit l s)
      else Some (Inr (), s))"

definition maybe_flush :: "nat \<Rightarrow> ('i durable, unit) call" where
  "maybe_flush now s =
     (if syncing s \<or> now - last_sync s < flush_interval_ms (dopts s) then give () s
      else bind_method (modify (\<lambda>s. s\<lparr>syncing := True\<rparr>)) (\<lambda>_.
        bind_method wal_sync (\<lambda>synced.
        modify (\<lambda>s. (raise_durable synced s)\<lparr>last_sync := now, syncing := False\<rparr>))) s)"

definition durable_sync :: "nat \<Rightarrow> ('i durable, unit) call" where
  "durable_sync now = bind_method wal_sync (\<lambda>synced. modify (\<lambda>s. (raise_durable synced s)\<lparr>last_sync := now\<rparr>))"

text \<open>The destructor.\<close>

definition durable_close :: "'i durable \<Rightarrow> 'i durable" where
  "durable_close s = (case wal_sync s of Some (_, s') \<Rightarrow> s' | None \<Rightarrow> s)"

definition finish_op :: "('i durable, unit) call" where
  "finish_op = modify (\<lambda>s. s\<lparr>in_flight := in_flight s - 1\<rparr>)"

section \<open>Checkpoints\<close>

definition save_home :: "'i index_ops \<Rightarrow> u64 \<Rightarrow> ('i durable, unit) call" where
  "save_home ops l = modify (\<lambda>s. s\<lparr>dhome := write_file_atomic (dhome s) snapshot_path (save_snapshot ops (ddb s) l)\<rparr>)"

definition log_checkpoint :: "('i durable, unit) call" where
  "log_checkpoint s = (let r = \<lparr>rtype = rt_checkpoint, lsn = next_lsn s, ext_id = snapshot_id s, vec = [], meta = empty_meta\<rparr> in
     bind_method (modify (\<lambda>s. s\<lparr>next_lsn := next_lsn s + 1, snapshot_id := snapshot_id s + 1\<rparr>)) (\<lambda>_.
     on_wal (append_wal r)) s)"

definition end_checkpoint :: "nat \<Rightarrow> u64 \<Rightarrow> ('i durable, unit) call" where
  "end_checkpoint now l = modify (\<lambda>s. s\<lparr>durable_lsn := max (durable_lsn s) l, last_sync := now\<rparr>)"

definition checkpoint :: "'i index_ops \<Rightarrow> nat \<Rightarrow> ('i durable, unit) call" where
  "checkpoint ops now s = (if in_flight s \<noteq> 0 then None else (let l = next_lsn s - 1 in
     bind_method (save_home ops l) (\<lambda>_.
     bind_method log_checkpoint (\<lambda>_.
     bind_method wal_sync (\<lambda>_.
     bind_method (on_wal (truncate_wal l)) (\<lambda>_.
     end_checkpoint now l)))) s))"

section \<open>The calls\<close>

text \<open>What all four mutations do after the prefix: durability, the call on the database, the rest.\<close>

definition complete_op :: "'i index_ops \<Rightarrow> nat \<Rightarrow> u64 \<Rightarrow> bool \<Rightarrow> ('i vdb, unit) call \<Rightarrow> ('i durable, unit) call" where
  "complete_op ops now l ckpt body s = bind_method (if dpolicy (dopts s) = PerOpSync then group_commit l else give ()) (\<lambda>_.
     bind_method (on_db body) (\<lambda>_.
     bind_method (if dpolicy (dopts s) = Periodic then maybe_flush now else give ()) (\<lambda>_.
     bind_method finish_op (\<lambda>_.
     if ckpt then checkpoint ops now else give ())))) s"

definition durable_insert :: "'i index_ops \<Rightarrow> nat \<Rightarrow> fvec \<Rightarrow> meta_record \<Rightarrow> ('i durable, u64) call" where
  "durable_insert ops now v rec = bind_method (insert_prefix v rec) (\<lambda>(ext, l, ckpt).
     bind_method (complete_op ops now l ckpt (insert_reserved ops ext v rec)) (\<lambda>_. give ext))"

definition durable_remove :: "'i index_ops \<Rightarrow> nat \<Rightarrow> u64 \<Rightarrow> ('i durable, bool) call" where
  "durable_remove ops now ext s = (if \<not> contains (ddb s) ext then give False s
     else bind_method (remove_prefix ext) (\<lambda>(l, ckpt).
       bind_method (complete_op ops now l ckpt (bind_method (vdb_remove ext) (\<lambda>_. give ()))) (\<lambda>_. give True)) s)"

definition durable_update :: "'i index_ops \<Rightarrow> nat \<Rightarrow> u64 \<Rightarrow> fvec \<Rightarrow> meta_record option \<Rightarrow> ('i durable, bool) call" where
  "durable_update ops now ext v orec s = (if \<not> contains (ddb s) ext then give False s
     else bind_method (update_prefix ext v orec) (\<lambda>r. case r of
         None \<Rightarrow> give False
       | Some (effective, l, ckpt) \<Rightarrow>
           bind_method (complete_op ops now l ckpt (bind_method (vdb_update ops ext v (Some effective)) (\<lambda>_. give ()))) (\<lambda>_. give True)) s)"

definition durable_set_metadata :: "'i index_ops \<Rightarrow> nat \<Rightarrow> u64 \<Rightarrow> meta_record \<Rightarrow> ('i durable, bool) call" where
  "durable_set_metadata ops now ext rec s = (if \<not> contains (ddb s) ext then give False s
     else bind_method (set_prefix ext rec) (\<lambda>(l, ckpt).
       bind_method (complete_op ops now l ckpt (bind_method (vdb_set_metadata ext rec) (\<lambda>_. give ()))) (\<lambda>_. give True)) s)"

end
