(* ===== verification/Vdb_Run.thy ===== *)
theory Vdb_Run
  imports Snapshot
begin

text \<open>
  What the database promises its writers. \<open>db_run\<close> are the states reached by critical sections
  in any interleaving that keeps the documented rule of one writer per external id, beside the
  abstract contents: a map from external ids to vectors and records. The invariant of these
  states is proved once for every index that keeps the interface \<open>vector_index\<close>.
\<close>

section \<open>Methods that return and methods that throw\<close>

named_theorems method_simps

lemma bind_method_Inr [method_simps]:
  "bind_method f g s = Some (Inr y, s') \<longleftrightarrow> (\<exists>x s1. f s = Some (Inr x, s1) \<and> g x s1 = Some (Inr y, s'))"
  by (auto simp: bind_method_def split: option.splits sum.splits)

lemma modify_Inr [method_simps]: "modify f s = Some (Inr x, s') \<longleftrightarrow> s' = f s"
  by (auto simp: modify_def)

lemma give_Inr [method_simps]: "give x s = Some (Inr y, s') \<longleftrightarrow> y = x \<and> s' = s"
  by (auto simp: give_def)

lemma on_meta_Inr [method_simps]:
  "on_meta f s = Some (Inr x, s') \<longleftrightarrow> (\<exists>m. f (vmeta s) = Some (None, m) \<and> s' = s\<lparr>vmeta := m\<rparr>)"
  by (auto simp: on_meta_def split: option.splits)

lemma validated_Inr [method_simps]:
  "validated rec f s = Some (Inr x, s') \<longleftrightarrow> validate (mschema (vmeta s)) rec = None \<and> f s = Some (Inr x, s')"
  by (auto simp: validated_def split: option.splits)

text \<open>A method that ends, with no exception but \<open>err\<close>.\<close>

definition halts :: "('s, 'a) call \<Rightarrow> 's \<Rightarrow> exn \<Rightarrow> bool" where
  "halts f s err \<longleftrightarrow> (\<exists>r s'. f s = Some (r, s') \<and> (\<forall>e. r = Inl e \<longrightarrow> e = err))"

lemma halts_bind:
  assumes "halts f s err" and "\<And>x s1. f s = Some (Inr x, s1) \<Longrightarrow> halts (g x) s1 err"
  shows "halts (bind_method f g) s err"
proof -
  obtain r s1 where f: "f s = Some (r, s1)" "\<forall>e. r = Inl e \<longrightarrow> e = err" using assms(1) by (auto simp: halts_def)
  show ?thesis
  proof (cases r)
    case (Inl e)
    then show ?thesis using f by (simp add: halts_def bind_method_def)
  next
    case (Inr x)
    then show ?thesis using f assms(2) [of x s1] by (simp add: halts_def bind_method_def)
  qed
qed

lemma halts_modify [simp]: "halts (modify f) s err"
  by (simp add: halts_def modify_def)

lemma halts_give [simp]: "halts (give x) s err"
  by (simp add: halts_def give_def)

lemma halts_on_meta: "returns f (vmeta s) err Q \<Longrightarrow> halts (on_meta f) s err"
  by (auto simp: returns_def halts_def on_meta_def split: if_splits)

section \<open>Live nodes\<close>

lemma is_live_simps [simp]:
  "is_live (ds @ [True]) i = is_live ds i"
  "is_live (ds @ [False]) i \<longleftrightarrow> is_live ds i \<or> i = length ds"
  "i < length ds \<Longrightarrow> is_live (ds[i := False]) j \<longleftrightarrow> is_live ds j \<or> j = i"
  "is_live (ds[i := True]) j \<longleftrightarrow> is_live ds j \<and> j \<noteq> i"
  "\<not> is_live [] i"
  by (cases "i < length ds"; auto simp: is_live_def nth_append nth_list_update less_Suc_eq not_less)+

lemma is_live_less: "is_live ds i \<Longrightarrow> i < length ds"
  by (simp add: is_live_def)

definition live :: "'i vdb \<Rightarrow> internal_id set" where
  "live s = {i. is_live (deleted s) i}"

lemma finite_live [simp]: "finite (live s)"
  by (rule finite_subset [of _ "{..<length (deleted s)}"]) (auto simp: live_def is_live_less)

lemma live_cong: "deleted s' = deleted s \<Longrightarrow> live s' = live s"
  by (simp add: live_def)

section \<open>The abstract database\<close>

type_synonym contents = "u64 \<rightharpoonup> fvec \<times> meta_record"

text \<open>An insertion or an update between its first and its last phase.\<close>

record pending =
  pext :: u64
  pvec :: fvec
  prec :: meta_record
  pnode :: internal_id
  pold :: "internal_id option"

definition update_record :: "meta_record option \<Rightarrow> meta_record \<Rightarrow> meta_record" where
  "update_record orec old = (case orec of None \<Rightarrow> old | Some rec \<Rightarrow> rec)"

definition set_record :: "u64 \<Rightarrow> meta_record \<Rightarrow> contents \<Rightarrow> contents" where
  "set_record ext rec A = (case A ext of None \<Rightarrow> A | Some (v, _) \<Rightarrow> A(ext \<mapsto> (v, rec)))"

text \<open>
  The steps. \<open>P\<close> are the calls in flight and \<open>I\<close> the ids handed out so far. The greatest id
  is left out: after it the counter of ids wraps to 0.
\<close>

inductive db_run :: "'i index_ops \<Rightarrow> vdb_config \<Rightarrow> 'i vdb \<Rightarrow> contents \<Rightarrow> pending set \<Rightarrow> u64 set \<Rightarrow> bool"
  for ops cfg where
  db_make: "make_vdb ops cfg = Inr s \<Longrightarrow> db_run ops cfg s Map.empty {} {}"
| db_reserve: "db_run ops cfg s A P I \<Longrightarrow> next_ext_id s \<noteq> -1 \<Longrightarrow> reserve_id s = Some (Inr ext, s') \<Longrightarrow>
    db_run ops cfg s' A P (insert ext I)"
| db_allocate: "db_run ops cfg s A P I \<Longrightarrow> record_fits (vmeta s) rec \<Longrightarrow> ext \<noteq> -1 \<Longrightarrow> A ext = None \<Longrightarrow> ext \<notin> pext ` P \<Longrightarrow>
    insert_allocate ops ext vec rec s = Some (Inr iid, s') \<Longrightarrow>
    db_run ops cfg s' A (insert \<lparr>pext = ext, pvec = take (vdim cfg) vec, prec = rec, pnode = iid, pold = None\<rparr> P) (insert ext I)"
| db_reallocate: "db_run ops cfg s A P I \<Longrightarrow> (\<forall>rec. orec = Some rec \<longrightarrow> record_fits (vmeta s) rec) \<Longrightarrow> A ext = Some (v, r) \<Longrightarrow> ext \<notin> pext ` P \<Longrightarrow>
    update_allocate ops ext vec orec s = Some (Inr (Some (new, old)), s') \<Longrightarrow>
    db_run ops cfg s' A (insert \<lparr>pext = ext, pvec = take (vdim cfg) vec, prec = update_record orec r, pnode = new, pold = Some old\<rparr> P) I"
| db_link: "db_run ops cfg s A P I \<Longrightarrow> p \<in> P \<Longrightarrow> link_node ops (pnode p) s = Some (Inr (), s') \<Longrightarrow> db_run ops cfg s' A P I"
| db_publish: "db_run ops cfg s A P I \<Longrightarrow> p \<in> P \<Longrightarrow> pold p = None \<Longrightarrow> insert_publish (pext p) (pnode p) s = Some (Inr (), s') \<Longrightarrow>
    db_run ops cfg s' (A(pext p \<mapsto> (pvec p, prec p))) (P - {p}) I"
| db_republish: "db_run ops cfg s A P I \<Longrightarrow> p \<in> P \<Longrightarrow> pold p = Some old \<Longrightarrow> update_publish (pext p) (pnode p) old s = Some (Inr (), s') \<Longrightarrow>
    db_run ops cfg s' (A(pext p \<mapsto> (pvec p, prec p))) (P - {p}) I"
| db_remove: "db_run ops cfg s A P I \<Longrightarrow> ext \<notin> pext ` P \<Longrightarrow> vdb_remove ext s = Some (Inr b, s') \<Longrightarrow> db_run ops cfg s' (A(ext := None)) P I"
| db_set: "db_run ops cfg s A P I \<Longrightarrow> record_fits (vmeta s) rec \<Longrightarrow> ext \<notin> pext ` P \<Longrightarrow> vdb_set_metadata ext rec s = Some (Inr b, s') \<Longrightarrow>
    db_run ops cfg s' (set_record ext rec A) P I"
| db_compact: "db_run ops cfg s A {} I \<Longrightarrow> compact ops s = Some (Inr (), s') \<Longrightarrow> db_run ops cfg s' A {} I"
| db_load: "db_run ops cfg s A {} I \<Longrightarrow> snapshot_fits s \<Longrightarrow> make_vdb ops cfg = Inr s0 \<Longrightarrow>
    load_snapshot ops s0 (save_snapshot ops s lsn) = Some (Inr (lsn', s')) \<Longrightarrow> db_run ops cfg s' A {} I"

section \<open>The invariant\<close>

text \<open>The map from ids to nodes has exactly the live nodes, each under its own id.\<close>

definition maps_ok :: "(u64 \<rightharpoonup> internal_id) \<Rightarrow> bool list \<Rightarrow> u64 list \<Rightarrow> bool" where
  "maps_ok f ds es \<longleftrightarrow> (\<forall>x i. f x = Some i \<longleftrightarrow> is_live ds i \<and> es ! i = x)"

lemma maps_publish:
  assumes "maps_ok f ds es" and "i < length ds" and "f (es ! i) = None"
  shows "maps_ok (f(es ! i \<mapsto> i)) (ds[i := False]) es"
  unfolding maps_ok_def
proof (intro allI)
  fix x k
  show "(f(es ! i \<mapsto> i)) x = Some k \<longleftrightarrow> is_live (ds[i := False]) k \<and> es ! k = x"
    using assms by (cases "x = es ! i") (auto simp: maps_ok_def, metis option.distinct(1))
qed

lemma maps_delete:
  assumes "maps_ok f ds es" and "f x = Some i"
  shows "maps_ok (f(x := None)) (ds[i := True]) es"
  unfolding maps_ok_def
proof (intro allI)
  fix y k
  show "(f(x := None)) y = Some k \<longleftrightarrow> is_live (ds[i := True]) k \<and> es ! k = y"
    using assms unfolding maps_ok_def by (cases "y = x"; cases "k = i") (simp_all, metis option.inject)
qed

lemma maps_append:
  assumes "maps_ok f ds es" and "length ds = length es"
  shows "maps_ok f (ds @ [True]) (es @ [x])"
  unfolding maps_ok_def
proof (intro allI)
  fix y k
  show "f y = Some k \<longleftrightarrow> is_live (ds @ [True]) k \<and> (es @ [x]) ! k = y"
    using assms is_live_less [of ds k] unfolding maps_ok_def by (cases "k < length es") (auto simp: nth_append)
qed

lemma maps_swap:
  assumes "maps_ok f ds es" and "f (es ! new) = Some old" and "new < length ds" and "\<not> is_live ds new"
  shows "maps_ok (f(es ! new \<mapsto> new)) (ds[new := False, old := True]) es"
proof -
  have ne: "old \<noteq> new" using assms(1,2,4) unfolding maps_ok_def by metis
  have "maps_ok ((f(es ! new := None))(es ! new \<mapsto> new)) ((ds[old := True])[new := False]) es"
    by (rule maps_publish [OF maps_delete [OF assms(1,2)]]) (use assms(3) in simp_all)
  then show ?thesis using ne by (simp add: list_update_swap)
qed

definition contents_of :: "'i vdb \<Rightarrow> meta_record list \<Rightarrow> contents" where
  "contents_of s rows = (\<lambda>ext. map_option (\<lambda>i. (vectors s ! i, rows ! i)) (ext_to_int s ext))"

definition pend_ok :: "'i vdb \<Rightarrow> meta_record list \<Rightarrow> internal_id set \<Rightarrow> pending set \<Rightarrow> bool" where
  "pend_ok s rows Q P \<longleftrightarrow> inj_on pext P \<and> (\<forall>p \<in> P. pnode p \<in> Q \<and> pnode p < length (int_to_ext s) \<and> \<not> is_live (deleted s) (pnode p) \<and>
     int_to_ext s ! pnode p = pext p \<and> vectors s ! pnode p = pvec p \<and> rows ! pnode p = prec p \<and> ext_to_int s (pext p) = pold p)"

definition ids_ok :: "'i vdb \<Rightarrow> contents \<Rightarrow> pending set \<Rightarrow> u64 set \<Rightarrow> bool" where
  "ids_ok s A P I \<longleftrightarrow> dom A \<union> pext ` P \<subseteq> I \<and> (\<forall>ext \<in> I. ext < next_ext_id s)"

text \<open>The database without its index: maps, tombstones, vectors, metadata and counters agree.
  \<open>Q\<close> are the rows that the posting lists hold, which a load leaves to be the live ones.\<close>

definition arrays_ok :: "vdb_config \<Rightarrow> 'i vdb \<Rightarrow> meta_record list \<Rightarrow> internal_id set \<Rightarrow> internal_id set \<Rightarrow> bool" where
  "arrays_ok cfg s rows Q E \<longleftrightarrow> config s = cfg \<and> length (deleted s) = length (int_to_ext s) \<and> length (vectors s) = length (int_to_ext s) \<and>
     length rows = length (int_to_ext s) \<and> (\<forall>v \<in> set (vectors s). take (vdim cfg) v = v) \<and>
     store_run (vschema cfg) (vmeta s) rows (live s) Q E \<and>
     maps_ok (ext_to_int s) (deleted s) (int_to_ext s) \<and>
     live_total s = of_nat (card (live s)) \<and> deleted_count s = of_nat (length (int_to_ext s)) - of_nat (card (live s))"

lemma arrays_okD:
  assumes "arrays_ok cfg s rows Q E"
  shows "config s = cfg" "length (deleted s) = length (int_to_ext s)" "length (vectors s) = length (int_to_ext s)"
    "length rows = length (int_to_ext s)" "\<forall>v \<in> set (vectors s). take (vdim cfg) v = v"
    "store_run (vschema cfg) (vmeta s) rows (live s) Q E"
    "maps_ok (ext_to_int s) (deleted s) (int_to_ext s)"
    "live_total s = of_nat (card (live s))" "deleted_count s = of_nat (length (int_to_ext s)) - of_nat (card (live s))"
  using assms by (simp_all add: arrays_ok_def)

lemma arrays_ok_ext:
  "arrays_ok cfg s rows Q E \<Longrightarrow> ext_to_int s ext = Some i \<longleftrightarrow> is_live (deleted s) i \<and> int_to_ext s ! i = ext"
  by (simp add: arrays_ok_def maps_ok_def)

lemma index_frame [simp]:
  "arrays_ok cfg (s\<lparr>index := i\<rparr>) rows Q E = arrays_ok cfg s rows Q E" "pend_ok (s\<lparr>index := i\<rparr>) rows Q P = pend_ok s rows Q P"
  "contents_of (s\<lparr>index := i\<rparr>) rows = contents_of s rows" "ids_ok (s\<lparr>index := i\<rparr>) A P I = ids_ok s A P I"
  by (simp_all add: arrays_ok_def live_def pend_ok_def contents_of_def ids_ok_def)

lemma counter_frame [simp]:
  "arrays_ok cfg (s\<lparr>next_ext_id := x\<rparr>) rows Q E = arrays_ok cfg s rows Q E" "pend_ok (s\<lparr>next_ext_id := x\<rparr>) rows Q P = pend_ok s rows Q P"
  "contents_of (s\<lparr>next_ext_id := x\<rparr>) rows = contents_of s rows"
  by (simp_all add: arrays_ok_def live_def pend_ok_def contents_of_def)

end
