(* ===== verification/Vdb_Inv.thy ===== *)
theory Vdb_Inv
  imports Vdb_Run
begin

text \<open>
  Every critical section keeps the invariant, over any index with the interface
  \<open>vector_index\<close>; compaction needs \<open>rebuilt_index\<close>.
\<close>

section \<open>One node more\<close>

lemma append_arrays:
  assumes ok: "arrays_ok cfg s rows Q E" and new: "s' = s\<lparr>int_to_ext := int_to_ext s @ [ext], deleted := deleted s @ [True],
      deleted_count := deleted_count s + 1, vectors := vectors s @ [take (vdim cfg) v], index := i, vmeta := m'\<rparr>"
    and run: "store_run (vschema cfg) m' (rows @ [rec]) (live s) Q' E'"
  shows "arrays_ok cfg s' (rows @ [rec]) Q' E'"
proof -
  note O = arrays_okD [OF ok]
  have "live s' = live s" by (simp add: new live_def)
  moreover have "maps_ok (ext_to_int s') (deleted s') (int_to_ext s')" using maps_append [OF O(7,2)] by (simp add: new)
  ultimately show ?thesis using O run by (simp add: arrays_ok_def new)
qed

lemma append_contents:
  assumes ok: "arrays_ok cfg s rows Q E" and "vectors s' = vectors s @ [v]" "ext_to_int s' = ext_to_int s"
  shows "contents_of s' (rows @ [rec]) = contents_of s rows"
proof
  fix x
  have "i < length (vectors s) \<and> i < length rows" if "ext_to_int s x = Some i" for i
    using that arrays_okD(2-4) [OF ok] arrays_ok_ext [OF ok] is_live_less [of "deleted s" i] by simp
  then show "contents_of s' (rows @ [rec]) x = contents_of s rows x"
    using assms by (cases "ext_to_int s x") (simp_all add: contents_of_def nth_append)
qed

lemma append_pend:
  assumes ok: "arrays_ok cfg s rows Q E" and P: "pend_ok s rows Q P" and x: "ext \<notin> pext ` P"
    and new: "int_to_ext s' = int_to_ext s @ [ext]" "deleted s' = deleted s @ [True]" "vectors s' = vectors s @ [v]" "ext_to_int s' = ext_to_int s"
  shows "pend_ok s' (rows @ [rec]) (insert (length (int_to_ext s)) Q) (insert \<lparr>pext = ext, pvec = v, prec = rec, pnode = length (int_to_ext s), pold = ext_to_int s ext\<rparr> P)"
proof -
  note O = arrays_okD [OF ok]
  let ?p = "\<lparr>pext = ext, pvec = v, prec = rec, pnode = length (int_to_ext s), pold = ext_to_int s ext\<rparr>"
  have "\<not> is_live (deleted s) (length (int_to_ext s))" using O(2) is_live_less by fastforce
  then have "\<forall>p \<in> insert ?p P. pnode p \<in> insert (length (int_to_ext s)) Q \<and> pnode p < length (int_to_ext s') \<and> \<not> is_live (deleted s') (pnode p) \<and>
     int_to_ext s' ! pnode p = pext p \<and> vectors s' ! pnode p = pvec p \<and> (rows @ [rec]) ! pnode p = prec p \<and> ext_to_int s' (pext p) = pold p"
    using P O(3,4) by (auto simp: pend_ok_def new nth_append)
  moreover have "inj_on pext (insert ?p P)" using P x by (auto simp: pend_ok_def inj_on_def)
  ultimately show ?thesis by (simp add: pend_ok_def)
qed

section \<open>Publishing and deleting\<close>

lemma publish_arrays:
  assumes ok: "arrays_ok cfg s rows Q E" and n: "iid < length (int_to_ext s)" "\<not> is_live (deleted s) iid" "iid \<in> Q"
    and none: "ext_to_int s (int_to_ext s ! iid) = None" and m: "mark_live iid (vmeta s) = Some (None, m')"
    and new: "s' = s\<lparr>deleted := (deleted s)[iid := False], deleted_count := deleted_count s - 1, vmeta := m',
      ext_to_int := (ext_to_int s)(int_to_ext s ! iid \<mapsto> iid), live_total := live_total s + 1\<rparr>"
  shows "arrays_ok cfg s' rows Q E"
proof -
  note O = arrays_okD [OF ok]
  have L: "live s' = insert iid (live s)" "iid \<notin> live s" using n O(2) by (auto simp: new live_def)
  have run: "store_run (vschema cfg) m' rows (insert iid (live s)) Q E"
    by (rule run_live [OF O(6) _ _ m]) (use n L in auto)
  have "maps_ok (ext_to_int s') (deleted s') (int_to_ext s')"
    using maps_publish [OF O(7) _ none] n O(2) by (simp add: new)
  then show ?thesis using O run L by (simp add: arrays_ok_def new)
qed

lemma delete_arrays:
  assumes ok: "arrays_ok cfg s rows Q E" and x: "ext_to_int s ext = Some iid" and m: "mark_dead iid (vmeta s) = Some (None, m')"
    and new: "s' = s\<lparr>deleted := (deleted s)[iid := True], vmeta := m', ext_to_int := (ext_to_int s)(ext := None),
      live_total := live_total s - 1, deleted_count := deleted_count s + 1\<rparr>"
  shows "arrays_ok cfg s' rows Q E"
proof -
  note O = arrays_okD [OF ok]
  have i: "is_live (deleted s) iid" "int_to_ext s ! iid = ext" using x arrays_ok_ext [OF ok] by simp_all
  have L: "live s' = live s - {iid}" "iid \<in> live s" using i by (auto simp: new live_def)
  have run: "store_run (vschema cfg) m' rows (live s - {iid}) Q E"
    by (rule run_dead [OF O(6) L(2) m])
  have "maps_ok (ext_to_int s') (deleted s') (int_to_ext s')" using maps_delete [OF O(7) x] by (simp add: new)
  moreover have "of_nat (card (live s)) = of_nat (card (live s - {iid})) + (1 :: u64)"
    using card_Suc_Diff1 [OF finite_live L(2)] by (metis of_nat_Suc add.commute)
  ultimately show ?thesis using O run L by (simp add: arrays_ok_def new)
qed

text \<open>The last phase of an update: both at once.\<close>

lemma swap_arrays:
  assumes ok: "arrays_ok cfg s rows Q E" and n: "new < length (int_to_ext s)" "\<not> is_live (deleted s) new" "int_to_ext s ! new = ext" "new \<in> Q"
    and x: "ext_to_int s ext = Some old" and m: "mark_live new (vmeta s) = Some (None, m1)" "mark_dead old m1 = Some (None, m2)"
    and s': "s' = s\<lparr>deleted := (deleted s)[new := False, old := True], deleted_count := deleted_count s - 1 + 1, vmeta := m2,
      ext_to_int := (ext_to_int s)(ext \<mapsto> new)\<rparr>"
  shows "arrays_ok cfg s' rows Q E"
proof -
  note O = arrays_okD [OF ok]
  have i: "is_live (deleted s) old" "int_to_ext s ! old = ext" using x arrays_ok_ext [OF ok] by simp_all
  have ne: "old \<noteq> new" using i n by auto
  have L: "live s' = insert new (live s) - {old}" "old \<in> live s" "new \<notin> live s" using n O(2) i by (auto simp: s' live_def)
  have "store_run (vschema cfg) m1 rows (insert new (live s)) Q E"
    by (rule run_live [OF O(6) _ _ m(1)]) (use n L in auto)
  then have run: "store_run (vschema cfg) m2 rows (insert new (live s) - {old}) Q E"
    by (rule run_dead [OF _ _ m(2)]) (use L in simp)
  have "card (insert new (live s) - {old}) = card (live s)" using L by (simp add: card_Suc_Diff1)
  moreover have "maps_ok (ext_to_int s') (deleted s') (int_to_ext s')"
    using maps_swap [OF O(7), of new old] n x O(2) by (simp add: s')
  ultimately show ?thesis using O run L by (simp add: arrays_ok_def s')
qed

lemma pend_node_ext:
  "pend_ok s rows Q P \<Longrightarrow> p \<in> P \<Longrightarrow> q \<in> P \<Longrightarrow> p \<noteq> q \<Longrightarrow> pext p \<noteq> pext q \<and> pnode p \<noteq> pnode q"
  unfolding pend_ok_def inj_on_def by metis

lemma pend_drop:
  assumes P: "pend_ok s rows Q P" and p: "p \<in> P"
    and new: "int_to_ext s' = int_to_ext s" "vectors s' = vectors s" "ext_to_int s' = (ext_to_int s)(pext p \<mapsto> pnode p)"
      "\<And>i. is_live (deleted s') i \<Longrightarrow> is_live (deleted s) i \<or> i = pnode p"
  shows "pend_ok s' rows Q (P - {p})"
  unfolding pend_ok_def
proof (intro conjI ballI)
  show "inj_on pext (P - {p})" using P by (auto simp: pend_ok_def intro: inj_on_subset)
next
  fix q assume q: "q \<in> P - {p}"
  then have "pext p \<noteq> pext q" "pnode p \<noteq> pnode q" "q \<in> P" using pend_node_ext [OF P p, of q] by auto
  then show "pnode q \<in> Q" "pnode q < length (int_to_ext s')" "\<not> is_live (deleted s') (pnode q)" "int_to_ext s' ! pnode q = pext q"
    "vectors s' ! pnode q = pvec q" "rows ! pnode q = prec q" "ext_to_int s' (pext q) = pold q"
    using P new(1-3) new(4) [of "pnode q"] by (auto simp: pend_ok_def)
qed

lemma pend_other:
  assumes P: "pend_ok s rows Q P" and x: "ext \<notin> pext ` P"
    and new: "int_to_ext s' = int_to_ext s" "vectors s' = vectors s" "ext_to_int s' = (ext_to_int s)(ext := y)"
      "\<And>i. is_live (deleted s') i \<Longrightarrow> is_live (deleted s) i" "\<And>i. int_to_ext s ! i \<noteq> ext \<Longrightarrow> rows' ! i = rows ! i"
  shows "pend_ok s' rows' Q P"
  unfolding pend_ok_def
proof (intro conjI ballI)
  show "inj_on pext P" using P by (simp add: pend_ok_def)
next
  fix q assume q: "q \<in> P"
  then have "pext q \<noteq> ext" "int_to_ext s ! pnode q = pext q" using P x by (auto simp: pend_ok_def)
  then show "pnode q \<in> Q" "pnode q < length (int_to_ext s')" "\<not> is_live (deleted s') (pnode q)" "int_to_ext s' ! pnode q = pext q"
    "vectors s' ! pnode q = pvec q" "rows' ! pnode q = prec q" "ext_to_int s' (pext q) = pold q"
    using P q new by (auto simp: pend_ok_def)
qed

lemma less_next: "x \<noteq> -1 \<Longrightarrow> x < x + 1" for x :: u64
proof -
  assume "x \<noteq> -1"
  moreover have "unat (-1 :: u64) = 2 ^ 64 - 1" by (simp add: unsigned_minus_1_eq_mask mask_eq_exp_minus_1)
  ultimately have "unat x \<noteq> 2 ^ 64 - 1" by (metis word_unat_eq_iff)
  moreover have "unat x < 2 ^ 64" using unsigned_less [of x] by simp
  ultimately have "unat (x + 1) = unat x + 1" by (simp add: unat_word_ariths)
  then show ?thesis by (simp add: word_less_nat_alt)
qed

lemma contents_dom: "contents_of s rows ext = None \<longleftrightarrow> ext_to_int s ext = None"
  by (simp add: contents_of_def)

section \<open>Steps over an index\<close>

context vector_index begin

definition index_ok :: "'i vdb \<Rightarrow> bool" where
  "index_ok s \<longleftrightarrow> inv (index s) \<and> vecs (index s) = vectors s"

definition db_ok :: "vdb_config \<Rightarrow> 'i vdb \<Rightarrow> contents \<Rightarrow> pending set \<Rightarrow> u64 set \<Rightarrow> bool" where
  "db_ok cfg s A P I \<longleftrightarrow> index_ok s \<and> ids_ok s A P I \<and> (\<exists>rows Q E. arrays_ok cfg s rows Q E \<and> pend_ok s rows Q P \<and> A = contents_of s rows)"

lemma db_okI:
  "index_ok s \<Longrightarrow> ids_ok s A P I \<Longrightarrow> arrays_ok cfg s rows Q E \<Longrightarrow> pend_ok s rows Q P \<Longrightarrow> A = contents_of s rows \<Longrightarrow> db_ok cfg s A P I"
  unfolding db_ok_def by blast

lemma allocate_node_run:
  assumes "allocate_node ops ext vec s = Some (Inr iid, s')" and "index_ok s" and "vdim (config s) = d"
    and "length (vectors s) = length (int_to_ext s)"
  shows "\<exists>i. s' = s\<lparr>index := i, int_to_ext := int_to_ext s @ [ext], deleted := deleted s @ [True],
      deleted_count := deleted_count s + 1, vectors := vectors s @ [take d vec]\<rparr> \<and> inv i \<and> vecs i = vectors s @ [take d vec] \<and>
    iid = length (int_to_ext s)"
  using assms allocate_ok [of "index s" vec] by (auto simp: allocate_node_def index_ok_def split: option.splits sum.splits if_splits)

text \<open>The first phase of an insertion or an update, up to the counter of ids.\<close>

lemma allocated:
  assumes a: "allocate_node ops ext vec s = Some (Inr iid, s1)" and ix: "index_ok s" and ok: "arrays_ok cfg s rows Q E"
    and d: "vdim cfg = d" and P: "pend_ok s rows Q P" and x: "ext \<notin> pext ` P"
    and run: "store_run (vschema cfg) m' (rows @ [rec]) (live s) (insert (length (int_to_ext s)) Q) E'"
  defines "s2 \<equiv> s1\<lparr>vmeta := m'\<rparr>"
  shows "index_ok s2 \<and> arrays_ok cfg s2 (rows @ [rec]) (insert (length (int_to_ext s)) Q) E' \<and> contents_of s2 (rows @ [rec]) = contents_of s rows \<and>
    pend_ok s2 (rows @ [rec]) (insert (length (int_to_ext s)) Q) (insert \<lparr>pext = ext, pvec = take d vec, prec = rec, pnode = iid, pold = ext_to_int s ext\<rparr> P) \<and>
    next_ext_id s2 = next_ext_id s"
proof -
  note O = arrays_okD [OF ok]
  obtain i where s1: "s1 = s\<lparr>index := i, int_to_ext := int_to_ext s @ [ext], deleted := deleted s @ [True],
      deleted_count := deleted_count s + 1, vectors := vectors s @ [take d vec]\<rparr>" "inv i" "vecs i = vectors s @ [take d vec]"
    and iid: "iid = length (int_to_ext s)"
    using allocate_node_run [OF a ix] O(1,3) d by blast
  have "index_ok s2" using s1 by (simp add: index_ok_def s2_def)
  moreover have "arrays_ok cfg s2 (rows @ [rec]) (insert (length (int_to_ext s)) Q) E'"
    by (rule append_arrays [OF ok _ run, where ext = ext and v = vec and i = i]) (simp add: s2_def s1(1) d)
  moreover have "contents_of s2 (rows @ [rec]) = contents_of s rows"
    by (rule append_contents [OF ok]) (simp_all add: s2_def s1(1))
  moreover have "pend_ok s2 (rows @ [rec]) (insert (length (int_to_ext s)) Q) (insert \<lparr>pext = ext, pvec = take d vec, prec = rec, pnode = iid, pold = ext_to_int s ext\<rparr> P)"
    unfolding iid by (rule append_pend [OF ok P x]) (simp_all add: s2_def s1(1))
  ultimately show ?thesis by (simp add: s2_def s1(1))
qed

lemma step_reserve:
  assumes "db_ok cfg s A P I" and "next_ext_id s \<noteq> -1" and "reserve_id s = Some (Inr ext, s')"
  shows "db_ok cfg s' A P (insert ext I)"
proof -
  have s': "s' = s\<lparr>next_ext_id := next_ext_id s + 1\<rparr>" "ext = next_ext_id s" using assms(3) by (auto simp: reserve_id_def)
  have lt: "next_ext_id s < next_ext_id s + 1" using assms(2) by (rule less_next)
  have "ids_ok s' A P (insert ext I)"
    using assms(1) lt by (auto simp: db_ok_def ids_ok_def s' dest: less_trans)
  then show ?thesis using assms(1) by (auto simp: db_ok_def s' index_ok_def)
qed

lemma step_allocate:
  assumes ok: "db_ok cfg s A P I" and d: "vdim cfg = d" and fits: "record_fits (vmeta s) rec" and x: "ext \<noteq> -1" "A ext = None" "ext \<notin> pext ` P"
    and a: "insert_allocate ops ext vec rec s = Some (Inr iid, s')"
  shows "db_ok cfg s' A (insert \<lparr>pext = ext, pvec = take (vdim cfg) vec, prec = rec, pnode = iid, pold = None\<rparr> P) (insert ext I)"
proof -
  obtain rows Q E where R: "arrays_ok cfg s rows Q E" "pend_ok s rows Q P" "A = contents_of s rows" using ok by (auto simp: db_ok_def)
  note O = arrays_okD [OF R(1)]
  obtain s1 m' where s1: "allocate_node ops ext vec s = Some (Inr iid, s1)" "append_row rec (vmeta s1) = Some (None, m')"
    and s': "s' = (if next_ext_id s1 \<le> ext then s1\<lparr>vmeta := m', next_ext_id := ext + 1\<rparr> else s1\<lparr>vmeta := m'\<rparr>)"
    using a by (auto simp: insert_allocate_def method_simps)
  have "vmeta s1 = vmeta s" using allocate_node_run [OF s1(1)] ok O(1,3) d by (auto simp: db_ok_def)
  then have "append_row rec (vmeta s) = Some (None, m')" using s1(2) by simp
  from run_append [OF O(6) fits this]
  have run: "store_run (vschema cfg) m' (rows @ [rec]) (live s) (insert (length (int_to_ext s)) Q) (insert (length rows) E)"
    using O(4) by simp
  let ?P = "insert \<lparr>pext = ext, pvec = take (vdim cfg) vec, prec = rec, pnode = iid, pold = None\<rparr> P" and ?s2 = "s1\<lparr>vmeta := m'\<rparr>"
  have none: "ext_to_int s ext = None" using x(2) R(3) by (simp add: contents_dom)
  have ix: "index_ok s" using ok by (simp add: db_ok_def)
  note S = allocated [OF s1(1) ix R(1) d R(2) x(3) run, unfolded none]
  have idx: "index_ok s'" using S by (auto simp: s' index_ok_def)
  have arr: "arrays_ok cfg s' (rows @ [rec]) (insert (length (int_to_ext s)) Q) (insert (length rows) E)"
    "pend_ok s' (rows @ [rec]) (insert (length (int_to_ext s)) Q) ?P" "contents_of s' (rows @ [rec]) = A"
    using S R(3) by (auto simp: s' d)
  have "next_ext_id s \<le> next_ext_id s'" "ext < next_ext_id s'"
    using S less_next [OF x(1)] by (auto simp: s' not_le)
  then have "ids_ok s' A ?P (insert ext I)" using ok by (auto simp: db_ok_def ids_ok_def)
  then show ?thesis using idx arr by (auto simp: db_ok_def)
qed

lemma step_reallocate:
  assumes ok: "db_ok cfg s A P I" and d: "vdim cfg = d" and fits: "\<forall>rec. orec = Some rec \<longrightarrow> record_fits (vmeta s) rec"
    and x: "A ext = Some (v, r)" "ext \<notin> pext ` P" and a: "update_allocate ops ext vec orec s = Some (Inr (Some (new, old)), s')"
  shows "db_ok cfg s' A (insert \<lparr>pext = ext, pvec = take (vdim cfg) vec, prec = update_record orec r, pnode = new, pold = Some old\<rparr> P) I"
proof -
  obtain rows Q E where R: "arrays_ok cfg s rows Q E" "pend_ok s rows Q P" "A = contents_of s rows" using ok by (auto simp: db_ok_def)
  note O = arrays_okD [OF R(1)]
  have old: "ext_to_int s ext = Some old" using x(1) R(3) a
    by (auto simp: contents_of_def update_allocate_def method_simps split: option.splits)
  then have r: "r = rows ! old" using x(1) R(3) by (simp add: contents_of_def)
  obtain s1 m' where s1: "allocate_node ops ext vec s = Some (Inr new, s1)" "s' = s1\<lparr>vmeta := m'\<rparr>"
    "(case orec of None \<Rightarrow> append_row_copy old | Some rec \<Rightarrow> append_row rec) (vmeta s1) = Some (None, m')"
    using a old by (auto simp: update_allocate_def method_simps)
  have ix: "index_ok s" using ok by (simp add: db_ok_def)
  have "vmeta s1 = vmeta s" using allocate_node_run [OF s1(1) ix] O(1,3) d by auto
  then have m': "(case orec of None \<Rightarrow> append_row_copy old | Some rec \<Rightarrow> append_row rec) (vmeta s) = Some (None, m')" using s1(3) by simp
  have "old < length rows" using old arrays_ok_ext [OF R(1)] is_live_less O(2,4) by fastforce
  then have "store_run (vschema cfg) m' (rows @ [update_record orec r]) (live s) (insert (length rows) Q) (insert (length rows) E)"
    using m' fits run_copy [OF O(6)] run_append [OF O(6)] r by (cases orec) (simp_all add: update_record_def)
  then have run: "store_run (vschema cfg) m' (rows @ [update_record orec r]) (live s) (insert (length (int_to_ext s)) Q) (insert (length rows) E)"
    using O(4) by simp
  let ?P = "insert \<lparr>pext = ext, pvec = take (vdim cfg) vec, prec = update_record orec r, pnode = new, pold = Some old\<rparr> P"
  note S = allocated [OF s1(1) ix R(1) d R(2) x(2) run, unfolded old, folded s1(2)]
  have "ids_ok s' A ?P I" using ok S x(1) by (auto simp: db_ok_def ids_ok_def)
  then show ?thesis using S R(3) unfolding d by (elim conjE) (rule db_okI, assumption+, simp)
qed

lemma step_link:
  assumes ok: "db_ok cfg s A P I" and p: "p \<in> P" and a: "link_node ops (pnode p) s = Some (Inr (), s')"
  shows "db_ok cfg s' A P I"
proof -
  obtain i where i: "ix_link ops (pnode p) (index s) = Some i" "s' = s\<lparr>index := i\<rparr>"
    using a by (auto simp: link_node_def split: option.splits)
  obtain rows Q E where "arrays_ok cfg s rows Q E" "pend_ok s rows Q P" using ok by (auto simp: db_ok_def)
  then have "pnode p < length (vectors s)" using p arrays_okD(3) [of cfg s rows Q E] by (simp add: pend_ok_def)
  then have "inv i \<and> vecs i = vectors s" using link_ok [OF _ _ i(1)] ok by (auto simp: db_ok_def index_ok_def)
  then show ?thesis using ok by (auto simp: db_ok_def index_ok_def i(2))
qed

lemma step_publish:
  assumes ok: "db_ok cfg s A P I" and p: "p \<in> P" "pold p = None" and a: "insert_publish (pext p) (pnode p) s = Some (Inr (), s')"
  shows "db_ok cfg s' (A(pext p \<mapsto> (pvec p, prec p))) (P - {p}) I"
proof -
  obtain rows Q E where R: "arrays_ok cfg s rows Q E" "pend_ok s rows Q P" "A = contents_of s rows" using ok by (auto simp: db_ok_def)
  note O = arrays_okD [OF R(1)]
  have n: "pnode p < length (int_to_ext s)" "\<not> is_live (deleted s) (pnode p)" "int_to_ext s ! pnode p = pext p"
    "vectors s ! pnode p = pvec p" "rows ! pnode p = prec p" "ext_to_int s (pext p) = None" "pnode p \<in> Q"
    using R(2) p by (auto simp: pend_ok_def)
  obtain m' where m: "mark_live (pnode p) (vmeta s) = Some (None, m')"
    and s': "s' = s\<lparr>deleted := (deleted s)[pnode p := False], deleted_count := deleted_count s - 1, vmeta := m',
      ext_to_int := (ext_to_int s)(pext p \<mapsto> pnode p), live_total := live_total s + 1\<rparr>"
    using a by (auto simp: insert_publish_def method_simps)
  have "arrays_ok cfg s' rows Q E" by (rule publish_arrays [OF R(1) n(1,2,7) _ m]) (use n s' in simp_all)
  moreover have "pend_ok s' rows Q (P - {p})"
    by (rule pend_drop [OF R(2) p(1)]) (use n O(2) in \<open>simp_all add: s'\<close>)
  moreover have "A(pext p \<mapsto> (pvec p, prec p)) = contents_of s' rows"
    using n by (auto simp: R(3) contents_of_def s')
  moreover have "ids_ok s' (A(pext p \<mapsto> (pvec p, prec p))) (P - {p}) I" using ok p by (auto simp: db_ok_def ids_ok_def s')
  ultimately show ?thesis using ok by (auto simp: db_ok_def index_ok_def s')
qed

lemma step_republish:
  assumes ok: "db_ok cfg s A P I" and p: "p \<in> P" "pold p = Some old" and a: "update_publish (pext p) (pnode p) old s = Some (Inr (), s')"
  shows "db_ok cfg s' (A(pext p \<mapsto> (pvec p, prec p))) (P - {p}) I"
proof -
  obtain rows Q E where R: "arrays_ok cfg s rows Q E" "pend_ok s rows Q P" "A = contents_of s rows" using ok by (auto simp: db_ok_def)
  note O = arrays_okD [OF R(1)]
  have n: "pnode p < length (int_to_ext s)" "\<not> is_live (deleted s) (pnode p)" "int_to_ext s ! pnode p = pext p"
    "vectors s ! pnode p = pvec p" "rows ! pnode p = prec p" "ext_to_int s (pext p) = Some old" "pnode p \<in> Q"
    using R(2) p by (auto simp: pend_ok_def)
  obtain m1 m2 where m: "mark_live (pnode p) (vmeta s) = Some (None, m1)" "mark_dead old m1 = Some (None, m2)"
    and s': "s' = s\<lparr>deleted := (deleted s)[pnode p := False, old := True], deleted_count := deleted_count s - 1 + 1, vmeta := m2,
      ext_to_int := (ext_to_int s)(pext p \<mapsto> pnode p)\<rparr>"
    using a by (auto simp: update_publish_def method_simps)
  have "arrays_ok cfg s' rows Q E" by (rule swap_arrays [OF R(1) n(1-3,7,6) m s'])
  moreover have "pend_ok s' rows Q (P - {p})"
    by (rule pend_drop [OF R(2) p(1)]) (use n O(2) in \<open>auto simp: s'\<close>)
  moreover have "A(pext p \<mapsto> (pvec p, prec p)) = contents_of s' rows"
    using n by (auto simp: R(3) contents_of_def s')
  moreover have "ids_ok s' (A(pext p \<mapsto> (pvec p, prec p))) (P - {p}) I" using ok p by (auto simp: db_ok_def ids_ok_def s')
  ultimately show ?thesis using ok by (auto simp: db_ok_def index_ok_def s')
qed

lemma step_remove:
  assumes ok: "db_ok cfg s A P I" and x: "ext \<notin> pext ` P" and a: "vdb_remove ext s = Some (Inr b, s')"
  shows "db_ok cfg s' (A(ext := None)) P I"
proof (cases "ext_to_int s ext")
  case None
  then have "s' = s" "A ext = None" using a ok by (auto simp: vdb_remove_def db_ok_def contents_dom)
  then show ?thesis using ok by (simp add: fun_upd_idem)
next
  case (Some iid)
  obtain rows Q E where R: "arrays_ok cfg s rows Q E" "pend_ok s rows Q P" "A = contents_of s rows" using ok by (auto simp: db_ok_def)
  obtain m' where m: "mark_dead iid (vmeta s) = Some (None, m')" and s': "s' = s\<lparr>deleted := (deleted s)[iid := True], vmeta := m',
      ext_to_int := (ext_to_int s)(ext := None), live_total := live_total s - 1, deleted_count := deleted_count s + 1\<rparr>"
    using a Some by (auto simp: vdb_remove_def method_simps)
  have "arrays_ok cfg s' rows Q E" by (rule delete_arrays [OF R(1) Some m s'])
  moreover have "pend_ok s' rows Q P" by (rule pend_other [OF R(2) x]) (simp_all add: s')
  moreover have "A(ext := None) = contents_of s' rows" by (auto simp: R(3) contents_of_def s')
  moreover have "ids_ok s' (A(ext := None)) P I" using ok by (auto simp: db_ok_def ids_ok_def s')
  ultimately show ?thesis using ok by (auto simp: db_ok_def index_ok_def s')
qed

lemma step_set:
  assumes ok: "db_ok cfg s A P I" and fits: "record_fits (vmeta s) rec" and x: "ext \<notin> pext ` P"
    and a: "vdb_set_metadata ext rec s = Some (Inr b, s')"
  shows "db_ok cfg s' (set_record ext rec A) P I"
proof (cases "ext_to_int s ext")
  case None
  then have "s' = s" "A ext = None" using a ok by (auto simp: vdb_set_metadata_def method_simps db_ok_def contents_dom)
  then show ?thesis using ok by (simp add: set_record_def)
next
  case (Some iid)
  obtain rows Q E where R: "arrays_ok cfg s rows Q E" "pend_ok s rows Q P" "A = contents_of s rows" using ok by (auto simp: db_ok_def)
  note O = arrays_okD [OF R(1)]
  obtain m' where m: "set_row iid rec (vmeta s) = Some (None, m')" and s': "s' = s\<lparr>vmeta := m'\<rparr>"
    using a Some by (auto simp: vdb_set_metadata_def method_simps)
  have i: "is_live (deleted s) iid" "int_to_ext s ! iid = ext" using Some arrays_ok_ext [OF R(1)] by simp_all
  then have n: "iid \<in> live s" "iid < length (int_to_ext s)" using O(2) is_live_less [OF i(1)] by (simp_all add: live_def)
  have "iid \<in> Q" using run_posted [OF O(6)] n(1) by blast
  with run_set [OF O(6) fits n(1) m] have arr: "arrays_ok cfg s' (rows[iid := rec]) Q (E - {iid})"
    using O n(2) by (simp add: arrays_ok_def s' live_def insert_absorb)
  have other: "rows[iid := rec] ! k = rows ! k" if "int_to_ext s ! k \<noteq> ext" for k using that i(2) by (cases "k = iid") auto
  have "pend_ok s' (rows[iid := rec]) Q P"
    by (rule pend_other [OF R(2) x, where y = "Some iid"]) (use Some other in \<open>auto simp: s'\<close>)
  moreover have "set_record ext rec A = contents_of s' (rows[iid := rec])"
  proof
    fix y
    have "k \<noteq> iid" if "ext_to_int s y = Some k" "y \<noteq> ext" for k using that i arrays_ok_ext [OF R(1)] by auto
    then show "set_record ext rec A y = contents_of s' (rows[iid := rec]) y"
      using Some n(2) O(4) by (cases "ext_to_int s y") (auto simp: R(3) set_record_def contents_of_def s')
  qed
  moreover have "ids_ok s' (set_record ext rec A) P I"
    using ok by (auto simp: db_ok_def ids_ok_def s' set_record_def split: option.splits)
  ultimately show ?thesis using ok arr by (auto simp: db_ok_def index_ok_def s')
qed

end

section \<open>Compaction\<close>

lemma maps_append_live:
  assumes "maps_ok f ds es" and "length ds = length es" and "f x = None"
  shows "maps_ok (f(x \<mapsto> length es)) (ds @ [False]) (es @ [x])"
proof -
  have "maps_ok (f((es @ [x]) ! length es \<mapsto> length es)) ((ds @ [True])[length es := False]) (es @ [x])"
    by (rule maps_publish [OF maps_append [OF assms(1,2)]]) (use assms in simp_all)
  moreover have "(ds @ [True])[length es := False] = ds @ [False]" using assms(2) by (simp add: list_update_append)
  ultimately show ?thesis by simp
qed

text \<open>The state that the loop over the live vectors starts from.\<close>

definition cleared :: "'i index_ops \<Rightarrow> 'i vdb \<Rightarrow> mstore \<Rightarrow> 'i vdb \<Rightarrow> bool" where
  "cleared ops s m s0 \<longleftrightarrow> config s0 = config s \<and> (index s0 = ix_new ops \<or> (\<exists>data n. ix_train ops data n (ix_new ops) = Some (index s0))) \<and>
     ext_to_int s0 = Map.empty \<and> int_to_ext s0 = [] \<and> deleted s0 = [] \<and> vectors s0 = [] \<and> vmeta s0 = m \<and>
     next_ext_id s0 = next_ext_id s \<and> live_total s0 = live_total s \<and> deleted_count s0 = 0"

lemma train_index_run:
  "train_index ops vs s = Some (Inr x, s') \<Longrightarrow>
    s' = s \<or> (\<exists>data n i. ix_train ops data n (index s) = Some i \<and> s' = s\<lparr>index := i\<rparr>)"
  by (auto simp: train_index_def split: if_splits option.splits)

lemma compact_run:
  assumes "compact ops s = Some (Inr x, s')"
  shows "\<exists>m s0. permute (live_ids s) (vmeta s) = Some (None, m) \<and> cleared ops s m s0 \<and>
    append_all ops (zip (map ((!) (int_to_ext s)) (live_ids s)) (map ((!) (vectors s)) (live_ids s))) s0 = Some (Inr x, s')"
proof -
  obtain m s0 where m: "permute (live_ids s) (vmeta s) = Some (None, m)"
    "append_all ops (zip (map ((!) (int_to_ext s)) (live_ids s)) (map ((!) (vectors s)) (live_ids s))) s0 = Some (Inr x, s')"
    "train_index ops (map ((!) (vectors s)) (live_ids s))
      (fresh_maps ops (s\<lparr>vectors := move_vectors (live_ids s) (vectors s), vmeta := m\<rparr>)) = Some (Inr (), s0)"
    using assms unfolding compact_def Let_def method_simps by auto
  moreover have "cleared ops s m s0"
    using train_index_run [OF m(3)] by (auto simp: cleared_def fresh_maps_def)
  ultimately show ?thesis by blast
qed

context rebuilt_index begin

lemma append_all_run:
  assumes "append_all ops (zip es vs) s = Some (Inr (), s')" and "length es = length vs" and "index_ok s" and "vdim (config s) = d"
    and "length (vectors s) = length (int_to_ext s)" "length (deleted s) = length (int_to_ext s)" and "\<forall>v \<in> set vs. take d v = v"
    and "maps_ok (ext_to_int s) (deleted s) (int_to_ext s)" and "distinct es" and "\<forall>x \<in> set es. ext_to_int s x = None"
  shows "\<exists>i f. s' = s\<lparr>index := i, ext_to_int := f, int_to_ext := int_to_ext s @ es, deleted := deleted s @ replicate (length es) False,
      vectors := vectors s @ vs\<rparr> \<and> index_ok s' \<and> maps_ok f (deleted s @ replicate (length es) False) (int_to_ext s @ es)"
  using assms
proof (induction es arbitrary: vs s)
  case Nil
  then show ?case by (intro exI [of _ "index s"] exI [of _ "ext_to_int s"]) (simp add: method_simps)
next
  case (Cons e es)
  obtain v vs' where vs: "vs = v # vs'" using Cons.prems(2) by (cases vs) simp_all
  have v: "take d v = v" using Cons.prems(7) vs by simp
  obtain iid s1 where a: "append_node ops e v s = Some (Inr iid, s1)"
    and rest: "append_all ops (zip es vs') (s1\<lparr>ext_to_int := (ext_to_int s1)(e \<mapsto> iid)\<rparr>) = Some (Inr (), s')"
    using Cons.prems(1) by (auto simp: vs method_simps)
  obtain i where s1: "s1 = s\<lparr>index := i, int_to_ext := int_to_ext s @ [e], deleted := deleted s @ [False], vectors := vectors s @ [v]\<rparr>"
    "inv i" "vecs i = vectors s @ [v]" "iid = length (int_to_ext s)"
    using a add_ok [of "index s" v] Cons.prems(3-5) v
    by (auto simp: append_node_def index_ok_def split: option.splits sum.splits if_splits)
  let ?s2 = "s1\<lparr>ext_to_int := (ext_to_int s1)(e \<mapsto> iid)\<rparr>"
  have "maps_ok (ext_to_int ?s2) (deleted ?s2) (int_to_ext ?s2)"
    using maps_append_live [OF Cons.prems(8,6), of e] Cons.prems(10) by (simp add: s1(1,4))
  moreover have "index_ok ?s2" "vdim (config ?s2) = d" "length (vectors ?s2) = length (int_to_ext ?s2)"
    "length (deleted ?s2) = length (int_to_ext ?s2)"
    using Cons.prems(4-6) s1 by (simp_all add: index_ok_def)
  moreover have "length es = length vs'" "\<forall>v \<in> set vs'. take d v = v" "distinct es" "\<forall>x \<in> set es. ext_to_int ?s2 x = None"
    using Cons.prems(2,7,9,10) by (auto simp: vs s1(1))
  ultimately obtain j f where
    "s' = ?s2\<lparr>index := j, ext_to_int := f, int_to_ext := int_to_ext ?s2 @ es, deleted := deleted ?s2 @ replicate (length es) False,
      vectors := vectors ?s2 @ vs'\<rparr>" "index_ok s'" "maps_ok f (deleted ?s2 @ replicate (length es) False) (int_to_ext ?s2 @ es)"
    using Cons.IH [OF rest] by blast
  then show ?case by (intro exI [of _ j] exI [of _ f]) (simp add: s1(1) vs)
qed

lemma live_ids_set: "arrays_ok cfg s rows Q E \<Longrightarrow> distinct (live_ids s) \<and> set (live_ids s) = live s"
  using arrays_okD(2) [of cfg s rows Q E] by (auto simp: live_ids_def live_def is_live_def)

lemma step_compact:
  assumes ok: "db_ok cfg s A {} I" and d: "vdim cfg = d" and a: "compact ops s = Some (Inr (), s')"
  shows "db_ok cfg s' A {} I \<and> deleted_count s' = 0 \<and> length (int_to_ext s') = card (dom A)"
proof -
  obtain rows Q E where R: "arrays_ok cfg s rows Q E" "A = contents_of s rows" using ok by (auto simp: db_ok_def)
  note O = arrays_okD [OF R(1)]
  define ls where "ls = live_ids s"
  have L: "distinct ls" "set ls = live s" using live_ids_set [OF R(1)] by (simp_all add: ls_def)
  have lt: "\<And>i. i \<in> set ls \<Longrightarrow> is_live (deleted s) i \<and> i < length (int_to_ext s)" using O(2) is_live_less L(2) by (fastforce simp: live_def)
  define es vs where "es = map ((!) (int_to_ext s)) ls" and "vs = map ((!) (vectors s)) ls"
  let ?k = "length ls"
  obtain m' s0 where m': "permute ls (vmeta s) = Some (None, m')" and s0: "cleared ops s m' s0"
    and rest: "append_all ops (zip es vs) s0 = Some (Inr (), s')"
    using compact_run [OF a] unfolding ls_def [symmetric] es_def [symmetric] vs_def [symmetric] by blast
  have ix0: "index_ok s0" using s0 new_ok train_ok [OF new_ok, of _ _ "index s0"] by (auto simp: cleared_def index_ok_def)
  have ext: "ext_to_int s (int_to_ext s ! j) = Some j" if "j \<in> set ls" for j using lt [OF that] arrays_ok_ext [OF R(1)] by simp
  have "inj_on ((!) (int_to_ext s)) (set ls)" by (rule inj_onI) (metis ext option.inject)
  then have "distinct es" using L(1) by (simp add: es_def distinct_map)
  moreover have "\<forall>v \<in> set vs. take d v = v" using O(3,5) lt d by (auto simp: vs_def)
  ultimately obtain i' f where s': "s' = s0\<lparr>index := i', ext_to_int := f, int_to_ext := es, deleted := replicate ?k False, vectors := vs\<rparr>"
    "index_ok s'" "maps_ok f (replicate ?k False) es"
    using append_all_run [OF rest _ ix0] s0 O(1) d by (auto simp: es_def vs_def cleared_def maps_ok_def)
  have live': "live s' = {..<?k}" by (auto simp: live_def s'(1) is_live_def)
  have k: "?k = card (live s)" using L distinct_card by metis
  let ?rows = "map ((!) rows) ls"
  have "arrays_ok cfg s' ?rows {..<?k} {..<?k}"
    using run_permute [OF O(6) L m'] O(1,3,5,8) s'(3) live' lt k d
    using s0 by (auto simp: arrays_ok_def s'(1) es_def vs_def cleared_def)
  moreover have cont: "A = contents_of s' ?rows"
  proof
    fix x
    have f: "f x = Some j \<longleftrightarrow> j < ?k \<and> ext_to_int s x = Some (ls ! j)" for j
      using s'(3) lt [of "ls ! j"] arrays_ok_ext [OF R(1)] by (auto simp: maps_ok_def es_def is_live_def)
    show "A x = contents_of s' ?rows x"
    proof (cases "ext_to_int s x")
      case None
      then have "f x = None" using f by (cases "f x") auto
      then show ?thesis using None by (simp add: R(2) contents_of_def s'(1))
    next
      case (Some y)
      then have "y \<in> set ls" using arrays_ok_ext [OF R(1)] L(2) by (simp add: live_def)
      then obtain j where "j < ?k" "y = ls ! j" by (metis in_set_conv_nth)
      then show ?thesis using Some f [of j] by (simp add: R(2) contents_of_def s'(1) vs_def)
    qed
  qed
  moreover have "ids_ok s' A {} I" using ok using s0 by (simp add: db_ok_def ids_ok_def s'(1) cleared_def)
  moreover have "card (dom A) = ?k"
  proof -
    have "dom A = (!) (int_to_ext s) ` live s"
      using arrays_ok_ext [OF R(1)] ext L(2) by (force simp: R(2) contents_of_def live_def)
    then show ?thesis using \<open>inj_on _ (set ls)\<close> L(2) k by (simp add: card_image)
  qed
  moreover have "pend_ok s' ?rows {..<?k} {}" by (simp add: pend_ok_def)
  ultimately show ?thesis using s'(1,2) s0 by (auto simp: db_ok_def es_def cleared_def)
qed

end

section \<open>Saving and loading\<close>

lemma live_map_eq:
  assumes m: "maps_ok f ds es" and len: "length ds = length es"
  shows "live_map es ds = f"
proof -
  let ?g = "\<lambda>m i. if \<not> ds ! i then m(es ! i \<mapsto> i) else m"
  have "foldl ?g Map.empty [0..<n] = (\<lambda>x. case f x of None \<Rightarrow> None | Some i \<Rightarrow> if i < n then Some i else None)" if "n \<le> length es" for n
    using that
  proof (induction n)
    case (Suc n)
    have n: "f x = Some n \<longleftrightarrow> \<not> ds ! n \<and> es ! n = x" for x using m len Suc.prems by (simp add: maps_ok_def is_live_def)
    have "foldl ?g Map.empty [0..<Suc n] x = (case f x of None \<Rightarrow> None | Some i \<Rightarrow> if i < Suc n then Some i else None)" for x
    proof (cases "f x = Some n")
      case False
      then show ?thesis using Suc n [of x] by (auto simp: less_Suc_eq split: option.split)
    qed (use Suc n [of x] in auto)
    then show ?case by (rule ext)
  qed (auto split: option.split)
  from this [OF order_refl] have eq: "live_map es ds = (\<lambda>x. case f x of None \<Rightarrow> None | Some i \<Rightarrow> if i < length es then Some i else None)"
    by (simp add: live_map_def)
  show ?thesis
  proof
    fix x
    have "i < length es" if "f x = Some i" for i using m len that by (simp add: maps_ok_def is_live_def)
    then show "live_map es ds x = f x" unfolding eq by (cases "f x") auto
  qed
qed

context stored_index begin

lemma load_saved:
  assumes ok: "db_ok cfg s A {} I" and d: "vdim cfg = d" and fits: "snapshot_fits s" and mk: "make_vdb ops cfg = Inr s0"
  defines "r \<equiv> ix_serialize ops [] (index s)" and "s1 \<equiv> s0\<lparr>next_ext_id := next_ext_id s, live_total := live_total s,
    deleted_count := deleted_count s, int_to_ext := int_to_ext s, deleted := deleted s, vectors := vectors s\<rparr>"
  shows "\<exists>m0 m1 i. make_store (vschema cfg) = Inr m0 \<and> config s0 = cfg \<and> deserialize m0 (serialize [] (vmeta s) @ r) = Inr (m1, r) \<and>
    loaded_ok (vschema cfg) m1 \<and> inv i \<and> vecs i = vectors s \<and>
    load_snapshot ops s0 (save_snapshot ops s lsn) = (case rebuild_derived_state (deleted s) m1 of
        None \<Rightarrow> None | Some (Some e, _) \<Rightarrow> Some (Inl e)
      | Some (None, m) \<Rightarrow> Some (Inr (lsn, s1\<lparr>index := i, ext_to_int := ext_to_int s, vmeta := m\<rparr>)))"
proof -
  obtain rows Q E where R: "arrays_ok cfg s rows Q E" and ix: "index_ok s" using ok by (auto simp: db_ok_def)
  note O = arrays_okD [OF R] and S = store_run_ok [OF arrays_okD(6) [OF R]]
  obtain m0 where m0: "make_store (vschema cfg) = Inr m0" "vmeta s0 = m0" "config s0 = cfg"
    using mk by (auto simp: make_vdb_def bind_res_eq_Inr)
  have len: "\<forall>v \<in> set (vectors s). length v \<le> d" using O(5) d by (metis length_take min.cobounded2)
  have b: "vdim (config s) < 2 ^ 32" "length (int_to_ext s) < 2 ^ 32" "store_fits (vmeta s)" using fits by (simp_all add: snapshot_fits_def)
  then have b': "length (int_to_ext s) < 2 ^ 64" "\<forall>v \<in> set (vectors s). length v \<le> max_floats"
    using len O(1) d by (auto simp: max_floats_def)
  obtain m1 where m1: "deserialize m0 (serialize [] (vmeta s) @ r) = Inr (m1, r)" "loaded_ok (vschema cfg) m1"
    using deserialize_serialize [OF conjunct1 [OF S] b(3) make_store_ok(1) [OF m0(1)]] by blast
  obtain i where i: "ix_deserialize ops (ix_new ops) r = Inr (i, [])" "inv i" "vecs i = vectors s"
    using deserialize_ok [of "index s" "[]"] ix b O(1,3) d len by (auto simp: index_ok_def r_def)
  have read: "read_arrays s0 (save_snapshot ops s lsn) = Inr ((lsn, s1), serialize [] (vmeta s) @ r)"
    unfolding save_snapshot_parts [OF serialize_append] r_def s1_def using b b' O(1-3) m0(3) by (intro read_array_bytes) simp_all
  have "load_snapshot ops s0 (save_snapshot ops s lsn) = (case rebuild_derived_state (deleted s) m1 of
      None \<Rightarrow> None | Some (Some e, _) \<Rightarrow> Some (Inl e)
    | Some (None, m) \<Rightarrow> Some (Inr (lsn, s1\<lparr>index := i, ext_to_int := ext_to_int s, vmeta := m\<rparr>)))"
    using live_map_eq [OF O(7,2)] by (simp add: load_snapshot_def read m0(2) m1(1) i(1) s1_def split: option.split)
  then show ?thesis using m0 m1 i by blast
qed

lemma step_load:
  assumes ok: "db_ok cfg s A {} I" and d: "vdim cfg = d" and fits: "snapshot_fits s" and mk: "make_vdb ops cfg = Inr s0"
    and a: "load_snapshot ops s0 (save_snapshot ops s lsn) = Some (Inr (lsn', s'))"
  shows "db_ok cfg s' A {} I \<and> lsn' = lsn \<and> next_ext_id s' = next_ext_id s"
proof -
  obtain rows Q E where R: "arrays_ok cfg s rows Q E" "A = contents_of s rows" using ok by (auto simp: db_ok_def)
  note O = arrays_okD [OF R(1)]
  obtain m0 m1 i where L: "make_store (vschema cfg) = Inr m0" "config s0 = cfg"
    "deserialize m0 (serialize [] (vmeta s) @ ix_serialize ops [] (index s)) = Inr (m1, ix_serialize ops [] (index s))"
    "inv i" "vecs i = vectors s" and load: "load_snapshot ops s0 (save_snapshot ops s lsn) = (case rebuild_derived_state (deleted s) m1 of
        None \<Rightarrow> None | Some (Some e, _) \<Rightarrow> Some (Inl e)
      | Some (None, m) \<Rightarrow> Some (Inr (lsn, s0\<lparr>next_ext_id := next_ext_id s, live_total := live_total s,
          deleted_count := deleted_count s, int_to_ext := int_to_ext s, deleted := deleted s, vectors := vectors s,
          index := i, ext_to_int := ext_to_int s, vmeta := m\<rparr>)))"
    using load_saved [OF ok d fits mk, of lsn] by blast
  obtain m' where m': "rebuild_derived_state (deleted s) m1 = Some (None, m')" "lsn' = lsn"
    and s': "s' = s0\<lparr>next_ext_id := next_ext_id s, live_total := live_total s, deleted_count := deleted_count s,
      int_to_ext := int_to_ext s, deleted := deleted s, vectors := vectors s, index := i, ext_to_int := ext_to_int s, vmeta := m'\<rparr>"
    using a load by (auto split: option.splits)
  have "store_fits (vmeta s)" using fits by (simp add: snapshot_fits_def)
  note run = run_load [OF O(6) this L(1,3) m'(1)]
  have "live_rows (deleted s) (length rows) = live s" using O(2,4) by (auto simp: live_rows_def live_def is_live_def)
  moreover have "live s' = live s" by (simp add: live_def s')
  ultimately have "arrays_ok cfg s' rows (live s) {..<length rows}"
    using O run L(2) by (simp add: arrays_ok_def s')
  moreover have "pend_ok s' rows (live s) {}" by (simp add: pend_ok_def)
  moreover have "A = contents_of s' rows" by (simp add: R(2) contents_of_def s')
  moreover have "ids_ok s' A {} I" using ok by (simp add: db_ok_def ids_ok_def s')
  moreover have "index_ok s'" using L(4,5) by (simp add: index_ok_def s')
  ultimately have "db_ok cfg s' A {} I" by (intro db_okI) assumption+
  then show ?thesis using m'(2) by (simp add: s')
qed

text \<open>A load of what a save wrote returns, or throws the \<open>length_error\<close> of a full ordered index.\<close>

lemma load_returns:
  assumes ok: "db_ok cfg s A {} I" and d: "vdim cfg = d" and fits: "snapshot_fits s" and mk: "make_vdb ops cfg = Inr s0"
  shows "\<exists>r. load_snapshot ops s0 (save_snapshot ops s lsn) = Some r \<and> (\<forall>e. r = Inl e \<longrightarrow> e = LengthError)"
proof -
  obtain m1 i where "loaded_ok (vschema cfg) m1" and load: "load_snapshot ops s0 (save_snapshot ops s lsn) = (case rebuild_derived_state (deleted s) m1 of
        None \<Rightarrow> None | Some (Some e, _) \<Rightarrow> Some (Inl e)
      | Some (None, m) \<Rightarrow> Some (Inr (lsn, s0\<lparr>next_ext_id := next_ext_id s, live_total := live_total s,
          deleted_count := deleted_count s, int_to_ext := int_to_ext s, deleted := deleted s, vectors := vectors s,
          index := i, ext_to_int := ext_to_int s, vmeta := m\<rparr>)))"
    using load_saved [OF ok d fits mk, of lsn] by blast
  from rebuild_ok [OF this(1), of "deleted s"] load show ?thesis by (auto simp: returns_def split: if_splits)
qed

end

section \<open>Every reachable state\<close>

lemma make_vdb_ok:
  assumes "make_vdb ops cfg = Inr s"
  shows "arrays_ok cfg s [] {} {}" "index s = ix_new ops" "vectors s = []" "ext_to_int s = Map.empty" "int_to_ext s = []"
proof -
  obtain m where m: "make_store (vschema cfg) = Inr m" and s: "s = \<lparr>config = cfg, index = ix_new ops, ext_to_int = Map.empty, int_to_ext = [], deleted = [], vectors = [],
       vmeta = m, next_ext_id = 0, live_total = 0, deleted_count = 0, calibration = default_filter_calibration\<rparr>"
    using assms by (auto simp: make_vdb_def bind_res_eq_Inr)
  show "arrays_ok cfg s [] {} {}" using run_make [OF m] by (simp add: s arrays_ok_def live_def maps_ok_def)
qed (use assms in \<open>auto simp: make_vdb_def bind_res_eq_Inr\<close>)

context database_index begin

lemma db_run_ok:
  assumes "db_run ops cfg s A P I" and d: "vdim cfg = d"
  shows "db_ok cfg s A P I"
  using assms(1)
proof (induction rule: db_run.induct)
  case (db_make s)
  note M = make_vdb_ok [OF db_make]
  have "contents_of s [] = Map.empty" using M(4) by (simp add: contents_of_def fun_eq_iff)
  moreover have "pend_ok s [] {} {}" "ids_ok s Map.empty {} {}" by (simp_all add: pend_ok_def ids_ok_def)
  ultimately show ?case using M(1-3) new_ok by (intro db_okI) (assumption | simp add: index_ok_def)+
next
  case (db_reserve s A P I ext s')
  then show ?case using step_reserve by blast
next
  case (db_allocate s A P I rec ext vec iid s')
  then show ?case using step_allocate d by blast
next
  case (db_reallocate s A P I orec ext v r vec new old s')
  then show ?case using step_reallocate d by blast
next
  case (db_link s A P I p s')
  then show ?case using step_link by blast
next
  case (db_publish s A P I p s')
  then show ?case using step_publish by blast
next
  case (db_republish s A P I p old s')
  then show ?case using step_republish by blast
next
  case (db_remove s A P I ext b s')
  then show ?case using step_remove by blast
next
  case (db_set s A P I rec ext b s')
  then show ?case using step_set by blast
next
  case (db_compact s A I s')
  then show ?case using step_compact d by blast
next
  case (db_load s A I s0 lsn lsn' s')
  then show ?case using step_load d by blast
qed

end

end
