(* ===== verification/Vdb_Answers.thy ===== *)
theory Vdb_Answers
  imports Vdb_Inv Vdb_Search
begin

text \<open>
  What the searches answer in a reachable state, in terms of the abstract contents: over an
  exact index, the ids of the nearest live vectors; over any index, live ids only.
\<close>

section \<open>Rankings of ids\<close>

definition id_distance :: "vdb_config \<Rightarrow> contents \<Rightarrow> fvec \<Rightarrow> u64 \<Rightarrow> real" where
  "id_distance cfg A q ext = (case A ext of None \<Rightarrow> 0 | Some (v, _) \<Rightarrow> metric_fn (vmetric cfg) q v (vdim cfg))"

text \<open>The answer is a ranked selection of the ids in \<open>D\<close> by distance.\<close>

definition nearest :: "vdb_config \<Rightarrow> contents \<Rightarrow> u64 set \<Rightarrow> fvec \<Rightarrow> nat \<Rightarrow> u64 list \<Rightarrow> bool" where
  "nearest cfg A D q K out \<longleftrightarrow> (\<exists>xs. distinct xs \<and> set xs = D \<and> ranks (id_distance cfg A q) K xs out)"

lemma nearestD:
  assumes "nearest cfg A D q K out"
  shows "distinct out" "set out \<subseteq> D" "length out = min K (card D)" "sorted (map (id_distance cfg A q) out)"
    "x \<in> D \<Longrightarrow> x \<notin> set out \<Longrightarrow> y \<in> set out \<Longrightarrow> id_distance cfg A q y \<le> id_distance cfg A q x"
proof -
  obtain xs where xs: "distinct xs" "set xs = D" "ranks (id_distance cfg A q) K xs out" using assms by (auto simp: nearest_def)
  note R = ranksD [OF xs(3)]
  show "distinct out" "set out \<subseteq> D" "length out = min K (card D)" "sorted (map (id_distance cfg A q) out)"
    using R(1-4) xs(1,2) distinct_card [OF xs(1)] by simp_all
  show "x \<in> D \<Longrightarrow> x \<notin> set out \<Longrightarrow> y \<in> set out \<Longrightarrow> id_distance cfg A q y \<le> id_distance cfg A q x"
    using R(5) xs(2) by blast
qed


text \<open>From the hits of live nodes to their ids.\<close>

lemma hits_nearest:
  assumes ok: "arrays_ok cfg s rows Q E" and A: "A = contents_of s rows" and keep: "keep \<subseteq> live s"
    and nodes: "distinct (map fst xs)" "fst ` set xs = keep" "\<forall>h \<in> set xs. snd h = metric_fn (vmetric cfg) q (vectors s ! fst h) (vdim cfg)"
    and r: "ranks snd K xs hits"
  shows "nearest cfg A {ext. \<exists>i \<in> keep. ext_to_int s ext = Some i} q K (hit_ids s hits)"
proof -
  let ?ext = "\<lambda>h. int_to_ext s ! fst h"
  have ext: "ext_to_int s (int_to_ext s ! i) = Some i" if "i \<in> keep" for i
    using that keep arrays_ok_ext [OF ok] by (auto simp: live_def)
  have inj: "inj_on ((!) (int_to_ext s)) keep" by (rule inj_onI) (metis ext option.inject)
  have ids: "set (map ?ext xs) = {ext. \<exists>i \<in> keep. ext_to_int s ext = Some i}"
  proof -
    have "set (map ?ext xs) = (!) (int_to_ext s) ` keep" using nodes(2) by (auto simp: image_image simp flip: nodes(2))
    also have "\<dots> = {ext. \<exists>i \<in> keep. ext_to_int s ext = Some i}" using ext arrays_ok_ext [OF ok] by force
    finally show ?thesis .
  qed
  have "distinct (map ((!) (int_to_ext s)) (map fst xs))" using nodes(1,2) inj by (subst distinct_map) simp
  then have d: "distinct (map ?ext xs)" by (simp add: comp_def)
  have "id_distance cfg A q (?ext h) = snd h" if "h \<in> set xs" for h
  proof -
    have "fst h \<in> keep" using that nodes(2) by blast
    then show ?thesis using that nodes(3) ext by (simp add: id_distance_def A contents_of_def)
  qed
  then have "ranks (id_distance cfg A q) K (map ?ext xs) (map ?ext hits)" by (rule ranks_map [OF r])
  then show ?thesis using d ids by (auto simp: nearest_def hit_ids_def)
qed

text \<open>The scan of an allowlist.\<close>

lemma prefilter_nearest:
  assumes ok: "arrays_ok cfg s rows Q E" and A: "A = contents_of s rows" and ids: "distinct ids" "set ids \<subseteq> live s"
  shows "nearest cfg A {ext. \<exists>i \<in> set ids. ext_to_int s ext = Some i} q K (hit_ids s (prefilter arrange s q K ids))"
proof (rule hits_nearest [OF ok A ids(2)])
  let ?xs = "map (\<lambda>iid. (iid, metric_fn (vmetric cfg) q (vectors s ! iid) (vdim cfg))) ids"
  show "distinct (map fst ?xs)" "fst ` set ?xs = set ids" using ids(1) by (simp_all add: comp_def image_image)
  show "\<forall>h \<in> set ?xs. snd h = metric_fn (vmetric cfg) q (vectors s ! fst h) (vdim cfg)" by auto
  show "ranks snd K ?xs (prefilter arrange s q K ids)"
    using best_ranks [of snd K ?xs arrange] arrays_okD(1) [OF ok] best_min [of snd arrange K ?xs]
    by (simp add: prefilter_def prefilter_scan_def Let_def)
qed

section \<open>The width of a post-filtered search\<close>

lemma want_width:
  fixes K n c :: nat
  assumes "K < 2 ^ 63" and "n < 2 ^ 32" and "c \<le> n"
  shows "unat (min (of_nat K + (of_nat n - of_nat c)) (of_nat n) :: u64) = min (K + (n - c)) n"
proof -
  have n: "unat (of_nat n :: u64) = n" using assms by (simp add: unat_of_nat_64)
  have "of_nat n - of_nat c = (of_nat (n - c) :: u64)" using assms by simp
  then have "of_nat K + (of_nat n - of_nat c) = (of_nat (K + (n - c)) :: u64)" by simp
  moreover have "unat (of_nat (K + (n - c)) :: u64) = K + (n - c)" using assms by (intro unat_of_nat_64) simp
  ultimately show ?thesis using n by (simp add: min_def word_le_nat_alt)
qed

lemma length_filter_nodes: "length (filter Q [0..<n]) = card {i. i < n \<and> Q i}"
  using distinct_card [of "filter Q [0..<n]"] by (simp add: conj_commute)

lemma dropped_nodes:
  assumes "keep \<subseteq> {..<length xs}"
  shows "length (filter (\<lambda>h. fst h \<notin> keep) (all_hits df xs q)) = length xs - card keep"
proof -
  have "length (filter (\<lambda>h. fst h \<notin> keep) (all_hits df xs q)) = length (filter (\<lambda>i. i \<notin> keep) [0..<length xs])"
    by (simp add: all_hits_def filter_map comp_def)
  also have "\<dots> = card ({..<length xs} - keep)" unfolding length_filter_nodes by (rule arg_cong [where f = card]) auto
  also have "\<dots> = length xs - card keep" using assms by (subst card_Diff_subset) (auto intro: finite_subset)
  finally show ?thesis .
qed

context exact_index begin

text \<open>A wide enough search, filtered and cut, ranks the nodes kept.\<close>

lemma collect_nearest:
  assumes df: "df = (\<lambda>q v. metric_fn (vmetric cfg) q v (vdim cfg))" and ix: "index_ok s" and ok: "arrays_ok cfg s rows Q E" and A: "A = contents_of s rows"
    and sub: "keep \<subseteq> live s" and K: "K \<noteq> 0" and want: "min (K + (length (vectors s) - card keep)) (length (vectors s)) \<le> unat w"
    and eq: "\<And>i. i < length (vectors s) \<Longrightarrow> i \<in> keep \<longleftrightarrow> \<not> deleted s ! i \<and> f i"
  shows "\<exists>hits. collect_from ops s q K w f = Some (Inr hits) \<and>
    nearest cfg A {ext. \<exists>i \<in> keep. ext_to_int s ext = Some i} q K (hit_ids s hits)"
proof -
  note O = arrays_okD [OF ok]
  obtain hits where h: "ix_search ops (index s) q (unat w) = Some hits" "ranks snd (unat w) (all_hits df (vectors s) q) hits"
    using search_exact [of "index s"] ix by (auto simp: index_ok_def)
  have lt: "keep \<subseteq> {..<length (vectors s)}" using sub O(2,3) is_live_less by (fastforce simp: live_def)
  let ?Q = "\<lambda>h. fst h \<in> keep"
  have "fst x < length (vectors s)" if "x \<in> set hits" for x using that ranksD(3) [OF h(2)] by (auto simp: set_all_hits)
  then have "filter (\<lambda>h. \<not> deleted s ! fst h \<and> f (fst h)) hits = filter ?Q hits" using eq by (intro filter_cong) auto
  then have c: "collect_from ops s q K w f = Some (Inr (take K (filter ?Q hits)))" using h(1) K by (simp add: collect_from_def Let_def)
  have r: "ranks snd K (filter ?Q (all_hits df (vectors s) q)) (take K (filter ?Q hits))"
    using ranks_filter [OF h(2), of K ?Q] dropped_nodes [OF lt] want by simp
  have "distinct (map fst (all_hits df (vectors s) q))" by simp
  then have nodes: "distinct (map fst (filter ?Q (all_hits df (vectors s) q)))" by (rule distinct_map_filter)
  have kept: "fst ` set (filter ?Q (all_hits df (vectors s) q)) = keep"
  proof
    show "keep \<subseteq> fst ` set (filter ?Q (all_hits df (vectors s) q))"
    proof
      fix i assume "i \<in> keep"
      then have "(i, df q (vectors s ! i)) \<in> set (filter ?Q (all_hits df (vectors s) q))" using lt by (auto simp: set_all_hits)
      then show "i \<in> fst ` set (filter ?Q (all_hits df (vectors s) q))" by force
    qed
  qed auto
  have dists: "\<forall>h \<in> set (filter ?Q (all_hits df (vectors s) q)). snd h = metric_fn (vmetric cfg) q (vectors s ! fst h) (vdim cfg)"
    unfolding set_filter set_all_hits df by simp
  show ?thesis using hits_nearest [OF ok A sub nodes kept dists r] c by blast
qed

end

end
