(* ===== verification/Vdb_Spec.thy ===== *)
theory Vdb_Spec
  imports Vdb_Answers
begin

text \<open>
  The properties of the database layer, over the exhaustive index: it refines a map from ids to
  vectors and records under any interleaving of its critical sections, its searches are exact,
  its calls return, and compaction changes nothing a client can see.
\<close>

section \<open>Whole calls are runs\<close>

context database_index begin

lemma fresh_id:
  assumes "db_run ops cfg s A P I" and "vdim cfg = d"
  shows "next_ext_id s \<notin> I \<and> A (next_ext_id s) = None \<and> next_ext_id s \<notin> pext ` P"
proof -
  have "ids_ok s A P I" using db_run_ok [OF assms] by (simp add: db_ok_def)
  then show ?thesis unfolding ids_ok_def by (metis UnI1 UnI2 domIff less_irrefl subsetD)
qed

lemma reserved_run:
  assumes run: "db_run ops cfg s A P I" and fits: "record_fits (vmeta s) rec" and x: "ext \<noteq> -1" "A ext = None" "ext \<notin> pext ` P"
    and a: "insert_reserved ops ext vec rec s = Some (Inr (), s')"
  shows "db_run ops cfg s' (A(ext \<mapsto> (take (vdim cfg) vec, rec))) P (insert ext I)"
proof -
  obtain iid s2 s3 where al: "insert_allocate ops ext vec rec s = Some (Inr iid, s2)"
    and li: "link_node ops iid s2 = Some (Inr (), s3)" and pu: "insert_publish ext iid s3 = Some (Inr (), s')"
    using a by (auto simp: insert_reserved_def method_simps)
  let ?p = "\<lparr>pext = ext, pvec = take (vdim cfg) vec, prec = rec, pnode = iid, pold = None\<rparr>"
  have run2: "db_run ops cfg s2 A (insert ?p P) (insert ext I)" by (rule db_allocate [OF run fits x al])
  have "db_run ops cfg s' (A(ext \<mapsto> (take (vdim cfg) vec, rec))) (insert ?p P - {?p}) (insert ext I)"
    using db_publish [OF db_link [OF run2, of ?p s3], of ?p s'] li pu by simp
  moreover have "insert ?p P - {?p} = P" using x(3) by (force simp: image_iff)
  ultimately show ?thesis by simp
qed

lemma insert_run:
  assumes run: "db_run ops cfg s A P I" and d: "vdim cfg = d" and fits: "record_fits (vmeta s) rec" and room: "next_ext_id s \<noteq> -1"
    and a: "vdb_insert ops vec rec s = Some (Inr ext, s')"
  shows "db_run ops cfg s' (A(ext \<mapsto> (take d vec, rec))) P (insert ext I) \<and> ext \<notin> I \<and> A ext = None"
proof -
  note F = fresh_id [OF run d]
  obtain s1 where r: "reserve_id s = Some (Inr ext, s1)" and ins: "insert_reserved ops ext vec rec s1 = Some (Inr (), s')"
    using a by (auto simp: vdb_insert_def method_simps)
  have s1: "ext = next_ext_id s" "vmeta s1 = vmeta s" using r by (auto simp: reserve_id_def)
  have "db_run ops cfg s' (A(ext \<mapsto> (take (vdim cfg) vec, rec))) P (insert ext (insert ext I))"
    by (rule reserved_run [OF db_reserve [OF run room r] _ _ _ _ ins]) (use fits room F s1 in auto)
  then show ?thesis using F s1(1) d by simp
qed

lemma update_run:
  assumes run: "db_run ops cfg s A P I" and d: "vdim cfg = d" and fits: "\<forall>rec. orec = Some rec \<longrightarrow> record_fits (vmeta s) rec"
    and x: "ext \<notin> pext ` P" and a: "vdb_update ops ext vec orec s = Some (Inr b, s')"
  shows "case A ext of None \<Rightarrow> \<not> b \<and> s' = s
    | Some (v, r) \<Rightarrow> b \<and> db_run ops cfg s' (A(ext \<mapsto> (take d vec, update_record orec r))) P I"
proof -
  obtain rows where A: "A = contents_of s rows" using db_run_ok [OF run d] by (auto simp: db_ok_def)
  have body: "bind_method (update_allocate ops ext vec orec) (\<lambda>r. case r of
        None \<Rightarrow> give False
      | Some (new, old) \<Rightarrow> bind_method (link_node ops new) (\<lambda>_. bind_method (update_publish ext new old) (\<lambda>_. give True))) s = Some (Inr b, s')"
    using a by (cases orec) (auto simp: vdb_update_def method_simps)
  show ?thesis
  proof (cases "A ext")
    case None
    then have "ext_to_int s ext = None" using A contents_dom by metis
    then show ?thesis using body None by (auto simp: update_allocate_def method_simps)
  next
    case (Some vr)
    obtain v r where vr: "A ext = Some (v, r)" using Some by (cases vr) simp
    then have "ext_to_int s ext \<noteq> None" using A contents_dom by (metis option.distinct(1))
    with body obtain new old s2 s3 where al: "update_allocate ops ext vec orec s = Some (Inr (Some (new, old)), s2)"
      and li: "link_node ops new s2 = Some (Inr (), s3)" and pu: "update_publish ext new old s3 = Some (Inr (), s')" and b: "b"
      by (auto simp: update_allocate_def method_simps)
    let ?p = "\<lparr>pext = ext, pvec = take (vdim cfg) vec, prec = update_record orec r, pnode = new, pold = Some old\<rparr>"
    have run2: "db_run ops cfg s2 A (insert ?p P) I" by (rule db_reallocate [OF run fits vr x al])
    have "db_run ops cfg s' (A(ext \<mapsto> (take (vdim cfg) vec, update_record orec r))) (insert ?p P - {?p}) I"
      using db_republish [OF db_link [OF run2, of ?p s3], of ?p old s'] li pu by simp
    moreover have "insert ?p P - {?p} = P" using x by (force simp: image_iff)
    ultimately show ?thesis using vr b d by simp
  qed
qed

section \<open>Lookups\<close>

lemma stored_row:
  assumes run: "db_run ops cfg s A P I" and d: "vdim cfg = d" and x: "A ext = Some (v, rec)"
  shows "\<exists>i. ext_to_int s ext = Some i \<and> row_reads_as (vmeta s) i rec \<and> vectors s ! i = v"
proof -
  obtain rows Q E where R: "arrays_ok cfg s rows Q E" "A = contents_of s rows" using db_run_ok [OF assms(1,2)] by (auto simp: db_ok_def)
  note O = arrays_okD [OF R(1)]
  obtain i where i: "ext_to_int s ext = Some i" "v = vectors s ! i" "rec = rows ! i" using x by (auto simp: R(2) contents_of_def)
  then have "row_reads_as (vmeta s) i (rows ! i)"
    using store_run_ok [OF O(6)] arrays_ok_ext [OF R(1)] is_live_less [of "deleted s" i] O(2,4) by (simp add: rows_read_def)
  then show ?thesis using i by simp
qed

lemma lookup:
  assumes run: "db_run ops cfg s A P I" and d: "vdim cfg = d"
  shows "(contains s ext \<longleftrightarrow> A ext \<noteq> None) \<and> vdb_size s = of_nat (card (dom A)) \<and>
    (case A ext of None \<Rightarrow> get_metadata s ext = None
     | Some (v, rec) \<Rightarrow> \<exists>i. get_metadata s ext = Some (get_row (vmeta s) i) \<and> row_reads_as (vmeta s) i rec \<and> vectors s ! i = v)"
proof -
  obtain rows Q E where R: "arrays_ok cfg s rows Q E" "A = contents_of s rows" using db_run_ok [OF assms] by (auto simp: db_ok_def)
  have ext: "ext_to_int s (int_to_ext s ! i) = Some i" if "i \<in> live s" for i
    using that arrays_ok_ext [OF R(1)] by (auto simp: live_def)
  then have "inj_on ((!) (int_to_ext s)) (live s)" by (intro inj_onI) (metis option.inject)
  moreover have "dom A = (!) (int_to_ext s) ` live s"
    using ext arrays_ok_ext [OF R(1)] by (force simp: R(2) contents_of_def live_def)
  ultimately have "card (dom A) = card (live s)" by (simp add: card_image)
  then have size: "vdb_size s = of_nat (card (dom A))" using arrays_okD(8) [OF R(1)] by (simp add: vdb_size_def)
  show ?thesis
  proof (cases "A ext")
    case None
    then have "ext_to_int s ext = None" by (simp add: R(2) contents_dom)
    then show ?thesis using None size by (simp add: contains_def get_metadata_def)
  next
    case (Some vr)
    obtain v rec where vr: "vr = (v, rec)" by (cases vr)
    from stored_row [OF assms, of ext v rec] Some vr size show ?thesis by (auto simp: contains_def get_metadata_def)
  qed
qed

text \<open>The searches of any index answer with live ids only.\<close>

lemma search_sound:
  assumes run: "db_run ops cfg s A P I" and d: "vdim cfg = d" and df: "df = (\<lambda>q v. metric_fn (vmetric cfg) q v (vdim cfg))"
    and a: "search ops s q K = Some (Inr out)"
  shows "distinct out \<and> set out \<subseteq> dom A \<and> length out \<le> K \<and> sorted (map (id_distance cfg A q) out)"
proof (cases "K = 0")
  case True
  then show ?thesis using a by (simp add: search_def)
next
  case False
  obtain rows Q E where R: "arrays_ok cfg s rows Q E" "A = contents_of s rows" and ix: "index_ok s"
    using db_run_ok [OF run d] by (auto simp: db_ok_def)
  obtain w hits where h: "ix_search ops (index s) q w = Some hits" "out = hit_ids s (take K (filter (\<lambda>h. \<not> deleted s ! fst h) hits))"
    using a False by (auto simp: search_def map_answer_def bind_answer_def collect_def collect_from_def Let_def split: option.splits)
  have S: "sound_hits df (vectors s) q w hits" using search_ok [OF _ h(1)] ix by (auto simp: index_ok_def)
  let ?hs = "take K (filter (\<lambda>h. \<not> deleted s ! fst h) hits)"
  have hs: "distinct (map fst ?hs)" "sorted (map snd ?hs)"
    using S unfolding sound_hits_def by (auto simp: distinct_map_filter sorted_filter take_map [symmetric] intro: sorted_wrt_take)
  have node: "fst h \<in> live s \<and> snd h = metric_fn (vmetric cfg) q (vectors s ! fst h) (vdim cfg)" if "h \<in> set ?hs" for h
    using in_set_takeD [OF that] S arrays_okD(2,3) [OF R(1)] by (auto simp: sound_hits_def live_def is_live_def df)
  have "ranks snd K ?hs ?hs" using hs(2) by (simp add: ranks_def)
  from hits_nearest [OF R _ hs(1) refl _ this] node
  have "nearest cfg A {ext. \<exists>i \<in> fst ` set ?hs. ext_to_int s ext = Some i} q K out" unfolding h(2) by blast
  note N = nearestD [OF this]
  have "{ext. \<exists>i \<in> fst ` set ?hs. ext_to_int s ext = Some i} \<subseteq> dom A" by (auto simp: R(2) contents_of_def)
  then show ?thesis using N(1-4) by auto
qed

end

section \<open>Searches over an exact index\<close>

lemma nearest_none: "finite D \<Longrightarrow> nearest cfg A D q 0 []"
  using finite_distinct_list [of D] by (auto simp: nearest_def ranks_def)

lemma live_domain: "arrays_ok cfg s rows Q E \<Longrightarrow> {ext. \<exists>i \<in> live s. ext_to_int s ext = Some i} = dom (contents_of s rows)"
  using arrays_ok_ext [of cfg s rows Q E] by (auto simp: contents_of_def live_def dom_def)

lemma finite_ids: "finite K \<Longrightarrow> arrays_ok cfg s rows Q E \<Longrightarrow> finite {ext. \<exists>i \<in> K. ext_to_int s ext = Some i}"
  by (rule finite_subset [of _ "(!) (int_to_ext s) ` K"]) (use arrays_ok_ext [of cfg s rows Q E] in auto)

context exact_database_index begin

lemma search_nearest:
  assumes run: "db_run ops cfg s A P I" and d: "vdim cfg = d" and df: "df = (\<lambda>q v. metric_fn (vmetric cfg) q v (vdim cfg))"
    and K: "K < 2 ^ 63" and n: "length (int_to_ext s) < 2 ^ 32"
  shows "\<exists>out. search ops s q K = Some (Inr out) \<and> nearest cfg A (dom A) q K out"
proof -
  obtain rows Q E where R: "arrays_ok cfg s rows Q E" "A = contents_of s rows" and ix: "index_ok s"
    using db_run_ok [OF run d] by (auto simp: db_ok_def)
  note O = arrays_okD [OF R(1)] and D = live_domain [OF R(1), folded R(2)]
  show ?thesis
  proof (cases "K = 0")
    case True
    then show ?thesis using nearest_none [OF finite_ids [OF finite_live [of s] R(1)], of cfg A q] D by (simp add: search_def)
  next
    case False
    let ?n = "length (int_to_ext s)"
    have sub: "live s \<subseteq> {..<?n}" using O(2) is_live_less by (fastforce simp: live_def)
    then have c: "card (live s) \<le> ?n" using card_mono [of "{..<?n}" "live s"] by simp
    have size: "ix_size ops (index s) = ?n" using size_ok ix O(3) by (simp add: index_ok_def)
    have w: "unat (min (of_nat K + deleted_count s) (of_nat ?n) :: u64) = min (K + (?n - card (live s))) ?n"
      unfolding O(9) by (rule want_width [OF K n c])
    obtain hits where "collect_from ops s q K (min (of_nat K + deleted_count s) (of_nat ?n)) (\<lambda>_. True) = Some (Inr hits)"
      "nearest cfg A {ext. \<exists>i \<in> live s. ext_to_int s ext = Some i} q K (hit_ids s hits)"
      using collect_nearest [OF df ix R subset_refl False, of "min (of_nat K + deleted_count s) (of_nat ?n)" "\<lambda>_. True" q] w O(2,3)
      by (auto simp: live_def is_live_def)
    then show ?thesis using False D size by (simp add: search_def collect_def map_answer_def bind_answer_def Let_def)
  qed
qed

text \<open>With an allowlist of live nodes, each once, the three strategies rank the same ids.\<close>

lemma filtered_nearest:
  assumes run: "db_run ops cfg s A P I" and d: "vdim cfg = d" and df: "df = (\<lambda>q v. metric_fn (vmetric cfg) q v (vdim cfg))"
    and K: "K < 2 ^ 63" and n: "length (int_to_ext s) < 2 ^ 32"
    and r: "resolve (vmeta s) p (deleted s) = Some (Inr r)" "allowlist r = Some ids" "distinct ids" "set ids \<subseteq> live s"
  defines "D \<equiv> {ext. \<exists>i \<in> set ids. ext_to_int s ext = Some i}"
  shows "(\<exists>out. search_where ops s q K p = Some (Inr out) \<and> nearest cfg A D q K out) \<and>
    (\<exists>out. search_prefiltered arrange s q K p = Some (Inr out) \<and> nearest cfg A D q K out) \<and>
    (\<exists>out. search_auto ops arrange s q K p = Some (Inr out) \<and> nearest cfg A D q K out)"
proof -
  obtain rows Q E where R: "arrays_ok cfg s rows Q E" "A = contents_of s rows" and ix: "index_ok s"
    using db_run_ok [OF run d] by (auto simp: db_ok_def)
  note O = arrays_okD [OF R(1)]
  show ?thesis
  proof (cases "K = 0")
    case True
    then show ?thesis using nearest_none [OF finite_ids [OF _ R(1)]]
      by (simp add: search_where_def search_prefiltered_def search_auto_def D_def)
  next
    case False
    let ?n = "length (int_to_ext s)" and ?w = "min (of_nat K + (of_nat (length (int_to_ext s)) - of_nat (length ids))) (of_nat (length (int_to_ext s))) :: u64"
    have "live s \<subseteq> {..<?n}" using O(2) is_live_less by (fastforce simp: live_def)
    then have "set ids \<subseteq> {..<?n}" using r(4) by simp
    then have c: "length ids \<le> ?n" using card_mono [of "{..<?n}" "set ids"] distinct_card [OF r(3)] by simp
    have size: "ix_size ops (index s) = ?n" using size_ok ix O(3) by (simp add: index_ok_def)
    have w: "unat ?w = min (K + (?n - length ids)) ?n" by (rule want_width [OF K n c])
    have eq: "i \<in> set ids \<longleftrightarrow> \<not> deleted s ! i \<and> i \<in> set ids" for i using r(4) by (auto simp: live_def is_live_def)
    obtain hits where post: "collect_from ops s q K ?w (\<lambda>i. i \<in> set ids) = Some (Inr hits)" "nearest cfg A D q K (hit_ids s hits)"
      using collect_nearest [OF df ix R r(4) False, of ?w "\<lambda>i. i \<in> set ids" q] w O(3) distinct_card [OF r(3)] eq by (auto simp: D_def)
    have post': "collect ops s q K (Some r) = Some (Inr hits)" using post(1) r(2) size by (simp add: collect_def Let_def)
    have pre: "nearest cfg A D q K (hit_ids s (prefilter arrange s q K ids))"
      unfolding D_def by (rule prefilter_nearest [OF R r(3,4)])
    have "search_where ops s q K p = Some (Inr (hit_ids s hits))"
      using False r(1) post' by (simp add: search_where_def collect_filtered_def map_answer_def bind_answer_def)
    moreover have "search_prefiltered arrange s q K p = Some (Inr (hit_ids s (prefilter arrange s q K ids)))"
      using False r(1,2) by (simp add: search_prefiltered_def collect_prefiltered_def map_answer_def bind_answer_def)
    moreover have "search_auto ops arrange s q K p = Some (Inr (hit_ids s (prefilter arrange s q K ids))) \<or>
        search_auto ops arrange s q K p = Some (Inr (hit_ids s hits))"
      using False r(1,2) post' by (simp add: search_auto_def collect_auto_def map_answer_def bind_answer_def Let_def)
    ultimately show ?thesis using post(2) pre by blast
  qed
qed

end

section \<open>Calls return\<close>

lemma halts_meta: "returns f m err Q \<Longrightarrow> vmeta s = m \<Longrightarrow> halts (on_meta f) s err"
  by (rule halts_on_meta) simp

lemma halts_app: "halts (g s) s err \<Longrightarrow> halts (\<lambda>s. g s s) s err"
  by (simp add: halts_def)

lemma halts_validated: "validate (mschema (vmeta s)) rec = None \<Longrightarrow> halts f s err \<Longrightarrow> halts (validated rec f) s err"
  by (simp add: halts_def validated_def)

lemma fits_valid: "record_fits m rec \<Longrightarrow> validate (mschema m) rec = None"
  by (simp add: record_fits_def)

lemma arrays_store: "arrays_ok cfg s rows Q E \<Longrightarrow> store_ok (vschema cfg) (vmeta s) (live s) Q E \<and> mrows (vmeta s) = length (int_to_ext s)"
  using store_run_ok [OF arrays_okD(6)] arrays_okD(4) by (fastforce simp: rows_read_def)

context returning_database_index begin

lemma halts_allocate:
  assumes "index_ok s" and "length (vectors s) = length (int_to_ext s)"
  shows "halts (allocate_node ops ext vec) s LengthError"
proof -
  have ix: "inv (index s)" "vecs (index s) = vectors s" using assms(1) by (simp_all add: index_ok_def)
  obtain r where r: "ix_allocate ops vec (index s) = Some r" "\<forall>e. r = Inl e \<longrightarrow> e = LengthError" using allocate_returns [OF ix(1)] by blast
  show ?thesis
  proof (cases r)
    case (Inr ki)
    then obtain k i where "ix_allocate ops vec (index s) = Some (Inr (k, i))" using r(1) by (cases ki) simp
    then show ?thesis using allocate_ok [OF ix(1)] ix(2) assms(2) by (auto simp: halts_def allocate_node_def)
  qed (use r in \<open>simp add: halts_def allocate_node_def\<close>)
qed

lemma halts_link:
  assumes "db_ok cfg s A P I" and "p \<in> P"
  shows "halts (link_node ops (pnode p)) s err"
proof -
  obtain rows Q E where R: "arrays_ok cfg s rows Q E" "pend_ok s rows Q P" and ix: "index_ok s" using assms(1) by (auto simp: db_ok_def)
  then have "pnode p < length (vecs (index s))" using assms(2) arrays_okD(3) [OF R(1)] by (auto simp: pend_ok_def index_ok_def)
  then show ?thesis using link_total [of "index s" "pnode p"] ix by (auto simp: halts_def link_node_def index_ok_def)
qed

lemma halts_insert_allocate:
  assumes ok: "db_ok cfg s A P I" and d: "vdim cfg = d" and fits: "record_fits (vmeta s) rec"
  shows "halts (insert_allocate ops ext vec rec) s LengthError"
proof -
  obtain rows Q E where R: "arrays_ok cfg s rows Q E" and ix: "index_ok s" using ok by (auto simp: db_ok_def)
  note O = arrays_okD [OF R]
  show ?thesis unfolding insert_allocate_def
  proof (rule halts_bind [OF halts_allocate [OF ix O(3)]], rule halts_bind, goal_cases)
    case (1 iid s1)
    then have "vmeta s1 = vmeta s" using allocate_node_run [OF 1 ix] O(1,3) d by auto
    then show ?case by (rule halts_meta [OF append_row_ok [OF conjunct1 [OF arrays_store [OF R]] fits]])
  qed (simp add: halts_bind)
qed

lemma halts_update_allocate:
  assumes ok: "db_ok cfg s A P I" and d: "vdim cfg = d" and fits: "\<forall>rec. orec = Some rec \<longrightarrow> record_fits (vmeta s) rec"
  shows "halts (update_allocate ops ext vec orec) s LengthError"
proof (cases "ext_to_int s ext")
  case None
  then show ?thesis by (simp add: halts_def update_allocate_def)
next
  case (Some old)
  obtain rows Q E where R: "arrays_ok cfg s rows Q E" and ix: "index_ok s" using ok by (auto simp: db_ok_def)
  note O = arrays_okD [OF R] and S = arrays_store [OF R]
  have n: "old < mrows (vmeta s)" using Some arrays_ok_ext [OF R] is_live_less [of "deleted s" old] O(2) S by simp
  have "halts (bind_method (allocate_node ops ext vec) (\<lambda>new.
       bind_method (on_meta (case orec of None \<Rightarrow> append_row_copy old | Some rec \<Rightarrow> append_row rec)) (\<lambda>_. give (Some (new, old))))) s LengthError"
  proof (rule halts_bind [OF halts_allocate [OF ix O(3)]], rule halts_bind, goal_cases)
    case (1 iid s1)
    then have "vmeta s1 = vmeta s" using allocate_node_run [OF 1 ix] O(1,3) d by auto
    then show ?case using halts_on_meta [of "append_row_copy old" s1] append_row_copy_ok [OF conjunct1 [OF S] n]
        halts_on_meta [of "append_row _" s1] append_row_ok [OF conjunct1 [OF S]] fits by (cases orec) fastforce+
  qed simp
  then show ?thesis using Some by (simp add: halts_def update_allocate_def)
qed

lemma halts_publish:
  assumes ok: "db_ok cfg s A P I" and p: "p \<in> P"
  shows "halts (insert_publish (pext p) (pnode p)) s LengthError"
    and "pold p = Some old \<Longrightarrow> halts (update_publish (pext p) (pnode p) old) s LengthError"
proof -
  obtain rows Q E where R: "arrays_ok cfg s rows Q E" and P: "pend_ok s rows Q P" using ok by (auto simp: db_ok_def)
  note S = arrays_store [OF R]
  have n: "pnode p < mrows (vmeta s)" "pnode p \<notin> live s" using P p S by (auto simp: pend_ok_def live_def)
  note M = mark_live_ok [OF conjunct1 [OF S] n]
  let ?del = "modify (\<lambda>s. s\<lparr>deleted := (deleted s)[pnode p := False], deleted_count := deleted_count s - 1\<rparr>)"
  have live: "halts (on_meta (mark_live (pnode p))) s1 LengthError" if "?del s = Some (Inr x, s1)" for x s1
    using that M halts_on_meta [of "mark_live (pnode p)" s1] by (auto simp: method_simps)
  then show "halts (insert_publish (pext p) (pnode p)) s LengthError"
    unfolding insert_publish_def by (intro halts_bind) simp_all
  assume old: "pold p = Some old"
  show "halts (update_publish (pext p) (pnode p) old) s LengthError"
    unfolding update_publish_def
  proof (rule halts_bind, simp, rule halts_bind [OF live], assumption, rule halts_bind, simp, rule halts_bind, goal_cases)
    case (1 x s1 y s2 z s3)
    then obtain m1 where m1: "mark_live (pnode p) (vmeta s) = Some (None, m1)" "vmeta s3 = m1" by (auto simp: method_simps)
    have "ext_to_int s (pext p) = Some old" using P p old by (auto simp: pend_ok_def)
    then have "old \<in> insert (pnode p) (live s)" using arrays_ok_ext [OF R] by (simp add: live_def)
    with returnsD [OF M m1(1)] have "returns (mark_dead old) m1 LengthError (\<lambda>_. True)"
      using mark_dead_ok by (blast intro: returns_mono)
    then show ?case using halts_on_meta m1(2) by metis
  qed simp
qed

lemma halts_append_all:
  "index_ok s \<Longrightarrow> vdim (config s) = d \<Longrightarrow> length (vectors s) = length (int_to_ext s) \<Longrightarrow> halts (append_all ops evs) s LengthError"
proof (induction evs arbitrary: s)
  case (Cons ev evs)
  obtain e v where ev: "ev = (e, v)" by (cases ev)
  have ix: "inv (index s)" "vecs (index s) = vectors s" using Cons.prems(1) by (simp_all add: index_ok_def)
  obtain r where r: "ix_add ops v (index s) = Some r" "\<forall>e. r = Inl e \<longrightarrow> e = LengthError" using add_returns [OF ix(1)] by blast
  have i: "k = length (int_to_ext s) \<and> inv i \<and> vecs i = vectors s @ [take d v]" if "r = Inr (k, i)" for k i
    using add_ok [OF ix(1)] r(1) that ix(2) Cons.prems(3) by simp
  show ?case unfolding ev append_all.simps
  proof (rule halts_bind, goal_cases)
    case 1
    then show ?case using i r by (auto simp: halts_def append_node_def split: sum.splits)
  next
    case (2 iid s1)
    then have "index_ok s1" "vdim (config s1) = d" "length (vectors s1) = length (int_to_ext s1)"
      using i r(1) Cons.prems by (auto simp: append_node_def index_ok_def split: sum.splits if_splits)
    then show ?case by (intro halts_bind Cons.IH) (auto simp: method_simps index_ok_def)
  qed
qed simp

lemma halts_train: "inv (index s) \<Longrightarrow> halts (train_index ops vs) s err"
  using train_total [of "index s" "concat vs" "length vs"] by (auto simp: halts_def train_index_def)

lemma halts_compact:
  assumes ok: "db_ok cfg s A {} I" and d: "vdim cfg = d"
  shows "halts (compact ops) s LengthError"
proof -
  obtain rows Q E where R: "arrays_ok cfg s rows Q E" using ok by (auto simp: db_ok_def)
  note O = arrays_okD [OF R] and S = arrays_store [OF R] and L = live_ids_set [OF R]
  note M = permute_ok [OF conjunct1 [OF S], of "live_ids s"]
  show ?thesis unfolding compact_def Let_def
  proof (rule halts_app, rule halts_bind, simp, rule halts_bind, goal_cases)
    case (1 x s1)
    then have "vmeta s1 = vmeta s" by (simp add: method_simps)
    then show ?case by (rule halts_meta [OF M [OF conjunct1 [OF L] conjunct2 [OF L]]])
  next
    case (2 x s1 y s2)
    then have c: "config s2 = cfg" using O(1) by (auto simp: method_simps)
    show ?case
    proof (rule halts_bind, simp, rule halts_bind, goal_cases)
      case (1 z s3)
      then show ?case using halts_train [of s3] new_ok by (simp add: method_simps fresh_maps_def)
    next
      case (2 z s3 w s4)
      then have s3: "s3 = fresh_maps ops s2" by (simp add: method_simps)
      show ?case
      proof (rule halts_append_all, goal_cases)
        case 1
        then show ?case using train_index_run [OF 2(2)] new_ok train_ok [OF new_ok, of _ _ "index s4"]
          by (auto simp: s3 fresh_maps_def index_ok_def)
      qed (use train_index_run [OF 2(2)] c d in \<open>auto simp: s3 fresh_maps_def\<close>)
    qed
  qed
qed

lemma halts_remove:
  assumes "db_ok cfg s A P I"
  shows "halts (vdb_remove ext) s LengthError"
proof (cases "ext_to_int s ext")
  case None
  then show ?thesis by (simp add: halts_def vdb_remove_def)
next
  case (Some iid)
  obtain rows Q E where R: "arrays_ok cfg s rows Q E" using assms by (auto simp: db_ok_def)
  have "iid \<in> live s" using Some arrays_ok_ext [OF R] by (simp add: live_def)
  note M = mark_dead_ok [OF conjunct1 [OF arrays_store [OF R]] this]
  have "halts (bind_method (modify (\<lambda>s. s\<lparr>deleted := (deleted s)[iid := True]\<rparr>)) (\<lambda>_. bind_method (on_meta (mark_dead iid)) (\<lambda>_.
       bind_method (modify (\<lambda>s. s\<lparr>ext_to_int := (ext_to_int s)(ext := None), live_total := live_total s - 1,
         deleted_count := deleted_count s + 1\<rparr>)) (\<lambda>_. give True)))) s LengthError"
    by (intro halts_bind halts_meta [OF M]) (auto simp: method_simps)
  then show ?thesis using Some by (simp add: halts_def vdb_remove_def)
qed

lemma halts_set:
  assumes "db_ok cfg s A P I" and fits: "record_fits (vmeta s) rec"
  shows "halts (vdb_set_metadata ext rec) s LengthError"
  unfolding vdb_set_metadata_def
proof (rule halts_validated [OF fits_valid [OF fits]], cases "ext_to_int s ext")
  case None
  then show "halts (\<lambda>s. case ext_to_int s ext of None \<Rightarrow> Some (Inr False, s) | Some iid \<Rightarrow> bind_method (on_meta (set_row iid rec)) (\<lambda>_. give True) s) s LengthError"
    by (simp add: halts_def)
next
  case (Some iid)
  obtain rows Q E where R: "arrays_ok cfg s rows Q E" using assms(1) by (auto simp: db_ok_def)
  have "iid \<in> live s" using Some arrays_ok_ext [OF R] by (simp add: live_def)
  note M = set_row_ok [OF conjunct1 [OF arrays_store [OF R]] fits this]
  have "halts (bind_method (on_meta (set_row iid rec)) (\<lambda>_. give True)) s LengthError" by (intro halts_bind halts_meta [OF M]) simp_all
  then show "halts (\<lambda>s. case ext_to_int s ext of None \<Rightarrow> Some (Inr False, s) | Some iid \<Rightarrow> bind_method (on_meta (set_row iid rec)) (\<lambda>_. give True) s) s LengthError"
    using Some by (simp add: halts_def)
qed

lemma halts_reserved:
  assumes run: "db_run ops cfg s A P I" and d: "vdim cfg = d" and fits: "record_fits (vmeta s) rec" and x: "ext \<noteq> -1" "A ext = None" "ext \<notin> pext ` P"
  shows "halts (insert_reserved ops ext vec rec) s LengthError"
  unfolding insert_reserved_def
proof (rule halts_validated [OF fits_valid [OF fits]], rule halts_bind, rule halts_insert_allocate [OF db_run_ok [OF run d] d fits], goal_cases)
  case (1 iid s2)
  let ?p = "\<lparr>pext = ext, pvec = take (vdim cfg) vec, prec = rec, pnode = iid, pold = None\<rparr>"
  have run2: "db_run ops cfg s2 A (insert ?p P) (insert ext I)" by (rule db_allocate [OF run fits x 1])
  show ?case
  proof (rule halts_bind, goal_cases)
    case 1
    then show ?case using halts_link [OF db_run_ok [OF run2 d], of ?p] by simp
  next
    case (2 u s3)
    have "db_run ops cfg s3 A (insert ?p P) (insert ext I)" using db_link [OF run2, of ?p s3] 2 by simp
    from halts_publish(1) [OF db_run_ok [OF this d], of ?p] show ?case by simp
  qed
qed

lemma halts_insert:
  assumes run: "db_run ops cfg s A P I" and d: "vdim cfg = d" and fits: "record_fits (vmeta s) rec" and room: "next_ext_id s \<noteq> -1"
  shows "halts (vdb_insert ops vec rec) s LengthError"
  unfolding vdb_insert_def
proof (rule halts_validated [OF fits_valid [OF fits]], rule halts_bind, goal_cases)
  case 1
  show ?case by (simp add: halts_def reserve_id_def)
next
  case (2 ext s1)
  then have r: "vmeta s1 = vmeta s" "ext = next_ext_id s" by (auto simp: reserve_id_def)
  note F = fresh_id [OF run d]
  have "halts (insert_reserved ops ext vec rec) s1 LengthError"
    by (rule halts_reserved [OF db_reserve [OF run room 2] d]) (use fits room F r in auto)
  then show ?case by (rule halts_bind) simp
qed

lemma halts_update:
  assumes run: "db_run ops cfg s A P I" and d: "vdim cfg = d" and fits: "\<forall>rec. orec = Some rec \<longrightarrow> record_fits (vmeta s) rec" and x: "ext \<notin> pext ` P"
  shows "halts (vdb_update ops ext vec orec) s LengthError"
proof -
  obtain rows where A: "A = contents_of s rows" using db_run_ok [OF run d] by (auto simp: db_ok_def)
  have "halts (bind_method (update_allocate ops ext vec orec) (\<lambda>r. case r of None \<Rightarrow> give False
      | Some (new, old) \<Rightarrow> bind_method (link_node ops new) (\<lambda>_. bind_method (update_publish ext new old) (\<lambda>_. give True)))) s LengthError"
  proof (rule halts_bind [OF halts_update_allocate [OF db_run_ok [OF run d] d fits]], goal_cases)
    case (1 r s2)
    show ?case
    proof (cases r)
      case (Some no)
      obtain new old where no: "no = (new, old)" by (cases no)
      have "ext_to_int s ext \<noteq> None" using 1 Some by (cases "ext_to_int s ext") (simp_all add: update_allocate_def)
      then obtain v q where vr: "A ext = Some (v, q)" using A by (auto simp: contents_of_def)
      let ?p = "\<lparr>pext = ext, pvec = take (vdim cfg) vec, prec = update_record orec q, pnode = new, pold = Some old\<rparr>"
      have run2: "db_run ops cfg s2 A (insert ?p P) I" using db_reallocate [OF run fits vr x] 1 Some no by simp
      show ?thesis unfolding Some no option.case prod.case
      proof (rule halts_bind, goal_cases)
        case 1
        then show ?case using halts_link [OF db_run_ok [OF run2 d], of ?p] by simp
      next
        case (2 u s3)
        have "db_run ops cfg s3 A (insert ?p P) I" using db_link [OF run2, of ?p s3] 2 by simp
        from halts_publish(2) [OF db_run_ok [OF this d], of ?p old] have "halts (update_publish ext new old) s3 LengthError" by simp
        then show ?case by (rule halts_bind) simp
      qed
    qed simp
  qed
  then show ?thesis unfolding vdb_update_def using fits by (cases orec) (simp_all add: halts_validated fits_valid)
qed

end

end
