(* ===== verification/Wal_Replay.thy ===== *)
theory Wal_Replay
  imports Wal_Spec
begin

text \<open>
  Replay with any callback. \<open>replay\<close> hands the records to its callback one by one; with the
  callback that collects them it gives a list, and with any other it is a fold over that list,
  which ends early if the callback throws.
\<close>

fun feed :: "('s \<Rightarrow> wal_record \<Rightarrow> 's res) \<Rightarrow> 's \<Rightarrow> wal_record list \<Rightarrow> 's res" where
  "feed cb st [] = Inr st"
| "feed cb st (r # rs) = (case cb st r of Inl e \<Rightarrow> Inl e | Inr st' \<Rightarrow> feed cb st' rs)"

lemma feed_append: "feed cb st (xs @ ys) = (case feed cb st xs of Inl e \<Rightarrow> Inl e | Inr st' \<Rightarrow> feed cb st' ys)"
  by (induction cb st xs rule: feed.induct) (auto split: sum.split)

text \<open>The state in which the callback throws, if it does.\<close>

definition throws_in :: "('s \<Rightarrow> wal_record \<Rightarrow> 's res) \<Rightarrow> 's \<Rightarrow> wal_record list \<Rightarrow> exn \<Rightarrow> 's \<Rightarrow> bool" where
  "throws_in cb st rs e st' \<longleftrightarrow> (\<exists>pre r post. rs = pre @ r # post \<and> feed cb st pre = Inr st' \<and> cb st' r = Inl e)"

lemma throws_now: "cb st r = Inl e \<Longrightarrow> throws_in cb st (r # rs) e st"
  unfolding throws_in_def by (intro exI [of _ "[]"]) simp

lemma throws_later: "cb st r = Inr st1 \<Longrightarrow> throws_in cb st1 rs e st' \<Longrightarrow> throws_in cb st (r # rs) e st'"
  unfolding throws_in_def
proof (elim exE conjE)
  fix pre q post
  assume "cb st r = Inr st1" "rs = pre @ q # post" "feed cb st1 pre = Inr st'" "cb st' q = Inl e"
  then show "\<exists>pre q post. r # rs = pre @ q # post \<and> feed cb st pre = Inr st' \<and> cb st' q = Inl e"
    by (intro exI [of _ "r # pre"]) simp
qed

lemma throws_append:
  assumes "throws_in cb st xs e st' \<or> (\<exists>st1. feed cb st xs = Inr st1 \<and> throws_in cb st1 ys e st')"
  shows "throws_in cb st (xs @ ys) e st'"
  using assms
proof (elim disjE exE conjE)
  assume "throws_in cb st xs e st'"
  then obtain pre r post where "xs = pre @ r # post" "feed cb st pre = Inr st'" "cb st' r = Inl e" by (auto simp: throws_in_def)
  then show ?thesis unfolding throws_in_def by (intro exI [of _ pre] exI [of _ r] exI [of _ "post @ ys"]) simp
next
  fix st1
  assume "feed cb st xs = Inr st1" "throws_in cb st1 ys e st'"
  then show ?thesis unfolding throws_in_def
    by (elim exE conjE) (intro exI [of _ "xs @ _"], auto simp: feed_append)
qed

text \<open>What the scan of a segment, and then the whole replay, do with another callback.\<close>

definition scans_as :: "('s \<Rightarrow> wal_record \<Rightarrow> 's res) \<Rightarrow> bytes \<Rightarrow> nat \<Rightarrow> 's \<Rightarrow> segment \<Rightarrow> u64 \<Rightarrow> wal_record list \<Rightarrow> scan_end \<Rightarrow> segment \<Rightarrow> u64 \<Rightarrow> bool" where
  "scans_as cb data off st sg h rs e sg' h' \<longleftrightarrow>
     (\<forall>st'. feed cb st rs = Inr st' \<longrightarrow> scan cb data off st sg h = (e, st', sg', h')) \<and>
     (\<forall>x. feed cb st rs = Inl x \<longrightarrow> (\<exists>st' g k. scan cb data off st sg h = (Threw x, st', g, k) \<and> throws_in cb st rs x st'))"

lemma scans_cons:
  assumes "off < length data" and "decode_record (drop off data) = Ok r n"
    and "\<And>st1. cb st r = Inr st1 \<Longrightarrow> scans_as cb data (off + n) st1 (note_lsn (lsn r) sg) (if h < lsn r then lsn r else h) rs e sg' h'"
  shows "scans_as cb data off st sg h (r # rs) e sg' h'"
proof (cases "cb st r")
  case (Inl x)
  then show ?thesis using assms(1,2) throws_now [of cb st r x rs] by (auto simp: scans_as_def scan.simps [of cb data off])
next
  case (Inr st1)
  have eq: "scan cb data off st sg h = scan cb data (off + n) st1 (note_lsn (lsn r) sg) (if h < lsn r then lsn r else h)"
    using assms(1,2) Inr by (simp add: scan.simps [of cb data off])
  have "feed cb st (r # rs) = feed cb st1 rs" using Inr by simp
  then show ?thesis using assms(3) [OF Inr] throws_later [of cb st r st1 rs, OF Inr]
    unfolding scans_as_def eq by metis
qed

lemma scan_feed:
  fixes cb :: "'s \<Rightarrow> wal_record \<Rightarrow> 's res"
  assumes "scan Wal_Spec.collect data off acc sg h = (e, out, sg', h')"
  shows "\<exists>rs. out = acc @ rs \<and> (\<forall>x. e \<noteq> Threw x) \<and> (\<forall>st. scans_as cb data off st sg h rs e sg' h')"
  using assms
proof (induction "Wal_Spec.collect" data off acc sg h rule: scan.induct)
  case (1 data off acc sg h)
  note S = scan.simps [of Wal_Spec.collect data off]
  show ?case
  proof (cases "off < length data \<and> (\<exists>r n. decode_record (drop off data) = Ok r n)")
    case True
    then obtain r n where r: "decode_record (drop off data) = Ok r n" by blast
    have run: "scan Wal_Spec.collect data (off + n) (acc @ [r]) (note_lsn (lsn r) sg) (if h < lsn r then lsn r else h) = (e, out, sg', h')"
      using "1.prems" True r by (simp add: S collect_def)
    obtain rs where "out = (acc @ [r]) @ rs" "\<forall>x. e \<noteq> Threw x"
      "\<forall>st. scans_as cb data (off + n) st (note_lsn (lsn r) sg) (if h < lsn r then lsn r else h) rs e sg' h'"
      using "1.hyps" [OF _ r _ run] True by (auto simp: collect_def)
    then show ?thesis using True r by (intro exI [of _ "r # rs"]) (auto intro: scans_cons)
  next
    case False
    have "(out, sg', h') = (acc, sg, h) \<and> (\<forall>st. scan cb data off st sg h = (e, st, sg, h)) \<and> (\<forall>x. e \<noteq> Threw x)"
      using "1.prems" False by (auto simp: S scan.simps [of cb data off] split: decoded.splits if_splits)
    then show ?thesis by (intro exI [of _ "[]"]) (simp add: scans_as_def)
  qed
qed

definition replays_as :: "('s \<Rightarrow> wal_record \<Rightarrow> 's res) \<Rightarrow> segment list \<Rightarrow> segment list \<Rightarrow> 's \<Rightarrow> wal \<Rightarrow> disk \<Rightarrow> wal_record list \<Rightarrow>
    exn option \<Rightarrow> wal \<Rightarrow> disk \<Rightarrow> bool" where
  "replays_as cb old segs st w d rs e w' d' \<longleftrightarrow>
     (\<forall>st'. feed cb st rs = Inr st' \<longrightarrow> replay_from cb old segs st w d = (e, st', w', d')) \<and>
     (\<forall>x. feed cb st rs = Inl x \<longrightarrow> (\<exists>st' w1 d1. replay_from cb old segs st w d = (Some x, st', w1, d1) \<and> throws_in cb st rs x st'))"

lemma replay_from_feed:
  fixes cb :: "'s \<Rightarrow> wal_record \<Rightarrow> 's res"
  assumes "replay_from Wal_Spec.collect old segs acc w d = (e, out, w', d')"
  shows "\<exists>rs. out = acc @ rs \<and> (\<forall>st. replays_as cb old segs st w d rs e w' d')"
  using assms
proof (induction Wal_Spec.collect old segs acc w d rule: replay_from.induct)
  case (1 old acc w d)
  then show ?case by (intro exI [of _ "[]"]) (simp add: replays_as_def)
next
  case (2 old sg segs acc w d)
  show ?case
  proof (cases "\<exists>f h. map_of d (segment_name (number sg)) = Some f \<and> decode_header (fdata f) = Some h \<and> \<not> (hdim h \<noteq> wdim w \<or> hmetric h \<noteq> wmetric w)")
    case False
    then show ?thesis using "2.prems" by (intro exI [of _ "[]"]) (auto simp: replays_as_def split: option.splits)
  next
    case True
    then obtain f h where f: "map_of d (segment_name (number sg)) = Some f" "decode_header (fdata f) = Some h"
      "\<not> (hdim h \<noteq> wdim w \<or> hmetric h \<noteq> wmetric w)" by blast
    obtain y out1 sg1 h1 where sc: "scan Wal_Spec.collect (fdata f) kWalHeaderSize acc sg (highest_lsn w) = (y, out1, sg1, h1)"
      by (metis prod_cases4)
    obtain rs1 where rs1: "out1 = acc @ rs1" "\<forall>x. y \<noteq> Threw x" "\<And>st. scans_as cb (fdata f) kWalHeaderSize st sg (highest_lsn w) rs1 y sg1 h1"
      using scan_feed [OF sc, of cb] by blast
    let ?w = "w\<lparr>segments := old @ sg1 # segs, highest_lsn := h1\<rparr>"
    show ?thesis
    proof (cases y)
      case Complete
      let ?w1 = "if segs = [] then ?w\<lparr>active_bytes := length (fdata f)\<rparr> else ?w"
      have run: "replay_from Wal_Spec.collect (old @ [sg1]) segs out1 ?w1 d = (e, out, w', d')"
        using "2.prems" f sc Complete by (simp add: Let_def split: if_splits)
      obtain rs2 where rs2: "out = out1 @ rs2" "\<And>st. replays_as cb (old @ [sg1]) segs st ?w1 d rs2 e w' d'"
        using "2.hyps" [OF f sc [symmetric] refl refl refl Complete run] by blast
      have "replays_as cb old (sg # segs) st w d (rs1 @ rs2) e w' d'" for st
      proof (cases "feed cb st rs1")
        case (Inl x)
        then show ?thesis using rs1(3) [of st] f throws_append [of cb st rs1 x _ rs2]
          by (fastforce simp: replays_as_def scans_as_def feed_append)
      next
        case (Inr st1)
        then have "replay_from cb old (sg # segs) st w d = replay_from cb (old @ [sg1]) segs st1 ?w1 d"
          using rs1(3) [of st] f Complete by (simp add: scans_as_def)
        then show ?thesis using rs2(2) [of st1] Inr throws_append [of cb st rs1 _ _ rs2]
          by (fastforce simp: replays_as_def feed_append)
      qed
      then show ?thesis using rs1(1) rs2(1) by (intro exI [of _ "rs1 @ rs2"]) simp
    next
      case (Torn off)
      then have out: "out = out1" using "2.prems" f sc by (auto simp: Let_def split: option.splits if_splits)
      have "replays_as cb old (sg # segs) st w d rs1 e w' d'" for st
        using rs1(3) [of st] f Torn "2.prems" sc by (fastforce simp: replays_as_def scans_as_def Let_def split: option.splits if_splits)
      then show ?thesis using rs1(1) out by blast
    next
      case (Threw x)
      then show ?thesis using rs1(2) by simp
    qed
  qed
qed

lemma replay_feed:
  fixes cb :: "'s \<Rightarrow> wal_record \<Rightarrow> 's res"
  assumes "replay Wal_Spec.collect [] w d = (e, rs, w', d')"
  shows "feed cb st rs = Inr st' \<Longrightarrow> replay cb st w d = (e, st', w', d')"
    and "feed cb st rs = Inl x \<Longrightarrow> \<exists>st' w1 d1. replay cb st w d = (Some x, st', w1, d1) \<and> throws_in cb st rs x st'"
proof -
  from replay_from_feed [OF assms [unfolded replay_def], of cb] have R: "\<And>st. replays_as cb [] (segments w) st w d rs e w' d'" by auto
  show "feed cb st rs = Inr st' \<Longrightarrow> replay cb st w d = (e, st', w', d')"
    using R [of st] by (simp add: replays_as_def replay_def)
  show "feed cb st rs = Inl x \<Longrightarrow> \<exists>st' w1 d1. replay cb st w d = (Some x, st', w1, d1) \<and> throws_in cb st rs x st'"
    using R [of st] by (simp add: replays_as_def replay_def)
qed

end
