(* ===== verification/Durable_Run.thy ===== *)
theory Durable_Run
  imports Durable Vdb_Spec Wal_Replay
begin

text \<open>
  The durable database under concurrent callers and crashes. \<open>dur_step\<close> has one rule per
  critical section: the serial prefix of a mutation, the critical sections of its call on the
  database in memory, the two parts of a log sync, the parts of a checkpoint; and the crash,
  which loses the object and whatever the disk had not made durable and ends with the recovery
  of the constructor. Beside the object stand the history of logged operations and the contents
  of the database.
\<close>

section \<open>Records as the log keeps them\<close>

text \<open>The log drops the parts of a value that its type does not use, such as the code of a tag.\<close>

definition canon_value :: "attr_value \<Rightarrow> attr_value" where
  "canon_value v = (if vtype v = Null then attr_null
     else if vtype v = Tag \<or> vtype v = Text then v\<lparr>raw := 0\<rparr> else v\<lparr>vtext := []\<rparr>)"

definition canon_meta :: "meta_record \<Rightarrow> meta_record" where
  "canon_meta m = m\<lparr>attrs := map canon_value (attrs m)\<rparr>"

definition canon_record :: "wal_record \<Rightarrow> wal_record" where
  "canon_record r = r\<lparr>meta := canon_meta (meta r)\<rparr>"

lemma canon_value_simps [simp]:
  "vtype (canon_value v) = vtype v" "canon_value (canon_value v) = canon_value v" "value_canonical (canon_value v)"
  "vtype v = Tag \<or> vtype v = Text \<Longrightarrow> vtext (canon_value v) = vtext v"
  "vtype v \<noteq> Null \<Longrightarrow> vtype v \<noteq> Tag \<Longrightarrow> vtype v \<noteq> Text \<Longrightarrow> raw (canon_value v) = raw v"
  by (auto simp: canon_value_def attr_null_def value_canonical_def split: attr_type.splits)

lemma canonical_id: "value_canonical v \<Longrightarrow> canon_value v = v"
  by (cases v) (auto simp: canon_value_def value_canonical_def attr_null_def split: attr_type.splits)

lemma canon_meta_simps [simp]:
  "attrs (canon_meta m) = map canon_value (attrs m)" "payload (canon_meta m) = payload m"
  "canon_meta (canon_meta m) = canon_meta m" "canon_meta empty_meta = empty_meta"
  by (simp_all add: canon_meta_def empty_meta_def)

lemma canon_meta_id: "\<forall>v \<in> set (attrs m). value_canonical v \<Longrightarrow> canon_meta m = m"
  by (simp add: canon_meta_def canonical_id map_idI)

lemma canon_record_simps [simp]:
  "rtype (canon_record r) = rtype r" "lsn (canon_record r) = lsn r" "ext_id (canon_record r) = ext_id r"
  "vec (canon_record r) = vec r" "meta (canon_record r) = canon_meta (meta r)"
  by (simp_all add: canon_record_def)

text \<open>So a record and its canonical form are the same bytes.\<close>

lemma put_attr_canon: "put_attr b (canon_value v) = put_attr b v"
  by (auto simp: put_attr_def Let_def)

lemma put_meta_canon: "put_meta b (canon_meta m) = put_meta b m"
proof -
  have "foldl put_attr b (map canon_value vs) = foldl put_attr b vs" for b vs
    by (induction vs arbitrary: b) (simp_all add: put_attr_canon)
  then show ?thesis by (simp add: put_meta_def Let_def)
qed

lemma encode_record_canon: "encode_record (canon_record r) = encode_record r"
  by (simp add: encode_record_def encode_body_def put_meta_canon Let_def)

lemma append_wal_canon: "append_wal (canon_record r) = append_wal r"
  by (intro ext) (simp add: append_wal_def encode_record_canon Let_def split: prod.split option.split)

lemma validate_canon: "validate schema (canon_meta m) = validate schema m"
proof -
  have "validate_attrs schema (map canon_value vs) = validate_attrs schema vs" for vs
    by (induction schema vs rule: validate_attrs.induct) simp_all
  then show ?thesis by (simp add: validate_def)
qed

lemma attr_at_canon: "attrs m = [] \<or> a < length (attrs m) \<Longrightarrow> attr_at (canon_meta m) a = map_option canon_value (attr_at m a)"
  by (auto simp: attr_at_def)

lemma reads_as_canon: "(\<forall>v. ov = Some v \<longrightarrow> vtype v \<noteq> Null) \<Longrightarrow> reads_as (map_option canon_value ov) w \<longleftrightarrow> reads_as ov w"
proof (cases ov)
  case (Some v)
  moreover assume "\<forall>v. ov = Some v \<longrightarrow> vtype v \<noteq> Null"
  ultimately show ?thesis by (cases "vtype v") (auto simp: reads_as_def canon_value_def attr_null_def)
qed (simp add: reads_as_def)

text \<open>Reading a row back does not tell a record from its canonical form.\<close>

lemma row_reads_canon:
  assumes "validate schema rec = None" and "length (mcolumns m) = length schema"
  shows "row_reads_as m rid (canon_meta rec) \<longleftrightarrow> row_reads_as m rid rec"
proof -
  have "reads_as (attr_at (canon_meta rec) a) w \<longleftrightarrow> reads_as (attr_at rec a) w" if "a < length (mcolumns m)" for a w
  proof -
    have "attrs rec = [] \<or> a < length (attrs rec)" using assms that by (auto simp: validate_def split: if_splits)
    then have eq: "attr_at (canon_meta rec) a = map_option canon_value (attr_at rec a)" by (rule attr_at_canon)
    have "\<forall>v. attr_at rec a = Some v \<longrightarrow> vtype v \<noteq> Null" by (auto simp: attr_at_def split: if_splits)
    then show ?thesis unfolding eq by (rule reads_as_canon)
  qed
  then show ?thesis by (simp add: row_reads_as_def)
qed

section \<open>What an operation does to the contents\<close>

definition eff :: "wal_record \<Rightarrow> contents \<Rightarrow> contents" where
  "eff r C =
     (if rtype r = rt_insert then C(ext_id r \<mapsto> (vec r, meta r))
      else if rtype r = rt_update then (if C (ext_id r) = None then C else C(ext_id r \<mapsto> (vec r, meta r)))
      else if rtype r = rt_set_meta then set_record (ext_id r) (meta r) C
      else if rtype r = rt_delete then C(ext_id r := None)
      else C)"

definition contents_after :: "wal_record list \<Rightarrow> contents" where
  "contents_after rs = foldl (\<lambda>C r. eff r C) Map.empty rs"

text \<open>Contents up to the canonical form of their records.\<close>

definition canon :: "contents \<Rightarrow> contents" where
  "canon A = (\<lambda>x. map_option (\<lambda>(v, rec). (v, canon_meta rec)) (A x))"

lemma canon_simps [simp]:
  "canon Map.empty = Map.empty" "canon (A(x \<mapsto> (v, rec))) = (canon A)(x \<mapsto> (v, canon_meta rec))" "canon (A(x := None)) = (canon A)(x := None)"
  "canon A x = None \<longleftrightarrow> A x = None" "canon (set_record x rec A) = set_record x (canon_meta rec) (canon A)"
  by (auto simp: canon_def fun_eq_iff set_record_def split: option.splits)

lemma canon_eff: "canon (eff r A) = eff (canon_record r) (canon A)"
  by (simp add: eff_def)

lemma canon_effs: "\<forall>r \<in> set rs. canon_record r = r \<Longrightarrow> canon (foldl (\<lambda>C r. eff r C) A rs) = foldl (\<lambda>C r. eff r C) (canon A) rs"
proof (induction rs arbitrary: A)
  case (Cons r rs)
  then show ?case using canon_eff [of r A] by simp
qed simp

lemma eff_other: "x \<noteq> ext_id r \<Longrightarrow> eff r C x = C x"
  by (simp add: eff_def set_record_def split: option.split)

lemma eff_local: "C (ext_id r) = D (ext_id r) \<Longrightarrow> eff r C (ext_id r) = eff r D (ext_id r)"
  by (simp add: eff_def set_record_def split: option.split)

lemma contents_after_simps [simp]:
  "contents_after [] = Map.empty" "contents_after (rs @ [r]) = eff r (contents_after rs)"
  by (simp_all add: contents_after_def)

lemma contents_after_append: "contents_after (xs @ ys) = foldl (\<lambda>C r. eff r C) (contents_after xs) ys"
  by (simp add: contents_after_def)

section \<open>Records a caller may log\<close>

text \<open>
  A caller's duties: the metadata passes \<open>validate\<close>, which the code checks only after it has
  logged the record, and its encoding fits the length field of a frame. An insertion's id is
  one that \<open>reserve_id\<close> gave.
\<close>

definition valid_meta :: "attr_spec list \<Rightarrow> meta_record \<Rightarrow> bool" where
  "valid_meta schema m \<longleftrightarrow> validate schema m = None \<and> (\<forall>v \<in> set (attrs m). vtype v = Bool \<longrightarrow> raw v = 0 \<or> raw v = 1)"

definition valid_record :: "vdb_config \<Rightarrow> contents \<Rightarrow> wal_record \<Rightarrow> bool" where
  "valid_record cfg C r \<longleftrightarrow> rec_ok r \<and> canon_record r = r \<and> (carries_meta (rtype r) \<longrightarrow> valid_meta (vschema cfg) (meta r)) \<and>
     length (vec r) \<le> vdim cfg \<and> (rtype r = rt_insert \<longrightarrow> ext_id r \<noteq> -1 \<and> C (ext_id r) = None)"

definition valid_history :: "vdb_config \<Rightarrow> wal_record list \<Rightarrow> bool" where
  "valid_history cfg rs \<longleftrightarrow> (\<forall>i < length rs. valid_record cfg (contents_after (take i rs)) (rs ! i))"

lemma valid_history_Nil [simp]: "valid_history cfg []"
  by (simp add: valid_history_def)

lemma valid_history_snoc [simp]: "valid_history cfg (rs @ [r]) \<longleftrightarrow> valid_history cfg rs \<and> valid_record cfg (contents_after rs) r"
  by (auto simp: valid_history_def nth_append less_Suc_eq)

lemma valid_history_prefix: "valid_history cfg (xs @ ys) \<Longrightarrow> valid_history cfg xs"
  by (induction ys rule: rev_induct) (simp_all add: append_assoc [symmetric] del: append_assoc)

lemma valid_history_member: "valid_history cfg rs \<Longrightarrow> r \<in> set rs \<Longrightarrow> \<exists>C. valid_record cfg C r"
  by (auto simp: valid_history_def in_set_conv_nth)

text \<open>Room in the dictionaries for the terms of a record: fewer than \<open>2 ^ 32\<close> in a column.\<close>

definition dict_room :: "mstore \<Rightarrow> meta_record \<Rightarrow> bool" where
  "dict_room m rec \<longleftrightarrow> (\<forall>a < length (mcolumns m). \<forall>v. attr_at rec a = Some v \<longrightarrow>
     (let c = mcolumns m ! a in (ctype c = Tag \<longrightarrow> length (cdict c) < 2 ^ 32) \<and>
       (ctype c = Text \<longrightarrow> length (cdict c) + length (tokenize_text (vtext v)) \<le> 2 ^ 32)))"

fun replay_room :: "'i index_ops \<Rightarrow> 'i vdb \<Rightarrow> wal_record list \<Rightarrow> bool" where
  "replay_room ops db [] \<longleftrightarrow> True"
| "replay_room ops db (r # rs) \<longleftrightarrow> dict_room (vmeta db) (meta r) \<and>
     (case apply_record ops r db of Some (Inr _, db') \<Rightarrow> replay_room ops db' rs | _ \<Rightarrow> True)"

section \<open>The system\<close>

text \<open>
  Beside the object: what the log promises (the syncs under way, the records appended since the
  last crash, those known durable, the position that the last start took for durable, what was
  released), all operations ever logged and not lost,
  those not yet applied and those applied but not yet finished, the calls between the critical
  sections of the database, its contents and ids, and the log position, contents and ids of the
  snapshot on disk. A checkpoint holds \<open>write_mutex_\<close> from its first part to its last.
\<close>

datatype ckpt = Idle | Saved u64 | Marked u64 | Synced u64

record 'i dsys =
  obj :: "'i durable"
  spend :: "(string \<times> u64) list"
  shist :: "wal_record list"
  sacked :: "wal_record set"
  since :: u64
  supto :: u64
  logged :: "wal_record list"
  flying :: "wal_record set"
  finishing :: "wal_record set"
  dpend :: "pending set"
  held :: contents
  ids :: "u64 set"
  covered :: u64
  snap_held :: contents
  snap_ids :: "u64 set"
  stage :: ckpt

definition wal_of :: "'i dsys \<Rightarrow> wsys" where
  "wal_of s = \<lparr>wlog = dwal (obj s), wdir = dwal_dir (obj s), wpend = spend s, whist = shist s, wacked = sacked s, wupto = supto s\<rparr>"

definition add_record :: "wal_record \<Rightarrow> 'i dsys \<Rightarrow> 'i dsys" where
  "add_record r s = s\<lparr>shist := shist s @ [r], logged := logged s @ [r]\<rparr>"

definition start_op :: "wal_record \<Rightarrow> 'i dsys \<Rightarrow> 'i dsys" where
  "start_op r s = (add_record r s)\<lparr>flying := insert r (flying s)\<rparr>"

definition applied_op :: "wal_record \<Rightarrow> contents \<Rightarrow> 'i dsys \<Rightarrow> 'i dsys" where
  "applied_op r A s = s\<lparr>flying := flying s - {r}, finishing := insert r (finishing s), held := A\<rparr>"

definition synced_to :: "string \<times> u64 \<Rightarrow> 'i dsys \<Rightarrow> 'i dsys" where
  "synced_to p s = s\<lparr>spend := remove1 p (spend s), sacked := sacked s \<union> {r \<in> set (shist s). lsn r \<le> snd p}\<rparr>"

text \<open>Neither the lsn counter nor the numbers of the segments are exhausted.\<close>

definition log_space :: "'i durable \<Rightarrow> bool" where
  "log_space o1 \<longleftrightarrow> next_lsn o1 \<noteq> -1 \<and> number (last (segments (dwal o1))) + 1 < 10 ^ 12"

definition inserted_ids :: "wal_record list \<Rightarrow> u64 set" where
  "inserted_ids rs = ext_id ` {r \<in> set rs. rtype r = rt_insert}"

text \<open>What a log that is opened delivers, and room for it in the database it is replayed into.\<close>

definition delivered :: "vdb_config \<Rightarrow> durable_options \<Rightarrow> disk \<Rightarrow> wal_record list" where
  "delivered cfg opts dir =
     (case wal_open empty_wal dir (of_nat (vdim cfg)) (metric_code (vmetric cfg)) (compute_fingerprint (vschema cfg)) (wal_seg_max opts) of
       (_, w, d) \<Rightarrow> (case replay Wal_Spec.collect [] w d of (_, rs, _, _) \<Rightarrow> rs))"

definition recovery_room :: "'i index_ops \<Rightarrow> vdb_config \<Rightarrow> durable_options \<Rightarrow> disk \<Rightarrow> disk \<Rightarrow> bool" where
  "recovery_room ops cfg opts home dir \<longleftrightarrow> (case make_vdb ops cfg of
     Inl _ \<Rightarrow> True
   | Inr db0 \<Rightarrow> (case load_home ops db0 home of
       Some (Inr (l, db)) \<Rightarrow> replay_room ops db (filter (\<lambda>r. l < lsn r) (delivered cfg opts dir)) | _ \<Rightarrow> True))"

definition replayed :: "'i dsys \<Rightarrow> wal_record list \<Rightarrow> wal_record list" where
  "replayed s rs = filter (\<lambda>r. covered s < lsn r) rs"

definition recovered :: "'i durable \<Rightarrow> wal_record list \<Rightarrow> 'i dsys \<Rightarrow> 'i dsys" where
  "recovered o1 rs s = s\<lparr>obj := o1, spend := [], shist := rs, since := durable_lsn o1,
     logged := filter (\<lambda>r. lsn r \<le> covered s) (logged s) @ replayed s rs, flying := {}, finishing := {}, dpend := {},
     held := foldl (\<lambda>C r. eff r C) (snap_held s) (replayed s rs), ids := snap_ids s \<union> inserted_ids (replayed s rs), stage := Idle\<rparr>"

text \<open>
  Where a crash can come: between two critical sections, after a system call of an append that
  rotates the log, or after one of the truncation that ends a checkpoint. The writing of a
  snapshot has a rule of its own, for each of its stages.
\<close>

inductive stopped_at :: "'i dsys \<Rightarrow> 'i dsys \<Rightarrow> bool" where
  resting: "stopped_at s s"
| appending: "log_space (obj s) \<Longrightarrow> d \<in> set (append_stages r (dwal (obj s)) (dwal_dir (obj s))) \<Longrightarrow>
    stopped_at s (s\<lparr>obj := (obj s)\<lparr>dwal_dir := d\<rparr>\<rparr>)"
| truncating: "stage s = Synced l \<Longrightarrow> d \<in> set (truncate_stages l (segments (dwal (obj s))) (dwal_dir (obj s))) \<Longrightarrow>
    stopped_at s (s\<lparr>obj := (obj s)\<lparr>dwal_dir := d\<rparr>, supto := max (supto s) l\<rparr>)"

text \<open>
  The rules. One thread writes an id at a time, the rule of \<open>include/vdb.h\<close>; what the callers
  of \<open>sync\<close> do with the flag and the clock is left open.
\<close>

inductive dur_step :: "'i index_ops \<Rightarrow> vdb_config \<Rightarrow> 'i dsys \<Rightarrow> 'i dsys \<Rightarrow> bool" for ops cfg where
  ds_insert: "stage s = Idle \<Longrightarrow> log_space (obj s) \<Longrightarrow> next_ext_id (ddb (obj s)) \<noteq> -1 \<Longrightarrow> valid_meta (vschema cfg) rec \<Longrightarrow>
    insert_prefix v rec (obj s) = Some (Inr (ext, l, b), o1) \<Longrightarrow>
    r = canon_record \<lparr>rtype = rt_insert, lsn = l, ext_id = ext, vec = take (vdim cfg) v, meta = rec\<rparr> \<Longrightarrow> record_ok r \<Longrightarrow>
    dur_step ops cfg s ((start_op r s)\<lparr>obj := o1, ids := insert ext (ids s)\<rparr>)"
| ds_log_remove: "stage s = Idle \<Longrightarrow> log_space (obj s) \<Longrightarrow> contains (ddb (obj s)) ext \<Longrightarrow> ext \<notin> ext_id ` flying s \<Longrightarrow>
    remove_prefix ext (obj s) = Some (Inr (l, b), o1) \<Longrightarrow>
    r = \<lparr>rtype = rt_delete, lsn = l, ext_id = ext, vec = [], meta = empty_meta\<rparr> \<Longrightarrow>
    dur_step ops cfg s ((start_op r s)\<lparr>obj := o1\<rparr>)"
| ds_log_update: "stage s = Idle \<Longrightarrow> log_space (obj s) \<Longrightarrow> contains (ddb (obj s)) ext \<Longrightarrow> ext \<notin> ext_id ` flying s \<Longrightarrow>
    (\<forall>rec. orec = Some rec \<longrightarrow> valid_meta (vschema cfg) rec) \<Longrightarrow>
    update_prefix ext v orec (obj s) = Some (Inr (Some (rec, l, b)), o1) \<Longrightarrow>
    r = canon_record \<lparr>rtype = rt_update, lsn = l, ext_id = ext, vec = take (vdim cfg) v, meta = rec\<rparr> \<Longrightarrow> record_ok r \<Longrightarrow>
    dur_step ops cfg s ((start_op r s)\<lparr>obj := o1\<rparr>)"
| ds_log_set: "stage s = Idle \<Longrightarrow> log_space (obj s) \<Longrightarrow> contains (ddb (obj s)) ext \<Longrightarrow> ext \<notin> ext_id ` flying s \<Longrightarrow>
    valid_meta (vschema cfg) rec \<Longrightarrow> set_prefix ext rec (obj s) = Some (Inr (l, b), o1) \<Longrightarrow>
    r = canon_record \<lparr>rtype = rt_set_meta, lsn = l, ext_id = ext, vec = [], meta = rec\<rparr> \<Longrightarrow> record_ok r \<Longrightarrow>
    dur_step ops cfg s ((start_op r s)\<lparr>obj := o1\<rparr>)"
| ds_allocate: "r \<in> flying s \<Longrightarrow> rtype r = rt_insert \<Longrightarrow> ext_id r \<notin> pext ` dpend s \<Longrightarrow> take (vdim cfg) v = vec r \<Longrightarrow> canon_meta rec = meta r \<Longrightarrow>
    record_fits (vmeta (ddb (obj s))) rec \<Longrightarrow> on_db (insert_allocate ops (ext_id r) v rec) (obj s) = Some (Inr iid, o1) \<Longrightarrow>
    dur_step ops cfg s (s\<lparr>obj := o1, dpend := insert \<lparr>pext = ext_id r, pvec = vec r, prec = rec, pnode = iid, pold = None\<rparr> (dpend s)\<rparr>)"
| ds_reallocate: "r \<in> flying s \<Longrightarrow> rtype r = rt_update \<Longrightarrow> ext_id r \<notin> pext ` dpend s \<Longrightarrow> take (vdim cfg) v = vec r \<Longrightarrow> canon_meta rec = meta r \<Longrightarrow>
    record_fits (vmeta (ddb (obj s))) rec \<Longrightarrow>
    on_db (update_allocate ops (ext_id r) v (Some rec)) (obj s) = Some (Inr (Some (new, old)), o1) \<Longrightarrow>
    dur_step ops cfg s (s\<lparr>obj := o1, dpend := insert \<lparr>pext = ext_id r, pvec = vec r, prec = rec, pnode = new, pold = Some old\<rparr> (dpend s)\<rparr>)"
| ds_link: "p \<in> dpend s \<Longrightarrow> on_db (link_node ops (pnode p)) (obj s) = Some (Inr (), o1) \<Longrightarrow> dur_step ops cfg s (s\<lparr>obj := o1\<rparr>)"
| ds_publish: "p \<in> dpend s \<Longrightarrow> r \<in> flying s \<Longrightarrow> ext_id r = pext p \<Longrightarrow>
    on_db (case pold p of None \<Rightarrow> insert_publish (pext p) (pnode p) | Some old \<Rightarrow> update_publish (pext p) (pnode p) old) (obj s) = Some (Inr (), o1) \<Longrightarrow>
    dur_step ops cfg s ((applied_op r ((held s)(pext p \<mapsto> (pvec p, prec p))) s)\<lparr>obj := o1, dpend := dpend s - {p}\<rparr>)"
| ds_remove: "r \<in> flying s \<Longrightarrow> rtype r = rt_delete \<Longrightarrow> on_db (vdb_remove (ext_id r)) (obj s) = Some (Inr b, o1) \<Longrightarrow>
    dur_step ops cfg s ((applied_op r ((held s)(ext_id r := None)) s)\<lparr>obj := o1\<rparr>)"
| ds_set: "r \<in> flying s \<Longrightarrow> rtype r = rt_set_meta \<Longrightarrow> canon_meta rec = meta r \<Longrightarrow> record_fits (vmeta (ddb (obj s))) rec \<Longrightarrow>
    on_db (vdb_set_metadata (ext_id r) rec) (obj s) = Some (Inr b, o1) \<Longrightarrow>
    dur_step ops cfg s ((applied_op r (set_record (ext_id r) rec (held s)) s)\<lparr>obj := o1\<rparr>)"
| ds_finish: "r \<in> finishing s \<Longrightarrow> finish_op (obj s) = Some (Inr (), o1) \<Longrightarrow>
    dur_step ops cfg s (s\<lparr>obj := o1, finishing := finishing s - {r}\<rparr>)"
| ds_start_sync: "start_sync (obj s) = Some (Inr p, o1) \<Longrightarrow>
    dur_step ops cfg s (s\<lparr>obj := o1\<lparr>syncing := b\<rparr>, spend := p # spend s\<rparr>)"
| ds_end_sync: "p \<in> set (spend s) \<Longrightarrow> end_sync p (obj s) = Some (Inr t, o1) \<Longrightarrow>
    dur_step ops cfg s ((synced_to p s)\<lparr>obj := (raise_durable t o1)\<lparr>syncing := b, last_sync := now\<rparr>\<rparr>)"
| ds_write_tmp: "h \<in> set (write_stages (dhome (obj s)) snapshot_path bs) \<Longrightarrow> dur_step ops cfg s (s\<lparr>obj := (obj s)\<lparr>dhome := h\<rparr>\<rparr>)"
| ds_save: "stage s = Idle \<Longrightarrow> in_flight (obj s) = 0 \<Longrightarrow> l = next_lsn (obj s) - 1 \<Longrightarrow> snapshot_fits (ddb (obj s)) \<Longrightarrow>
    save_home ops l (obj s) = Some (Inr (), o1) \<Longrightarrow>
    dur_step ops cfg s (s\<lparr>obj := o1, covered := l, snap_held := held s, snap_ids := ids s, stage := Saved l\<rparr>)"
| ds_mark: "stage s = Saved l \<Longrightarrow> log_space (obj s) \<Longrightarrow> log_checkpoint (obj s) = Some (Inr (), o1) \<Longrightarrow>
    r = \<lparr>rtype = rt_checkpoint, lsn = next_lsn (obj s), ext_id = snapshot_id (obj s), vec = [], meta = empty_meta\<rparr> \<Longrightarrow>
    dur_step ops cfg s ((add_record r s)\<lparr>obj := o1, stage := Marked l\<rparr>)"
| ds_mark_sync: "stage s = Marked l \<Longrightarrow> start_sync (obj s) = Some (Inr p, o1) \<Longrightarrow> end_sync p o1 = Some (Inr t, o2) \<Longrightarrow>
    dur_step ops cfg s ((synced_to p s)\<lparr>obj := o2, stage := Synced l\<rparr>)"
| ds_release: "stage s = Synced l \<Longrightarrow> on_wal (truncate_wal l) (obj s) = Some (Inr (), o1) \<Longrightarrow> end_checkpoint now l o1 = Some (Inr (), o2) \<Longrightarrow>
    dur_step ops cfg s (s\<lparr>obj := o2, supto := max (supto s) l, stage := Idle\<rparr>)"
| ds_crash: "stopped_at s t \<Longrightarrow> crashed (dwal_dir (obj t)) d \<Longrightarrow> crashed (dhome (obj t)) h \<Longrightarrow>
    recovery_room ops cfg opts h d \<Longrightarrow> recover ops cfg opts h d now = Some (Inr o1) \<Longrightarrow>
    dur_step ops cfg s (recovered o1 (delivered cfg opts d) t)"

inductive dur_reach :: "'i index_ops \<Rightarrow> vdb_config \<Rightarrow> 'i dsys \<Rightarrow> bool" for ops cfg where
  dr_start: "discover_segments d0 = [] \<Longrightarrow> distinct (map fst d0) \<Longrightarrow> map_of h0 snapshot_path = None \<Longrightarrow>
    recover ops cfg opts h0 d0 now = Some (Inr o1) \<Longrightarrow>
    dur_reach ops cfg \<lparr>obj = o1, spend = [], shist = [], sacked = {}, since = 0, supto = 0, logged = [], flying = {}, finishing = {},
      dpend = {}, held = Map.empty, ids = {}, covered = 0, snap_held = Map.empty, snap_ids = {}, stage = Idle\<rparr>"
| dr_step: "dur_reach ops cfg s \<Longrightarrow> dur_step ops cfg s t \<Longrightarrow> dur_reach ops cfg t"

section \<open>The invariant\<close>

definition conf_ok :: "vdb_config \<Rightarrow> wal \<Rightarrow> bool" where
  "conf_ok cfg w \<longleftrightarrow> wdim w = of_nat (vdim cfg) \<and> wmetric w = metric_code (vmetric cfg) \<and> wschema_fp w = compute_fingerprint (vschema cfg)"

text \<open>
  The log holds what the snapshot does not cover, and of that everything logged since the last
  start and up to \<open>durable_lsn_\<close> is durable.
\<close>

definition log_ok :: "vdb_config \<Rightarrow> wal_record list \<Rightarrow> wal_record list \<Rightarrow> wal_record set \<Rightarrow> u64 \<Rightarrow> u64 \<Rightarrow> u64 \<Rightarrow> u64 \<Rightarrow> u64 \<Rightarrow> bool" where
  "log_ok cfg hs ws acks b u l nx dl \<longleftrightarrow> increasing hs \<and> valid_history cfg hs \<and> (\<forall>r \<in> set hs. lsn r < nx) \<and> (\<forall>r \<in> set ws. lsn r < nx) \<and>
     filter (\<lambda>r. l < lsn r) ws = filter (\<lambda>r. l < lsn r) hs \<and> u \<le> l \<and> l < nx \<and> dl < nx \<and>
     (\<forall>r \<in> set hs. lsn r \<le> dl \<longrightarrow> l < lsn r \<longrightarrow> b < lsn r \<longrightarrow> r \<in> acks) \<and> b \<le> dl"

text \<open>
  The contents of the database are those after the history, but for the ids of operations that
  are logged and not yet applied.
\<close>

definition flight_ok :: "wal_record list \<Rightarrow> wal_record set \<Rightarrow> wal_record set \<Rightarrow> pending set \<Rightarrow> contents \<Rightarrow> u64 set \<Rightarrow> u64 \<Rightarrow> bool" where
  "flight_ok hs F G P A I n \<longleftrightarrow> F \<inter> G = {} \<and> F \<union> G \<subseteq> set hs \<and> n = of_nat (card (F \<union> G)) \<and> inj_on ext_id F \<and> ext_id ` F \<subseteq> I \<and>
     (\<forall>r \<in> F. contents_after hs (ext_id r) = eff r (canon A) (ext_id r) \<and> (rtype r = rt_insert \<longleftrightarrow> A (ext_id r) = None)) \<and>
     (\<forall>x. x \<notin> ext_id ` F \<longrightarrow> contents_after hs x = canon A x) \<and>
     (\<forall>p \<in> P. \<exists>r \<in> F. ext_id r = pext p \<and> vec r = pvec p \<and> meta r = canon_meta (prec p) \<and>
        rtype r = (if pold p = None then rt_insert else rt_update))"

definition snap_ok :: "'i index_ops \<Rightarrow> vdb_config \<Rightarrow> disk \<Rightarrow> u64 \<Rightarrow> contents \<Rightarrow> u64 set \<Rightarrow> wal_record list \<Rightarrow> bool" where
  "snap_ok ops cfg home l H J hs \<longleftrightarrow> canon H = contents_after (filter (\<lambda>r. lsn r \<le> l) hs) \<and>
     (map_of home snapshot_path = None \<and> l = 0 \<and> H = Map.empty \<and> J = {} \<or>
      (\<exists>db. map_of home snapshot_path = Some \<lparr>fdata = save_snapshot ops db l, fdurable = length (save_snapshot ops db l)\<rparr> \<and>
        db_run ops cfg db H {} J \<and> snapshot_fits db))"

definition stage_ok :: "ckpt \<Rightarrow> wal_record set \<Rightarrow> u64 \<Rightarrow> bool" where
  "stage_ok c F l \<longleftrightarrow> (case c of Idle \<Rightarrow> True | Saved k \<Rightarrow> F = {} \<and> k = l | Marked k \<Rightarrow> F = {} \<and> k = l | Synced k \<Rightarrow> F = {} \<and> k = l)"

definition dur_inv :: "'i index_ops \<Rightarrow> vdb_config \<Rightarrow> 'i dsys \<Rightarrow> bool" where
  "dur_inv ops cfg s \<longleftrightarrow> dconfig (obj s) = cfg \<and> wal_inv (wal_of s) \<and> conf_ok cfg (dwal (obj s)) \<and>
     log_ok cfg (logged s) (shist s) (sacked s) (since s) (supto s) (covered s) (next_lsn (obj s)) (durable_lsn (obj s)) \<and>
     db_run ops cfg (ddb (obj s)) (held s) (dpend s) (ids s) \<and>
     flight_ok (logged s) (flying s) (finishing s) (dpend s) (held s) (ids s) (in_flight (obj s)) \<and>
     snap_ok ops cfg (dhome (obj s)) (covered s) (snap_held s) (snap_ids s) (logged s) \<and>
     stage_ok (stage s) (flying s \<union> finishing s) (covered s)"

end
