(* ===== verification/Durable_Inv.thy ===== *)
theory Durable_Inv
  imports Durable_Run
begin

text \<open>
  Every critical section of the durable database keeps its invariant, and recovery from any
  crash establishes it again.
\<close>

section \<open>Histories\<close>

lemma le_pred_iff:
  assumes "(n :: u64) \<noteq> 0"
  shows "x \<le> n - 1 \<longleftrightarrow> x < n"
proof -
  have "unat (n - 1) = unat n - 1" "unat n \<noteq> 0" using assms by (simp_all add: unat_minus_one unat_eq_zero)
  then show ?thesis by (auto simp: word_le_nat_alt word_less_nat_alt)
qed

lemma increasing_filter: "increasing rs \<Longrightarrow> increasing (filter Q rs)"
  by (simp add: increasing_def sorted_wrt_filter)

text \<open>A sorted history is what a position covers, then the rest.\<close>

lemma history_split:
  assumes "increasing hs"
  shows "hs = filter (\<lambda>r. lsn r \<le> l) hs @ filter (\<lambda>r. l < lsn r) hs"
  using assms
proof (induction hs)
  case (Cons r hs)
  then have inc: "increasing hs" and less: "\<forall>x \<in> set hs. lsn r < lsn x" by (simp_all add: increasing_def)
  show ?case
  proof (cases "lsn r \<le> l")
    case True
    then show ?thesis using Cons.IH [OF inc] by simp
  next
    case False
    then have "\<forall>x \<in> set hs. l < lsn x" using less by (meson not_le order_less_trans)
    then have "filter (\<lambda>r. lsn r \<le> l) hs = []" "filter (\<lambda>r. l < lsn r) hs = hs" by (auto simp: filter_empty_conv filter_id_conv)
    then show ?thesis using False by simp
  qed
qed simp

lemma log_okD:
  assumes "log_ok cfg hs ws acks b u l nx dl"
  shows "increasing hs" "valid_history cfg hs" "\<forall>r \<in> set hs. lsn r < nx" "\<forall>r \<in> set ws. lsn r < nx"
    "filter (\<lambda>r. l < lsn r) ws = filter (\<lambda>r. l < lsn r) hs" "u \<le> l" "l < nx" "dl < nx"
    "\<forall>r \<in> set hs. lsn r \<le> dl \<longrightarrow> l < lsn r \<longrightarrow> b < lsn r \<longrightarrow> r \<in> acks" "b \<le> dl"
  using assms by (simp_all add: log_ok_def)

lemma log_ok_rec: "log_ok cfg hs ws acks b u l nx dl \<Longrightarrow> r \<in> set hs \<Longrightarrow> lsn r \<noteq> 0"
  using valid_history_member [of cfg hs r] by (auto simp: log_ok_def valid_record_def rec_ok_def)

lemma log_ok_add:
  assumes "log_ok cfg hs ws acks b u l nx dl" and "valid_record cfg (contents_after hs) r" and "lsn r = nx" and "nx \<noteq> -1"
  shows "log_ok cfg (hs @ [r]) (ws @ [r]) acks b u l (nx + 1) dl"
proof -
  note L = log_okD [OF assms(1)]
  have up: "x < nx + 1" if "x \<le> nx" for x using that less_next [OF assms(4)] by (rule order_le_less_trans)
  have inc: "increasing (hs @ [r])" using L(1,3) assms(3) by (auto simp: increasing_append increasing_def [of "[r]"])
  have "lsn q < nx + 1" if "q \<in> set (hs @ [r]) \<union> set (ws @ [r])" for q
    using that L(3,4) assms(3) by (intro up) auto
  then have bound: "\<forall>q \<in> set (hs @ [r]). lsn q < nx + 1" "\<forall>q \<in> set (ws @ [r]). lsn q < nx + 1" by blast+
  have "\<not> lsn r \<le> dl" using L(8) assms(3) by simp
  then have "\<forall>q \<in> set (hs @ [r]). lsn q \<le> dl \<longrightarrow> l < lsn q \<longrightarrow> b < lsn q \<longrightarrow> q \<in> acks" using L(9) by auto
  moreover have "l < nx + 1" "dl < nx + 1" using L(7,8) by (auto intro: up)
  moreover have "filter (\<lambda>r. l < lsn r) (ws @ [r]) = filter (\<lambda>r. l < lsn r) (hs @ [r])" using L(5) by simp
  moreover have "valid_history cfg (hs @ [r])" using L(2) assms(2) by simp
  ultimately show ?thesis using inc bound L(6,10) unfolding log_ok_def by blast
qed

lemma card_lsn:
  assumes "increasing hs" and "\<forall>r \<in> set hs. lsn r \<noteq> 0" and "R \<subseteq> set hs"
  shows "card R < 2 ^ 64"
proof -
  have "inj_on lsn (set hs)" using assms(1)
  proof (induction hs)
    case (Cons r hs)
    then have "increasing hs" "\<forall>x \<in> set hs. lsn x \<noteq> lsn r" by (auto simp: increasing_def)
    then show ?case using Cons.IH by (auto simp: inj_on_insert)
  qed simp
  then have "inj_on lsn R" using assms(3) by (rule inj_on_subset)
  then have "card R = card (lsn ` R)" by (simp add: card_image)
  also have "\<dots> \<le> card (UNIV - {0 :: u64})" using assms(2,3) by (intro card_mono) auto
  also have "\<dots> < 2 ^ 64" by (simp add: card_word)
  finally show ?thesis .
qed

section \<open>Operations in flight\<close>

lemma flight_okD:
  assumes "flight_ok hs F G P A I n"
  shows "F \<inter> G = {}" "F \<union> G \<subseteq> set hs" "n = of_nat (card (F \<union> G))" "inj_on ext_id F" "ext_id ` F \<subseteq> I"
    "r \<in> F \<Longrightarrow> contents_after hs (ext_id r) = eff r (canon A) (ext_id r)" "r \<in> F \<Longrightarrow> rtype r = rt_insert \<longleftrightarrow> A (ext_id r) = None"
    "x \<notin> ext_id ` F \<Longrightarrow> contents_after hs x = canon A x"
    "p \<in> P \<Longrightarrow> \<exists>r \<in> F. ext_id r = pext p \<and> vec r = pvec p \<and> meta r = canon_meta (prec p) \<and>
        rtype r = (if pold p = None then rt_insert else rt_update)"
    "finite (F \<union> G)"
  using assms by (auto simp: flight_ok_def intro: finite_subset)

lemma flight_ok_zero:
  assumes "flight_ok hs F G P A I 0" and "log_ok cfg hs ws acks b u l nx dl"
  shows "F = {} \<and> G = {} \<and> P = {} \<and> canon A = contents_after hs"
proof -
  note R = flight_okD [OF assms(1)]
  have "card (F \<union> G) < 2 ^ 64" using card_lsn [OF log_okD(1) [OF assms(2)] _ R(2)] log_ok_rec [OF assms(2)] by blast
  moreover have "of_nat (card (F \<union> G)) = (0 :: u64)" using R(3) by simp
  ultimately have "card (F \<union> G) = 0" by (auto simp: word_of_nat_eq_0_iff dvd_def)
  then have "F \<union> G = {}" using R(10) by simp
  then show ?thesis using R(8,9) by (auto simp: fun_eq_iff)
qed

lemma flight_ok_start:
  assumes "flight_ok hs F G P A I n" and "r \<notin> set hs" and "ext_id r \<notin> ext_id ` F" and "ext_id r \<in> I"
    and "rtype r = rt_insert \<longleftrightarrow> A (ext_id r) = None"
  shows "flight_ok (hs @ [r]) (insert r F) G P A I (n + 1)"
proof -
  note R = flight_okD [OF assms(1)]
  have new: "r \<notin> F \<union> G" using R(2) assms(2) by blast
  have at: "contents_after hs (ext_id r) = canon A (ext_id r)" using R(8) assms(3) by blast
  have "contents_after (hs @ [r]) (ext_id q) = eff q (canon A) (ext_id q)" if "q \<in> insert r F" for q
  proof (cases "q = r")
    case True
    then show ?thesis using eff_local [of "contents_after hs" r "canon A"] at by simp
  next
    case False
    then have "q \<in> F" "ext_id q \<noteq> ext_id r" using that assms(3) by (auto simp: image_iff)
    then show ?thesis using R(6) eff_other [of "ext_id q" r] by simp
  qed
  moreover have "contents_after (hs @ [r]) x = canon A x" if "x \<notin> ext_id ` insert r F" for x
    using that R(8) [of x] eff_other [of x r] by auto
  moreover have "card (insert r (F \<union> G)) = Suc (card (F \<union> G))" using new R(10) by simp
  ultimately show ?thesis using assms R new unfolding flight_ok_def by (auto simp: insert_absorb)
qed

lemma flight_ok_mark: "flight_ok hs F G P A I n \<Longrightarrow> rtype r = rt_checkpoint \<Longrightarrow> flight_ok (hs @ [r]) F G P A I n"
  by (auto simp: flight_ok_def eff_def rt_checkpoint_def rt_insert_def rt_update_def rt_set_meta_def rt_delete_def)

lemma flight_ok_apply:
  assumes "flight_ok hs F G P A I n" and r: "r \<in> F" and A': "canon A' = eff r (canon A)"
    and P': "\<And>p. p \<in> P' \<Longrightarrow> p \<in> P \<and> pext p \<noteq> ext_id r"
  shows "flight_ok hs (F - {r}) (insert r G) P' A' I n"
proof -
  note R = flight_okD [OF assms(1)]
  have ne: "ext_id q \<noteq> ext_id r" if "q \<in> F - {r}" for q using that r R(4) by (auto simp: inj_on_def)
  have same: "canon A' x = canon A x" if "x \<noteq> ext_id r" for x using eff_other [OF that] by (simp add: A')
  have un: "F - {r} \<union> insert r G = F \<union> G" using r by blast
  have "contents_after hs (ext_id q) = eff q (canon A') (ext_id q) \<and> (rtype q = rt_insert \<longleftrightarrow> A' (ext_id q) = None)" if "q \<in> F - {r}" for q
    using that R(6,7) [of q] same [OF ne [OF that]] eff_local [of "canon A'" q "canon A"] canon_simps(4) [of A "ext_id q"] canon_simps(4) [of A' "ext_id q"]
    by auto
  moreover have "contents_after hs x = canon A' x" if "x \<notin> ext_id ` (F - {r})" for x
  proof (cases "x = ext_id r")
    case True
    then show ?thesis using R(6) [OF r] by (simp add: A')
  next
    case False
    then have "x \<notin> ext_id ` F" using that by auto
    then show ?thesis using R(8) same [OF False] by simp
  qed
  moreover have "\<exists>q \<in> F - {r}. ext_id q = pext p \<and> vec q = pvec p \<and> meta q = canon_meta (prec p) \<and>
      rtype q = (if pold p = None then rt_insert else rt_update)" if "p \<in> P'" for p
    using R(9) [of p] P' [OF that] by auto
  ultimately show ?thesis using R(1-5) r unfolding flight_ok_def un by (auto intro: inj_on_subset)
qed

lemma flight_ok_finish:
  assumes "flight_ok hs F G P A I n" and "r \<in> G"
  shows "flight_ok hs F (G - {r}) P A I (n - 1)"
proof -
  note R = flight_okD [OF assms(1)]
  have "F \<union> (G - {r}) = F \<union> G - {r}" using R(1) assms(2) by auto
  moreover have "card (F \<union> G) = Suc (card (F \<union> G - {r}))" by (rule card.remove) (use R(10) assms(2) in auto)
  ultimately show ?thesis using assms R unfolding flight_ok_def by auto
qed

lemma flight_ok_pend:
  assumes "flight_ok hs F G P A I n" and "r \<in> F" and "ext_id r = pext p" "vec r = pvec p" "meta r = canon_meta (prec p)"
    "rtype r = (if pold p = None then rt_insert else rt_update)"
  shows "flight_ok hs F G (insert p P) A I n"
  using assms unfolding flight_ok_def by blast

lemma flight_ok_ids: "flight_ok hs F G P A I n \<Longrightarrow> I \<subseteq> J \<Longrightarrow> flight_ok hs F G P A J n"
  by (auto simp: flight_ok_def)

section \<open>The parts of a step\<close>

lemma dur_invI:
  assumes "dconfig (obj s) = cfg" "wal_inv (wal_of s)" "conf_ok cfg (dwal (obj s))"
    "log_ok cfg (logged s) (shist s) (sacked s) (since s) (supto s) (covered s) (next_lsn (obj s)) (durable_lsn (obj s))"
    "db_run ops cfg (ddb (obj s)) (held s) (dpend s) (ids s)"
    "flight_ok (logged s) (flying s) (finishing s) (dpend s) (held s) (ids s) (in_flight (obj s))"
    "snap_ok ops cfg (dhome (obj s)) (covered s) (snap_held s) (snap_ids s) (logged s)"
    "stage_ok (stage s) (flying s \<union> finishing s) (covered s)"
  shows "dur_inv ops cfg s"
  using assms by (simp add: dur_inv_def)

lemma dur_invD:
  assumes "dur_inv ops cfg s"
  shows "dconfig (obj s) = cfg" "wal_inv (wal_of s)" "conf_ok cfg (dwal (obj s))"
    "log_ok cfg (logged s) (shist s) (sacked s) (since s) (supto s) (covered s) (next_lsn (obj s)) (durable_lsn (obj s))"
    "db_run ops cfg (ddb (obj s)) (held s) (dpend s) (ids s)"
    "flight_ok (logged s) (flying s) (finishing s) (dpend s) (held s) (ids s) (in_flight (obj s))"
    "snap_ok ops cfg (dhome (obj s)) (covered s) (snap_held s) (snap_ids s) (logged s)"
    "stage_ok (stage s) (flying s \<union> finishing s) (covered s)"
  using assms by (simp_all add: dur_inv_def)

lemma open_segment_conf: "open_new_segment w d = (e, w', d') \<Longrightarrow> conf_ok cfg w' = conf_ok cfg w"
  by (auto simp: open_new_segment_def conf_ok_def Let_def split: if_splits)

lemma append_conf: "append_wal r w d = (e, w', d') \<Longrightarrow> conf_ok cfg w' = conf_ok cfg w"
  using open_segment_conf [of "w\<lparr>active_fd := None, segments := butlast (segments w) @ [(last (segments w))\<lparr>sealed := True\<rparr>]\<rparr>" _ _ _ _ cfg]
  by (fastforce simp: append_wal_def rotate_wal_def conf_ok_def Let_def split: if_splits prod.splits option.splits)

lemma truncate_conf: "truncate_wal u w d = (e, w', d') \<Longrightarrow> conf_ok cfg w' = conf_ok cfg w"
  by (auto simp: truncate_wal_def conf_ok_def split: prod.splits option.splits)

lemma max_all_less: "h < n \<Longrightarrow> \<forall>r \<in> set rs. lsn r < n \<Longrightarrow> max_all h rs < n"
  by (induction rs arbitrary: h) simp_all

lemma highest_less:
  assumes "wal_inv (wal_of s)" and "log_ok cfg hs (shist s) acks b u l nx dl"
  shows "highest_lsn (dwal (obj s)) < nx"
proof -
  have "0 < nx" using log_okD(7) [OF assms(2)] by (rule order_le_less_trans [rotated]) simp
  then have "max_all 0 (shist s) < nx" using log_okD(4) [OF assms(2)] by (rule max_all_less)
  then show ?thesis using assms(1) by (auto simp: wal_inv_def wal_inv_for_def wal_of_def)
qed

lemma log_op_run:
  assumes "log_op mk o1 = Some (Inr (l, b), o2)"
  shows "l = next_lsn o1 \<and> (\<exists>w d c. append_wal (mk l) (dwal o1) (dwal_dir o1) = (None, w, d) \<and>
    o2 = o1\<lparr>next_lsn := next_lsn o1 + 1, dwal := w, dwal_dir := d, in_flight := in_flight o1 + 1, ops_since_checkpoint := c\<rparr>)"
proof -
  obtain e w d where a: "append_wal (mk (next_lsn o1)) (dwal o1) (dwal_dir o1) = (e, w, d)" by (metis prod_cases3)
  show ?thesis using assms a
    by (cases e) (auto simp: log_op_def on_wal_def bind_method_def modify_def give_def Let_def split: if_splits)
qed

lemma append_step:
  assumes inv: "dur_inv ops cfg s" and space: "log_space (obj s)" and valid: "valid_record cfg (contents_after (logged s)) r" "lsn r = next_lsn (obj s)"
    and a: "append_wal r (dwal (obj s)) (dwal_dir (obj s)) = (None, w, d)"
  shows "wal_inv ((wal_of s)\<lparr>wlog := w, wdir := d, whist := shist s @ [r]\<rparr>)" "conf_ok cfg w"
    "log_ok cfg (logged s @ [r]) (shist s @ [r]) (sacked s) (since s) (supto s) (covered s) (next_lsn (obj s) + 1) (durable_lsn (obj s))"
    "snap_ok ops cfg (dhome (obj s)) (covered s) (snap_held s) (snap_ids s) (logged s @ [r])" "r \<notin> set (logged s)"
proof -
  note D = dur_invD [OF inv] and L = log_okD [OF dur_invD(4) [OF inv]]
  have "rec_ok r" using valid(1) by (simp add: valid_record_def)
  from wal_inv_append [OF D(2) this] show "wal_inv ((wal_of s)\<lparr>wlog := w, wdir := d, whist := shist s @ [r]\<rparr>)"
    using highest_less [OF D(2,4)] space valid(2) a by (auto simp: wal_of_def log_space_def)
  show "conf_ok cfg w" using append_conf [OF a] D(3) by simp
  show "log_ok cfg (logged s @ [r]) (shist s @ [r]) (sacked s) (since s) (supto s) (covered s) (next_lsn (obj s) + 1) (durable_lsn (obj s))"
    by (rule log_ok_add [OF D(4) valid]) (use space in \<open>simp add: log_space_def\<close>)
  have "\<not> lsn r \<le> covered s" using L(7) valid(2) by simp
  then show "snap_ok ops cfg (dhome (obj s)) (covered s) (snap_held s) (snap_ids s) (logged s @ [r])" using D(7) by (simp add: snap_ok_def)
  show "r \<notin> set (logged s)" using L(3) valid(2) by auto
qed

text \<open>The serial prefix.\<close>

lemma start_op_inv:
  assumes inv: "dur_inv ops cfg s" and idle: "stage s = Idle" and space: "log_space (obj s)"
    and valid: "valid_record cfg (contents_after (logged s)) (canon_record (mk (next_lsn (obj s))))"
    and mk: "\<And>l. lsn (mk l) = l" and run: "log_op mk (obj s) = Some (Inr (l, b), o1)"
    and x: "ext_id (mk l) \<notin> ext_id ` flying s" "ext_id (mk l) \<in> ids s" "rtype (mk l) = rt_insert \<longleftrightarrow> held s (ext_id (mk l)) = None"
  shows "dur_inv ops cfg ((start_op (canon_record (mk l)) s)\<lparr>obj := o1\<rparr>)"
proof -
  note D = dur_invD [OF inv]
  from log_op_run [OF run] obtain w d c where l: "l = next_lsn (obj s)"
    and a: "append_wal (mk l) (dwal (obj s)) (dwal_dir (obj s)) = (None, w, d)"
    and o1: "o1 = (obj s)\<lparr>next_lsn := next_lsn (obj s) + 1, dwal := w, dwal_dir := d, in_flight := in_flight (obj s) + 1, ops_since_checkpoint := c\<rparr>"
    by blast
  let ?r = "canon_record (mk l)"
  have "append_wal ?r (dwal (obj s)) (dwal_dir (obj s)) = (None, w, d)" using a by (simp add: append_wal_canon)
  note A = append_step [OF inv space _ _ this]
  have v: "valid_record cfg (contents_after (logged s)) ?r" "lsn ?r = next_lsn (obj s)" using valid l mk by simp_all
  have "flight_ok (logged s @ [?r]) (insert ?r (flying s)) (finishing s) (dpend s) (held s) (ids s) (in_flight (obj s) + 1)"
    by (rule flight_ok_start [OF D(6) A(5) [OF v]]) (use x in simp_all)
  then show ?thesis using D A [OF v] idle
    by (intro dur_invI) (simp_all add: start_op_def add_record_def o1 wal_of_def stage_ok_def)
qed

text \<open>A record that the caller vouches for is one the history allows.\<close>

lemma valid_record_new:
  assumes inv: "dur_inv ops cfg s" and ok: "record_ok (canon_record r)" and l: "lsn r = next_lsn (obj s)"
    and m: "carries_meta (rtype r) \<Longrightarrow> valid_meta (vschema cfg) (meta r)" and v: "length (vec r) \<le> vdim cfg"
    and i: "rtype r = rt_insert \<Longrightarrow> ext_id r \<noteq> -1 \<and> contents_after (logged s) (ext_id r) = None"
  shows "valid_record cfg (contents_after (logged s)) (canon_record r)"
proof -
  have "lsn r \<noteq> 0" using log_okD(7) [OF dur_invD(4) [OF inv]] l by auto
  moreover have "valid_meta (vschema cfg) (canon_meta (meta r))" if "carries_meta (rtype r)"
    using m [OF that] by (auto simp: valid_meta_def validate_canon canon_value_def attr_null_def)
  ultimately show ?thesis using ok v i by (simp add: valid_record_def rec_ok_def canon_record_def)
qed

lemma on_db_Inr [method_simps]: "on_db f s = Some (Inr x, s') \<longleftrightarrow> (\<exists>db. f (ddb s) = Some (Inr x, db) \<and> s' = s\<lparr>ddb := db\<rparr>)"
  by (auto simp: on_db_def split: option.splits)

lemma on_wal_Inr [method_simps]:
  "on_wal f s = Some (Inr x, s') \<longleftrightarrow> (\<exists>w d. f (dwal s) (dwal_dir s) = (None, w, d) \<and> s' = s\<lparr>dwal := w, dwal_dir := d\<rparr>)"
  by (auto simp: on_wal_def split: option.splits prod.splits)

text \<open>The end of an operation on the database.\<close>

lemma applied_inv:
  assumes inv: "dur_inv ops cfg s" and r: "r \<in> flying s" and run: "db_run ops cfg db A' P' (ids s)"
    and A': "canon A' = eff r (canon (held s))" and P': "\<And>p. p \<in> P' \<Longrightarrow> p \<in> dpend s \<and> pext p \<noteq> ext_id r"
  shows "dur_inv ops cfg ((applied_op r A' s)\<lparr>obj := (obj s)\<lparr>ddb := db\<rparr>, dpend := P'\<rparr>)"
proof -
  note D = dur_invD [OF inv]
  have un: "flying s - {r} \<union> insert r (finishing s) = flying s \<union> finishing s" using r by blast
  show ?thesis using D run flight_ok_apply [OF D(6) r A' P'] un
    by (intro dur_invI) (simp_all add: applied_op_def wal_of_def)
qed

lemma flying_unique: "flight_ok hs F G P A I n \<Longrightarrow> r \<in> F \<Longrightarrow> q \<in> F \<Longrightarrow> ext_id r = ext_id q \<Longrightarrow> r = q"
  by (auto simp: flight_ok_def inj_on_def)

lemma flying_valid: "dur_inv ops cfg s \<Longrightarrow> r \<in> flying s \<Longrightarrow> \<exists>C. valid_record cfg C r"
  using flight_okD(2) [OF dur_invD(6)] log_okD(2) [OF dur_invD(4)] valid_history_member by blast

lemma no_pending:
  assumes "flight_ok hs F G P A I n" and "r \<in> F" and "rtype r \<noteq> rt_insert" and "rtype r \<noteq> rt_update"
  shows "ext_id r \<notin> pext ` P"
proof
  assume "ext_id r \<in> pext ` P"
  then obtain p where "p \<in> P" "ext_id r = pext p" by blast
  then show False using flight_okD(9) [OF assms(1), of p] flying_unique [OF assms(1,2)] assms(3,4) by (auto split: if_splits)
qed

lemma apply_remove_inv:
  assumes inv: "dur_inv ops cfg s" and r: "r \<in> flying s" "rtype r = rt_delete"
    and a: "on_db (vdb_remove (ext_id r)) (obj s) = Some (Inr b, o1)"
  shows "dur_inv ops cfg ((applied_op r ((held s)(ext_id r := None)) s)\<lparr>obj := o1\<rparr>)"
proof -
  note D = dur_invD [OF inv]
  obtain db where a': "vdb_remove (ext_id r) (ddb (obj s)) = Some (Inr b, db)" "o1 = (obj s)\<lparr>ddb := db\<rparr>" using a by (auto simp: method_simps)
  have ty: "rtype r \<noteq> rt_insert" "rtype r \<noteq> rt_update" "rtype r \<noteq> rt_set_meta"
    using r(2) by (simp_all add: rt_delete_def rt_insert_def rt_update_def rt_set_meta_def)
  note np = no_pending [OF D(6) r(1) ty(1,2)]
  have "dur_inv ops cfg ((applied_op r ((held s)(ext_id r := None)) s)\<lparr>obj := (obj s)\<lparr>ddb := db\<rparr>, dpend := dpend s\<rparr>)"
    by (rule applied_inv [OF inv r(1) db_remove [OF D(5) np a'(1)]]) (use np ty r(2) in \<open>auto simp: eff_def intro: image_eqI [OF sym]\<close>)
  then show ?thesis using a'(2) by (simp add: applied_op_def)
qed

lemma apply_set_inv:
  assumes inv: "dur_inv ops cfg s" and r: "r \<in> flying s" "rtype r = rt_set_meta" and rec: "canon_meta rec = meta r" "record_fits (vmeta (ddb (obj s))) rec"
    and a: "on_db (vdb_set_metadata (ext_id r) rec) (obj s) = Some (Inr b, o1)"
  shows "dur_inv ops cfg ((applied_op r (set_record (ext_id r) rec (held s)) s)\<lparr>obj := o1\<rparr>)"
proof -
  note D = dur_invD [OF inv]
  obtain db where a': "vdb_set_metadata (ext_id r) rec (ddb (obj s)) = Some (Inr b, db)" "o1 = (obj s)\<lparr>ddb := db\<rparr>" using a by (auto simp: method_simps)
  have ty: "rtype r \<noteq> rt_insert" "rtype r \<noteq> rt_update" using r(2) by (simp_all add: rt_insert_def rt_update_def rt_set_meta_def)
  note np = no_pending [OF D(6) r(1) ty]
  have "dur_inv ops cfg ((applied_op r (set_record (ext_id r) rec (held s)) s)\<lparr>obj := (obj s)\<lparr>ddb := db\<rparr>, dpend := dpend s\<rparr>)"
    by (rule applied_inv [OF inv r(1) db_set [OF D(5) rec(2) np a'(1)]]) (use np ty r(2) rec(1) in \<open>auto simp: eff_def intro: image_eqI [OF sym]\<close>)
  then show ?thesis using a'(2) by (simp add: applied_op_def)
qed

text \<open>The critical sections before the last keep the contents.\<close>

lemma pend_inv:
  assumes inv: "dur_inv ops cfg s" and r: "r \<in> flying s" and run: "db_run ops cfg db (held s) (insert p (dpend s)) (ids s)"
    and p: "ext_id r = pext p" "vec r = pvec p" "meta r = canon_meta (prec p)" "rtype r = (if pold p = None then rt_insert else rt_update)"
  shows "dur_inv ops cfg (s\<lparr>obj := (obj s)\<lparr>ddb := db\<rparr>, dpend := insert p (dpend s)\<rparr>)"
  using dur_invD [OF inv] run flight_ok_pend [OF dur_invD(6) [OF inv] r p] by (intro dur_invI) (simp_all add: wal_of_def)

lemma allocate_inv:
  assumes inv: "dur_inv ops cfg s" and r: "r \<in> flying s" "rtype r = rt_insert" "ext_id r \<notin> pext ` dpend s"
    and v: "take (vdim cfg) v = vec r" "canon_meta rec = meta r" "record_fits (vmeta (ddb (obj s))) rec"
    and a: "on_db (insert_allocate ops (ext_id r) v rec) (obj s) = Some (Inr iid, o1)"
  shows "dur_inv ops cfg (s\<lparr>obj := o1, dpend := insert \<lparr>pext = ext_id r, pvec = vec r, prec = rec, pnode = iid, pold = None\<rparr> (dpend s)\<rparr>)"
proof -
  note D = dur_invD [OF inv]
  obtain db where a': "insert_allocate ops (ext_id r) v rec (ddb (obj s)) = Some (Inr iid, db)" "o1 = (obj s)\<lparr>ddb := db\<rparr>" using a by (auto simp: method_simps)
  have "ext_id r \<noteq> -1" using flying_valid [OF inv r(1)] r(2) by (auto simp: valid_record_def)
  moreover have "held s (ext_id r) = None" using flight_okD(7) [OF D(6) r(1)] r(2) by simp
  moreover have "insert (ext_id r) (ids s) = ids s" using flight_okD(5) [OF D(6)] r(1) by (simp add: insert_absorb image_subset_iff)
  ultimately have "db_run ops cfg db (held s) (insert \<lparr>pext = ext_id r, pvec = vec r, prec = rec, pnode = iid, pold = None\<rparr> (dpend s)) (ids s)"
    using db_allocate [OF D(5) v(3) _ _ r(3) a'(1)] v(1) by simp
  from pend_inv [OF inv r(1) this] show ?thesis using v r(2) a'(2) by simp
qed

lemma reallocate_inv:
  assumes inv: "dur_inv ops cfg s" and r: "r \<in> flying s" "rtype r = rt_update" "ext_id r \<notin> pext ` dpend s"
    and v: "take (vdim cfg) v = vec r" "canon_meta rec = meta r" "record_fits (vmeta (ddb (obj s))) rec"
    and a: "on_db (update_allocate ops (ext_id r) v (Some rec)) (obj s) = Some (Inr (Some (new, old)), o1)"
  shows "dur_inv ops cfg (s\<lparr>obj := o1, dpend := insert \<lparr>pext = ext_id r, pvec = vec r, prec = rec, pnode = new, pold = Some old\<rparr> (dpend s)\<rparr>)"
proof -
  note D = dur_invD [OF inv]
  obtain db where a': "update_allocate ops (ext_id r) v (Some rec) (ddb (obj s)) = Some (Inr (Some (new, old)), db)" "o1 = (obj s)\<lparr>ddb := db\<rparr>"
    using a by (auto simp: method_simps)
  have "rtype r \<noteq> rt_insert" using r(2) by (simp add: rt_insert_def rt_update_def)
  then obtain w rec0 where "held s (ext_id r) = Some (w, rec0)" using flight_okD(7) [OF D(6) r(1)] by auto
  then have "db_run ops cfg db (held s) (insert \<lparr>pext = ext_id r, pvec = vec r, prec = rec, pnode = new, pold = Some old\<rparr> (dpend s)) (ids s)"
    using db_reallocate [OF D(5) _ _ r(3) a'(1)] v(1,3) by (simp add: update_record_def)
  from pend_inv [OF inv r(1) this] show ?thesis using v r(2) a'(2) by simp
qed

lemma link_inv:
  assumes inv: "dur_inv ops cfg s" and p: "p \<in> dpend s" and a: "on_db (link_node ops (pnode p)) (obj s) = Some (Inr (), o1)"
  shows "dur_inv ops cfg (s\<lparr>obj := o1\<rparr>)"
  using dur_invD [OF inv] db_link [OF dur_invD(5) [OF inv] p] a by (auto simp: method_simps wal_of_def intro!: dur_invI)

text \<open>What a row reads as is a record that could be written.\<close>

lemma get_row_valid:
  assumes ok: "store_ok schema m L P E" and rid: "rid < mrows m"
  shows "valid_meta schema (get_row m rid)"
proof -
  note O = store_okD [OF ok]
  have len: "length (attrs (get_row m rid)) = length schema" by (simp add: get_row_def O(3))
  have at: "attrs (get_row m rid) ! a = get_value (mcolumns m ! a) rid" if "a < length schema" for a
    using that by (simp add: get_row_def read_attr_def O(3))
  have ty: "vtype (get_value (mcolumns m ! a) rid) = Null \<or> vtype (get_value (mcolumns m ! a) rid) = attr_kind (schema ! a)" if "a < length schema" for a
    using O(9) [OF that] by (auto simp: get_value_def attr_null_def attr_tag_def attr_text_def)
  have "raw (get_value (mcolumns m ! a) rid) = 0 \<or> raw (get_value (mcolumns m ! a) rid) = 1"
    if a: "a < length schema" "vtype (get_value (mcolumns m ! a) rid) = Bool" for a
  proof -
    let ?c = "mcolumns m ! a"
    note C = col_invD(1,2) [OF O(8) [OF a(1)]]
    have b: "cpresent ?c ! rid" "ctype ?c = Bool" "raw (get_value ?c rid) = cdata ?c ! rid"
      using a(2) by (auto simp: get_value_def attr_null_def attr_tag_def attr_text_def split: if_splits)
    then have "unat (ucast (cdata ?c ! rid) :: u32) < 2" "ucast (ucast (cdata ?c ! rid) :: u32) = cdata ?c ! rid"
      using C rid by (auto simp: rows_ok_def dict_ok_def row_codes_def cell_ok_def)
    moreover have "k = 0 \<or> k = 1" if "unat k < 2" for k :: u32
      using that by (simp add: word_unat_eq_iff less_2_cases_iff)
    ultimately have "cdata ?c ! rid = 0 \<or> cdata ?c ! rid = 1" by (metis unsigned_0 unsigned_1)
    then show ?thesis using b(3) by simp
  qed
  then have "\<forall>v \<in> set (attrs (get_row m rid)). vtype v = Bool \<longrightarrow> raw v = 0 \<or> raw v = 1"
    using at len by (metis in_set_conv_nth)
  moreover have "validate schema (get_row m rid) = None"
    using validate_attrs_iff [OF len] ty at len by (auto simp: validate_def)
  ultimately show ?thesis by (simp add: valid_meta_def)
qed

text \<open>The parts that do not touch the database.\<close>

lemma finish_inv:
  assumes inv: "dur_inv ops cfg s" and r: "r \<in> finishing s" and a: "finish_op (obj s) = Some (Inr (), o1)"
  shows "dur_inv ops cfg (s\<lparr>obj := o1, finishing := finishing s - {r}\<rparr>)"
proof -
  note D = dur_invD [OF inv]
  have "stage_ok (stage s) (flying s \<union> (finishing s - {r})) (covered s)" using D(8) by (auto simp: stage_ok_def split: ckpt.splits)
  then show ?thesis using D flight_ok_finish [OF D(6) r] a
    by (intro dur_invI) (auto simp: finish_op_def modify_def wal_of_def)
qed

lemma sync_begin_step:
  assumes inv: "dur_inv ops cfg s" and a: "sync_begin (dwal (obj s)) = Inr p"
  shows "wal_inv ((wal_of s)\<lparr>wpend := p # spend s\<rparr>)"
  using wal_inv_sync_begin [OF dur_invD(2) [OF inv]] a by (auto simp: wal_of_def)

lemma start_sync_inv:
  assumes inv: "dur_inv ops cfg s" and a: "start_sync (obj s) = Some (Inr p, o1)"
  shows "dur_inv ops cfg (s\<lparr>obj := o1\<lparr>syncing := b\<rparr>, spend := p # spend s\<rparr>)"
  using dur_invD [OF inv] sync_begin_step [OF inv, of p] a by (intro dur_invI) (auto simp: start_sync_def wal_of_def)

text \<open>What a completed sync covers is durable, below the next lsn.\<close>

lemma end_sync_step:
  assumes W: "wal_inv w" and L: "log_ok cfg hs (whist w) (wacked w) b u l nx dl" and p: "p \<in> set (wpend w)"
  shows "wal_inv (w\<lparr>wdir := fsync (wdir w) (fst p), wpend := remove1 p (wpend w), wacked := wacked w \<union> {r \<in> set (whist w). lsn r \<le> snd p}\<rparr>)"
    "log_ok cfg hs (whist w) (wacked w \<union> {r \<in> set (whist w). lsn r \<le> snd p}) b u l nx (max dl (snd p))"
proof -
  show "wal_inv (w\<lparr>wdir := fsync (wdir w) (fst p), wpend := remove1 p (wpend w), wacked := wacked w \<union> {r \<in> set (whist w). lsn r \<le> snd p}\<rparr>)"
    by (rule wal_inv_sync_end [OF W p]) (simp add: sync_end_def)
  note R = log_okD [OF L]
  obtain ss Rss sg rs k n where "wal_inv_for w ss Rss sg rs k n" using W by (auto simp: wal_inv_def)
  then have "snd p \<le> max_all 0 (whist w)" using p by (auto simp: wal_inv_for_def Wal_Spec.pend_ok_def)
  also have "\<dots> < nx" by (rule max_all_less [OF _ R(4)]) (rule order_le_less_trans [OF _ R(7)], simp)
  finally have "max dl (snd p) < nx" using R(8) by simp
  moreover have "r \<in> set (whist w)" if "r \<in> set hs" "l < lsn r" for r
  proof -
    have "r \<in> set (filter (\<lambda>r. l < lsn r) hs)" using that by simp
    then show ?thesis unfolding R(5) [symmetric] by simp
  qed
  then have "\<forall>r \<in> set hs. lsn r \<le> max dl (snd p) \<longrightarrow> l < lsn r \<longrightarrow> b < lsn r \<longrightarrow> r \<in> wacked w \<union> {r \<in> set (whist w). lsn r \<le> snd p}"
    using R(9) by (auto simp: le_max_iff_disj)
  moreover have "b \<le> max dl (snd p)" using R(10) by (simp add: le_max_iff_disj)
  ultimately show "log_ok cfg hs (whist w) (wacked w \<union> {r \<in> set (whist w). lsn r \<le> snd p}) b u l nx (max dl (snd p))"
    using R unfolding log_ok_def by blast
qed

lemma raise_durable_simps [simp]:
  "durable_lsn (raise_durable t o1) = max (durable_lsn o1) t" "dconfig (raise_durable t o1) = dconfig o1" "ddb (raise_durable t o1) = ddb o1"
  "dwal (raise_durable t o1) = dwal o1" "dwal_dir (raise_durable t o1) = dwal_dir o1" "dhome (raise_durable t o1) = dhome o1"
  "next_lsn (raise_durable t o1) = next_lsn o1" "in_flight (raise_durable t o1) = in_flight o1"
  by (auto simp: raise_durable_def max_def)

lemma end_sync_inv:
  assumes inv: "dur_inv ops cfg s" and p: "p \<in> set (spend s)" and a: "end_sync p (obj s) = Some (Inr t, o1)"
  shows "dur_inv ops cfg ((synced_to p s)\<lparr>obj := (raise_durable t o1)\<lparr>syncing := b, last_sync := now\<rparr>\<rparr>)"
proof -
  note D = dur_invD [OF inv]
  have o1: "t = snd p" "o1 = (obj s)\<lparr>dwal_dir := fsync (dwal_dir (obj s)) (fst p)\<rparr>" using a by (auto simp: end_sync_def sync_end_def)
  have "log_ok cfg (logged s) (whist (wal_of s)) (wacked (wal_of s)) (since s) (supto s) (covered s) (next_lsn (obj s)) (durable_lsn (obj s))"
    using D(4) by (simp add: wal_of_def)
  note E = end_sync_step [OF D(2) this, of p]
  show ?thesis using D E p by (intro dur_invI) (simp_all add: synced_to_def o1 wal_of_def)
qed

lemma write_tmp_other: "h \<in> set (write_stages d path bs) \<Longrightarrow> map_of h path = map_of d path"
  by (auto simp: write_stages_def tmp_path_def Let_def write_at_def fsync_def update_conv' split: option.splits)

lemma write_tmp_inv:
  assumes inv: "dur_inv ops cfg s" and h: "h \<in> set (write_stages (dhome (obj s)) snapshot_path bs)"
  shows "dur_inv ops cfg (s\<lparr>obj := (obj s)\<lparr>dhome := h\<rparr>\<rparr>)"
  using dur_invD [OF inv] write_tmp_other [OF h] by (intro dur_invI) (simp_all add: wal_of_def snap_ok_def)

section \<open>Checkpoints\<close>

lemma write_file_atomic_new: "map_of (write_file_atomic d path b) path = Some \<lparr>fdata = b, fdurable = length b\<rparr>"
proof -
  let ?t = "tmp_path path"
  have "map_of (last (write_stages d path b)) ?t = Some \<lparr>fdata = b, fdurable = length b\<rparr>"
    by (simp add: write_stages_def Let_def write_at_def fsync_def update_conv')
  then show ?thesis by (simp add: write_file_atomic_def rename_file_def update_conv')
qed

lemma save_inv:
  assumes inv: "dur_inv ops cfg s" and c: "stage s = Idle" "in_flight (obj s) = 0" "l = next_lsn (obj s) - 1" "snapshot_fits (ddb (obj s))"
    and a: "save_home ops l (obj s) = Some (Inr (), o1)"
  shows "dur_inv ops cfg (s\<lparr>obj := o1, covered := l, snap_held := held s, snap_ids := ids s, stage := Saved l\<rparr>)"
proof -
  note D = dur_invD [OF inv] and L = log_okD [OF dur_invD(4) [OF inv]]
  have Z: "flying s = {}" "finishing s = {}" "dpend s = {}" "canon (held s) = contents_after (logged s)"
    using flight_ok_zero [OF _ D(4)] D(6) c(2) by auto
  have nx: "next_lsn (obj s) \<noteq> 0" using L(7) by auto
  have le: "x \<le> l \<longleftrightarrow> x < next_lsn (obj s)" for x unfolding c(3) by (rule le_pred_iff [OF nx])
  have all: "\<forall>r \<in> set (logged s). lsn r \<le> l" using L(3) le by simp
  have none: "filter (\<lambda>r. l < lsn r) (shist s) = []" "filter (\<lambda>r. l < lsn r) (logged s) = []"
    using L(3,4) le by (auto simp: filter_empty_conv not_less)
  have cov: "covered s \<le> l" using L(7) le by simp
  have "log_ok cfg (logged s) (shist s) (sacked s) (since s) (supto s) l (next_lsn (obj s)) (durable_lsn (obj s))"
    using L none le [of l] all cov unfolding log_ok_def by (auto simp: not_less)
  moreover have "snap_ok ops cfg (write_file_atomic (dhome (obj s)) snapshot_path (save_snapshot ops (ddb (obj s)) l)) l (held s) (ids s) (logged s)"
    using D(5) Z c(4) all by (auto simp: snap_ok_def write_file_atomic_new filter_id_conv)
  ultimately show ?thesis using D Z a by (intro dur_invI) (auto simp: save_home_def modify_def wal_of_def stage_ok_def)
qed

lemma mark_inv:
  assumes inv: "dur_inv ops cfg s" and c: "stage s = Saved l" and space: "log_space (obj s)" and a: "log_checkpoint (obj s) = Some (Inr (), o1)"
  defines "r \<equiv> \<lparr>rtype = rt_checkpoint, lsn = next_lsn (obj s), ext_id = snapshot_id (obj s), vec = [], meta = empty_meta\<rparr>"
  shows "dur_inv ops cfg ((add_record r s)\<lparr>obj := o1, stage := Marked l\<rparr>)"
proof -
  note D = dur_invD [OF inv]
  obtain w d where w: "append_wal r (dwal (obj s)) (dwal_dir (obj s)) = (None, w, d)"
    and o1: "o1 = (obj s)\<lparr>next_lsn := next_lsn (obj s) + 1, snapshot_id := snapshot_id (obj s) + 1, dwal := w, dwal_dir := d\<rparr>"
    using a by (auto simp: log_checkpoint_def Let_def method_simps r_def)
  have ok: "record_ok (canon_record r)"
    by (simp add: r_def record_ok_def encode_body_parts carries_vector_def carries_meta_def canon_record_def empty_meta_def
        rt_checkpoint_def rt_insert_def rt_update_def rt_set_meta_def)
  have "canon_record r = r" by (simp add: r_def canon_record_def empty_meta_def canon_meta_def)
  moreover have "valid_record cfg (contents_after (logged s)) (canon_record r)"
    by (rule valid_record_new [OF inv ok])
      (simp_all add: r_def carries_vector_def carries_meta_def rt_checkpoint_def rt_insert_def rt_update_def rt_set_meta_def)
  ultimately have v: "valid_record cfg (contents_after (logged s)) r" "lsn r = next_lsn (obj s)" by (simp_all only:, simp add: r_def)
  note A = append_step [OF inv space v w]
  have "flight_ok (logged s @ [r]) (flying s) (finishing s) (dpend s) (held s) (ids s) (in_flight (obj s))"
    by (rule flight_ok_mark [OF D(6)]) (simp add: r_def)
  then show ?thesis using D A c by (intro dur_invI) (simp_all add: add_record_def o1 wal_of_def stage_ok_def)
qed

lemma mark_sync_inv:
  assumes inv: "dur_inv ops cfg s" and c: "stage s = Marked l" and a: "start_sync (obj s) = Some (Inr p, o1)" "end_sync p o1 = Some (Inr t, o2)"
  shows "dur_inv ops cfg ((synced_to p s)\<lparr>obj := o2, stage := Synced l\<rparr>)"
proof -
  note D = dur_invD [OF inv]
  have p: "sync_begin (dwal (obj s)) = Inr p" "o1 = obj s" using a(1) by (auto simp: start_sync_def)
  have o2: "o2 = (obj s)\<lparr>dwal_dir := fsync (dwal_dir (obj s)) (fst p)\<rparr>" using a(2) by (auto simp: p(2) end_sync_def sync_end_def)
  let ?w = "(wal_of s)\<lparr>wpend := p # spend s\<rparr>"
  have "log_ok cfg (logged s) (whist ?w) (wacked ?w) (since s) (supto s) (covered s) (next_lsn (obj s)) (durable_lsn (obj s))"
    using D(4) by (simp add: wal_of_def)
  note E = end_sync_step [OF sync_begin_step [OF inv p(1)] this, of p]
  have W: "wal_inv (wal_of ((synced_to p s)\<lparr>obj := o2, stage := Synced l\<rparr>))"
  proof (cases "p \<in> set (spend s)")
    case True
    have L: "log_ok cfg (logged s) (whist (wal_of s)) (wacked (wal_of s)) (since s) (supto s) (covered s) (next_lsn (obj s)) (durable_lsn (obj s))"
      using D(4) by (simp add: wal_of_def)
    show ?thesis using end_sync_step(1) [OF D(2) L, of p] True by (simp add: wal_of_def synced_to_def o2)
  next
    case False
    then show ?thesis using E(1) by (simp add: wal_of_def synced_to_def o2 remove1_idem)
  qed
  have "log_ok cfg (logged s) (shist s) (sacked s \<union> {r \<in> set (shist s). lsn r \<le> snd p}) (since s) (supto s) (covered s) (next_lsn (obj s)) (durable_lsn (obj s))"
    using D(4) unfolding log_ok_def by blast
  then show ?thesis using D W c by (intro dur_invI) (simp_all add: synced_to_def o2 stage_ok_def)
qed

lemma release_inv:
  assumes inv: "dur_inv ops cfg s" and c: "stage s = Synced l" and a: "on_wal (truncate_wal l) (obj s) = Some (Inr (), o1)"
    "end_checkpoint now l o1 = Some (Inr (), o2)"
  shows "dur_inv ops cfg (s\<lparr>obj := o2, supto := max (supto s) l, stage := Idle\<rparr>)"
proof -
  note D = dur_invD [OF inv] and L = log_okD [OF dur_invD(4) [OF inv]]
  have l: "l = covered s" using D(8) c by (simp add: stage_ok_def)
  obtain w d where w: "truncate_wal l (dwal (obj s)) (dwal_dir (obj s)) = (None, w, d)" "o1 = (obj s)\<lparr>dwal := w, dwal_dir := d\<rparr>"
    using a(1) by (auto simp: method_simps)
  have o2: "o2 = o1\<lparr>durable_lsn := max (durable_lsn o1) l, last_sync := now\<rparr>" using a(2) by (auto simp: end_checkpoint_def modify_def)
  have "wal_inv ((wal_of s)\<lparr>wlog := w, wdir := d, wupto := max (supto s) l\<rparr>)"
    using wal_inv_truncate [OF D(2), of l] w(1) by (auto simp: wal_of_def)
  moreover have "log_ok cfg (logged s) (shist s) (sacked s) (since s) (max (supto s) l) (covered s) (next_lsn (obj s)) (max (durable_lsn (obj s)) l)"
    using L l unfolding log_ok_def by (auto simp: le_max_iff_disj not_less)
  moreover have "conf_ok cfg w" using truncate_conf [OF w(1)] D(3) by simp
  ultimately show ?thesis using D by (intro dur_invI) (simp_all add: o2 w(2) wal_of_def stage_ok_def)
qed

section \<open>The steps that rest on the database\<close>

context database_index begin

lemma publish_inv:
  assumes inv: "dur_inv ops cfg s" and d: "vdim cfg = d" and p: "p \<in> dpend s" and r: "r \<in> flying s" "ext_id r = pext p"
    and a: "on_db (case pold p of None \<Rightarrow> insert_publish (pext p) (pnode p) | Some old \<Rightarrow> update_publish (pext p) (pnode p) old) (obj s) = Some (Inr (), o1)"
  shows "dur_inv ops cfg ((applied_op r ((held s)(pext p \<mapsto> (pvec p, prec p))) s)\<lparr>obj := o1, dpend := dpend s - {p}\<rparr>)"
proof -
  note D = dur_invD [OF inv]
  obtain db where a': "(case pold p of None \<Rightarrow> insert_publish (pext p) (pnode p) | Some old \<Rightarrow> update_publish (pext p) (pnode p) old) (ddb (obj s)) = Some (Inr (), db)"
    "o1 = (obj s)\<lparr>ddb := db\<rparr>" using a by (auto simp: method_simps)
  have run: "db_run ops cfg db ((held s)(pext p \<mapsto> (pvec p, prec p))) (dpend s - {p}) (ids s)"
  proof (cases "pold p")
    case None
    then show ?thesis using db_publish [OF D(5) p None] a'(1) by simp
  next
    case (Some old)
    then show ?thesis using db_republish [OF D(5) p Some] a'(1) by simp
  qed
  obtain q where q: "q \<in> flying s" "ext_id q = pext p" "vec q = pvec p" "meta q = canon_meta (prec p)"
    "rtype q = (if pold p = None then rt_insert else rt_update)" using flight_okD(9) [OF D(6) p] by blast
  have "q = r" using flying_unique [OF D(6) q(1) r(1)] q(2) r(2) by simp
  then have eff: "canon ((held s)(pext p \<mapsto> (pvec p, prec p))) = eff r (canon (held s))"
    using q flight_okD(7) [OF D(6) r(1)] by (auto simp: eff_def rt_insert_def rt_update_def split: if_splits)
  have inj: "inj_on pext (dpend s)" using db_run_ok [OF D(5) d] by (auto simp: db_ok_def Vdb_Run.pend_ok_def)
  show ?thesis unfolding a'(2) by (rule applied_inv [OF inv r(1) run eff]) (use p r(2) inj in \<open>auto simp: inj_on_def\<close>)
qed

lemma reserve_inv:
  assumes inv: "dur_inv ops cfg s" and room: "next_ext_id (ddb (obj s)) \<noteq> -1" and a: "reserve_id (ddb (obj s)) = Some (Inr ext, db)"
  shows "dur_inv ops cfg (s\<lparr>obj := (obj s)\<lparr>ddb := db\<rparr>, ids := insert ext (ids s)\<rparr>)"
  using dur_invD [OF inv] db_reserve [OF dur_invD(5) [OF inv] room a] flight_ok_ids [OF dur_invD(6) [OF inv], of "insert ext (ids s)"]
  by (intro dur_invI) (simp_all add: wal_of_def subset_insertI)

lemma insert_prefix_inv:
  assumes inv: "dur_inv ops cfg s" and d: "vdim cfg = d" and c: "stage s = Idle" "log_space (obj s)" "next_ext_id (ddb (obj s)) \<noteq> -1"
    and m: "valid_meta (vschema cfg) rec" and a: "insert_prefix v rec (obj s) = Some (Inr (ext, l, b), o1)"
    and r: "r = canon_record \<lparr>rtype = rt_insert, lsn = l, ext_id = ext, vec = take (vdim cfg) v, meta = rec\<rparr>" "record_ok r"
  shows "dur_inv ops cfg ((start_op r s)\<lparr>obj := o1, ids := insert ext (ids s)\<rparr>)"
proof -
  note D = dur_invD [OF inv]
  let ?mk = "\<lambda>l. \<lparr>rtype = rt_insert, lsn = l, ext_id = ext, vec = take (vdim cfg) v, meta = rec\<rparr>"
  obtain db where db: "reserve_id (ddb (obj s)) = Some (Inr ext, db)" and log: "log_op ?mk ((obj s)\<lparr>ddb := db\<rparr>) = Some (Inr (l, b), o1)"
    using a D(1) by (auto simp: insert_prefix_def method_simps)
  let ?s = "s\<lparr>obj := (obj s)\<lparr>ddb := db\<rparr>, ids := insert ext (ids s)\<rparr>"
  have ext: "ext = next_ext_id (ddb (obj s))" using db by (simp add: reserve_id_def)
  note F = fresh_id [OF D(5) d, folded ext]
  have nf: "ext \<notin> ext_id ` flying s" using F flight_okD(5) [OF D(6)] by blast
  then have "contents_after (logged s) ext = canon (held s) ext" by (rule flight_okD(8) [OF D(6)])
  then have none: "contents_after (logged s) ext = None" using F by simp
  have l: "l = next_lsn (obj s)" using log_op_run [OF log] by simp
  have inv': "dur_inv ops cfg ?s" by (rule reserve_inv [OF inv c(3) db])
  have "valid_record cfg (contents_after (logged ?s)) (canon_record (?mk (next_lsn (obj ?s))))"
    by (rule valid_record_new [OF inv']) (use r l m none c(3) ext in \<open>simp_all\<close>)
  then have "dur_inv ops cfg ((start_op (canon_record (?mk l)) ?s)\<lparr>obj := o1\<rparr>)"
    by (intro start_op_inv [OF inv', where b = b]) (use c log nf F in \<open>simp_all add: log_space_def\<close>)
  moreover have "(start_op (canon_record (?mk l)) ?s)\<lparr>obj := o1\<rparr> = (start_op r s)\<lparr>obj := o1, ids := insert ext (ids s)\<rparr>"
    by (cases s) (simp add: r(1) start_op_def add_record_def)
  ultimately show ?thesis by simp
qed

text \<open>The other three prefixes are on an id that the database has.\<close>

lemma held_id:
  assumes inv: "dur_inv ops cfg s" and d: "vdim cfg = d" and x: "contains (ddb (obj s)) ext"
  shows "ext \<in> ids s" "held s ext \<noteq> None"
proof -
  note D = dur_invD [OF inv]
  show h: "held s ext \<noteq> None" using lookup [OF D(5) d, of ext] x by auto
  then show "ext \<in> ids s" using db_run_ok [OF D(5) d] by (auto simp: db_ok_def ids_ok_def)
qed

lemma prefix_inv:
  assumes inv: "dur_inv ops cfg s" and d: "vdim cfg = d" and c: "stage s = Idle" "log_space (obj s)"
    and x: "contains (ddb (obj s)) ext" "ext \<notin> ext_id ` flying s" and run: "log_op mk (obj s) = Some (Inr (l, b), o1)"
    and mk: "\<And>l. lsn (mk l) = l" "\<And>l. ext_id (mk l) = ext" "\<And>l. rtype (mk l) \<noteq> rt_insert"
    and ok: "record_ok (canon_record (mk l))" "carries_meta (rtype (mk l)) \<Longrightarrow> valid_meta (vschema cfg) (meta (mk l))" "length (vec (mk l)) \<le> vdim cfg"
  shows "dur_inv ops cfg ((start_op (canon_record (mk l)) s)\<lparr>obj := o1\<rparr>)"
proof -
  have l: "l = next_lsn (obj s)" using log_op_run [OF run] by simp
  have "valid_record cfg (contents_after (logged s)) (canon_record (mk l))"
    by (rule valid_record_new [OF inv ok(1)]) (use mk ok l in simp_all)
  then show ?thesis
    using held_id [OF inv d x(1)] x(2) mk l by (intro start_op_inv [OF inv c _ _ run]) simp_all
qed

lemma metadata_valid:
  assumes inv: "dur_inv ops cfg s" and d: "vdim cfg = d" and x: "get_metadata (ddb (obj s)) ext = Some rec"
  shows "valid_meta (vschema cfg) rec"
proof -
  obtain rows Q E where R: "arrays_ok cfg (ddb (obj s)) rows Q E" using db_run_ok [OF dur_invD(5) [OF inv] d] by (auto simp: db_ok_def)
  note S = store_run_ok [OF arrays_okD(6) [OF R]]
  obtain i where i: "ext_to_int (ddb (obj s)) ext = Some i" "rec = get_row (vmeta (ddb (obj s))) i" using x by (auto simp: get_metadata_def)
  then have "i < mrows (vmeta (ddb (obj s)))"
    using arrays_ok_ext [OF R] is_live_less [of "deleted (ddb (obj s))" i] arrays_okD(2,4) [OF R] S by (simp add: rows_read_def)
  then show ?thesis unfolding i(2) using S get_row_valid by blast
qed

end

end
