(* ===== verification/Durable_Recovery.thy ===== *)
theory Durable_Recovery
  imports Durable_Inv
begin

text \<open>
  Recovery of the durable database: what the constructor rebuilds from a snapshot and the tail
  of the log, after any crash, satisfies the invariant; so it holds in every reachable state.
\<close>

section \<open>Applying a logged record\<close>

lemma fits_of_valid:
  assumes ok: "store_ok schema m L P E" and v: "valid_meta schema rec" and room: "dict_room m rec"
  shows "record_fits m rec"
proof -
  note O = store_okD [OF ok]
  have val: "validate schema rec = None" and b: "\<forall>v \<in> set (attrs rec). vtype v = Bool \<longrightarrow> raw v = 0 \<or> raw v = 1" using v by (simp_all add: valid_meta_def)
  have "value_fits (mcolumns m ! a) (attr_at rec a)" if a: "a < length schema" for a
  proof (cases "attr_at rec a")
    case (Some x)
    then have x: "attrs rec \<noteq> []" "x = attrs rec ! a" "vtype x \<noteq> Null" by (auto simp: attr_at_def split: if_splits)
    then have len: "length (attrs rec) = length schema" and "validate_attrs schema (attrs rec) = None" using val by (auto simp: validate_def split: if_splits)
    then have "vtype x = attr_kind (schema ! a)" using validate_attrs_iff [OF len] a x by auto
    moreover have "x \<in> set (attrs rec)" using x a len by simp
    ultimately show ?thesis using O(9) [OF a] b room a O(3) Some by (simp add: value_fits_def dict_room_def Let_def)
  qed (simp add: value_fits_def)
  then show ?thesis using val O(1,3) by (simp add: record_fits_def)
qed

fun valid_from :: "vdb_config \<Rightarrow> contents \<Rightarrow> wal_record list \<Rightarrow> bool" where
  "valid_from cfg C [] \<longleftrightarrow> True"
| "valid_from cfg C (r # rs) \<longleftrightarrow> valid_record cfg C r \<and> valid_from cfg (eff r C) rs"

lemma valid_from_history: "valid_history cfg (xs @ ys) \<Longrightarrow> valid_from cfg (contents_after xs) ys"
proof (induction ys arbitrary: xs)
  case (Cons r ys)
  then have "valid_history cfg ((xs @ [r]) @ ys)" by simp
  from Cons.IH [OF this] valid_history_prefix [OF this] show ?case by simp
qed simp

lemma feed_none: "feed (replay_record ops l) None rs = Inr None"
  by (induction rs) (simp_all add: replay_record_def)

lemma feed_covered: "feed (replay_record ops l) st rs = feed (replay_record ops l) st (filter (\<lambda>r. l < lsn r) rs)"
proof (induction rs arbitrary: st)
  case (Cons r rs)
  have "replay_record ops l st r = Inr st" if "\<not> l < lsn r" using that by (simp add: replay_record_def split: option.split)
  then show ?case using Cons.IH by (auto split: sum.split)
qed simp

lemma inserted_ids_Nil [simp]: "inserted_ids [] = {}"
  by (simp add: inserted_ids_def)

lemma inserted_ids_Cons: "inserted_ids (r # rs) = inserted_ids [r] \<union> inserted_ids rs"
  by (auto simp: inserted_ids_def)

lemma inserted_ids_one: "inserted_ids [r] = (if rtype r = rt_insert then {ext_id r} else {})"
  by (auto simp: inserted_ids_def)

context database_index begin

lemma apply_record_run:
  assumes run: "db_run ops cfg db A {} I" and d: "vdim cfg = d" and v: "valid_record cfg (canon A) r" and room: "dict_room (vmeta db) (meta r)"
    and a: "apply_record ops r db = Some (Inr (), db')"
  shows "db_run ops cfg db' (eff r A) {} (I \<union> inserted_ids [r])"
proof -
  have tk: "take (vdim cfg) (vec r) = vec r" using v by (simp add: valid_record_def)
  obtain rows Q E where R: "arrays_ok cfg db rows Q E" "A = contents_of db rows" using db_run_ok [OF run d] by (auto simp: db_ok_def)
  have fits: "record_fits (vmeta db) (meta r)" if "carries_meta (rtype r)"
    using fits_of_valid store_run_ok [OF arrays_okD(6) [OF R(1)]] v that room by (auto simp: valid_record_def)
  consider "rtype r = rt_insert" | "rtype r = rt_update" "rtype r \<noteq> rt_insert" | "rtype r = rt_set_meta" "rtype r \<noteq> rt_insert" "rtype r \<noteq> rt_update"
    | "rtype r = rt_delete" "rtype r \<noteq> rt_insert" "rtype r \<noteq> rt_update" "rtype r \<noteq> rt_set_meta"
    | "rtype r \<notin> {rt_insert, rt_update, rt_set_meta, rt_delete}" by blast
  then show ?thesis
  proof cases
    case 1
    have f: "record_fits (vmeta db) (meta r)" using fits 1 by (simp add: carries_meta_def carries_vector_def)
    have ins: "insert_reserved ops (ext_id r) (vec r) (meta r) db = Some (Inr (), db')" using a 1 by (simp add: apply_record_def)
    have "db_run ops cfg db' (A(ext_id r \<mapsto> (take (vdim cfg) (vec r), meta r))) {} (insert (ext_id r) I)"
      by (rule reserved_run [OF run f _ _ _ ins]) (use v 1 in \<open>simp_all add: valid_record_def\<close>)
    then show ?thesis using 1 by (simp add: tk eff_def inserted_ids_one)
  next
    case 2
    have f: "\<forall>rec. Some (meta r) = Some rec \<longrightarrow> record_fits (vmeta db) rec" using fits 2 by (simp add: carries_meta_def carries_vector_def)
    obtain b where u: "vdb_update ops (ext_id r) (vec r) (Some (meta r)) db = Some (Inr b, db')" using a 2 by (auto simp: apply_record_def method_simps)
    show ?thesis using update_run [OF run d f _ u] 2 run d tk
      by (auto simp: eff_def inserted_ids_one update_record_def split: option.splits)
  next
    case 3
    have f: "record_fits (vmeta db) (meta r)" using fits 3 by (simp add: carries_meta_def)
    obtain b where "vdb_set_metadata (ext_id r) (meta r) db = Some (Inr b, db')" using a 3 by (auto simp: apply_record_def method_simps)
    from db_set [OF run f _ this] 3 show ?thesis by (simp add: eff_def inserted_ids_one)
  next
    case 4
    obtain b where "vdb_remove (ext_id r) db = Some (Inr b, db')" using a 4 by (auto simp: apply_record_def method_simps)
    from db_remove [OF run _ this] 4 show ?thesis by (simp add: eff_def inserted_ids_one)
  next
    case 5
    then have "db' = db" using a by (auto simp: apply_record_def method_simps)
    then show ?thesis using run 5 by (simp add: eff_def inserted_ids_one)
  qed
qed

lemma replay_run:
  assumes "db_run ops cfg db A {} I" and d: "vdim cfg = d" and "\<forall>r \<in> set rs. l < lsn r" and "valid_from cfg (canon A) rs" and "replay_room ops db rs"
    and "feed (replay_record ops l) (Some db) rs = Inr (Some db')"
  shows "db_run ops cfg db' (foldl (\<lambda>C r. eff r C) A rs) {} (I \<union> inserted_ids rs)"
  using assms(1,3-)
proof (induction rs arbitrary: db A I)
  case (Cons r rs)
  have room: "dict_room (vmeta db) (meta r)" using Cons.prems(4) by simp
  obtain db1 where a: "apply_record ops r db = Some (Inr (), db1)" and f: "feed (replay_record ops l) (Some db1) rs = Inr (Some db')"
  proof (cases "apply_record ops r db")
    case None
    then show ?thesis using Cons.prems(2,5) feed_none [of ops l rs] by (simp add: replay_record_def [of _ _ _ r])
  next
    case (Some x)
    then show ?thesis using Cons.prems(2,5) that by (cases x; cases "fst x") (simp_all add: replay_record_def [of _ _ _ r])
  qed
  have run: "db_run ops cfg db1 (eff r A) {} (I \<union> inserted_ids [r])"
    by (rule apply_record_run [OF Cons.prems(1) d _ room a]) (use Cons.prems(3) in simp)
  have "canon_record r = r" using Cons.prems(3) by (simp add: valid_record_def)
  then have "valid_from cfg (canon (eff r A)) rs" using Cons.prems(3) canon_eff [of r A] by simp
  from Cons.IH [OF run _ this _ f] Cons.prems(2,4) a show ?case by (simp add: Un_assoc inserted_ids_Cons [of r rs])
qed simp

section \<open>The snapshot after a crash\<close>

lemma load_home_run:
  assumes snap: "snap_ok ops cfg home l H J hs" and cr: "crashed home h" and d: "vdim cfg = d" and mk: "make_vdb ops cfg = Inr db0"
    and a: "load_home ops db0 h = Some (Inr (l', db1))"
  shows "l' = l \<and> db_run ops cfg db1 H {} J"
proof -
  consider "map_of home snapshot_path = None" "l = 0" "H = Map.empty" "J = {}"
    | db where "map_of home snapshot_path = Some \<lparr>fdata = save_snapshot ops db l, fdurable = length (save_snapshot ops db l)\<rparr>"
      "db_run ops cfg db H {} J" "snapshot_fits db"
    using snap by (auto simp: snap_ok_def)
  then show ?thesis
  proof cases
    case 1
    have "map_of h snapshot_path = None" using 1(1) crashed_names [OF cr] by (simp add: map_of_eq_None_iff flip: set_map)
    then show ?thesis using a 1 db_make [OF mk] by (simp add: load_home_def)
  next
    case 2
    obtain f where "map_of h snapshot_path = Some f" "crashed_file \<lparr>fdata = save_snapshot ops db l, fdurable = length (save_snapshot ops db l)\<rparr> f"
      using crashed_lookup [OF cr 2(1)] by blast
    then have "map_of h snapshot_path = Some \<lparr>fdata = save_snapshot ops db l, fdurable = length (save_snapshot ops db l)\<rparr>"
      using crashed_durable by simp
    then have load: "load_snapshot ops db0 (save_snapshot ops db l) = Some (Inr (l', db1))" using a by (simp add: load_home_def read_whole_file_def)
    show ?thesis using step_load [OF db_run_ok [OF 2(2) d] d 2(3) mk load] db_load [OF 2(2,3) mk load] by simp
  qed
qed

lemma snap_ok_crash: "snap_ok ops cfg home l H J hs \<Longrightarrow> crashed home h \<Longrightarrow> snap_ok ops cfg h l H J hs"
proof -
  assume snap: "snap_ok ops cfg home l H J hs" and cr: "crashed home h"
  have n: "map_of h snapshot_path = None" if "map_of home snapshot_path = None"
    using that crashed_names [OF cr] by (simp add: map_of_eq_None_iff flip: set_map)
  have s: "map_of h snapshot_path = Some \<lparr>fdata = b, fdurable = length b\<rparr>" if "map_of home snapshot_path = Some \<lparr>fdata = b, fdurable = length b\<rparr>" for b
    using crashed_lookup [OF cr that] crashed_durable by auto
  show ?thesis using snap n s unfolding snap_ok_def by blast
qed

end

section \<open>The log after a crash\<close>

lemma conf_frame [simp]:
  "conf_ok cfg (w\<lparr>segments := ss\<rparr>) = conf_ok cfg w" "conf_ok cfg (w\<lparr>highest_lsn := h\<rparr>) = conf_ok cfg w"
  "conf_ok cfg (w\<lparr>active_bytes := n\<rparr>) = conf_ok cfg w"
  by (simp_all add: conf_ok_def)

lemma replay_from_conf: "replay_from cb old segs st w d = (e, st', w', d') \<Longrightarrow> conf_ok cfg w' = conf_ok cfg w"
proof (induction segs arbitrary: old st w)
  case (Cons sg segs)
  show ?case
  proof (cases "\<exists>f h. map_of d (segment_name (number sg)) = Some f \<and> decode_header (fdata f) = Some h \<and> hdim h = wdim w \<and> hmetric h = wmetric w")
    case True
    then obtain f h where f: "map_of d (segment_name (number sg)) = Some f" "decode_header (fdata f) = Some h" "hdim h = wdim w" "hmetric h = wmetric w"
      by blast
    obtain x st1 sg1 h1 where sc: "scan cb (fdata f) kWalHeaderSize st sg (highest_lsn w) = (x, st1, sg1, h1)" by (metis prod_cases4)
    show ?thesis using Cons.prems f sc Cons.IH
      by (cases x) (auto simp: Let_def split: if_splits option.splits)
  next
    case False
    then show ?thesis using Cons.prems by (auto split: option.splits if_splits)
  qed
qed simp

lemma wal_open_conf:
  assumes "wal_open empty_wal d (of_nat (vdim cfg)) (metric_code (vmetric cfg)) (compute_fingerprint (vschema cfg)) mx = (e, w, d')"
  shows "conf_ok cfg w"
proof -
  let ?w = "empty_wal\<lparr>wdim := of_nat (vdim cfg), wmetric := metric_code (vmetric cfg), wschema_fp := compute_fingerprint (vschema cfg), seg_max := mx\<rparr>"
  have c: "conf_ok cfg ?w" by (simp add: conf_ok_def)
  show ?thesis using assms c open_segment_conf [of ?w d e w d' cfg]
    by (auto simp: wal_open_def Let_def conf_ok_def split: if_splits option.splits)
qed

lemma replay_conf:
  assumes "wal_open empty_wal d (of_nat (vdim cfg)) (metric_code (vmetric cfg)) (compute_fingerprint (vschema cfg)) mx = (None, w1, d1)"
    and "replay cb st w1 d1 = (e, st', w2, d2)"
  shows "conf_ok cfg w2"
  using replay_from_conf [of cb "[]" "segments w1"] assms(2) wal_open_conf [OF assms(1)] unfolding replay_def by blast

text \<open>
  The history that is left: what the snapshot covers and the records after it that were
  recovered, a prefix of the history before the crash.
\<close>

lemma history_left:
  assumes L: "log_ok cfg hs ws acks b u l nx dl" and part: "rs = take m (drop n ws)" and low: "\<forall>r \<in> set (take n ws). lsn r \<le> u"
  shows "\<exists>zs. hs = (filter (\<lambda>r. lsn r \<le> l) hs @ filter (\<lambda>r. l < lsn r) rs) @ zs"
proof -
  note R = log_okD [OF L]
  have "filter (\<lambda>r. l < lsn r) (take n ws) = []" using low R(6) by (auto simp: filter_empty_conv not_less)
  moreover have "ws = take n ws @ rs @ drop m (drop n ws)" unfolding part by (simp only: append_take_drop_id)
  ultimately have "filter (\<lambda>r. l < lsn r) ws = filter (\<lambda>r. l < lsn r) rs @ filter (\<lambda>r. l < lsn r) (drop m (drop n ws))"
    by (metis append_Nil filter_append)
  then show ?thesis using history_split [OF R(1), of l] R(5) by (intro exI [of _ "filter (\<lambda>r. l < lsn r) (drop m (drop n ws))"]) simp
qed

lemma log_ok_crash:
  assumes L: "log_ok cfg hs ws acks b u l nx dl" and part: "rs = take m (drop n ws)" and low: "\<forall>r \<in> set (take n ws). lsn r \<le> u"
  defines "hs' \<equiv> filter (\<lambda>r. lsn r \<le> l) hs @ filter (\<lambda>r. l < lsn r) rs" and "nx' \<equiv> max l (max_all 0 rs) + 1"
  shows "log_ok cfg hs' rs acks (nx' - 1) u l nx' (nx' - 1)"
proof -
  note R = log_okD [OF L]
  obtain zs where zs: "hs = hs' @ zs" using history_left [OF L part low] by (auto simp: hs'_def)
  have "set rs \<subseteq> set ws" unfolding part by (meson order_trans set_drop_subset set_take_subset)
  then have "max_all 0 rs < nx" using R(4,7) by (intro max_all_less) (auto intro: order_le_less_trans [of 0 l])
  then have "max l (max_all 0 rs) < nx" using R(7) by simp
  then have "max l (max_all 0 rs) \<noteq> -1" by (metis not_less word_order.extremum)
  then have up: "x < nx'" if "x \<le> max l (max_all 0 rs)" for x using that less_next unfolding nx'_def by (meson order_le_less_trans)
  have le: "lsn r \<le> max_all 0 rs" if "r \<in> set rs" for r using that by (rule max_all_ge)
  have "increasing hs'" using R(1) zs increasing_append by blast
  moreover have "valid_history cfg hs'" using R(2) zs valid_history_prefix by blast
  moreover have "\<forall>r \<in> set hs'. lsn r < nx'" "\<forall>r \<in> set rs. lsn r < nx'" "l < nx'"
    using le by (auto simp: hs'_def le_max_iff_disj intro!: up)
  moreover have "nx' - 1 < nx'" using up [of "max l (max_all 0 rs)"] by (simp add: nx'_def)
  moreover have "filter (\<lambda>r. l < lsn r) hs' = filter (\<lambda>r. l < lsn r) rs" by (auto simp: hs'_def filter_empty_conv)
  ultimately show ?thesis using R(6) by (auto simp: log_ok_def)
qed

text \<open>The object that a recovery makes, and the constructor as a fold over the delivered records.\<close>

definition rebuilt :: "vdb_config \<Rightarrow> durable_options \<Rightarrow> nat \<Rightarrow> disk \<Rightarrow> wal \<Rightarrow> disk \<Rightarrow> u64 \<Rightarrow> 'i vdb \<Rightarrow> 'i durable" where
  "rebuilt cfg opts now h w d l db = \<lparr>dconfig = cfg, dopts = opts, ddb = db, dwal = w, dwal_dir = d, dhome = h,
     next_lsn = max l (highest_lsn w) + 1, snapshot_id = 0, ops_since_checkpoint = 0, durable_lsn = max l (highest_lsn w),
     syncing = False, in_flight = 0, last_sync = now\<rparr>"

lemma recover_eq:
  assumes mk: "make_vdb ops cfg = Inr db0" and load: "load_home ops db0 h = Some (Inr (l, db1))"
    and op: "wal_open empty_wal d (of_nat (vdim cfg)) (metric_code (vmetric cfg)) (mfingerprint (vmeta db1)) (wal_seg_max opts) = (None, w1, d1)"
    and coll: "replay Wal_Spec.collect [] w1 d1 = (e, rs, w2, d2)"
  shows "recover ops cfg opts h d now = (case feed (replay_record ops l) (Some db1) rs of
    Inl x \<Rightarrow> Some (Inl x) | Inr None \<Rightarrow> None
  | Inr (Some db) \<Rightarrow> Some (case e of Some x \<Rightarrow> Inl x | None \<Rightarrow> Inr (rebuilt cfg opts now h w2 d2 l db)))"
proof (cases "feed (replay_record ops l) (Some db1) rs")
  case (Inl x)
  then obtain st' w' d' where R: "replay (replay_record ops l) (Some db1) w1 d1 = (Some x, st', w', d')"
    and "throws_in (replay_record ops l) (Some db1) rs x st'" using replay_feed(2) [OF coll Inl] by blast
  then obtain r where "replay_record ops l st' r = Inl x" by (auto simp: throws_in_def)
  then obtain db where "st' = Some db" by (cases st') (auto simp: replay_record_def)
  then show ?thesis using mk load op R Inl by (simp add: recover_def)
next
  case (Inr st')
  then show ?thesis using mk load op replay_feed(1) [OF coll Inr] by (cases st'; cases e) (simp_all add: recover_def rebuilt_def Let_def)
qed

text \<open>A log opened in an empty directory has nothing to deliver.\<close>

lemma open_empty:
  assumes dr: "discover_segments dr = []" "distinct (map fst dr)"
  obtains w d where "wal_open empty_wal dr dm mt fp mx = (None, w, d)" "replay Wal_Spec.collect [] w d = (None, [], w, d)"
    "highest_lsn w = 0" "wal_inv \<lparr>wlog = w, wdir = d, wpend = [], whist = [], wacked = {}, wupto = 0\<rparr>" "number (last (segments w)) = 1"
proof -
  let ?w = "empty_wal\<lparr>wdim := dm, wmetric := mt, wschema_fp := fp, seg_max := mx\<rparr>"
  have "map_of dr (segment_name 1) = None" using dr(1) by (intro discover_absent) simp_all
  from open_new_segment_run [OF this, of ?w] obtain w d where op: "wal_open empty_wal dr dm mt fp mx = (None, w, d)"
    and one: "number (last (segments w)) = 1"
    using dr(1) by (auto simp: wal_open_def Let_def empty_wal_def)
  have W: "wal_inv \<lparr>wlog = w, wdir = d, wpend = [], whist = [], wacked = {}, wupto = 0\<rparr>" by (rule wal_inv_start [OF dr op])
  then obtain ss Rss sg R k n where "wal_inv_for \<lparr>wlog = w, wdir = d, wpend = [], whist = [], wacked = {}, wupto = 0\<rparr> ss Rss sg R k n" by (auto simp: wal_inv_def)
  then have rep: "log_rep w d ss Rss sg R k" and empty: "concat Rss @ R = []" and high: "highest_lsn w = 0" by (auto simp: wal_inv_for_def)
  have "Rss = []" "R = []" using empty log_rep_nonempty [OF rep] by (auto simp: concat_eq_Nil_conv neq_Nil_conv)
  note P = log_repD [OF rep, unfolded this]
  have ss: "segments w = [sg]" using P(1,2) by simp
  have "replay Wal_Spec.collect [] w d = (None, [], w\<lparr>segments := [sg], highest_lsn := highest_lsn w, active_bytes := kWalHeaderSize\<rparr>, d)"
    using P(6,10) ss
      replay_active [of d sg "\<lparr>fdata = seg_data (hdr w) [], fdurable = k\<rparr>" w "wschema_fp w" "[]" "[]" "\<lambda>st r. st @ [r]" "[]" "[]"]
    by (simp add: replay_def Wal_Spec.collect_def [abs_def] seg_data_def hdr_def stops_def)
  moreover have "w\<lparr>segments := [sg], highest_lsn := highest_lsn w, active_bytes := kWalHeaderSize\<rparr> = w"
    using ss P(11) by (cases w) (simp add: seg_data_def)
  ultimately have "replay Wal_Spec.collect [] w d = (None, [], w, d)" by simp
  then show ?thesis using that op high W one by blast
qed

lemma recover_empty:
  assumes dr: "discover_segments dr = []" "distinct (map fst dr)" and h: "map_of h snapshot_path = None" and mk: "make_vdb ops cfg = Inr db0"
  obtains w d where "recover ops cfg opts h dr now = Some (Inr (rebuilt cfg opts now h w d 0 db0))" "conf_ok cfg w"
    "highest_lsn w = 0" "wal_inv \<lparr>wlog = w, wdir = d, wpend = [], whist = [], wacked = {}, wupto = 0\<rparr>" "number (last (segments w)) = 1"
proof -
  have load: "load_home ops db0 h = Some (Inr (0, db0))" using h by (simp add: load_home_def)
  have fp: "mfingerprint (vmeta db0) = compute_fingerprint (vschema cfg)"
    using mk make_store_ok(1) by (auto simp: make_vdb_def bind_res_eq_Inr store_ok_def)
  obtain w d where W: "wal_open empty_wal dr (of_nat (vdim cfg)) (metric_code (vmetric cfg)) (compute_fingerprint (vschema cfg)) (wal_seg_max opts) = (None, w, d)"
    "replay Wal_Spec.collect [] w d = (None, [], w, d)" "highest_lsn w = 0"
    "wal_inv \<lparr>wlog = w, wdir = d, wpend = [], whist = [], wacked = {}, wupto = 0\<rparr>" "number (last (segments w)) = 1"
    using open_empty [OF dr] by blast
  show ?thesis
    by (rule that [OF _ wal_open_conf [OF W(1)] W(3-5)]) (simp add: recover_eq [OF mk load W(1) [folded fp] W(2)])
qed

context database_index begin

lemma run_fingerprint:
  assumes "db_run ops cfg db A P I" and "vdim cfg = d"
  shows "mfingerprint (vmeta db) = compute_fingerprint (vschema cfg)"
proof -
  obtain rows Q E where "arrays_ok cfg db rows Q E" using db_run_ok [OF assms] by (auto simp: db_ok_def)
  from store_run_ok [OF arrays_okD(6) [OF this]] show ?thesis by (simp add: store_ok_def)
qed

text \<open>
  In the middle of an operation the log still represents the same records; of the rest of the
  invariant nothing changes.
\<close>

lemma stopped_parts:
  assumes inv: "dur_inv ops cfg s" and st: "stopped_at s t"
  shows "stopped_in (wal_of s) (wal_of t)" "conf_ok cfg (dwal (obj t))"
    "log_ok cfg (logged t) (shist t) (sacked t) (since t) (supto t) (covered t) (next_lsn (obj t)) (durable_lsn (obj t))"
    "snap_ok ops cfg (dhome (obj t)) (covered t) (snap_held t) (snap_ids t) (logged t)"
    "db_run ops cfg (ddb (obj t)) (held t) (dpend t) (ids t)"
    "logged t = logged s" "covered t = covered s" "sacked t = sacked s" "since t = since s" "durable_lsn (obj t) = durable_lsn (obj s)"
proof -
  note D = dur_invD [OF inv]
  have "supto t \<le> covered s" using st log_okD(6) [OF D(4)] D(8) by cases (simp_all add: stage_ok_def)
  then have low: "log_ok cfg (logged s) (shist s) (sacked s) (since s) (supto t) (covered s) (next_lsn (obj s)) (durable_lsn (obj s))"
    using D(4) by (auto simp: log_ok_def)
  show "log_ok cfg (logged t) (shist t) (sacked t) (since t) (supto t) (covered t) (next_lsn (obj t)) (durable_lsn (obj t))"
    using st low by cases simp_all
  show "stopped_in (wal_of s) (wal_of t)" using st
  proof cases
    case resting
    then show ?thesis by (simp add: between)
  next
    case (appending d r)
    then have "stopped_in (wal_of s) ((wal_of s)\<lparr>wdir := d\<rparr>)" by (intro in_append) (auto simp: wal_of_def log_space_def)
    then show ?thesis by (simp add: appending(1) wal_of_def)
  next
    case (truncating l d)
    then have "stopped_in (wal_of s) ((wal_of s)\<lparr>wdir := d, wupto := max (wupto (wal_of s)) l\<rparr>)"
      by (intro in_truncate) (auto simp: wal_of_def)
    then show ?thesis by (simp add: truncating(1) wal_of_def)
  qed
qed (use st dur_invD [OF inv] in \<open>cases; simp\<close>)+

text \<open>What recovery works on after a crash: the log delivers, the snapshot's database or a fresh one.\<close>

lemma crash_parts:
  assumes D: "wal_inv (wal_of s)" "stopped_in (wal_of s) (wal_of t)" "conf_ok cfg (dwal (obj t))"
      "snap_ok ops cfg (dhome (obj t)) (covered t) (snap_held t) (snap_ids t) hs"
    and d: "vdim cfg = d" and cr: "crashed (dwal_dir (obj t)) dr" "crashed (dhome (obj t)) h"
    and mk: "make_vdb ops cfg = Inr db0" and load: "load_home ops db0 h = Some (Inr (l, db1))"
    and rs_def: "rs = delivered cfg opts dr"
  shows "\<exists>w2 d2. l = covered t \<and> db_run ops cfg db1 (snap_held t) {} (snap_ids t) \<and>
    recover ops cfg opts h dr now = (case feed (replay_record ops l) (Some db1) rs of
      Inl e \<Rightarrow> Some (Inl e) | Inr None \<Rightarrow> None
    | Inr (Some db) \<Rightarrow> Some (if torn_header dr then Inl RuntimeError else Inr (rebuilt cfg opts now h w2 d2 l db))) \<and>
    history_part (wal_of t) rs \<and> (\<forall>r \<in> sacked t. supto t < lsn r \<longrightarrow> r \<in> set rs) \<and> conf_ok cfg w2 \<and>
    (\<not> torn_header dr \<longrightarrow> highest_lsn w2 = max_all 0 rs \<and>
      wal_inv \<lparr>wlog = w2, wdir = d2, wpend = [], whist = rs, wacked = sacked t, wupto = supto t\<rparr>)"
proof -
  have same: "wlog (wal_of s) = wlog (wal_of t)" "wacked (wal_of s) = wacked (wal_of t)" using D(2) by (cases; simp)+
  have c: "wdim (wlog (wal_of t)) = of_nat (vdim cfg)" "wmetric (wlog (wal_of t)) = metric_code (vmetric cfg)"
    "wschema_fp (wlog (wal_of t)) = compute_fingerprint (vschema cfg)" using D(3) by (simp_all add: wal_of_def conf_ok_def)
  have cr': "crashed (wdir (wal_of t)) dr" using cr(1) by (simp add: wal_of_def)
  obtain w1 rs' w2 d2 where W: "wal_open empty_wal dr (of_nat (vdim cfg)) (metric_code (vmetric cfg)) (compute_fingerprint (vschema cfg)) (wal_seg_max opts) = (None, w1, dr)"
    "replay Wal_Spec.collect [] w1 dr = (if torn_header dr then Some RuntimeError else None, rs', w2, d2)" "history_part (wal_of t) rs'"
    "\<forall>r \<in> wacked (wal_of t). wupto (wal_of t) < lsn r \<longrightarrow> r \<in> set rs'"
    "\<not> torn_header dr \<longrightarrow> wal_inv ((wal_of t)\<lparr>wlog := w2, wdir := d2, wpend := [], whist := rs'\<rparr>)"
    using wal_inv_recover [OF D(1,2) cr', of "wal_seg_max opts"] unfolding same c by blast
  have rs: "rs' = rs" by (simp add: rs_def delivered_def W(1,2))
  note W = W [unfolded rs]
  have db1: "l = covered t" "db_run ops cfg db1 (snap_held t) {} (snap_ids t)" using load_home_run [OF D(4) cr(2) d mk load] by simp_all
  have op: "wal_open empty_wal dr (of_nat (vdim cfg)) (metric_code (vmetric cfg)) (mfingerprint (vmeta db1)) (wal_seg_max opts) = (None, w1, dr)"
    using W(1) run_fingerprint [OF db1(2) d] by simp
  have E: "recover ops cfg opts h dr now = (case feed (replay_record ops l) (Some db1) rs of
      Inl e \<Rightarrow> Some (Inl e) | Inr None \<Rightarrow> None
    | Inr (Some db) \<Rightarrow> Some (if torn_header dr then Inl RuntimeError else Inr (rebuilt cfg opts now h w2 d2 l db)))"
    unfolding recover_eq [OF mk load op W(2), of now] by (auto split: sum.split option.split)
  have high: "highest_lsn w2 = max_all 0 rs" if "\<not> torn_header dr"
    using W(5) that by (auto simp: wal_inv_def wal_inv_for_def)
  show ?thesis using db1 E W(3,4,5) replay_conf [OF W(1,2)] high by (intro exI [of _ w2] exI [of _ d2]) (simp add: wal_of_def)
qed

text \<open>The records to replay continue the history that the snapshot covers.\<close>

lemma crash_history:
  assumes D: "log_ok cfg (logged t) (shist t) (sacked t) (since t) (supto t) (covered t) (next_lsn (obj t)) (durable_lsn (obj t))"
      "snap_ok ops cfg (dhome (obj t)) (covered t) (snap_held t) (snap_ids t) (logged t)"
    and part: "history_part (wal_of t) rs"
  defines "hs \<equiv> filter (\<lambda>r. lsn r \<le> covered t) (logged t) @ replayed t rs"
  shows "\<exists>zs. logged t = hs @ zs"
    and "log_ok cfg hs rs (sacked t) (max (covered t) (max_all 0 rs)) (supto t) (covered t) (max (covered t) (max_all 0 rs) + 1) (max (covered t) (max_all 0 rs))"
    and "valid_from cfg (canon (snap_held t)) (replayed t rs)"
    and "canon (foldl (\<lambda>C r. eff r C) (snap_held t) (replayed t rs)) = contents_after hs"
proof -
  obtain n m where part: "rs = take m (drop n (shist t))" and low: "\<forall>r \<in> set (take n (shist t)). lsn r \<le> supto t"
    using part by (auto simp: history_part_def wal_of_def)
  show "\<exists>zs. logged t = hs @ zs" using history_left [OF D(1) part low] by (simp add: hs_def replayed_def)
  show L: "log_ok cfg hs rs (sacked t) (max (covered t) (max_all 0 rs)) (supto t) (covered t) (max (covered t) (max_all 0 rs) + 1) (max (covered t) (max_all 0 rs))"
    using log_ok_crash [OF D(1) part low] by (simp add: hs_def replayed_def)
  have snap: "canon (snap_held t) = contents_after (filter (\<lambda>r. lsn r \<le> covered t) (logged t))" using D(2) by (simp add: snap_ok_def)
  show "valid_from cfg (canon (snap_held t)) (replayed t rs)"
    unfolding snap by (rule valid_from_history [OF log_okD(2) [OF L, unfolded hs_def]])
  have "\<forall>r \<in> set (replayed t rs). canon_record r = r"
    using valid_history_member [OF log_okD(2) [OF L]] by (auto simp: valid_record_def hs_def)
  then show "canon (foldl (\<lambda>C r. eff r C) (snap_held t) (replayed t rs)) = contents_after hs"
    using snap by (simp add: canon_effs contents_after_append hs_def)
qed

text \<open>A recovery that succeeds establishes the invariant again, after any crash.\<close>

lemma crash_inv:
  assumes inv: "dur_inv ops cfg s" and d: "vdim cfg = d" and st: "stopped_at s t" and cr: "crashed (dwal_dir (obj t)) dr" "crashed (dhome (obj t)) h"
    and room: "recovery_room ops cfg opts h dr" and rec: "recover ops cfg opts h dr now = Some (Inr o1)"
  shows "dur_inv ops cfg (recovered o1 (delivered cfg opts dr) t)"
proof -
  let ?rs = "delivered cfg opts dr" let ?hs = "filter (\<lambda>r. lsn r \<le> covered t) (logged t) @ replayed t ?rs"
  note P = stopped_parts [OF inv st]
  obtain db0 l db1 where mk: "make_vdb ops cfg = Inr db0" and load: "load_home ops db0 h = Some (Inr (l, db1))"
    using rec by (auto simp: recover_def split: sum.splits option.splits)
  obtain w2 d2 where C: "l = covered t" "db_run ops cfg db1 (snap_held t) {} (snap_ids t)" "conf_ok cfg w2"
    and E: "recover ops cfg opts h dr now = (case feed (replay_record ops l) (Some db1) ?rs of
      Inl e \<Rightarrow> Some (Inl e) | Inr None \<Rightarrow> None
    | Inr (Some db) \<Rightarrow> Some (if torn_header dr then Inl RuntimeError else Inr (rebuilt cfg opts now h w2 d2 l db)))"
    and part: "history_part (wal_of t) ?rs"
    and W: "\<not> torn_header dr \<longrightarrow> highest_lsn w2 = max_all 0 ?rs \<and>
      wal_inv \<lparr>wlog = w2, wdir = d2, wpend = [], whist = ?rs, wacked = sacked t, wupto = supto t\<rparr>"
    using crash_parts [OF dur_invD(2) [OF inv] P(1,2,4) d cr mk load refl, of opts now] by blast
  obtain db where db: "feed (replay_record ops l) (Some db1) ?rs = Inr (Some db)" and o1: "o1 = rebuilt cfg opts now h w2 d2 l db" and nt: "\<not> torn_header dr"
    using rec E by (auto split: sum.splits option.splits if_splits)
  note H = crash_history [OF P(3,4) part]
  have run: "db_run ops cfg db (foldl (\<lambda>C r. eff r C) (snap_held t) (replayed t ?rs)) {} (snap_ids t \<union> inserted_ids (replayed t ?rs))"
    by (rule replay_run [OF C(2) d _ H(3), of l])
      (use db feed_covered [of ops l _ ?rs] C(1) room mk load in \<open>auto simp: replayed_def recovery_room_def\<close>)
  have "flight_ok ?hs {} {} {} (foldl (\<lambda>C r. eff r C) (snap_held t) (replayed t ?rs)) (snap_ids t \<union> inserted_ids (replayed t ?rs)) 0"
    using H(4) by (simp add: flight_ok_def)
  moreover have "filter (\<lambda>r. lsn r \<le> covered t) ?hs = filter (\<lambda>r. lsn r \<le> covered t) (logged t)" by (auto simp: replayed_def filter_empty_conv not_le)
  then have "snap_ok ops cfg h (covered t) (snap_held t) (snap_ids t) ?hs" using snap_ok_crash [OF P(4) cr(2)] by (simp add: snap_ok_def)
  ultimately show ?thesis using run H(2) C W nt
    by (intro dur_invI) (simp_all add: recovered_def o1 rebuilt_def wal_of_def stage_ok_def)
qed

text \<open>The first start, in a directory with no log and no snapshot.\<close>

lemma start_inv:
  assumes dr: "discover_segments dr = []" "distinct (map fst dr)" and h: "map_of h snapshot_path = None"
    and rec: "recover ops cfg opts h dr now = Some (Inr o1)"
  shows "dur_inv ops cfg \<lparr>obj = o1, spend = [], shist = [], sacked = {}, since = 0, supto = 0, logged = [], flying = {}, finishing = {},
      dpend = {}, held = Map.empty, ids = {}, covered = 0, snap_held = Map.empty, snap_ids = {}, stage = Idle\<rparr>"
proof -
  obtain db0 where mk: "make_vdb ops cfg = Inr db0" using rec by (cases "make_vdb ops cfg") (simp_all add: recover_def)
  obtain w d where W: "recover ops cfg opts h dr now = Some (Inr (rebuilt cfg opts now h w d 0 db0))" "conf_ok cfg w" "highest_lsn w = 0"
    "wal_inv \<lparr>wlog = w, wdir = d, wpend = [], whist = [], wacked = {}, wupto = 0\<rparr>"
    using recover_empty [OF dr h mk] by blast
  then have "o1 = rebuilt cfg opts now h w d 0 db0" using rec by simp
  then show ?thesis
    using W(2-) db_make [OF mk] h
    by (intro dur_invI) (simp_all add: rebuilt_def wal_of_def log_ok_def increasing_def flight_ok_def snap_ok_def stage_ok_def)
qed

text \<open>Every step keeps the invariant.\<close>

lemma dur_step_inv:
  assumes "dur_step ops cfg s t" and "dur_inv ops cfg s" and d: "vdim cfg = d"
  shows "dur_inv ops cfg t"
  using assms(1)
proof cases
  case (ds_insert rec v ext l b o1 r)
  then show ?thesis using insert_prefix_inv [OF assms(2) d] by simp
next
  case (ds_log_remove ext l b o1 r)
  let ?mk = "\<lambda>l. \<lparr>rtype = rt_delete, lsn = l, ext_id = ext, vec = [], meta = empty_meta\<rparr>"
  have canon: "canon_record (?mk l) = ?mk l" by (simp add: canon_record_def)
  have ok: "record_ok (?mk l)" and ty: "rt_delete \<noteq> rt_insert" "\<not> carries_meta rt_delete"
    by (simp_all add: record_ok_def encode_body_parts carries_vector_def carries_meta_def empty_meta_def
        rt_delete_def rt_insert_def rt_update_def rt_set_meta_def)
  have run: "log_op ?mk (obj s) = Some (Inr (l, b), o1)" using ds_log_remove(6) by (simp add: remove_prefix_def)
  have "dur_inv ops cfg ((start_op (canon_record (?mk l)) s)\<lparr>obj := o1\<rparr>)"
    by (rule prefix_inv [OF assms(2) d ds_log_remove(2-5) run]) (use ok ty in \<open>simp_all add: canon\<close>)
  then show ?thesis unfolding canon using ds_log_remove by simp
next
  case (ds_log_update ext orec v rec l b o1 r)
  let ?mk = "\<lambda>l. \<lparr>rtype = rt_update, lsn = l, ext_id = ext, vec = take (vdim cfg) v, meta = rec\<rparr>"
  have run: "log_op ?mk (obj s) = Some (Inr (l, b), o1)" "orec = Some rec \<or> get_metadata (ddb (obj s)) ext = Some rec"
    using ds_log_update(7) dur_invD(1) [OF assms(2)] by (auto simp: update_prefix_def method_simps split: option.splits)
  have "valid_meta (vschema cfg) rec" using run(2) ds_log_update(6) metadata_valid [OF assms(2) d] by blast
  then have "dur_inv ops cfg ((start_op (canon_record (?mk l)) s)\<lparr>obj := o1\<rparr>)"
    using prefix_inv [OF assms(2) d ds_log_update(2-5) run(1)] ds_log_update(8,9) by (simp add: rt_insert_def rt_update_def)
  then show ?thesis using ds_log_update by simp
next
  case (ds_log_set ext rec l b o1 r)
  let ?mk = "\<lambda>l. \<lparr>rtype = rt_set_meta, lsn = l, ext_id = ext, vec = [], meta = rec\<rparr>"
  have "dur_inv ops cfg ((start_op (canon_record (?mk l)) s)\<lparr>obj := o1\<rparr>)"
    using prefix_inv [OF assms(2) d ds_log_set(2-5), where mk = ?mk and l = l and b = b] ds_log_set(6-9)
    by (simp add: set_prefix_def rt_insert_def rt_set_meta_def)
  then show ?thesis using ds_log_set by simp
next
  case (ds_publish p r o1)
  then show ?thesis using publish_inv [OF assms(2) d] by simp
next
  case (ds_mark l o1 r)
  then show ?thesis using mark_inv [OF assms(2)] by simp
next
  case (ds_crash u dr h opts now o1)
  then show ?thesis using crash_inv [OF assms(2) d] by simp
qed (use assms(2) in \<open>simp_all add: allocate_inv reallocate_inv link_inv apply_remove_inv apply_set_inv finish_inv start_sync_inv
      end_sync_inv write_tmp_inv save_inv mark_sync_inv release_inv\<close>)

lemma dur_reach_inv: "dur_reach ops cfg s \<Longrightarrow> vdim cfg = d \<Longrightarrow> dur_inv ops cfg s"
proof (induction rule: dur_reach.induct)
  case (dr_start d0 h0 opts now o1)
  then show ?case using start_inv by blast
next
  case (dr_step s t)
  then show ?case using dur_step_inv by blast
qed

end

end
