(* ===== verification/Durable_Spec.thy ===== *)
theory Durable_Spec
  imports Durable_Recovery "HOL-Library.Sublist"
begin

text \<open>
  What the durable database promises: its contents are those its history of operations gives,
  recovery from a crash gives those of a prefix of the history that lacks nothing durable, and
  commits, checkpoints and recovery return.
\<close>

section \<open>Reading the object\<close>

text \<open>The database answers for an id as the contents say.\<close>

definition shows_id :: "'i vdb \<Rightarrow> contents \<Rightarrow> u64 \<Rightarrow> bool" where
  "shows_id db C ext \<longleftrightarrow> (contains db ext \<longleftrightarrow> C ext \<noteq> None) \<and>
     (\<forall>v rec. C ext = Some (v, rec) \<longrightarrow> (\<exists>i. ext_to_int db ext = Some i \<and> vectors db ! i = v \<and> row_reads_as (vmeta db) i rec))"

lemma eff_valid:
  assumes "valid_record cfg D r" and "\<forall>x v rec. C x = Some (v, rec) \<longrightarrow> valid_meta (vschema cfg) rec" and "eff r C x = Some (v, rec)"
  shows "valid_meta (vschema cfg) rec"
proof (cases "x = ext_id r \<and> carries_meta (rtype r)")
  case True
  then have "rec = meta r \<or> C x = Some (v, rec)"
    using assms(3) by (auto simp: eff_def set_record_def carries_meta_def carries_vector_def split: if_splits option.splits)
  then show ?thesis using assms(1,2) True by (auto simp: valid_record_def)
next
  case False
  then have "C x = Some (v, rec)"
    using assms(3) eff_other [of x r C] by (cases "x = ext_id r") (auto simp: eff_def carries_meta_def carries_vector_def split: if_splits)
  then show ?thesis using assms(2) by blast
qed

lemma contents_valid: "valid_history cfg hs \<Longrightarrow> contents_after hs x = Some (v, rec) \<Longrightarrow> valid_meta (vschema cfg) rec"
proof (induction hs arbitrary: x v rec rule: rev_induct)
  case (snoc r hs)
  then show ?case using eff_valid [of cfg "contents_after hs" r "contents_after hs" x v rec] by simp
qed simp

context database_index begin

lemma canon_shows:
  assumes run: "db_run ops cfg db A P I" and d: "vdim cfg = d" and C: "C ext = canon A ext"
    and v: "\<And>v rec. C ext = Some (v, rec) \<Longrightarrow> valid_meta (vschema cfg) rec"
  shows "shows_id db C ext"
proof -
  have "\<exists>i. ext_to_int db ext = Some i \<and> vectors db ! i = x \<and> row_reads_as (vmeta db) i rec" if x: "C ext = Some (x, rec)" for x rec
  proof -
    obtain rec0 where r: "A ext = Some (x, rec0)" "rec = canon_meta rec0" using x C by (auto simp: canon_def)
    obtain i where i: "ext_to_int db ext = Some i" "row_reads_as (vmeta db) i rec0" "vectors db ! i = x" using stored_row [OF run d r(1)] by blast
    obtain rows Q E where "arrays_ok cfg db rows Q E" using db_run_ok [OF run d] by (auto simp: db_ok_def)
    then have "length (mcolumns (vmeta db)) = length (vschema cfg)" using arrays_store store_okD(3) by blast
    moreover have "validate (vschema cfg) rec0 = None" using v [OF x] r(2) validate_canon by (simp add: valid_meta_def)
    ultimately show ?thesis using i r(2) row_reads_canon by blast
  qed
  moreover have "contains db ext \<longleftrightarrow> C ext \<noteq> None" using lookup [OF run d, of ext] C by simp
  ultimately show ?thesis by (simp add: shows_id_def)
qed

lemma object_contents:
  assumes inv: "dur_inv ops cfg s" and d: "vdim cfg = d" and x: "ext \<notin> ext_id ` flying s"
  shows "shows_id (ddb (obj s)) (contents_after (logged s)) ext"
proof -
  note D = dur_invD [OF inv]
  show ?thesis
    by (rule canon_shows [where C = "contents_after (logged s)", OF D(5) d flight_okD(8) [OF D(6) x]])
      (rule contents_valid [OF log_okD(2) [OF D(4)]])
qed

text \<open>Nothing durable is lost: neither what a sync covered nor what the snapshot has.\<close>

lemma crash_keeps:
  assumes L: "log_ok cfg (logged t) (shist t) (sacked t) (since t) (supto t) (covered t) (next_lsn (obj t)) (durable_lsn (obj t))"
    and acks: "\<forall>r \<in> sacked t. supto t < lsn r \<longrightarrow> r \<in> set rs"
    and r: "r \<in> set (logged t)" "since t < lsn r \<and> lsn r \<le> durable_lsn (obj t) \<or> lsn r \<le> covered t \<or> r \<in> sacked t"
  shows "r \<in> set (filter (\<lambda>r. lsn r \<le> covered t) (logged t) @ replayed t rs)"
proof (cases "lsn r \<le> covered t")
  case False
  have "r \<in> sacked t" using log_okD(9) [OF L] r False by auto
  moreover have "supto t < lsn r" using log_okD(6) [OF L] False by (meson not_le order_le_less_trans)
  ultimately show ?thesis using acks False by (simp add: replayed_def not_le)
qed (use r in simp)

end

context returning_database_index begin

section \<open>Recovery returns\<close>

lemma halts_give_unit: "halts f s err \<Longrightarrow> halts (bind_method f (\<lambda>_. give ())) s err"
  by (rule halts_bind) simp_all

lemma apply_record_halts:
  assumes run: "db_run ops cfg db A {} I" and d: "vdim cfg = d" and v: "valid_record cfg (canon A) r" and room: "dict_room (vmeta db) (meta r)"
  shows "halts (apply_record ops r) db LengthError"
proof -
  note ok = db_run_ok [OF run d]
  obtain rows Q E where R: "arrays_ok cfg db rows Q E" using ok by (auto simp: db_ok_def)
  have fits: "record_fits (vmeta db) (meta r)" if "carries_meta (rtype r)"
    using fits_of_valid store_run_ok [OF arrays_okD(6) [OF R]] v that room by (auto simp: valid_record_def)
  have "halts (insert_reserved ops (ext_id r) (vec r) (meta r)) db LengthError" if "rtype r = rt_insert"
    by (rule halts_reserved [OF run d fits]) (use v that in \<open>simp_all add: valid_record_def carries_meta_def carries_vector_def\<close>)
  moreover have "halts (vdb_update ops (ext_id r) (vec r) (Some (meta r))) db LengthError" if "rtype r = rt_update"
    by (rule halts_update [OF run d]) (use fits that in \<open>simp_all add: carries_meta_def carries_vector_def\<close>)
  moreover have "halts (vdb_set_metadata (ext_id r) (meta r)) db LengthError" if "rtype r = rt_set_meta"
    by (rule halts_set [OF ok fits]) (use that in \<open>simp add: carries_meta_def\<close>)
  ultimately show ?thesis using halts_remove [OF ok] by (simp add: apply_record_def halts_give_unit)
qed

lemma replay_returns:
  assumes "db_run ops cfg db A {} I" and d: "vdim cfg = d" and "\<forall>r \<in> set rs. l < lsn r" and "valid_from cfg (canon A) rs" and "replay_room ops db rs"
  shows "(\<exists>db'. feed (replay_record ops l) (Some db) rs = Inr (Some db')) \<or> feed (replay_record ops l) (Some db) rs = Inl LengthError"
  using assms(1,3-)
proof (induction rs arbitrary: db A I)
  case (Cons r rs)
  have v: "valid_record cfg (canon A) r" and room: "dict_room (vmeta db) (meta r)" using Cons.prems by simp_all
  obtain x db1 where a: "apply_record ops r db = Some (x, db1)" "\<forall>e. x = Inl e \<longrightarrow> e = LengthError"
    using apply_record_halts [OF Cons.prems(1) d v room] by (auto simp: halts_def)
  show ?case
  proof (cases x)
    case (Inl e)
    then show ?thesis using a Cons.prems(2) by (simp add: replay_record_def [of _ _ _ r])
  next
    case (Inr u)
    then have a1: "apply_record ops r db = Some (Inr (), db1)" using a by simp
    have "canon_record r = r" using v by (simp add: valid_record_def)
    then have "valid_from cfg (canon (eff r A)) rs" using Cons.prems(3) canon_eff [of r A] by simp
    from Cons.IH [OF apply_record_run [OF Cons.prems(1) d v room a1] _ this] show ?thesis
      using Cons.prems(2,4) a1 by (simp add: replay_record_def [of _ _ _ r])
  qed
qed simp

lemma load_home_returns:
  assumes snap: "snap_ok ops cfg home l H J hs" and cr: "crashed home h" and d: "vdim cfg = d" and mk: "make_vdb ops cfg = Inr db0"
  shows "\<exists>r. load_home ops db0 h = Some r \<and> (\<forall>e. r = Inl e \<longrightarrow> e = LengthError)"
proof -
  have "snap_ok ops cfg h l H J hs" by (rule snap_ok_crash [OF snap cr])
  then consider "map_of h snapshot_path = None"
    | db where "map_of h snapshot_path = Some \<lparr>fdata = save_snapshot ops db l, fdurable = length (save_snapshot ops db l)\<rparr>"
      "db_run ops cfg db H {} J" "snapshot_fits db"
    by (auto simp: snap_ok_def)
  then show ?thesis
  proof cases
    case 2
    from load_returns [OF db_run_ok [OF 2(2) d] d 2(3) mk, of l] 2(1) show ?thesis by (simp add: load_home_def read_whole_file_def)
  qed (simp add: load_home_def)
qed

lemma run_made: "db_run ops cfg db A P I \<Longrightarrow> \<exists>db0. make_vdb ops cfg = Inr db0"
  by (induction rule: db_run.induct) blast+

lemma crash_recovers:
  assumes inv: "dur_inv ops cfg s" and d: "vdim cfg = d" and st: "stopped_at s t" and cr: "crashed (dwal_dir (obj t)) dr" "crashed (dhome (obj t)) h"
    and room: "recovery_room ops cfg opts h dr"
  shows "\<exists>r. recover ops cfg opts h dr now = Some r \<and> (case r of Inl e \<Rightarrow> e = LengthError \<or> e = RuntimeError \<and> torn_header dr
    | Inr o1 \<Rightarrow> dur_inv ops cfg (recovered o1 (delivered cfg opts dr) t) \<and> prefix (logged (recovered o1 (delivered cfg opts dr) t)) (logged s) \<and>
        (\<forall>r \<in> set (logged s). since s < lsn r \<and> lsn r \<le> durable_lsn (obj s) \<or> lsn r \<le> covered s \<or> r \<in> sacked s \<longrightarrow>
          r \<in> set (logged (recovered o1 (delivered cfg opts dr) t))))"
proof -
  let ?rs = "delivered cfg opts dr"
  note P = stopped_parts [OF inv st]
  obtain db0 where mk: "make_vdb ops cfg = Inr db0" using run_made [OF P(5)] by blast
  obtain x where x: "load_home ops db0 h = Some x" "\<forall>e. x = Inl e \<longrightarrow> e = LengthError" using load_home_returns [OF P(4) cr(2) d mk] by blast
  show ?thesis
  proof (cases x)
    case (Inl e)
    then show ?thesis using x mk by (simp add: recover_def)
  next
    case (Inr y)
    obtain l db1 where load: "load_home ops db0 h = Some (Inr (l, db1))" using x(1) Inr by (cases y) simp
    obtain w2 d2 where C: "l = covered t" "db_run ops cfg db1 (snap_held t) {} (snap_ids t)"
      and E: "recover ops cfg opts h dr now = (case feed (replay_record ops l) (Some db1) ?rs of
        Inl e \<Rightarrow> Some (Inl e) | Inr None \<Rightarrow> None
      | Inr (Some db) \<Rightarrow> Some (if torn_header dr then Inl RuntimeError else Inr (rebuilt cfg opts now h w2 d2 l db)))"
      and part: "history_part (wal_of t) ?rs" and acks: "\<forall>r \<in> sacked t. supto t < lsn r \<longrightarrow> r \<in> set ?rs"
      using crash_parts [OF dur_invD(2) [OF inv] P(1,2,4) d cr mk load refl, of opts now] by blast
    note H = crash_history [OF P(3,4) part]
    have "(\<exists>db. feed (replay_record ops l) (Some db1) ?rs = Inr (Some db)) \<or> feed (replay_record ops l) (Some db1) ?rs = Inl LengthError"
      using replay_returns [OF C(2) d _ H(3), of l] feed_covered [of ops l "Some db1" ?rs] C(1) room mk load
      by (simp add: replayed_def recovery_room_def)
    then show ?thesis
    proof (elim disjE exE)
      fix db assume f: "feed (replay_record ops l) (Some db1) ?rs = Inr (Some db)"
      show ?thesis
      proof (cases "torn_header dr")
        case False
        then have rec: "recover ops cfg opts h dr now = Some (Inr (rebuilt cfg opts now h w2 d2 l db))" using E f by simp
        have hs: "logged (recovered (rebuilt cfg opts now h w2 d2 l db) ?rs t) = filter (\<lambda>r. lsn r \<le> covered s) (logged s) @ replayed t ?rs"
          by (simp add: recovered_def P(6,7))
        have "prefix (filter (\<lambda>r. lsn r \<le> covered s) (logged s) @ replayed t ?rs) (logged s)" using H(1) unfolding P(6,7) prefix_def .
        moreover note crash_keeps [OF P(3) acks, unfolded P(6-10)]
        ultimately show ?thesis using rec crash_inv [OF inv d st cr room rec] by (intro exI [of _ "Inr (rebuilt cfg opts now h w2 d2 l db)"]) (simp add: hs)
      qed (use E f in simp)
    qed (use E in simp)
  qed
qed

end

section \<open>Calls as runs\<close>

text \<open>What a step of the log or of a flag leaves alone.\<close>

definition ghosts :: "'i dsys \<Rightarrow> wal_record list \<times> wal_record set \<times> wal_record set \<times> pending set \<times> contents \<times> u64 set \<times> u64 \<times> u64 \<times> ckpt" where
  "ghosts s = (logged s, flying s, finishing s, dpend s, held s, ids s, covered s, since s, stage s)"

text \<open>No operation in flight, no checkpoint and no sync under way.\<close>

definition settled :: "'i dsys \<Rightarrow> bool" where
  "settled s \<longleftrightarrow> stage s = Idle \<and> flying s = {} \<and> finishing s = {} \<and> \<not> syncing (obj s)"

text \<open>
  A call that runs alone from a settled state: it returns \<open>y\<close> with its record at the end of the
  history, all of which is durable under \<open>PerOpSync\<close>; only a full ordered index makes it throw.
\<close>

definition logs_op :: "'i index_ops \<Rightarrow> vdb_config \<Rightarrow> 'i dsys \<Rightarrow> wal_record \<Rightarrow> ('i durable, 'a) call \<Rightarrow> 'a \<Rightarrow> bool" where
  "logs_op ops cfg s r call y \<longleftrightarrow> (\<exists>x o2. call (obj s) = Some (x, o2) \<and> (case x of Inl e \<Rightarrow> e = LengthError
    | Inr a \<Rightarrow> a = y \<and> (\<exists>t. dur_reach ops cfg t \<and> obj t = o2 \<and> settled t \<and> logged t = logged s @ [r] \<and>
        (dpolicy (dopts (obj s)) = PerOpSync \<longrightarrow> (\<forall>q \<in> set (logged t). lsn q \<le> durable_lsn o2)))))"

definition synced_obj :: "bool \<Rightarrow> nat \<Rightarrow> 'i durable \<Rightarrow> 'i durable" where
  "synced_obj b n o1 = (raise_durable (highest_lsn (dwal o1)) (o1\<lparr>dwal_dir := fsync (dwal_dir o1) (the (active_fd (dwal o1)))\<rparr>))\<lparr>syncing := b, last_sync := n\<rparr>"

lemma synced_obj_simps [simp]:
  "ddb (synced_obj b n o1) = ddb o1" "dopts (synced_obj b n o1) = dopts o1" "syncing (synced_obj b n o1) = b"
  "durable_lsn (synced_obj b n o1) = max (durable_lsn o1) (highest_lsn (dwal o1))" "dwal (synced_obj b n o1) = dwal o1"
  by (auto simp: synced_obj_def raise_durable_def max_def)

text \<open>What the call on the database does: the operation is applied, nothing else changes.\<close>

definition applies :: "'i index_ops \<Rightarrow> vdb_config \<Rightarrow> ('i vdb, unit) call \<Rightarrow> wal_record \<Rightarrow> 'i dsys \<Rightarrow> bool" where
  "applies ops cfg body r s \<longleftrightarrow> halts body (ddb (obj s)) LengthError \<and>
     (\<forall>s1 db. dur_reach ops cfg s1 \<and> ddb (obj s1) = ddb (obj s) \<and> ghosts s1 = ghosts s \<and> body (ddb (obj s1)) = Some (Inr (), db) \<longrightarrow>
       (\<exists>t. dur_reach ops cfg t \<and> obj t = (obj s1)\<lparr>ddb := db\<rparr> \<and> logged t = logged s \<and> flying t = {} \<and> finishing t = {r} \<and> stage t = Idle))"

context database_index begin

lemma active_open: "dur_inv ops cfg s \<Longrightarrow> \<exists>fd. active_fd (dwal (obj s)) = Some fd"
  using dur_invD(2) [of ops cfg s] log_repD(10) by (fastforce simp: wal_inv_def wal_inv_for_def wal_of_def)

lemma sync_reach:
  assumes "dur_reach ops cfg s" and d: "vdim cfg = d"
  shows "\<exists>t. dur_reach ops cfg t \<and> obj t = synced_obj b n (obj s) \<and> ghosts t = ghosts s"
proof -
  obtain fd where fd: "active_fd (dwal (obj s)) = Some fd" using active_open [OF dur_reach_inv [OF assms]] by blast
  let ?p = "(fd, highest_lsn (dwal (obj s)))"
  let ?s = "s\<lparr>obj := (obj s)\<lparr>syncing := b\<rparr>, spend := ?p # spend s\<rparr>"
  let ?t = "(synced_to ?p ?s)\<lparr>obj := synced_obj b n (obj s)\<rparr>"
  have "dur_step ops cfg s ?s" by (rule ds_start_sync) (simp add: start_sync_def sync_begin_def fd)
  then have r: "dur_reach ops cfg ?s" using assms(1) dr_step by blast
  have "dur_step ops cfg ?s ((synced_to ?p ?s)\<lparr>obj := (raise_durable (snd ?p) ((obj ?s)\<lparr>dwal_dir := fsync (dwal_dir (obj s)) fd\<rparr>))\<lparr>syncing := b, last_sync := n\<rparr>\<rparr>)"
    by (rule ds_end_sync) (simp_all add: end_sync_def sync_end_def)
  moreover have "(raise_durable (snd ?p) ((obj ?s)\<lparr>dwal_dir := fsync (dwal_dir (obj s)) fd\<rparr>))\<lparr>syncing := b, last_sync := n\<rparr> = synced_obj b n (obj s)"
    by (simp add: synced_obj_def raise_durable_def fd)
  ultimately have "dur_reach ops cfg ?t" using dr_step [OF r] by simp
  moreover have "ghosts ?t = ghosts s" by (simp add: ghosts_def synced_to_def)
  ultimately show ?thesis by (intro exI [of _ ?t]) simp
qed

lemma wal_sync_eq: "active_fd (dwal o1) = Some fd \<Longrightarrow> wal_sync o1 = Some (Inr (highest_lsn (dwal o1)), o1\<lparr>dwal_dir := fsync (dwal_dir o1) fd\<rparr>)"
  by (simp add: wal_sync_def bind_method_def start_sync_def end_sync_def sync_begin_def sync_end_def)

lemma lead_commit_eq: "active_fd (dwal o1) = Some fd \<Longrightarrow> lead_commit o1 = Some (Inr (), synced_obj False (last_sync o1) o1)"
  by (simp add: wal_sync_eq [of "o1\<lparr>syncing := True\<rparr>" fd] lead_commit_def bind_method_def modify_def synced_obj_def raise_durable_def)

text \<open>One fsync of a leader commits every lsn that the log has.\<close>

lemma group_commit_eq:
  assumes fd: "active_fd (dwal o1) = Some fd" and f: "\<not> syncing o1" and l: "l \<le> highest_lsn (dwal o1)"
  shows "group_commit l o1 = Some (Inr (), if durable_lsn o1 < l then synced_obj False (last_sync o1) o1 else o1)"
proof (cases "durable_lsn o1 < l")
  case True
  let ?o = "synced_obj False (last_sync o1) o1"
  have le: "\<not> durable_lsn ?o < l" using l by (simp add: le_max_iff_disj not_less)
  have "group_commit l o1 = group_commit l ?o" using True f lead_commit_eq [OF fd] by (subst group_commit.simps) simp
  also have "\<dots> = Some (Inr (), ?o)" by (subst group_commit.simps) (simp only: le if_False)
  finally show ?thesis using True by simp
qed (subst group_commit.simps, simp)

lemma group_commit_run:
  assumes "dur_reach ops cfg s" and d: "vdim cfg = d" and l: "l \<le> highest_lsn (dwal (obj s))" and f: "\<not> syncing (obj s)"
  shows "\<exists>t. group_commit l (obj s) = Some (Inr (), obj t) \<and> dur_reach ops cfg t \<and> ghosts t = ghosts s \<and> l \<le> durable_lsn (obj t) \<and>
    (obj t = obj s \<or> obj t = synced_obj False (last_sync (obj s)) (obj s))"
proof (cases "durable_lsn (obj s) < l")
  case False
  then have "group_commit l (obj s) = Some (Inr (), obj s)" by (subst group_commit.simps) simp
  then show ?thesis using assms(1) False by (intro exI [of _ s]) simp
next
  case True
  obtain t where t: "dur_reach ops cfg t" "obj t = synced_obj False (last_sync (obj s)) (obj s)" "ghosts t = ghosts s"
    using sync_reach [OF assms(1) d] by blast
  obtain fd where "active_fd (dwal (obj s)) = Some fd" using active_open [OF dur_reach_inv [OF assms(1) d]] by blast
  from group_commit_eq [OF this f l] have "group_commit l (obj s) = Some (Inr (), obj t)" using True t(2) by simp
  moreover have "l \<le> durable_lsn (obj t)" using l by (simp add: t(2) le_max_iff_disj)
  ultimately show ?thesis using t by blast
qed

lemma maybe_flush_run:
  assumes "dur_reach ops cfg s" and d: "vdim cfg = d" and f: "\<not> syncing (obj s)"
  shows "\<exists>t. maybe_flush now (obj s) = Some (Inr (), obj t) \<and> dur_reach ops cfg t \<and> ghosts t = ghosts s \<and>
    (obj t = obj s \<or> obj t = synced_obj False now (obj s))"
proof (cases "now - last_sync (obj s) < flush_interval_ms (dopts (obj s))")
  case True
  then show ?thesis using assms(1) by (intro exI [of _ s]) (simp add: maybe_flush_def give_def)
next
  case False
  obtain t where t: "dur_reach ops cfg t" "obj t = synced_obj False now (obj s)" "ghosts t = ghosts s"
    using sync_reach [OF assms(1) d] by blast
  obtain fd where fd: "active_fd (dwal (obj s)) = Some fd" using active_open [OF dur_reach_inv [OF assms(1) d]] by blast
  have "maybe_flush now (obj s) = Some (Inr (), synced_obj False now (obj s))"
    using False f fd wal_sync_eq [of "(obj s)\<lparr>syncing := True\<rparr>" fd]
    by (simp add: maybe_flush_def bind_method_def modify_def synced_obj_def raise_durable_def)
  then show ?thesis using t by (intro exI [of _ t]) simp
qed

text \<open>A checkpoint when nothing is in flight.\<close>

lemma checkpoint_run:
  assumes reach: "dur_reach ops cfg s" and d: "vdim cfg = d" and c: "stage s = Idle" "in_flight (obj s) = 0"
    and space: "log_space (obj s)" and fits: "snapshot_fits (ddb (obj s))"
  shows "\<exists>t r. checkpoint ops now (obj s) = Some (Inr (), obj t) \<and> dur_reach ops cfg t \<and> logged t = logged s @ [r] \<and> rtype r = rt_checkpoint \<and>
    covered t = next_lsn (obj s) - 1 \<and> stage t = Idle \<and> ddb (obj t) = ddb (obj s) \<and> flying t = flying s \<and> finishing t = finishing s"
proof -
  let ?l = "next_lsn (obj s) - 1"
  define o1 where "o1 = (obj s)\<lparr>dhome := write_file_atomic (dhome (obj s)) snapshot_path (save_snapshot ops (ddb (obj s)) ?l)\<rparr>"
  define s1 where "s1 = s\<lparr>obj := o1, covered := ?l, snap_held := held s, snap_ids := ids s, stage := Saved ?l\<rparr>"
  have save: "save_home ops ?l (obj s) = Some (Inr (), o1)" by (simp add: save_home_def modify_def o1_def)
  have r1: "dur_reach ops cfg s1" unfolding s1_def by (rule dr_step [OF reach ds_save [OF c refl fits save]])
  note D1 = dur_invD [OF dur_reach_inv [OF r1 d]]
  define r where "r = \<lparr>rtype = rt_checkpoint, lsn = next_lsn o1, ext_id = snapshot_id o1, vec = [], meta = empty_meta\<rparr>"
  have "rec_ok r"
    using log_okD(7) [OF D1(4)] by (auto simp: rec_ok_def r_def record_ok_def encode_body_parts carries_vector_def carries_meta_def empty_meta_def
        rt_checkpoint_def rt_insert_def rt_update_def rt_set_meta_def s1_def)
  moreover have space1: "log_space (obj s1)" using space by (simp add: log_space_def s1_def o1_def)
  moreover have "highest_lsn (dwal (obj s1)) < next_lsn o1" using highest_less [OF D1(2,4)] by (simp add: s1_def)
  ultimately obtain w dr where w: "append_wal r (dwal o1) (dwal_dir o1) = (None, w, dr)"
    using wal_inv_append [OF D1(2), of r] by (auto simp: wal_of_def log_space_def s1_def r_def)
  define o2 where "o2 = o1\<lparr>next_lsn := next_lsn o1 + 1, snapshot_id := snapshot_id o1 + 1, dwal := w, dwal_dir := dr\<rparr>"
  have log: "log_checkpoint (obj s1) = Some (Inr (), o2)"
    using w by (simp add: log_checkpoint_def Let_def bind_method_def modify_def on_wal_def r_def s1_def o2_def)
  define s2 where "s2 = (add_record r s1)\<lparr>obj := o2, stage := Marked ?l\<rparr>"
  have r2: "dur_reach ops cfg s2" unfolding s2_def by (rule dr_step [OF r1 ds_mark [OF _ space1 log]]) (simp_all add: s1_def r_def)
  obtain fd where fd: "active_fd w = Some fd" using active_open [OF dur_reach_inv [OF r2 d]] by (auto simp: s2_def o2_def)
  define o3 where "o3 = o2\<lparr>dwal_dir := fsync dr fd\<rparr>"
  let ?p = "(fd, highest_lsn w)"
  define s3 where "s3 = (synced_to ?p s2)\<lparr>obj := o3, stage := Synced ?l\<rparr>"
  have sy: "start_sync (obj s2) = Some (Inr ?p, o2)" "end_sync ?p o2 = Some (Inr (highest_lsn w), o3)"
    by (simp_all add: start_sync_def sync_begin_def end_sync_def sync_end_def s2_def o2_def o3_def fd)
  have r3: "dur_reach ops cfg s3" unfolding s3_def by (rule dr_step [OF r2 ds_mark_sync [OF _ sy]]) (simp add: s2_def)
  obtain w' dr' where tr: "truncate_wal ?l w (fsync dr fd) = (None, w', dr')"
    using wal_inv_truncate [OF dur_invD(2) [OF dur_reach_inv [OF r3 d]], of ?l] by (auto simp: wal_of_def s3_def o3_def o2_def)
  define o4 where "o4 = o3\<lparr>dwal := w', dwal_dir := dr'\<rparr>"
  define o5 where "o5 = o4\<lparr>durable_lsn := max (durable_lsn o4) ?l, last_sync := now\<rparr>"
  have rel: "on_wal (truncate_wal ?l) (obj s3) = Some (Inr (), o4)" "end_checkpoint now ?l o4 = Some (Inr (), o5)"
    using tr by (simp_all add: on_wal_def end_checkpoint_def modify_def s3_def o3_def o2_def o4_def o5_def)
  define s4 where "s4 = s3\<lparr>obj := o5, supto := max (supto s3) ?l, stage := Idle\<rparr>"
  have r4: "dur_reach ops cfg s4" unfolding s4_def by (rule dr_step [OF r3 ds_release [OF _ rel]]) (simp add: s3_def)
  have "wal_sync o2 = Some (Inr (highest_lsn w), o3)"
    using sy by (simp add: wal_sync_def bind_method_def s2_def)
  then have "checkpoint ops now (obj s) = Some (Inr (), obj s4)"
    using c(2) save log rel by (simp add: checkpoint_def Let_def bind_method_def s1_def s3_def s4_def)
  then show ?thesis using r4
    by (intro exI [of _ s4] exI [of _ r])
      (simp add: s4_def s3_def s2_def s1_def synced_to_def add_record_def r_def o5_def o4_def o3_def o2_def o1_def c)
qed

lemma complete_op_run:
  assumes reach: "dur_reach ops cfg s" and d: "vdim cfg = d" and f: "\<not> syncing (obj s)" and l: "l \<le> highest_lsn (dwal (obj s))"
    and b: "applies ops cfg body r s"
  shows "\<exists>x o1. complete_op ops now l False body (obj s) = Some (x, o1) \<and> (case x of Inl e \<Rightarrow> e = LengthError
    | Inr _ \<Rightarrow> \<exists>t. dur_reach ops cfg t \<and> obj t = o1 \<and> logged t = logged s \<and> settled t \<and> (dpolicy (dopts (obj s)) = PerOpSync \<longrightarrow> l \<le> durable_lsn o1))"
proof -
  let ?commit = "if dpolicy (dopts (obj s)) = PerOpSync then group_commit l else give ()"
  have "\<exists>s1. ?commit (obj s) = Some (Inr (), obj s1) \<and> dur_reach ops cfg s1 \<and> ghosts s1 = ghosts s \<and> ddb (obj s1) = ddb (obj s) \<and>
    dopts (obj s1) = dopts (obj s) \<and> \<not> syncing (obj s1) \<and> (dpolicy (dopts (obj s)) = PerOpSync \<longrightarrow> l \<le> durable_lsn (obj s1))"
    using group_commit_run [OF reach d l f] reach f by (cases "dpolicy (dopts (obj s)) = PerOpSync") (auto simp: give_def)
  then obtain s1 where s1: "?commit (obj s) = Some (Inr (), obj s1)" "dur_reach ops cfg s1" "ghosts s1 = ghosts s" "ddb (obj s1) = ddb (obj s)"
    "dopts (obj s1) = dopts (obj s)" "\<not> syncing (obj s1)" "dpolicy (dopts (obj s)) = PerOpSync \<longrightarrow> l \<le> durable_lsn (obj s1)" by blast
  obtain x db where x: "body (ddb (obj s)) = Some (x, db)" "\<forall>e. x = Inl e \<longrightarrow> e = LengthError" using b by (auto simp: applies_def halts_def)
  show ?thesis
  proof (cases x)
    case (Inl e)
    then have "complete_op ops now l False body (obj s) = Some (Inl e, (obj s1)\<lparr>ddb := db\<rparr>)"
      using s1(1,4) x(1) by (simp add: complete_op_def bind_method_def on_db_def)
    then show ?thesis using x(2) Inl by simp
  next
    case (Inr u)
    then have run: "body (ddb (obj s1)) = Some (Inr (), db)" using x(1) s1(4) by simp
    obtain s2 where s2: "dur_reach ops cfg s2" "obj s2 = (obj s1)\<lparr>ddb := db\<rparr>" "logged s2 = logged s" "flying s2 = {}" "finishing s2 = {r}" "stage s2 = Idle"
      using b s1(2-4) run unfolding applies_def by blast
    let ?flush = "if dpolicy (dopts (obj s)) = Periodic then maybe_flush now else give ()"
    have "\<exists>s3. ?flush (obj s2) = Some (Inr (), obj s3) \<and> dur_reach ops cfg s3 \<and> ghosts s3 = ghosts s2 \<and> \<not> syncing (obj s3) \<and> durable_lsn (obj s2) \<le> durable_lsn (obj s3)"
    proof (cases "dpolicy (dopts (obj s)) = Periodic")
      case True
      then show ?thesis using maybe_flush_run [OF s2(1) d, of now] s2(2) s1(6) by auto
    next
      case False
      then show ?thesis using s2 s1(6) by (intro exI [of _ s2]) (simp add: give_def)
    qed
    then obtain s3 where s3: "?flush (obj s2) = Some (Inr (), obj s3)" "dur_reach ops cfg s3" "ghosts s3 = ghosts s2" "\<not> syncing (obj s3)"
      "durable_lsn (obj s2) \<le> durable_lsn (obj s3)" by blast
    let ?o = "(obj s3)\<lparr>in_flight := in_flight (obj s3) - 1\<rparr>"
    have fin: "finish_op (obj s3) = Some (Inr (), ?o)" by (simp add: finish_op_def modify_def)
    let ?t = "s3\<lparr>obj := ?o, finishing := finishing s3 - {r}\<rparr>"
    have g: "flying s3 = {}" "finishing s3 = {r}" "stage s3 = Idle" "logged s3 = logged s" using s3(3) s2 by (simp_all add: ghosts_def)
    have "dur_reach ops cfg ?t" by (rule dr_step [OF s3(2) ds_finish [OF _ fin]]) (simp add: g)
    moreover have "complete_op ops now l False body (obj s) = Some (Inr (), ?o)"
      using s1(1) run s2(2) s3(1) fin by (simp add: complete_op_def bind_method_def on_db_def give_def)
    moreover have "dpolicy (dopts (obj s)) = PerOpSync \<longrightarrow> l \<le> durable_lsn ?o" using s1(7) s2(2) s3(5) by auto
    ultimately show ?thesis using g s3(4) by (intro exI [of _ "Inr ()"] exI [of _ ?o]) (auto simp: settled_def intro!: exI [of _ ?t])
  qed
qed

lemma ghostsD:
  assumes "ghosts s1 = ghosts s"
  shows "logged s1 = logged s" "flying s1 = flying s" "finishing s1 = finishing s" "dpend s1 = dpend s" "held s1 = held s" "stage s1 = stage s"
  using assms by (simp_all add: ghosts_def)

lemma appliesI:
  assumes "halts body (ddb (obj s)) LengthError"
    and "\<And>s1 db. dur_reach ops cfg s1 \<Longrightarrow> ddb (obj s1) = ddb (obj s) \<Longrightarrow> flying s1 = flying s \<Longrightarrow> finishing s1 = finishing s \<Longrightarrow>
      dpend s1 = dpend s \<Longrightarrow> stage s1 = stage s \<Longrightarrow> body (ddb (obj s1)) = Some (Inr (), db) \<Longrightarrow>
      \<exists>t. dur_reach ops cfg t \<and> obj t = (obj s1)\<lparr>ddb := db\<rparr> \<and> logged t = logged s1 \<and> flying t = {} \<and> finishing t = {r} \<and> stage t = Idle"
  shows "applies ops cfg body r s"
  unfolding applies_def
proof (intro conjI allI impI, rule assms(1), elim conjE)
  fix s1 db
  assume a: "dur_reach ops cfg s1" "ddb (obj s1) = ddb (obj s)" "ghosts s1 = ghosts s" "body (ddb (obj s1)) = Some (Inr (), db)"
  from assms(2) [OF a(1,2) ghostsD(2,3,4,6) [OF a(3)] a(4)] ghostsD(1) [OF a(3)]
  show "\<exists>t. dur_reach ops cfg t \<and> obj t = (obj s1)\<lparr>ddb := db\<rparr> \<and> logged t = logged s \<and> flying t = {} \<and> finishing t = {r} \<and> stage t = Idle"
    by simp
qed

lemma publish_steps:
  assumes r1: "dur_reach ops cfg s1" and p: "p \<in> dpend s1" and r: "flying s1 = {r}" "finishing s1 = {}" "stage s1 = Idle" "ext_id r = pext p"
    and li: "link_node ops (pnode p) (ddb (obj s1)) = Some (Inr (), db2)"
    and pu: "(case pold p of None \<Rightarrow> insert_publish (pext p) (pnode p) | Some old \<Rightarrow> update_publish (pext p) (pnode p) old) db2 = Some (Inr (), db)"
  shows "\<exists>t. dur_reach ops cfg t \<and> obj t = (obj s1)\<lparr>ddb := db\<rparr> \<and> logged t = logged s1 \<and> flying t = {} \<and> finishing t = {r} \<and> stage t = Idle"
proof -
  define s2 where "s2 = s1\<lparr>obj := (obj s1)\<lparr>ddb := db2\<rparr>\<rparr>"
  have "dur_step ops cfg s1 s2" unfolding s2_def by (rule ds_link [OF p]) (use li in \<open>simp add: on_db_def\<close>)
  then have r2: "dur_reach ops cfg s2" using r1 dr_step by blast
  define s3 where "s3 = (applied_op r ((held s2)(pext p \<mapsto> (pvec p, prec p))) s2)\<lparr>obj := (obj s2)\<lparr>ddb := db\<rparr>, dpend := dpend s2 - {p}\<rparr>"
  have "dur_step ops cfg s2 s3" unfolding s3_def
    by (rule ds_publish) (use p pu r in \<open>simp_all add: s2_def on_db_def\<close>)
  then have "dur_reach ops cfg s3" using r2 dr_step by blast
  then show ?thesis using r by (intro exI [of _ s3]) (simp add: s3_def s2_def applied_op_def)
qed

lemma insert_steps:
  assumes reach: "dur_reach ops cfg s" and d: "vdim cfg = d" and r: "flying s = {r}" "finishing s = {}" "dpend s = {}" "stage s = Idle"
    and ty: "rtype r = rt_insert" and v: "take (vdim cfg) v = vec r" "canon_meta rec = meta r" "record_fits (vmeta (ddb (obj s))) rec"
    and a: "insert_reserved ops (ext_id r) v rec (ddb (obj s)) = Some (Inr (), db)"
  shows "\<exists>t. dur_reach ops cfg t \<and> obj t = (obj s)\<lparr>ddb := db\<rparr> \<and> logged t = logged s \<and> flying t = {} \<and> finishing t = {r} \<and> stage t = Idle"
proof -
  obtain iid db1 db2 where al: "insert_allocate ops (ext_id r) v rec (ddb (obj s)) = Some (Inr iid, db1)"
    and li: "link_node ops iid db1 = Some (Inr (), db2)" and pu: "insert_publish (ext_id r) iid db2 = Some (Inr (), db)"
    using a by (auto simp: insert_reserved_def method_simps)
  let ?p = "\<lparr>pext = ext_id r, pvec = vec r, prec = rec, pnode = iid, pold = None\<rparr>"
  define s1 where "s1 = s\<lparr>obj := (obj s)\<lparr>ddb := db1\<rparr>, dpend := insert ?p (dpend s)\<rparr>"
  have "dur_step ops cfg s s1" unfolding s1_def
    by (rule ds_allocate [OF _ ty _ v]) (use r al in \<open>simp_all add: on_db_def\<close>)
  then have r1: "dur_reach ops cfg s1" using reach dr_step by blast
  show ?thesis using publish_steps [OF r1, of ?p r db2 db] r li pu by (simp add: s1_def)
qed

lemma update_steps:
  assumes reach: "dur_reach ops cfg s" and d: "vdim cfg = d" and r: "flying s = {r}" "finishing s = {}" "dpend s = {}" "stage s = Idle"
    and ty: "rtype r = rt_update" and v: "take (vdim cfg) v = vec r" "canon_meta rec = meta r" "record_fits (vmeta (ddb (obj s))) rec"
    and a: "vdb_update ops (ext_id r) v (Some rec) (ddb (obj s)) = Some (Inr b, db)"
  shows "\<exists>t. dur_reach ops cfg t \<and> obj t = (obj s)\<lparr>ddb := db\<rparr> \<and> logged t = logged s \<and> flying t = {} \<and> finishing t = {r} \<and> stage t = Idle"
proof -
  note D = dur_invD [OF dur_reach_inv [OF reach d]]
  have "rtype r \<noteq> rt_insert" using ty by (simp add: rt_insert_def rt_update_def)
  then have "held s (ext_id r) \<noteq> None" using flight_okD(7) [OF D(6), of r] r(1) by simp
  then have "ext_to_int (ddb (obj s)) (ext_id r) \<noteq> None" using lookup [OF D(5) d, of "ext_id r"] by (simp add: contains_def)
  then obtain new old db1 db2 where al: "update_allocate ops (ext_id r) v (Some rec) (ddb (obj s)) = Some (Inr (Some (new, old)), db1)"
    and li: "link_node ops new db1 = Some (Inr (), db2)" and pu: "update_publish (ext_id r) new old db2 = Some (Inr (), db)"
    using a by (auto simp: vdb_update_def update_allocate_def method_simps)
  let ?p = "\<lparr>pext = ext_id r, pvec = vec r, prec = rec, pnode = new, pold = Some old\<rparr>"
  define s1 where "s1 = s\<lparr>obj := (obj s)\<lparr>ddb := db1\<rparr>, dpend := insert ?p (dpend s)\<rparr>"
  have "dur_step ops cfg s s1" unfolding s1_def
    by (rule ds_reallocate [OF _ ty _ v]) (use r al in \<open>simp_all add: on_db_def\<close>)
  then have r1: "dur_reach ops cfg s1" using reach dr_step by blast
  show ?thesis using publish_steps [OF r1, of ?p r db2 db] r li pu by (simp add: s1_def)
qed

text \<open>The serial prefix of a call, alone.\<close>

lemma log_op_alone:
  assumes inv: "dur_inv ops cfg s" and space: "log_space (obj s)" and ok: "record_ok (canon_record (mk (next_lsn (obj s))))" "\<And>l. lsn (mk l) = l"
    and due: "ops_since_checkpoint (obj s) + 1 < checkpoint_ops (dopts (obj s))"
  shows "\<exists>w dr. log_op mk (obj s) = Some (Inr (next_lsn (obj s), False), (obj s)\<lparr>next_lsn := next_lsn (obj s) + 1, dwal := w, dwal_dir := dr,
      in_flight := in_flight (obj s) + 1, ops_since_checkpoint := ops_since_checkpoint (obj s) + 1\<rparr>) \<and> conf_ok cfg w \<and>
    next_lsn (obj s) \<le> highest_lsn w \<and>
    wal_inv ((wal_of s)\<lparr>wlog := w, wdir := dr, whist := shist s @ [canon_record (mk (next_lsn (obj s)))]\<rparr>)"
proof -
  note D = dur_invD [OF inv]
  let ?r = "mk (next_lsn (obj s))"
  have rok: "rec_ok (canon_record ?r)" using ok log_okD(7) [OF D(4)] by (auto simp: rec_ok_def)
  obtain w dr where w: "append_wal (canon_record ?r) (dwal (obj s)) (dwal_dir (obj s)) = (None, w, dr)"
    and W: "wal_inv ((wal_of s)\<lparr>wlog := w, wdir := dr, whist := shist s @ [canon_record ?r]\<rparr>)"
    using wal_inv_append [OF D(2) rok] highest_less [OF D(2,4)] space ok(2) by (auto simp: wal_of_def log_space_def)
  have "highest_lsn w = max_all 0 (shist s @ [canon_record ?r])" using W by (auto simp: wal_inv_def wal_inv_for_def)
  then have "next_lsn (obj s) \<le> highest_lsn w" by (simp add: ok(2))
  then show ?thesis using w W due append_conf [OF w] D(3)
    by (intro exI [of _ w] exI [of _ dr])
      (simp add: log_op_def Let_def bind_method_def modify_def on_wal_def append_wal_canon give_def not_le)
qed

lemma log_op_total:
  assumes "dur_inv ops cfg s" "log_space (obj s)" "record_ok (canon_record (mk (next_lsn (obj s))))" "\<And>l. lsn (mk l) = l"
    "ops_since_checkpoint (obj s) + 1 < checkpoint_ops (dopts (obj s))"
  shows "\<exists>o1. log_op mk (obj s) = Some (Inr (next_lsn (obj s), False), o1) \<and> next_lsn (obj s) \<le> highest_lsn (dwal o1) \<and>
    ddb o1 = ddb (obj s) \<and> dopts o1 = dopts (obj s) \<and> syncing o1 = syncing (obj s)"
  using log_op_alone [OF assms] by auto

text \<open>A call after its prefix: what is left is \<open>complete_op\<close>.\<close>

lemma call_run:
  assumes reach: "dur_reach ops cfg s1" and d: "vdim cfg = d" and s: "settled s" and s1: "s1 = (start_op r s)\<lparr>obj := o1, ids := J\<rparr>"
    and o1: "lsn r = l" "l \<le> highest_lsn (dwal o1)" "\<not> syncing o1"
    and b: "applies ops cfg body r s1" and last: "\<forall>q \<in> set (logged s). lsn q \<le> l"
  shows "\<exists>x o2. complete_op ops now l False body o1 = Some (x, o2) \<and> (case x of Inl e \<Rightarrow> e = LengthError
    | Inr _ \<Rightarrow> \<exists>t. dur_reach ops cfg t \<and> obj t = o2 \<and> settled t \<and> logged t = logged s @ [r] \<and>
        (dpolicy (dopts o1) = PerOpSync \<longrightarrow> (\<forall>q \<in> set (logged t). lsn q \<le> durable_lsn o2)))"
proof -
  have f: "obj s1 = o1" "logged s1 = logged s @ [r]" by (simp_all add: s1 start_op_def add_record_def)
  obtain x o2 where x: "complete_op ops now l False body o1 = Some (x, o2)" "case x of Inl e \<Rightarrow> e = LengthError
    | Inr _ \<Rightarrow> \<exists>t. dur_reach ops cfg t \<and> obj t = o2 \<and> logged t = logged s1 \<and> settled t \<and> (dpolicy (dopts o1) = PerOpSync \<longrightarrow> l \<le> durable_lsn o2)"
    using complete_op_run [OF reach d _ _ b, of l now] o1 f by auto
  show ?thesis
  proof (cases x)
    case (Inr u)
    then obtain t where t: "dur_reach ops cfg t" "obj t = o2" "logged t = logged s @ [r]" "settled t" "dpolicy (dopts o1) = PerOpSync \<longrightarrow> l \<le> durable_lsn o2"
      using x(2) f by auto
    have "\<forall>q \<in> set (logged t). lsn q \<le> l" using last o1(1) t(3) by simp
    then show ?thesis using x(1) Inr t by (intro exI [of _ x] exI [of _ o2]) (auto intro!: exI [of _ t] intro: order_trans)
  qed (use x in auto)
qed

end

context returning_database_index begin

lemma flight_none: "flight_ok hs {} G P A I n \<Longrightarrow> P = {}"
  by (auto simp: flight_ok_def)

lemma insert_call:
  assumes reach: "dur_reach ops cfg s" and d: "vdim cfg = d" and s: "settled s" and space: "log_space (obj s)" and room: "next_ext_id (ddb (obj s)) \<noteq> -1"
    and m: "valid_meta (vschema cfg) rec" "record_fits (vmeta (ddb (obj s))) rec" and due: "ops_since_checkpoint (obj s) + 1 < checkpoint_ops (dopts (obj s))"
    and r_def: "r = canon_record \<lparr>rtype = rt_insert, lsn = next_lsn (obj s), ext_id = next_ext_id (ddb (obj s)), vec = take (vdim cfg) v, meta = rec\<rparr>" and rok: "record_ok r"
  shows "logs_op ops cfg s r (durable_insert ops now v rec) (ext_id r)"
proof -
  note D = dur_invD [OF dur_reach_inv [OF reach d]]
  let ?ext = "next_ext_id (ddb (obj s))" and ?l = "next_lsn (obj s)"
  let ?mk = "\<lambda>l. \<lparr>rtype = rt_insert, lsn = l, ext_id = ?ext, vec = take (vdim cfg) v, meta = rec\<rparr>"
  define db where "db = (ddb (obj s))\<lparr>next_ext_id := ?ext + 1\<rparr>"
  have res: "reserve_id (ddb (obj s)) = Some (Inr ?ext, db)" by (simp add: reserve_id_def db_def)
  let ?s0 = "s\<lparr>obj := (obj s)\<lparr>ddb := db\<rparr>, ids := insert ?ext (ids s)\<rparr>"
  note inv0 = reserve_inv [OF dur_reach_inv [OF reach d] room res]
  obtain o1 where o1: "log_op ?mk ((obj s)\<lparr>ddb := db\<rparr>) = Some (Inr (?l, False), o1)" "?l \<le> highest_lsn (dwal o1)" "ddb o1 = db"
    "dopts o1 = dopts (obj s)" "syncing o1 = syncing (obj s)"
    using log_op_total [OF inv0, of ?mk] space rok due by (auto simp: log_space_def r_def)
  have pre: "insert_prefix v rec (obj s) = Some (Inr (?ext, ?l, False), o1)"
    using o1(1) D(1) by (simp add: insert_prefix_def bind_method_def on_db_def res give_def)
  define s1 where "s1 = (start_op r s)\<lparr>obj := o1, ids := insert ?ext (ids s)\<rparr>"
  have "dur_step ops cfg s s1" unfolding s1_def
    by (rule ds_insert [OF _ space room m(1) pre _ rok]) (use s in \<open>simp_all add: settled_def r_def\<close>)
  then have r1: "dur_reach ops cfg s1" using reach dr_step by blast
  note D1 = dur_invD [OF dur_reach_inv [OF r1 d]]
  have g1: "flying s1 = {r}" "finishing s1 = {}" "stage s1 = Idle" "obj s1 = o1" "dpend s1 = {}" "held s1 = held s" "logged s1 = logged s @ [r]"
    using s flight_none [of "logged s"] D(6) by (auto simp: s1_def start_op_def add_record_def settled_def)
  have vm: "vmeta db = vmeta (ddb (obj s))" by (simp add: db_def)
  have "halts (insert_reserved ops ?ext v rec) db LengthError"
  proof (rule halts_reserved [OF _ d])
    show "db_run ops cfg db (held s) {} (ids s1)" using D1(5) g1 o1(3) by simp
    show "held s ?ext = None" using fresh_id [OF D(5) d] by simp
  qed (use room m(2) vm in simp_all)
  moreover have r: "ext_id r = ?ext" "rtype r = rt_insert" "vec r = take (vdim cfg) v" "meta r = canon_meta rec" "lsn r = ?l" by (simp_all add: r_def)
  ultimately have b: "applies ops cfg (insert_reserved ops ?ext v rec) r s1"
    by (intro appliesI insert_steps [OF _ d, where v = v and rec = rec]) (use g1 o1(3) m(2) vm in simp_all)
  have last: "\<forall>q \<in> set (logged s). lsn q \<le> ?l" using log_okD(3) [OF D(4)] by auto
  obtain x o2 where x: "complete_op ops now ?l False (insert_reserved ops ?ext v rec) o1 = Some (x, o2)" "case x of Inl e \<Rightarrow> e = LengthError
    | Inr _ \<Rightarrow> \<exists>t. dur_reach ops cfg t \<and> obj t = o2 \<and> settled t \<and> logged t = logged s @ [r] \<and>
        (dpolicy (dopts o1) = PerOpSync \<longrightarrow> (\<forall>q \<in> set (logged t). lsn q \<le> durable_lsn o2))"
    using call_run [OF r1 d s s1_def r(5) o1(2) _ b last, of now] s o1(5) by (auto simp: settled_def)
  have "durable_insert ops now v rec (obj s) = Some (case x of Inl e \<Rightarrow> Inl e | Inr _ \<Rightarrow> Inr ?ext, o2)"
    using pre x(1) by (simp add: durable_insert_def bind_method_def give_def split: sum.split)
  then show ?thesis using x(2) o1(4) r(1) unfolding logs_op_def by (cases x) auto
qed

text \<open>The other three calls log an operation on an id that the database has.\<close>

lemma other_call:
  assumes reach: "dur_reach ops cfg s" and d: "vdim cfg = d" and s: "settled s" and space: "log_space (obj s)"
    and due: "ops_since_checkpoint (obj s) + 1 < checkpoint_ops (dopts (obj s))"
    and r_def: "r = canon_record (mk (next_lsn (obj s)))" and rok: "record_ok r" "\<And>l. lsn (mk l) = l"
    and step: "\<And>o1. log_op mk (obj s) = Some (Inr (next_lsn (obj s), False), o1) \<Longrightarrow> dur_step ops cfg s ((start_op r s)\<lparr>obj := o1\<rparr>)"
    and halt: "halts body (ddb (obj s)) LengthError"
    and appl: "\<And>s1 db. dur_reach ops cfg s1 \<Longrightarrow> ddb (obj s1) = ddb (obj s) \<Longrightarrow> flying s1 = {r} \<Longrightarrow> finishing s1 = {} \<Longrightarrow>
      dpend s1 = {} \<Longrightarrow> stage s1 = Idle \<Longrightarrow> body (ddb (obj s1)) = Some (Inr (), db) \<Longrightarrow>
      \<exists>t. dur_reach ops cfg t \<and> obj t = (obj s1)\<lparr>ddb := db\<rparr> \<and> logged t = logged s1 \<and> flying t = {} \<and> finishing t = {r} \<and> stage t = Idle"
  shows "\<exists>x o1 o2. log_op mk (obj s) = Some (Inr (next_lsn (obj s), False), o1) \<and>
    complete_op ops now (next_lsn (obj s)) False body o1 = Some (x, o2) \<and> (case x of Inl e \<Rightarrow> e = LengthError
    | Inr _ \<Rightarrow> \<exists>t. dur_reach ops cfg t \<and> obj t = o2 \<and> settled t \<and> logged t = logged s @ [r] \<and>
        (dpolicy (dopts (obj s)) = PerOpSync \<longrightarrow> (\<forall>q \<in> set (logged t). lsn q \<le> durable_lsn o2)))"
proof -
  let ?l = "next_lsn (obj s)"
  note inv = dur_reach_inv [OF reach d]
  note D = dur_invD [OF inv]
  obtain o1 where o1: "log_op mk (obj s) = Some (Inr (?l, False), o1)" "?l \<le> highest_lsn (dwal o1)" "ddb o1 = ddb (obj s)"
    "dopts o1 = dopts (obj s)" "syncing o1 = syncing (obj s)"
    using log_op_total [OF inv space rok(1) [unfolded r_def] rok(2) due] by blast
  define s1 where "s1 = (start_op r s)\<lparr>obj := o1, ids := ids s\<rparr>"
  have "s1 = (start_op r s)\<lparr>obj := o1\<rparr>" by (simp add: s1_def start_op_def add_record_def)
  then have r1: "dur_reach ops cfg s1" using dr_step [OF reach step [OF o1(1)]] by simp
  have g1: "flying s1 = {r}" "finishing s1 = {}" "stage s1 = Idle" "obj s1 = o1" "dpend s1 = {}"
    using s flight_none [of "logged s"] D(6) by (auto simp: s1_def start_op_def add_record_def settled_def)
  have b: "applies ops cfg body r s1"
    by (rule appliesI) (use halt appl g1 o1(3) in simp_all)
  have last: "\<forall>q \<in> set (logged s). lsn q \<le> ?l" using log_okD(3) [OF D(4)] by auto
  have "lsn r = ?l" by (simp add: r_def rok(2))
  from call_run [OF r1 d s s1_def this o1(2) _ b last, of now, unfolded o1(4)] show ?thesis using s o1(1,5) by (auto simp: settled_def)
qed

lemma update_call:
  assumes reach: "dur_reach ops cfg s" and d: "vdim cfg = d" and s: "settled s" and space: "log_space (obj s)" and x: "contains (ddb (obj s)) ext"
    and m: "\<forall>rec. orec = Some rec \<longrightarrow> valid_meta (vschema cfg) rec"
      "(case orec of Some rec \<Rightarrow> Some rec | None \<Rightarrow> get_metadata (ddb (obj s)) ext) = Some rec" "record_fits (vmeta (ddb (obj s))) rec"
    and due: "ops_since_checkpoint (obj s) + 1 < checkpoint_ops (dopts (obj s))"
    and r_def: "r = canon_record \<lparr>rtype = rt_update, lsn = next_lsn (obj s), ext_id = ext, vec = take (vdim cfg) v, meta = rec\<rparr>" and rok: "record_ok r"
  shows "logs_op ops cfg s r (durable_update ops now ext v orec) True"
proof -
  note D = dur_invD [OF dur_reach_inv [OF reach d]]
  let ?mk = "\<lambda>l. \<lparr>rtype = rt_update, lsn = l, ext_id = ext, vec = take (vdim cfg) v, meta = rec\<rparr>"
  let ?body = "bind_method (vdb_update ops ext v (Some rec)) (\<lambda>_. give ())"
  have pre: "update_prefix ext v orec (obj s) = bind_method (log_op ?mk) (\<lambda>(l, ckpt). give (Some (rec, l, ckpt))) (obj s)"
    using m(2) D(1) by (simp add: update_prefix_def)
  have r: "rtype r = rt_update" "ext_id r = ext" "vec r = take (vdim cfg) v" "meta r = canon_meta rec" by (simp_all add: r_def)
  have "\<exists>y o1 o2. log_op ?mk (obj s) = Some (Inr (next_lsn (obj s), False), o1) \<and>
    complete_op ops now (next_lsn (obj s)) False ?body o1 = Some (y, o2) \<and> (case y of Inl e \<Rightarrow> e = LengthError
    | Inr _ \<Rightarrow> \<exists>t. dur_reach ops cfg t \<and> obj t = o2 \<and> settled t \<and> logged t = logged s @ [r] \<and>
        (dpolicy (dopts (obj s)) = PerOpSync \<longrightarrow> (\<forall>q \<in> set (logged t). lsn q \<le> durable_lsn o2)))"
  proof (rule other_call [where mk = ?mk, OF reach d s space due r_def rok], goal_cases)
    case (2 o1)
    show ?case by (rule ds_log_update [where b = False, OF _ space x _ m(1) _ r_def rok]) (use s 2 pre in \<open>simp_all add: settled_def bind_method_def give_def\<close>)
  next
    case 3
    have "dpend s = {}" using s flight_none [of "logged s"] D(6) by (auto simp: settled_def)
    then show ?case by (intro halts_give_unit halts_update [OF D(5) d]) (use m(3) in simp_all)
  next
    case (4 s1 db)
    then obtain b where "vdb_update ops (ext_id r) v (Some rec) (ddb (obj s1)) = Some (Inr b, db)" using r(2) by (auto simp: method_simps)
    with 4 show ?case using update_steps [OF 4(1) d 4(3-6) r(1), of v rec b db] r m(3) by simp
  qed simp
  then show ?thesis using x pre by (fastforce simp: logs_op_def durable_update_def bind_method_def give_def split: sum.splits)
qed

lemma remove_call:
  assumes reach: "dur_reach ops cfg s" and d: "vdim cfg = d" and s: "settled s" and space: "log_space (obj s)" and x: "contains (ddb (obj s)) ext"
    and due: "ops_since_checkpoint (obj s) + 1 < checkpoint_ops (dopts (obj s))"
    and r_def: "r = \<lparr>rtype = rt_delete, lsn = next_lsn (obj s), ext_id = ext, vec = [], meta = empty_meta\<rparr>"
  shows "logs_op ops cfg s r (durable_remove ops now ext) True"
proof -
  note D = dur_invD [OF dur_reach_inv [OF reach d]]
  let ?mk = "\<lambda>l. \<lparr>rtype = rt_delete, lsn = l, ext_id = ext, vec = [], meta = empty_meta\<rparr>"
  let ?body = "bind_method (vdb_remove ext) (\<lambda>_. give ())"
  have canon: "r = canon_record (?mk (next_lsn (obj s)))" by (simp add: r_def canon_record_def)
  have rok: "record_ok r"
    by (simp add: r_def record_ok_def encode_body_parts carries_vector_def carries_meta_def empty_meta_def
        rt_delete_def rt_insert_def rt_update_def rt_set_meta_def)
  have r: "rtype r = rt_delete" "ext_id r = ext" by (simp_all add: r_def)
  have "\<exists>y o1 o2. log_op ?mk (obj s) = Some (Inr (next_lsn (obj s), False), o1) \<and>
    complete_op ops now (next_lsn (obj s)) False ?body o1 = Some (y, o2) \<and> (case y of Inl e \<Rightarrow> e = LengthError
    | Inr _ \<Rightarrow> \<exists>t. dur_reach ops cfg t \<and> obj t = o2 \<and> settled t \<and> logged t = logged s @ [r] \<and>
        (dpolicy (dopts (obj s)) = PerOpSync \<longrightarrow> (\<forall>q \<in> set (logged t). lsn q \<le> durable_lsn o2)))"
  proof (rule other_call [where mk = ?mk, OF reach d s space due canon rok], goal_cases)
    case (2 o1)
    show ?case by (rule ds_log_remove [where b = False, OF _ space x _ _ r_def]) (use s 2 in \<open>simp_all add: settled_def remove_prefix_def\<close>)
  next
    case 3
    show ?case by (rule halts_give_unit [OF halts_remove [OF db_run_ok [OF D(5) d]]])
  next
    case (4 s1 db)
    then obtain b where "vdb_remove ext (ddb (obj s1)) = Some (Inr b, db)" by (auto simp: method_simps)
    then have "dur_step ops cfg s1 ((applied_op r ((held s1)(ext_id r := None)) s1)\<lparr>obj := (obj s1)\<lparr>ddb := db\<rparr>\<rparr>)"
      by (intro ds_remove) (use 4 r in \<open>simp_all add: on_db_def\<close>)
    from dr_step [OF 4(1) this] 4 show ?case by (intro exI) (auto simp: applied_op_def)
  qed simp
  then show ?thesis using x by (fastforce simp: logs_op_def durable_remove_def remove_prefix_def bind_method_def give_def split: sum.splits)
qed

lemma set_call:
  assumes reach: "dur_reach ops cfg s" and d: "vdim cfg = d" and s: "settled s" and space: "log_space (obj s)" and x: "contains (ddb (obj s)) ext"
    and m: "valid_meta (vschema cfg) rec" "record_fits (vmeta (ddb (obj s))) rec"
    and due: "ops_since_checkpoint (obj s) + 1 < checkpoint_ops (dopts (obj s))"
    and r_def: "r = canon_record \<lparr>rtype = rt_set_meta, lsn = next_lsn (obj s), ext_id = ext, vec = [], meta = rec\<rparr>" and rok: "record_ok r"
  shows "logs_op ops cfg s r (durable_set_metadata ops now ext rec) True"
proof -
  note D = dur_invD [OF dur_reach_inv [OF reach d]]
  let ?mk = "\<lambda>l. \<lparr>rtype = rt_set_meta, lsn = l, ext_id = ext, vec = [], meta = rec\<rparr>"
  let ?body = "bind_method (vdb_set_metadata ext rec) (\<lambda>_. give ())"
  have r: "rtype r = rt_set_meta" "ext_id r = ext" "meta r = canon_meta rec" by (simp_all add: r_def)
  have "\<exists>y o1 o2. log_op ?mk (obj s) = Some (Inr (next_lsn (obj s), False), o1) \<and>
    complete_op ops now (next_lsn (obj s)) False ?body o1 = Some (y, o2) \<and> (case y of Inl e \<Rightarrow> e = LengthError
    | Inr _ \<Rightarrow> \<exists>t. dur_reach ops cfg t \<and> obj t = o2 \<and> settled t \<and> logged t = logged s @ [r] \<and>
        (dpolicy (dopts (obj s)) = PerOpSync \<longrightarrow> (\<forall>q \<in> set (logged t). lsn q \<le> durable_lsn o2)))"
  proof (rule other_call [where mk = ?mk, OF reach d s space due r_def rok], goal_cases)
    case (2 o1)
    show ?case by (rule ds_log_set [where b = False, OF _ space x _ m(1) _ r_def rok]) (use s 2 in \<open>simp_all add: settled_def set_prefix_def\<close>)
  next
    case 3
    show ?case by (rule halts_give_unit [OF halts_set [OF db_run_ok [OF D(5) d] m(2)]])
  next
    case (4 s1 db)
    then obtain b where "vdb_set_metadata ext rec (ddb (obj s1)) = Some (Inr b, db)" by (auto simp: method_simps)
    then have "dur_step ops cfg s1 ((applied_op r (set_record (ext_id r) rec (held s1)) s1)\<lparr>obj := (obj s1)\<lparr>ddb := db\<rparr>\<rparr>)"
      by (intro ds_set) (use 4 r m(2) in \<open>simp_all add: on_db_def\<close>)
    from dr_step [OF 4(1) this] 4 show ?case by (intro exI) (auto simp: applied_op_def)
  qed simp
  then show ?thesis using x by (fastforce simp: logs_op_def durable_set_metadata_def set_prefix_def bind_method_def give_def split: sum.splits)
qed

end

end
