(* ===== verification/Durable_Damage.thy ===== *)
theory Durable_Damage
  imports Durable_Spec
begin

text \<open>
  A record that the database refuses. \<open>insert\<close> and \<open>set_metadata\<close> of the durable database log
  the operation before the database validates it, so the log of a call that throws has a record
  which every later replay throws on.
\<close>

lemma replay_room_append: "replay_room ops db (xs @ ys) \<Longrightarrow> replay_room ops db xs"
  by (induction ops db xs rule: replay_room.induct) (auto split: option.splits sum.splits prod.splits)

text \<open>A sync with nothing between its two parts.\<close>

lemma wal_inv_sync:
  assumes inv: "wal_inv s" and fd: "active_fd (wlog s) = Some fd"
  shows "wal_inv (s\<lparr>wdir := fsync (wdir s) fd, wacked := wacked s \<union> {r \<in> set (whist s). lsn r \<le> highest_lsn (wlog s)}\<rparr>)"
proof -
  let ?p = "(fd, highest_lsn (wlog s))"
  let ?s = "s\<lparr>wpend := ?p # wpend s\<rparr>"
  have "wal_inv ?s" by (rule wal_inv_op [OF ws_sync_begin inv]) (simp add: sync_begin_def fd)
  moreover have "wal_op ?s (?s\<lparr>wdir := fsync (wdir s) fd, wpend := remove1 ?p (wpend ?s),
      wacked := wacked ?s \<union> {r \<in> set (whist ?s). lsn r \<le> highest_lsn (wlog s)}\<rparr>)"
    by (rule ws_sync_end) (simp_all add: sync_end_def)
  ultimately show ?thesis using wal_inv_op by fastforce
qed

text \<open>What a log delivers that ends with a record the crash has left.\<close>

lemma history_part_last:
  assumes part: "history_part s rs" and h: "whist s = xs @ [r]" and r: "r \<in> set rs" "r \<notin> set xs"
  shows "\<exists>ys. rs = ys @ [r] \<and> history_part (s\<lparr>whist := xs\<rparr>) ys"
proof -
  obtain n m where part: "rs = take m (drop n (xs @ [r]))" and low: "\<forall>q \<in> set (take n (xs @ [r])). lsn q \<le> wupto s"
    using part h by (auto simp: history_part_def)
  have n: "n \<le> length xs" using r(1) part by (cases "n \<le> length xs") auto
  have "r \<notin> set (take m (drop n xs))" using r(2) by (meson in_set_dropD in_set_takeD)
  then have "m - (length xs - n) \<noteq> 0" using r(1) part n by (cases "m - (length xs - n)") auto
  then have "rs = drop n xs @ [r]" using part n by (cases "m - (length xs - n)") auto
  moreover have "history_part (s\<lparr>whist := xs\<rparr>) (drop n xs)"
    unfolding history_part_def using low n by (intro exI [of _ n] exI [of _ "length xs"]) simp
  ultimately show ?thesis by blast
qed

context returning_database_index begin

lemma run_schema: "db_run ops cfg db A P I \<Longrightarrow> vdim cfg = d \<Longrightarrow> mschema (vmeta db) = vschema cfg"
  using db_run_ok arrays_store store_okD(1) by (fastforce simp: db_ok_def)

lemma apply_refused:
  assumes "mschema (vmeta db) = vschema cfg" and "rtype r = rt_insert" and "validate (vschema cfg) (meta r) = Some e"
  shows "apply_record ops r db = Some (Inl e, db)"
  using assms by (simp add: apply_record_def insert_reserved_def validated_def)

text \<open>The replay of a valid part of the history, then of a record that is refused.\<close>

lemma replay_refused:
  assumes run: "db_run ops cfg db A {} I" and d: "vdim cfg = d" and l: "\<forall>r \<in> set rs. l < lsn r" and v: "valid_from cfg (canon A) rs"
    and room: "replay_room ops db (rs @ [r])" and r: "l < lsn r" "rtype r = rt_insert" "validate (vschema cfg) (meta r) = Some e"
  shows "feed (replay_record ops l) (Some db) (rs @ [r]) \<in> {Inl e, Inl LengthError}"
  using replay_returns [OF run d l v replay_room_append [OF room]]
proof (elim disjE exE)
  fix db' assume f: "feed (replay_record ops l) (Some db) rs = Inr (Some db')"
  have "mschema (vmeta db') = vschema cfg" using run_schema [OF replay_run [OF run d l v replay_room_append [OF room] f] d] .
  then show ?thesis using apply_refused [OF _ r(2,3)] f r(1) by (simp add: feed_append replay_record_def [of _ _ _ r])
qed (simp add: feed_append)

text \<open>Recovery from a log that ends with such a record, in the state the call that threw leaves.\<close>

lemma refused_recovery:
  assumes inv: "dur_inv ops cfg s" and d: "vdim cfg = d" and W: "wal_inv (wal_of t)" and C: "conf_ok cfg (dwal (obj t))"
    and t: "shist t = shist s @ [r]" "supto t = supto s" "covered t = covered s" "snap_held t = snap_held s" "snap_ids t = snap_ids s" "dhome (obj t) = dhome (obj s)"
    and r: "r \<in> sacked t" "lsn r = next_lsn (obj s)" "rtype r = rt_insert" "validate (vschema cfg) (meta r) = Some e"
    and cr: "crashed (dwal_dir (obj t)) dr" "crashed (dhome (obj t)) h" and room: "recovery_room ops cfg opts h dr"
    and sync: "header_synced (dwal_dir (obj t))"
  shows "recover ops cfg opts h dr now \<in> {Some (Inl e), Some (Inl LengthError)}"
proof -
  note D = dur_invD [OF inv] and L = log_okD [OF dur_invD(4) [OF inv]]
  obtain db0 where mk: "make_vdb ops cfg = Inr db0" using run_made [OF D(5)] by blast
  have S: "snap_ok ops cfg (dhome (obj t)) (covered t) (snap_held t) (snap_ids t) (logged s)" using D(7) t by simp
  obtain x where x: "load_home ops db0 h = Some x" "\<forall>e. x = Inl e \<longrightarrow> e = LengthError" using load_home_returns [OF S cr(2) d mk] by blast
  show ?thesis
  proof (cases x)
    case (Inl e)
    then show ?thesis using x mk by (simp add: recover_def)
  next
    case (Inr y)
    obtain l db1 where load: "load_home ops db0 h = Some (Inr (l, db1))" using x(1) Inr by (cases y) simp
    let ?rs = "delivered cfg opts dr"
    obtain w2 d2 where P: "l = covered t" "db_run ops cfg db1 (snap_held t) {} (snap_ids t)"
      and E: "recover ops cfg opts h dr now = (case feed (replay_record ops l) (Some db1) ?rs of
        Inl e \<Rightarrow> Some (Inl e) | Inr None \<Rightarrow> None
      | Inr (Some db) \<Rightarrow> Some (if torn_header dr then Inl RuntimeError else Inr (rebuilt cfg opts now h w2 d2 l db)))"
      and part: "history_part (wal_of t) ?rs" and acks: "\<forall>q \<in> sacked t. supto t < lsn q \<longrightarrow> q \<in> set ?rs"
      using crash_parts [OF W between C S d cr mk load refl, of opts now] by blast
    have low: "covered s < lsn r" "supto s < lsn r" using L(6,7) r(2) by auto
    have "r \<notin> set (shist s)" using L(4) r(2) by auto
    then obtain ys where ys: "?rs = ys @ [r]" "history_part ((wal_of t)\<lparr>whist := shist s\<rparr>) ys"
      using history_part_last [OF part, of "shist s" r] acks r(1) t(1,2) low(2) by (auto simp: wal_of_def)
    have "history_part (wal_of s) ys" using ys(2) t(2) by (simp add: history_part_def wal_of_def)
    note H = crash_history [OF D(4,7) this]
    have "replay_room ops db1 (replayed s ys @ [r])" using room mk load ys(1) P(1) t(3) low by (simp add: recovery_room_def replayed_def)
    then have "feed (replay_record ops l) (Some db1) (replayed s ys @ [r]) \<in> {Inl e, Inl LengthError}"
      using P d t(3-5) low H(3) r by (intro replay_refused) (simp_all add: replayed_def)
    moreover have "feed (replay_record ops l) (Some db1) ?rs = feed (replay_record ops l) (Some db1) (replayed s ys @ [r])"
      using feed_covered [of ops l "Some db1" ?rs] ys(1) P(1) t(3) low by (simp add: replayed_def)
    ultimately show ?thesis using E by auto
  qed
qed

lemma refused_state:
  assumes inv: "dur_inv ops cfg s" and d: "vdim cfg = d" and s: "settled s" and space: "log_space (obj s)" and room: "next_ext_id (ddb (obj s)) \<noteq> -1"
    and pol: "dpolicy (dopts (obj s)) = PerOpSync" and m: "validate (vschema cfg) rec = Some e"
    and due: "ops_since_checkpoint (obj s) + 1 < checkpoint_ops (dopts (obj s))"
    and r_def: "r = canon_record \<lparr>rtype = rt_insert, lsn = next_lsn (obj s), ext_id = next_ext_id (ddb (obj s)), vec = take (vdim cfg) v, meta = rec\<rparr>"
    and rok: "record_ok r"
  shows "\<exists>o2 acks. durable_insert ops now v rec (obj s) = Some (Inl e, o2) \<and> in_flight o2 = 1 \<and> dhome o2 = dhome (obj s) \<and>
    conf_ok cfg (dwal o2) \<and> wal_inv (wal_of (s\<lparr>obj := o2, shist := shist s @ [r], sacked := acks\<rparr>)) \<and> r \<in> acks \<and> header_synced (dwal_dir o2)"
proof -
  note D = dur_invD [OF inv]
  let ?ext = "next_ext_id (ddb (obj s))" and ?l = "next_lsn (obj s)"
  let ?mk = "\<lambda>l. \<lparr>rtype = rt_insert, lsn = l, ext_id = ?ext, vec = take (vdim cfg) v, meta = rec\<rparr>"
  define db where "db = (ddb (obj s))\<lparr>next_ext_id := ?ext + 1\<rparr>"
  have res: "reserve_id (ddb (obj s)) = Some (Inr ?ext, db)" by (simp add: reserve_id_def db_def)
  define s0 where "s0 = s\<lparr>obj := (obj s)\<lparr>ddb := db\<rparr>, ids := insert ?ext (ids s)\<rparr>"
  have inv0: "dur_inv ops cfg s0" unfolding s0_def by (rule reserve_inv [OF inv room res])
  obtain w dr where log: "log_op ?mk (obj s0) = Some (Inr (?l, False), (obj s0)\<lparr>next_lsn := ?l + 1, dwal := w, dwal_dir := dr,
      in_flight := in_flight (obj s) + 1, ops_since_checkpoint := ops_since_checkpoint (obj s) + 1\<rparr>)"
    and c: "conf_ok cfg w" "?l \<le> highest_lsn w" and W: "wal_inv ((wal_of s)\<lparr>wlog := w, wdir := dr, whist := shist s @ [r]\<rparr>)"
    using log_op_alone [OF inv0, of ?mk] space rok due by (auto simp: log_space_def s0_def r_def wal_of_def)
  define o1 where "o1 = (obj s0)\<lparr>next_lsn := ?l + 1, dwal := w, dwal_dir := dr, in_flight := in_flight (obj s) + 1,
    ops_since_checkpoint := ops_since_checkpoint (obj s) + 1\<rparr>"
  have pre: "insert_prefix v rec (obj s) = Some (Inr (?ext, ?l, False), o1)"
    using log D(1) by (simp add: insert_prefix_def bind_method_def on_db_def res give_def o1_def s0_def)
  obtain fd where fd: "active_fd w = Some fd" using W log_repD(10) by (fastforce simp: wal_inv_def wal_inv_for_def)
  define o2 where "o2 = synced_obj False (last_sync o1) o1"
  have "durable_lsn (obj s) < ?l" using log_okD(8) [OF D(4)] .
  then have "group_commit ?l o1 = Some (Inr (), o2)"
    using group_commit_eq [of o1 fd ?l] fd c(2) s by (simp add: o1_def o2_def s0_def settled_def)
  moreover have "mschema (vmeta db) = vschema cfg" using run_schema [OF D(5) d] by (simp add: db_def)
  then have "insert_reserved ops ?ext v rec (ddb o2) = Some (Inl e, ddb o2)"
    using m by (simp add: insert_reserved_def validated_def o2_def o1_def s0_def)
  ultimately have "durable_insert ops now v rec (obj s) = Some (Inl e, o2)"
    using pre pol by (simp add: durable_insert_def complete_op_def bind_method_def on_db_def o1_def s0_def)
  moreover have "in_flight (obj s) = 0" using flight_okD(3) [OF D(6)] s by (simp add: settled_def)
  moreover have o2: "dwal o2 = w" "dwal_dir o2 = fsync dr fd" "dhome o2 = dhome (obj s)" "in_flight o2 = in_flight (obj s) + 1"
    using fd by (simp_all add: o2_def synced_obj_def raise_durable_def o1_def s0_def)
  ultimately show ?thesis using wal_inv_sync [OF W, of fd] fsync_header [OF W, of fd] fd c
    by (intro exI [of _ o2] exI [of _ "sacked s \<union> {q \<in> set (shist s @ [r]). lsn q \<le> highest_lsn w}"]) (simp add: wal_of_def r_def)
qed

lemma refused_insert:
  assumes reach: "dur_reach ops cfg s" and d: "vdim cfg = d" and s: "settled s" "log_space (obj s)" "next_ext_id (ddb (obj s)) \<noteq> -1"
    "dpolicy (dopts (obj s)) = PerOpSync" and m: "validate (vschema cfg) rec = Some e"
    and due: "ops_since_checkpoint (obj s) + 1 < checkpoint_ops (dopts (obj s))"
    and rok: "record_ok (canon_record \<lparr>rtype = rt_insert, lsn = next_lsn (obj s), ext_id = next_ext_id (ddb (obj s)), vec = take (vdim cfg) v, meta = rec\<rparr>)"
  shows "\<exists>o2. durable_insert ops now v rec (obj s) = Some (Inl e, o2) \<and> (\<forall>now. checkpoint ops now o2 = None) \<and>
    (\<forall>dr h opts now. crashed (dwal_dir o2) dr \<and> crashed (dhome o2) h \<and> recovery_room ops cfg opts h dr \<longrightarrow>
      recover ops cfg opts h dr now \<in> {Some (Inl e), Some (Inl LengthError)})"
proof -
  note inv = dur_reach_inv [OF reach d]
  define r where "r = canon_record \<lparr>rtype = rt_insert, lsn = next_lsn (obj s), ext_id = next_ext_id (ddb (obj s)), vec = take (vdim cfg) v, meta = rec\<rparr>"
  obtain o2 acks where o2: "durable_insert ops now v rec (obj s) = Some (Inl e, o2)" "in_flight o2 = 1" "dhome o2 = dhome (obj s)" "conf_ok cfg (dwal o2)"
    and W: "wal_inv (wal_of (s\<lparr>obj := o2, shist := shist s @ [r], sacked := acks\<rparr>))" "r \<in> acks" "header_synced (dwal_dir o2)"
    using refused_state [OF inv d s m due r_def rok [folded r_def]] by blast
  have "recover ops cfg opts h dr now \<in> {Some (Inl e), Some (Inl LengthError)}"
    if "crashed (dwal_dir o2) dr" "crashed (dhome o2) h" "recovery_room ops cfg opts h dr" for dr h opts now
    by (rule refused_recovery [OF inv d W(1), where r = r])
      (use W(2,3) o2 that m in \<open>simp_all add: r_def canon_record_def validate_canon\<close>)
  then show ?thesis using o2 by (intro exI [of _ o2]) (simp add: checkpoint_def)
qed

end

end
