(* ===== verification/Brute_Database.thy ===== *)
theory Brute_Database
  imports Durable_Damage Brute_Index
begin

text \<open>
  The database over the exhaustive index, \<open>IndexKind::Brute\<close>: the contract of
  \<open>Vector_Index\<close> that the lemmas on the database and on the durable database rest on,
  discharged for the operations of \<open>Brute_Index\<close>.
\<close>

definition brute_for :: "vdb_config \<Rightarrow> (hit list \<Rightarrow> hit list) \<Rightarrow> brute index_ops" where
  "brute_for cfg arrange = brute_ops (vmetric cfg) arrange (vdim cfg)"

lemma brute_for_simps [simp]:
  "ix_new (brute_for cfg arrange) = make_brute (vdim cfg)" "ix_add (brute_for cfg arrange) = brute_add"
  "ix_allocate (brute_for cfg arrange) = brute_add" "ix_link (brute_for cfg arrange) = default_link"
  "ix_search (brute_for cfg arrange) = brute_search (vmetric cfg) arrange" "ix_size (brute_for cfg arrange) = brute_size"
  "ix_train (brute_for cfg arrange) = default_train"
  by (simp_all add: brute_for_def)

interpretation bdb: exact_database_index "brute_for cfg arrange" "vdim cfg" "\<lambda>q v. metric_fn (vmetric cfg) q v (vdim cfg)" "brute_inv (vdim cfg)" bdata
  for cfg arrange
  unfolding brute_for_def by (rule brute_file.exact_database_index_axioms)

end
