(* ===== verification/Vdb_Brute.thy ===== *)
theory Vdb_Brute
  imports Brute_Database
begin

text \<open>
  The properties of the database over the exhaustive index: it refines a map from ids to
  vectors and records under any interleaving of its critical sections, its searches are exact,
  its calls return, and compaction changes nothing a client can see.
\<close>

section \<open>Refinement of a map\<close>

text \<open>
  C1: the database is a map. After any interleaving of critical sections of concurrent writers,
  an id is contained exactly if it is in the map, its vector and its metadata are those last
  published for it, and the size is the number of ids.
\<close>

theorem vdb_refines_map:
  assumes "db_run (brute_for cfg arrange) cfg s A P I"
  shows "(contains s ext \<longleftrightarrow> ext \<in> dom A) \<and> vdb_size s = of_nat (card (dom A)) \<and>
    (case A ext of None \<Rightarrow> get_metadata s ext = None
     | Some (v, rec) \<Rightarrow> \<exists>i. get_metadata s ext = Some (get_row (vmeta s) i) \<and> row_reads_as (vmeta s) i rec \<and> vectors s ! i = v)"
  using bdb.lookup [OF assms refl, of ext] by (simp add: domIff)

text \<open>
  C12: a call is one step of the map. An insertion that returns adds its vector and record under
  an id never handed out before; an update that returns replaces them, the bare overload
  carrying the old record over, and reports an unknown id without a change.
\<close>

theorem calls_refine:
  assumes "db_run (brute_for cfg arrange) cfg s A P I"
  shows "(record_fits (vmeta s) rec \<and> next_ext_id s \<noteq> -1 \<and> vdb_insert (brute_for cfg arrange) q rec s = Some (Inr ext, s') \<longrightarrow>
      db_run (brute_for cfg arrange) cfg s' (A(ext \<mapsto> (take (vdim cfg) q, rec))) P (insert ext I) \<and> ext \<notin> I) \<and>
    ((\<forall>rec. orec = Some rec \<longrightarrow> record_fits (vmeta s) rec) \<and> ext \<notin> pext ` P \<and> vdb_update (brute_for cfg arrange) ext q orec s = Some (Inr b, s') \<longrightarrow>
      (case A ext of None \<Rightarrow> \<not> b \<and> s' = s
       | Some (v, r) \<Rightarrow> b \<and> db_run (brute_for cfg arrange) cfg s' (A(ext \<mapsto> (take (vdim cfg) q, update_record orec r))) P I))"
  using bdb.insert_run [OF assms refl] bdb.update_run [OF assms refl] by blast

text \<open>
  C10: calls return. In every reachable state an insertion, an update, a metadata update and a
  removal end, with a result or with the \<open>length_error\<close> of a full ordered index, and so does a
  compaction when no other write is in flight: no assertion fails and no loop runs on.
\<close>

theorem calls_return:
  assumes "db_run (brute_for cfg arrange) cfg s A P I" and "record_fits (vmeta s) rec" and "next_ext_id s \<noteq> -1" and "ext \<notin> pext ` P"
  shows "halts (vdb_insert (brute_for cfg arrange) q rec) s LengthError \<and>
    halts (vdb_update (brute_for cfg arrange) ext q (Some rec)) s LengthError \<and>
    halts (vdb_update (brute_for cfg arrange) ext q None) s LengthError \<and>
    halts (vdb_set_metadata ext rec) s LengthError \<and> halts (vdb_remove ext) s LengthError \<and>
    (P = {} \<longrightarrow> halts (compact (brute_for cfg arrange)) s LengthError)"
proof -
  note ok = bdb.db_run_ok [OF assms(1) refl]
  show ?thesis
    using bdb.halts_insert [OF assms(1) refl assms(2,3)] bdb.halts_update [OF assms(1) refl _ assms(4)] assms(2)
      bdb.halts_set [OF ok assms(2)] bdb.halts_remove [OF ok] bdb.halts_compact [OF _ refl] ok by auto
qed

text \<open>
  C13: ids are never handed out twice: whatever inserts, removals and compactions went before,
  the id reserved next is new, and no live or pending row has it.
\<close>

theorem reserved_id_fresh:
  assumes "db_run (brute_for cfg arrange) cfg s A P I" and "reserve_id s = Some (Inr ext, s')"
  shows "ext \<notin> I \<and> \<not> contains s ext \<and> ext \<notin> pext ` P"
  using bdb.fresh_id [OF assms(1) refl] bdb.lookup [OF assms(1) refl, of ext] assms(2) by (auto simp: reserve_id_def)

section \<open>Searches\<close>

text \<open>
  C2: search is exact and never shows a half-inserted row. In every reachable state, whatever
  writes are in flight, the answer is a ranked selection of the ids in the map: as many as asked
  or as there are, each once, nearest first, and no id left out is nearer than one returned;
  deleted, replaced and pending rows never appear.
\<close>

theorem search_exact_live:
  assumes "db_run (brute_for cfg arrange) cfg s A P I" and "K < 2 ^ 63" and "length (int_to_ext s) < 2 ^ 32"
  shows "\<exists>out. search (brute_for cfg arrange) s q K = Some (Inr out) \<and> distinct out \<and> set out \<subseteq> dom A \<and>
    length out = min K (card (dom A)) \<and> sorted (map (id_distance cfg A q) out) \<and>
    (\<forall>x\<in>dom A. x \<notin> set out \<longrightarrow> (\<forall>y\<in>set out. id_distance cfg A q y \<le> id_distance cfg A q x))"
proof -
  obtain out where out: "search (brute_for cfg arrange) s q K = Some (Inr out)" "nearest cfg A (dom A) q K out"
    using bdb.search_nearest [OF assms(1) refl refl assms(2,3)] by blast
  then show ?thesis using nearestD [OF out(2)] by blast
qed

text \<open>
  C9: the filter strategies agree. A range predicate on an indexed attribute, with bounds that are
  no NaN, gives by post-filtering, by pre-filtering and by the strategy the planner picks a ranked
  selection of exactly the ids whose record has a value between the bounds; except that of two
  zeros of a double, equal as values, \<open>-0.0\<close> is passed over when the lower bound is \<open>+0.0\<close>, and
  \<open>+0.0\<close> when the upper bound is \<open>-0.0\<close>.
\<close>

theorem filter_strategies_agree:
  assumes "db_run (brute_for cfg arrange) cfg s A P I" and "K < 2 ^ 63" and "length (int_to_ext s) < 2 ^ 32"
    and "a < length (vschema cfg)" and "indexed (vschema cfg ! a)" and "attr_kind (vschema cfg ! a) = Int64 \<or> attr_kind (vschema cfg ! a) = Float64"
    and "vtype lo = attr_kind (vschema cfg ! a)" and "vtype hi = attr_kind (vschema cfg ! a)"
    and "attr_kind (vschema cfg ! a) = Float64 \<longrightarrow> \<not> double_is_nan (raw lo) \<and> \<not> double_is_nan (raw hi)"
  shows "let D = {ext. \<exists>v rec. A ext = Some (v, rec) \<and> in_bounds (attr_kind (vschema cfg ! a)) rec a lo hi \<and>
      \<not> zero_passed (attr_kind (vschema cfg ! a)) rec a lo hi}; p = pred_range a lo hi in
    (\<exists>out. search_where (brute_for cfg arrange) s q K p = Some (Inr out) \<and> nearest cfg A D q K out) \<and>
    (\<exists>out. search_prefiltered arr s q K p = Some (Inr out) \<and> nearest cfg A D q K out) \<and>
    (\<exists>out. search_auto (brute_for cfg arrange) arr s q K p = Some (Inr out) \<and> nearest cfg A D q K out)"
proof -
  obtain rows Q E where R: "arrays_ok cfg s rows Q E" "A = contents_of s rows"
    using bdb.db_run_ok [OF assms(1) refl] by (auto simp: bdb.db_ok_def)
  let ?ty = "attr_kind (vschema cfg ! a)"
  obtain ids where ids: "resolve (vmeta s) (pred_range a lo hi) (deleted s) = Some (Inr \<lparr>rpredicate = pred_range a lo hi, allowlist = Some ids\<rparr>)"
    "distinct ids" "set ids = {r \<in> live s. in_bounds ?ty (rows ! r) a lo hi \<and> \<not> zero_passed ?ty (rows ! r) a lo hi}"
    using resolve_range_complete [OF arrays_okD(6) [OF R(1)] assms(4-9)] by blast
  have "{ext. \<exists>v rec. A ext = Some (v, rec) \<and> in_bounds ?ty rec a lo hi \<and> \<not> zero_passed ?ty rec a lo hi} = {ext. \<exists>i \<in> set ids. ext_to_int s ext = Some i}"
    using arrays_ok_ext [OF R(1)] by (auto simp: R(2) contents_of_def ids(3) live_def)
  then show ?thesis
    using bdb.filtered_nearest [OF assms(1) refl refl assms(2,3) ids(1) _ ids(2), of q arr] ids(3) by (simp add: Let_def)
qed

section \<open>Compaction\<close>

text \<open>
  C11: compaction preserves the database. Afterwards no tombstone is left, the nodes are exactly
  the live rows, and every id has the vector, the attributes and the payload it had; searches
  rank the same ids.
\<close>

theorem compact_preserves:
  assumes "db_run (brute_for cfg arrange) cfg s A {} I" and "compact (brute_for cfg arrange) s = Some (Inr (), s')"
  shows "deleted_count s' = 0 \<and> length (int_to_ext s') = card (dom A) \<and> vdb_size s' = vdb_size s \<and>
    (contains s' ext \<longleftrightarrow> contains s ext) \<and>
    (\<forall>v rec. A ext = Some (v, rec) \<longrightarrow> (\<exists>i j. ext_to_int s ext = Some i \<and> ext_to_int s' ext = Some j \<and>
       vectors s' ! j = vectors s ! i \<and> row_reads_as (vmeta s) i rec \<and> row_reads_as (vmeta s') j rec)) \<and>
    (K < 2 ^ 63 \<and> card (dom A) < 2 ^ 32 \<longrightarrow> (\<exists>out. search (brute_for cfg arrange) s' q K = Some (Inr out) \<and> nearest cfg A (dom A) q K out))"
proof -
  note run' = db_compact [OF assms]
  have C: "deleted_count s' = 0" "length (int_to_ext s') = card (dom A)"
    using bdb.step_compact [OF bdb.db_run_ok [OF assms(1) refl] refl assms(2)] by simp_all
  note L = bdb.lookup [OF assms(1) refl, of ext] and L' = bdb.lookup [OF run' refl, of ext]
  have "\<exists>i j. ext_to_int s ext = Some i \<and> ext_to_int s' ext = Some j \<and>
       vectors s' ! j = vectors s ! i \<and> row_reads_as (vmeta s) i rec \<and> row_reads_as (vmeta s') j rec" if "A ext = Some (v, rec)" for v rec
    using bdb.stored_row [OF assms(1) refl that] bdb.stored_row [OF run' refl that] by auto
  then show ?thesis using C L L' bdb.search_nearest [OF run' refl refl] by simp
qed

section \<open>Snapshots\<close>

text \<open>
  C20: a snapshot restores the database. Loaded into a fresh object of the same configuration,
  what was saved gives the log position and the same ids with their vectors, attributes and
  payloads, with counts, postings and ordered indexes rebuilt, so that it can go on; only a full
  ordered index may refuse.
\<close>

theorem snapshot_restores:
  assumes "db_run (brute_for cfg arrange) cfg s A {} I" and "snapshot_fits s" and "make_vdb (brute_for cfg arrange) cfg = Inr s0"
  shows "\<exists>r. load_snapshot (brute_for cfg arrange) s0 (save_snapshot (brute_for cfg arrange) s k) = Some r \<and>
    (case r of Inl e \<Rightarrow> e = LengthError
     | Inr (k', s') \<Rightarrow> k' = k \<and> next_ext_id s' = next_ext_id s \<and> vdb_size s' = vdb_size s \<and> (contains s' ext \<longleftrightarrow> contains s ext) \<and>
         (\<forall>v rec. A ext = Some (v, rec) \<longrightarrow> (\<exists>i j. ext_to_int s ext = Some i \<and> ext_to_int s' ext = Some j \<and>
            vectors s' ! j = vectors s ! i \<and> row_reads_as (vmeta s) i rec \<and> row_reads_as (vmeta s') j rec)) \<and>
         db_run (brute_for cfg arrange) cfg s' A {} I)"
proof -
  note ok = bdb.db_run_ok [OF assms(1) refl]
  obtain r where r: "load_snapshot (brute_for cfg arrange) s0 (save_snapshot (brute_for cfg arrange) s k) = Some r"
    "\<forall>e. r = Inl e \<longrightarrow> e = LengthError"
    using bdb.load_returns [OF ok refl assms(2,3)] by blast
  show ?thesis
  proof (cases r)
    case (Inl e)
    then show ?thesis using r by simp
  next
    case (Inr x)
    then obtain k' s' where load: "load_snapshot (brute_for cfg arrange) s0 (save_snapshot (brute_for cfg arrange) s k) = Some (Inr (k', s'))"
      "r = Inr (k', s')" using r(1) by (cases x) simp
    note run' = db_load [OF assms load(1)] and S = bdb.step_load [OF ok refl assms(2,3) load(1)]
    note L = bdb.lookup [OF assms(1) refl, of ext] and L' = bdb.lookup [OF run' refl, of ext]
    have "\<exists>i j. ext_to_int s ext = Some i \<and> ext_to_int s' ext = Some j \<and>
         vectors s' ! j = vectors s ! i \<and> row_reads_as (vmeta s) i rec \<and> row_reads_as (vmeta s') j rec" if "A ext = Some (v, rec)" for v rec
      using bdb.stored_row [OF assms(1) refl that] bdb.stored_row [OF run' refl that] by auto
    then show ?thesis using r(1) load(2) S L L' run' by simp
  qed
qed

end
