(* ===== verification/Vdb_Demo.thy ===== *)
theory Vdb_Demo
  imports Vdb_Brute
begin

text \<open>
  Concrete databases: one with an indexed attribute, one with a tag, and the runs that show
  where the code departs from its documentation.
\<close>

section \<open>A database with an indexed attribute\<close>

definition demo_cfg :: vdb_config where
  "demo_cfg = \<lparr>vkind = Brute, vdim = 1, vmetric = L2, vschema = demo_index_schema\<rparr>"

abbreviation demo_ops :: "brute index_ops" where
  "demo_ops \<equiv> brute_for demo_cfg rev"

definition demo_db0 :: "brute vdb" where
  "demo_db0 = \<lparr>config = demo_cfg, index = make_brute 1, ext_to_int = Map.empty, int_to_ext = [], deleted = [], vectors = [],
     vmeta = demo_index0, next_ext_id = 0, live_total = 0, deleted_count = 0, calibration = default_filter_calibration\<rparr>"

definition demo_db1 :: "brute vdb" where
  "demo_db1 = demo_db0\<lparr>index := \<lparr>bdim = 1, bdata = [[0]]\<rparr>, int_to_ext := [0], deleted := [True], deleted_count := 1,
     vectors := [[0]], vmeta := demo4, next_ext_id := 1\<rparr>"

definition demo_db2 :: "brute vdb" where
  "demo_db2 = demo_db1\<lparr>deleted := [False], deleted_count := 0, vmeta := demo5, ext_to_int := [0 \<mapsto> 0], live_total := 1\<rparr>"

lemma demo_db_start: "db_run demo_ops demo_cfg demo_db0 Map.empty {} {}"
  by (rule db_make) (simp add: make_vdb_def demo_index_steps(1) demo_db0_def demo_cfg_def)

lemma demo_insert: "vdb_insert demo_ops [0] (demo_int 5) demo_db0 = Some (Inr 0, demo_db2)"
proof -
  have v: "validate (mschema demo_index0) (demo_int 5) = None" using demo_index_steps(2) by (simp add: record_fits_def)
  have m: "mschema (vmeta demo_db0) = mschema demo_index0" and n: "next_ext_id demo_db0 = 0" by (simp_all add: demo_db0_def)
  have a: "insert_allocate demo_ops 0 [0] (demo_int 5) (demo_db0\<lparr>next_ext_id := 1\<rparr>) = Some (Inr 0, demo_db1)"
    by (simp add: insert_allocate_def bind_method_def allocate_node_def  brute_add_def demo_db0_def demo_db1_def make_brute_def
        on_meta_def modify_def give_def demo_index_steps(3) demo_cfg_def)
  have l: "link_node demo_ops 0 demo_db1 = Some (Inr (), demo_db1)"
    by (simp add: link_node_def default_link_def)
  have p: "insert_publish 0 0 demo_db1 = Some (Inr (), demo_db2)"
    by (simp add: insert_publish_def bind_method_def on_meta_def modify_def demo_db1_def demo_db2_def demo_db0_def demo_index_steps(4))
  show ?thesis
    using a l p by (simp add: vdb_insert_def insert_reserved_def validated_def bind_method_def reserve_id_def m v give_def n)
qed

lemma demo_db_run: "db_run demo_ops demo_cfg demo_db2 [0 \<mapsto> ([0], demo_int 5)] {} {0}"
  using bdb.insert_run [OF demo_db_start refl _ _ demo_insert] demo_index_steps(2) by (simp add: demo_db0_def demo_cfg_def)

theorem vdb_refines_map_witness: "contains demo_db2 0 \<and> vdb_size demo_db2 = 1 \<and> get_metadata demo_db2 1 = None"
  using vdb_refines_map [OF demo_db_run, of 0] vdb_refines_map [OF demo_db_run, of 1] by simp

theorem calls_refine_witness: "db_run demo_ops demo_cfg demo_db2 [0 \<mapsto> ([0], demo_int 5)] {} {0}"
  using calls_refine [OF demo_db_start, of "demo_int 5" "[0]" 0 demo_db2 None False] demo_insert demo_index_steps(2)
  by (simp add: demo_db0_def demo_cfg_def)

theorem calls_return_witness: "halts (vdb_insert demo_ops [0] (demo_int 5)) demo_db0 LengthError \<and> halts (compact demo_ops) demo_db0 LengthError"
proof -
  have "record_fits (vmeta demo_db0) (demo_int 5)" "next_ext_id demo_db0 \<noteq> -1" "(7 :: u64) \<notin> pext ` {}"
    using demo_index_steps(2) by (simp_all add: demo_db0_def)
  from calls_return [OF demo_db_start this] show ?thesis by simp
qed

theorem reserved_id_fresh_witness: "\<exists>ext s'. reserve_id demo_db2 = Some (Inr ext, s') \<and> \<not> contains demo_db2 ext"
  using reserved_id_fresh [OF demo_db_run] by (simp add: reserve_id_def)

theorem search_exact_live_witness: "search demo_ops demo_db2 [0x3F800000] 10 = Some (Inr [0])"
proof -
  have n: "length (int_to_ext demo_db2) < 2 ^ 32" "(10 :: nat) < 2 ^ 63" by (simp_all add: demo_db2_def demo_db1_def)
  obtain out where out: "search demo_ops demo_db2 [0x3F800000] 10 = Some (Inr out)" "set out \<subseteq> {0}" "length out = 1"
    using search_exact_live [OF demo_db_run n(2,1), of "[0x3F800000]"] by auto
  then have "out = [0]" by (cases out) auto
  then show ?thesis using out(1) by simp
qed

theorem filter_strategies_agree_witness:
  "\<exists>out. search_auto demo_ops rev demo_db2 [0x3F800000] 10 (pred_range 0 (attr_int 3) (attr_int 7)) = Some (Inr out) \<and> out = [0]"
proof -
  have n: "length (int_to_ext demo_db2) < 2 ^ 32" "(10 :: nat) < 2 ^ 63" by (simp_all add: demo_db2_def demo_db1_def)
  have s: "0 < length (vschema demo_cfg)" "indexed (vschema demo_cfg ! 0)"
    "attr_kind (vschema demo_cfg ! 0) = Int64 \<or> attr_kind (vschema demo_cfg ! 0) = Float64"
    "vtype (attr_int 3) = attr_kind (vschema demo_cfg ! 0)" "vtype (attr_int 7) = attr_kind (vschema demo_cfg ! 0)"
    "attr_kind (vschema demo_cfg ! 0) = Float64 \<longrightarrow> \<not> double_is_nan (raw (attr_int 3)) \<and> \<not> double_is_nan (raw (attr_int 7))"
    by (simp_all add: demo_index_schema_def attr_int_def demo_cfg_def)
  have "in_bounds Int64 (demo_int 5) 0 (attr_int 3) (attr_int 7)"
    by (simp add: in_bounds_def raw_of_def attr_at_def demo_int_def attr_int_def value_le_def)
  then have D: "{ext. \<exists>v rec. [0 \<mapsto> ([0], demo_int 5)] ext = Some (v, rec) \<and>
      in_bounds (attr_kind (vschema demo_cfg ! 0)) rec 0 (attr_int 3) (attr_int 7) \<and>
      \<not> zero_passed (attr_kind (vschema demo_cfg ! 0)) rec 0 (attr_int 3) (attr_int 7)} = {0 :: u64}"
    by (auto simp: zero_passed_def demo_cfg_def demo_index_schema_def split: if_splits)
  obtain out where out: "search_auto demo_ops rev demo_db2 [0x3F800000] 10 (pred_range 0 (attr_int 3) (attr_int 7)) = Some (Inr out)"
    "nearest demo_cfg [0 \<mapsto> ([0], demo_int 5)] {0} [0x3F800000] 10 out"
    using filter_strategies_agree [OF demo_db_run n(2,1) s, of "[0x3F800000]" rev, unfolded Let_def D] by blast
  have "set out \<subseteq> {0}" "length out = 1" using nearestD(2,3) [OF out(2)] by simp_all
  then have "out = [0]" by (cases out) auto
  then show ?thesis using out(1) by simp
qed

section \<open>A database with a tag\<close>

definition tag_cfg :: vdb_config where
  "tag_cfg = \<lparr>vkind = Brute, vdim = 1, vmetric = L2, vschema = demo_schema\<rparr>"

abbreviation tag_ops :: "brute index_ops" where
  "tag_ops \<equiv> brute_for tag_cfg rev"

definition after_call :: "('s, 'a) call \<Rightarrow> 's \<Rightarrow> 's" where
  "after_call f s = snd (the (f s))"

lemma after_call: "map_option fst (f s) = Some (Inr x) \<Longrightarrow> f s = Some (Inr x, after_call f s)"
  by (auto simp: after_call_def)

text \<open>The writers never search, so they can be evaluated without the metric.\<close>

definition writer_ops :: "nat \<Rightarrow> brute index_ops" where
  "writer_ops d = \<lparr>ix_new = make_brute d, ix_train = default_train, ix_add = brute_add,
     ix_allocate = brute_add, ix_link = default_link, ix_search = (\<lambda>_ _ _. None),
     ix_size = brute_size, ix_serialize = brute_serialize, ix_deserialize = brute_deserialize\<rparr>"

lemma writer_steps:
  "append_node (brute_for cfg arrange) = append_node (writer_ops (vdim cfg))"
  "allocate_node (brute_for cfg arrange) = allocate_node (writer_ops (vdim cfg))"
  "link_node (brute_for cfg arrange) = link_node (writer_ops (vdim cfg))"
  "fresh_maps (brute_for cfg arrange) = fresh_maps (writer_ops (vdim cfg))"
  "train_index (brute_for cfg arrange) = train_index (writer_ops (vdim cfg))"
  by (simp_all add: writer_ops_def fun_eq_iff train_index_def append_node_def allocate_node_def link_node_def fresh_maps_def)

lemma append_all_writer: "append_all (brute_for cfg arrange) rows = append_all (writer_ops (vdim cfg)) rows"
  by (induction rows) (auto simp: writer_steps)

lemma writer_ops:
  "vdb_insert (brute_for cfg arrange) = vdb_insert (writer_ops (vdim cfg))"
  "compact (brute_for cfg arrange) = compact (writer_ops (vdim cfg))"
  by (simp_all add: fun_eq_iff vdb_insert_def insert_reserved_def insert_allocate_def compact_def append_all_writer writer_steps)

definition tag_db0 :: "brute vdb" where
  "tag_db0 = \<lparr>config = tag_cfg, index = make_brute 1, ext_to_int = Map.empty, int_to_ext = [], deleted = [], vectors = [],
     vmeta = demo0, next_ext_id = 0, live_total = 0, deleted_count = 0, calibration = default_filter_calibration\<rparr>"

definition tag_db1 :: "brute vdb" where "tag_db1 = after_call (vdb_insert (writer_ops 1) [0] (demo_record [1])) tag_db0"
definition tag_db2 :: "brute vdb" where "tag_db2 = after_call (vdb_insert (writer_ops 1) [0x3F800000] (demo_record [1])) tag_db1"
definition tag_db3 :: "brute vdb" where "tag_db3 = after_call (vdb_remove 0) tag_db2"
definition tag_db4 :: "brute vdb" where "tag_db4 = after_call (compact (writer_ops 1)) tag_db3"
definition tag_db5 :: "brute vdb" where "tag_db5 = after_call (vdb_set_metadata 0 (demo_record [1])) tag_db1"

lemma tag_codes:
  "map_option fst (vdb_insert (writer_ops 1) [0] (demo_record [1]) tag_db0) = Some (Inr 0)"
  "map_option fst (vdb_insert (writer_ops 1) [0x3F800000] (demo_record [1]) tag_db1) = Some (Inr 1)"
  "map_option fst (vdb_remove 0 tag_db2) = Some (Inr True)"
  "map_option fst (compact (writer_ops 1) tag_db3) = Some (Inr ())"
  "map_option fst (vdb_set_metadata 0 (demo_record [1]) tag_db1) = Some (Inr True)"
  by code_simp+

lemma tag_steps:
  "vdb_insert tag_ops [0] (demo_record [1]) tag_db0 = Some (Inr 0, tag_db1)"
  "vdb_insert tag_ops [0x3F800000] (demo_record [1]) tag_db1 = Some (Inr 1, tag_db2)"
  "vdb_remove 0 tag_db2 = Some (Inr True, tag_db3)"
  "compact tag_ops tag_db3 = Some (Inr (), tag_db4)"
  "vdb_set_metadata 0 (demo_record [1]) tag_db1 = Some (Inr True, tag_db5)"
proof -
  have d: "vdim tag_cfg = 1" by (simp add: tag_cfg_def)
  show "vdb_insert tag_ops [0] (demo_record [1]) tag_db0 = Some (Inr 0, tag_db1)"
    unfolding tag_db1_def writer_ops d by (rule after_call, rule tag_codes(1))
  show "vdb_insert tag_ops [0x3F800000] (demo_record [1]) tag_db1 = Some (Inr 1, tag_db2)"
    unfolding tag_db2_def writer_ops d by (rule after_call, rule tag_codes(2))
  show "vdb_remove 0 tag_db2 = Some (Inr True, tag_db3)" unfolding tag_db3_def by (rule after_call, rule tag_codes(3))
  show "compact tag_ops tag_db3 = Some (Inr (), tag_db4)" unfolding tag_db4_def writer_ops d by (rule after_call, rule tag_codes(4))
  show "vdb_set_metadata 0 (demo_record [1]) tag_db1 = Some (Inr True, tag_db5)" unfolding tag_db5_def by (rule after_call, rule tag_codes(5))
qed

lemma tag_run:
  "db_run tag_ops tag_cfg tag_db1 [0 \<mapsto> ([0], demo_record [1])] {} {0}"
  "db_run tag_ops tag_cfg tag_db3 [1 \<mapsto> ([0x3F800000], demo_record [1])] {} {0, 1}"
proof -
  have "make_store demo_schema = Inr demo0" by (simp add: make_store_def demo0_def check_schema_def demo_schema_def)
  then have 0: "db_run tag_ops tag_cfg tag_db0 Map.empty {} {}"
    by (intro db_make) (simp add: make_vdb_def tag_db0_def tag_cfg_def)
  have f: "record_fits (vmeta tag_db0) (demo_record [1])" using demo_fits(1) by (simp add: tag_db0_def)
  have n: "next_ext_id tag_db0 \<noteq> -1" by (simp add: tag_db0_def)
  show 1: "db_run tag_ops tag_cfg tag_db1 [0 \<mapsto> ([0], demo_record [1])] {} {0}"
    using bdb.insert_run [OF 0 refl f n tag_steps(1)] by (simp add: tag_cfg_def)
  have f1: "record_fits (vmeta tag_db1) (demo_record [1])"
  proof -
    have "length (mcolumns (vmeta tag_db1)) = 1" "ctype (mcolumns (vmeta tag_db1) ! 0) = Tag"
      "length (cdict (mcolumns (vmeta tag_db1) ! 0)) = 1" "validate (mschema (vmeta tag_db1)) (demo_record [1]) = None"
      by code_simp+
    then show ?thesis by (auto simp: record_fits_def value_fits_def demo_record_def attr_at_def attr_tag_def)
  qed
  have n1: "next_ext_id tag_db1 \<noteq> -1" by code_simp
  have "db_run tag_ops tag_cfg tag_db2 [0 \<mapsto> ([0], demo_record [1]), 1 \<mapsto> ([0x3F800000], demo_record [1])] {} {0, 1}"
    using bdb.insert_run [OF 1 refl f1 n1 tag_steps(2)] by (simp add: tag_cfg_def insert_commute)
  from db_remove [OF this _ tag_steps(3)]
  show "db_run tag_ops tag_cfg tag_db3 [1 \<mapsto> ([0x3F800000], demo_record [1])] {} {0, 1}"
    by (simp add: fun_upd_twist)
qed

theorem compact_preserves_witness:
  "deleted_count tag_db4 = 0 \<and> length (int_to_ext tag_db4) = 1 \<and> (\<exists>out. search tag_ops tag_db4 [0] 10 = Some (Inr out))"
  using compact_preserves [OF tag_run(2) tag_steps(4), of 1 10 "[0]"] by auto

lemma tag_fits: "snapshot_fits tag_db3"
proof -
  have "vdim (config tag_db3) = 1" "length (int_to_ext tag_db3) = 2" "mrows (vmeta tag_db3) = 2" "length (mcolumns (vmeta tag_db3)) = 1"
    "map cdict (mcolumns (vmeta tag_db3)) = [[[1]]]" "map ctype (mcolumns (vmeta tag_db3)) = [Tag]" "mpayloads (vmeta tag_db3) = [[7], [7]]"
    by code_simp+
  moreover from this obtain c where "mcolumns (vmeta tag_db3) = [c]" by (cases "mcolumns (vmeta tag_db3)") auto
  ultimately show ?thesis by (simp add: snapshot_fits_def store_fits_def column_fits_def)
qed

theorem snapshot_restores_witness:
  "\<exists>r. load_snapshot tag_ops tag_db0 (save_snapshot tag_ops tag_db3 9) = Some r \<and>
    (case r of Inl e \<Rightarrow> e = LengthError | Inr (k, s) \<Rightarrow> k = 9 \<and> contains s 1 = contains tag_db3 1)"
proof -
  have "make_vdb tag_ops tag_cfg = Inr tag_db0"
    by (simp add: make_vdb_def tag_db0_def tag_cfg_def make_store_def demo0_def check_schema_def demo_schema_def)
  from snapshot_restores [OF tag_run(2) tag_fits this, of 9 1] show ?thesis by (auto split: sum.splits)
qed

section \<open>Where the code departs from its documentation\<close>

lemma tag_rows:
  "resolve (vmeta tag_db5) (pred_eq 0 (attr_tag [1])) (deleted tag_db5) =
     Some (Inr \<lparr>rpredicate = pred_eq 0 (attr_tag [1]), allowlist = Some [0, 0]\<rparr>)"
  "brute_size (index tag_db5) = 1" "deleted tag_db5 = [False]" "int_to_ext tag_db5 = [0]" "ext_to_int tag_db5 0 = Some 0"
  by code_simp+

text \<open>
  Setting a row's metadata to the tag it has puts the node on the posting list again. The
  over-fetch \<open>K + (index size - allowlist size)\<close> then asks the index for too few nodes, here
  for none, and the filtered search misses the row that matches.
\<close>

theorem search_where_misses: "search_where tag_ops tag_db5 q 1 (pred_eq 0 (attr_tag [1])) = Some (Inr [])"
proof -
  have "length (best snd rev 0 xs) = 0" for xs :: "hit list" using ranksD(2) [OF best_ranks [of snd 0 xs rev]] by simp
  then show ?thesis
    by (simp add: search_where_def map_answer_def bind_answer_def collect_filtered_def Vdb_Search.collect_def collect_from_def
        tag_rows(1) [unfolded tag_rows(3)] tag_rows brute_search_def Let_def hit_ids_def)
qed

text \<open>Scanning the same allowlist instead returns the row twice.\<close>

theorem search_prefiltered_repeats: "search_prefiltered arrange tag_db5 q 2 (pred_eq 0 (attr_tag [1])) = Some (Inr [0, 0])"
proof -
  obtain x where x: "prefilter arrange tag_db5 q 2 [0, 0] = best snd arrange 2 [(0, x), (0, x)]"
    by (simp add: prefilter_def prefilter_scan_def Let_def numeral_2_eq_2)
  have R: "ranks snd 2 [(0 :: nat, x), (0, x)] (best snd arrange 2 [(0, x), (0, x)])" by (rule best_ranks)
  have "best snd arrange 2 [(0 :: nat, x), (0, x)] = replicate 2 (0, x)"
    by (rule replicate_eqI) (use ranksD(2,3) [OF R] in auto)
  then show ?thesis
    using x by (simp add: search_prefiltered_def map_answer_def bind_answer_def collect_prefiltered_def tag_rows(1) [unfolded tag_rows(3)] tag_rows hit_ids_def numeral_2_eq_2)
qed

text \<open>
  Compaction does not wait for calls in flight. Between the phases of an insertion it drops the
  allocated node, so that the publication that follows writes beyond the end of \<open>deleted_\<close>.
\<close>

definition mid_db :: "brute vdb" where
  "mid_db = after_call (insert_allocate (writer_ops 1) 0 [0] (demo_record [1])) tag_db0"

theorem compact_drops_pending:
  "map_option fst (insert_allocate tag_ops 0 [0] (demo_record [1]) tag_db0) = Some (Inr 0) \<and>
   map_option (\<lambda>(r, s). (r, length (deleted s))) (compact tag_ops mid_db) = Some (Inr (), 0)"
proof -
  have "insert_allocate tag_ops = insert_allocate (writer_ops 1)"
    by (simp add: fun_eq_iff insert_allocate_def writer_steps tag_cfg_def)
  moreover have "map_option fst (insert_allocate (writer_ops 1) 0 [0] (demo_record [1]) tag_db0) = Some (Inr 0)" by code_simp
  moreover have "map_option (\<lambda>(r, s). (r, length (deleted s))) (compact (writer_ops 1) mid_db) = Some (Inr (), 0)" by code_simp
  ultimately show ?thesis by (simp add: writer_ops tag_cfg_def)
qed

end
