(* ===== verification/Id_Lists.thy ===== *)
theory Id_Lists
  imports Serialize
begin

text \<open>
  Lists of node ids in the bytes of an index, as \<open>src/ivf_index.cpp\<close> and \<open>src/hnsw_index.cpp\<close>
  write them: the length in 64 bits, then 32 bits an id.
\<close>

definition put_list :: "bytes \<Rightarrow> internal_id list \<Rightarrow> bytes" where
  "put_list out lst = foldl (\<lambda>out k. put out (of_nat k :: u32)) (put out (of_nat (length lst) :: u64)) lst"

definition get_id :: "bytes \<Rightarrow> (internal_id \<times> bytes) res" where
  "get_id r = bind_res (get r) (\<lambda>(k :: u32, r). Inr (unat k, r))"

definition get_list :: "bytes \<Rightarrow> (internal_id list \<times> bytes) res" where
  "get_list r = bind_res (get r) (\<lambda>(m :: u64, r). get_many (unat m) get_id r)"

lemma codec_id: "codec (\<lambda>k. word_bytes (of_nat k :: u32)) get_id (\<lambda>k. k < 2 ^ 32)"
proof unfold_locales
  show "get_id (word_bytes (of_nat k :: u32) @ rest) = Inr (k, rest)" if "k < 2 ^ 32" for k rest
    using that by (simp add: get_id_def u32c.dec_enc unsigned_of_nat take_bit_nat_eq_self)
qed (simp add: get_id_def get_short)

interpretation idc: codec "\<lambda>k. word_bytes (of_nat k :: u32)" get_id "\<lambda>k. k < 2 ^ 32"
  by (rule codec_id)

lemma put_list_parts: "put_list out l = out @ word_bytes (of_nat (length l) :: u64) @ concat (map (\<lambda>k. word_bytes (of_nat k :: u32)) l)"
proof -
  have "foldl (\<lambda>out k. put out (of_nat k :: u32)) buf l = buf @ concat (map (\<lambda>k. word_bytes (of_nat k :: u32)) l)" for buf
    by (rule foldl_appends) (simp add: put_def)
  then show ?thesis by (simp add: put_list_def put_def)
qed

lemma codec_list: "codec (put_list []) get_list (\<lambda>l. length l < 2 ^ 64 \<and> (\<forall>k \<in> set l. k < 2 ^ 32))"
proof unfold_locales
  show "get_list (put_list [] l @ rest) = Inr (l, rest)" if "length l < 2 ^ 64 \<and> (\<forall>k \<in> set l. k < 2 ^ 32)" for l rest
    using that idc.get_many_enc [of l rest] by (simp add: get_list_def put_list_parts u64c.dec_enc unat_of_nat_64)
next
  fix l p assume ok: "length l < 2 ^ 64 \<and> (\<forall>k \<in> set l. k < 2 ^ 32)" and len: "length p < length (put_list [] l)" and p: "p = take (length p) (put_list [] l)"
  from p len have "length p < 8 \<or> (\<exists>q. p = word_bytes (of_nat (length l) :: u64) @ q \<and>
      length q < length (concat (map (\<lambda>k. word_bytes (of_nat k :: u32)) l)))"
    by (intro prefix_of_header) (simp_all add: put_list_parts)
  then show "\<exists>e. get_list p = Inl e"
  proof (elim disjE exE conjE)
    fix q assume q: "p = word_bytes (of_nat (length l) :: u64) @ q" "length q < length (concat (map (\<lambda>k. word_bytes (of_nat k :: u32)) l))"
    have "q = take (length q) (concat (map (\<lambda>k. word_bytes (of_nat k :: u32)) l))" using p q(1) by (simp add: put_list_parts)
    then show ?thesis using idc.get_many_short [of l q] ok q by (auto simp: get_list_def u64c.dec_enc unat_of_nat_64)
  qed (auto simp: get_list_def get_short)
qed

interpretation listc: codec "put_list []" get_list "\<lambda>l. length l < 2 ^ 64 \<and> (\<forall>k \<in> set l. k < 2 ^ 32)"
  by (rule codec_list)

end
