(* ===== verification/Ivf_Index.thy ===== *)
theory Ivf_Index
  imports Vector_Index Id_Lists "HOL-Library.Product_Lexorder"
begin

text \<open>
  The inverted-file index of \<open>src/ivf_index.cpp\<close> and \<open>include/ivf_index.h\<close>. \<open>metric\<close> is the
  template argument \<open>Dist\<close>. Two things are parameters: \<open>shuffle\<close>, the permutation that
  \<open>std::shuffle\<close> makes with the seeded generator, and \<open>rnd\<close>, the rounding of a real number to
  a \<open>float\<close>, for the coordinates of the centroids that the code computes and stores. No
  property depends on them. An index \<open>-1\<close> into a vector, and a failed \<open>assert\<close>, are \<open>None\<close>.
\<close>

section \<open>The code\<close>

record ivf_config =
  ic_dim :: nat
  nlist :: nat
  nprobe :: nat
  kmeans_iters :: nat

definition default_ivf :: "nat \<Rightarrow> ivf_config" where
  "default_ivf d = \<lparr>ic_dim = d, nlist = 100, nprobe = 8, kmeans_iters = 25\<rparr>"

record ivf =
  iconfig :: ivf_config
  trained :: bool
  centroids :: "fvec list"
  inverted_lists :: "internal_id list list"
  ivectors :: "fvec list"

definition make_ivf :: "ivf_config \<Rightarrow> ivf" where
  "make_ivf cfg = \<lparr>iconfig = cfg, trained = False, centroids = [], inverted_lists = [], ivectors = []\<rparr>"

text \<open>\<open>numeric_limits<float>::max()\<close>\<close>

definition float_max :: real where
  "float_max = (2 ^ 24 - 1) * 2 ^ 104"

text \<open>The first of the nearest ones, or -1 when none is nearer than \<open>float_max\<close>.\<close>

definition nearest_centroid :: "metric \<Rightarrow> nat \<Rightarrow> fvec list \<Rightarrow> fvec \<Rightarrow> int" where
  "nearest_centroid m d cs v = fst (foldl (\<lambda>(b, b_dist) c.
     let x = metric_fn m v (cs ! c) d in if x < b_dist then (int c, x) else (b, b_dist)) (-1, float_max) [0..<length cs])"

definition float_add :: "(real \<Rightarrow> float32) \<Rightarrow> float32 \<Rightarrow> float32 \<Rightarrow> float32" where
  "float_add rnd a b = rnd (float_value a + float_value b)"

definition float_mult :: "(real \<Rightarrow> float32) \<Rightarrow> float32 \<Rightarrow> float32 \<Rightarrow> float32" where
  "float_mult rnd a b = rnd (float_value a * float_value b)"

definition row_at :: "fvec \<Rightarrow> nat \<Rightarrow> nat \<Rightarrow> fvec" where
  "row_at data d i = take d (drop (i * d) data)"

text \<open>The first inner loop: the tots and the counts of the rows assigned to each centroid.\<close>

fun assign_rows :: "(real \<Rightarrow> float32) \<Rightarrow> (fvec \<Rightarrow> int) \<Rightarrow> fvec list \<Rightarrow> fvec list \<times> nat list \<Rightarrow> (fvec list \<times> nat list) option" where
  "assign_rows rnd near [] st = Some st"
| "assign_rows rnd near (v # vs) (tots, counts) = (let c = near v in
     if c < 0 then None
     else let k = nat c in assign_rows rnd near vs (tots[k := map2 (float_add rnd) (tots ! k) v], counts[k := counts ! k + 1]))"

definition move_centroids :: "(real \<Rightarrow> float32) \<Rightarrow> fvec list \<times> nat list \<Rightarrow> fvec list \<Rightarrow> fvec list" where
  "move_centroids rnd st cs = (let (tots, counts) = st in
     map (\<lambda>c. if counts ! c = 0 then cs ! c
       else let inv = rnd (1 / float_value (rnd (real (counts ! c)))) in map (\<lambda>s. float_mult rnd s inv) (tots ! c)) [0..<length cs])"

fun kmeans :: "(real \<Rightarrow> float32) \<Rightarrow> metric \<Rightarrow> nat \<Rightarrow> fvec list \<Rightarrow> nat \<Rightarrow> fvec list \<Rightarrow> fvec list option" where
  "kmeans rnd m d rows 0 cs = Some cs"
| "kmeans rnd m d rows (Suc iters) cs =
     (case assign_rows rnd (nearest_centroid m d cs) rows (replicate (length cs) (replicate d 0), replicate (length cs) 0) of
        None \<Rightarrow> None | Some st \<Rightarrow> kmeans rnd m d rows iters (move_centroids rnd st cs))"

text \<open>The last loop: every row into the list of its centroid.\<close>

fun fill_lists :: "(fvec \<Rightarrow> int) \<Rightarrow> fvec list \<Rightarrow> nat \<Rightarrow> internal_id list list \<Rightarrow> internal_id list list option" where
  "fill_lists near [] i ls = Some ls"
| "fill_lists near (v # vs) i ls = (let c = near v in
     if c < 0 then None else fill_lists near vs (i + 1) (ls[nat c := ls ! nat c @ [i]]))"

definition ivf_train :: "(real \<Rightarrow> float32) \<Rightarrow> (nat list \<Rightarrow> nat list) \<Rightarrow> metric \<Rightarrow> fvec \<Rightarrow> nat \<Rightarrow> ivf \<Rightarrow> ivf option" where
  "ivf_train rnd shuffle m data n i =
     (let d = ic_dim (iconfig i); nl = min (nlist (iconfig i)) n; perm = permuted shuffle [0..<n];
          rows = map (row_at data d) [0..<n]; start = map (\<lambda>k. row_at data d (perm ! k)) [0..<nl]
      in case kmeans rnd m d rows (kmeans_iters (iconfig i)) start of
           None \<Rightarrow> None
         | Some cs \<Rightarrow> (case fill_lists (nearest_centroid m d cs) rows 0 (replicate nl []) of
             None \<Rightarrow> None
           | Some ls \<Rightarrow> Some \<lparr>iconfig = (iconfig i)\<lparr>nlist := nl\<rparr>, trained = True, centroids = cs, inverted_lists = ls, ivectors = rows\<rparr>))"

definition ivf_add :: "metric \<Rightarrow> fvec \<Rightarrow> ivf \<Rightarrow> (internal_id \<times> ivf) res option" where
  "ivf_add m vec i =
     (if \<not> trained i then None
      else let k = length (ivectors i); c = nearest_centroid m (ic_dim (iconfig i)) (centroids i) vec in
        if c < 0 then None
        else Some (Inr (k, i\<lparr>inverted_lists := (inverted_lists i)[nat c := inverted_lists i ! nat c @ [k]],
               ivectors := ivectors i @ [take (ic_dim (iconfig i)) vec]\<rparr>)))"

text \<open>
  The priority queue of the search as the list of its pairs in ascending order: \<open>top\<close> is the
  last one. The probes come in the order that \<open>std::nth_element\<close> leaves them in.
\<close>

definition offer :: "nat \<Rightarrow> real \<times> internal_id \<Rightarrow> (real \<times> internal_id) list \<Rightarrow> (real \<times> internal_id) list" where
  "offer K x heap = (if length heap < K then insort x heap
     else if fst x < fst (last heap) then insort x (butlast heap) else heap)"

definition probe_order :: "((real \<times> nat) list \<Rightarrow> (real \<times> nat) list) \<Rightarrow> metric \<Rightarrow> ivf \<Rightarrow> fvec \<Rightarrow> (real \<times> nat) list" where
  "probe_order arr m i query =
     (let cd = map (\<lambda>c. (metric_fn m query (centroids i ! c) (ic_dim (iconfig i)), c)) [0..<length (centroids i)]
      in permuted arr (take (min (nprobe (iconfig i)) (length cd)) (sort cd)))"

definition ivf_search :: "((real \<times> nat) list \<Rightarrow> (real \<times> nat) list) \<Rightarrow> metric \<Rightarrow> ivf \<Rightarrow> fvec \<Rightarrow> nat \<Rightarrow> hit list option" where
  "ivf_search arr m i query K =
     (if \<not> trained i then None
      else if K = 0 \<or> centroids i = [] then Some []
      else let probes = probe_order arr m i query;
          ids = concat (map (\<lambda>p. inverted_lists i ! snd p) probes);
          heap = foldl (\<lambda>heap k. offer K (metric_fn m query (ivectors i ! k) (ic_dim (iconfig i)), k) heap) [] ids
        in Some (map (\<lambda>(x, k). (k, x)) heap))"

definition ivf_size :: "ivf \<Rightarrow> nat" where
  "ivf_size i = length (ivectors i)"

definition ivf_serialize :: "bytes \<Rightarrow> ivf \<Rightarrow> bytes" where
  "ivf_serialize out i =
     (let out = put out (if trained i then 1 else 0 :: u8);
          out = put out (of_nat (nlist (iconfig i)) :: u64);
          out = put out (of_nat (nprobe (iconfig i)) :: u64);
          out = foldl put_floats (put out (of_nat (length (centroids i)) :: u64)) (centroids i);
          out = foldl put_list (put out (of_nat (length (inverted_lists i)) :: u64)) (inverted_lists i)
      in foldl put_floats (put out (of_nat (length (ivectors i)) :: u64)) (ivectors i))"

definition ivf_deserialize :: "ivf \<Rightarrow> bytes \<Rightarrow> (ivf \<times> bytes) res" where
  "ivf_deserialize i r =
     bind_res (get r) (\<lambda>(t :: u8, r). bind_res (get r) (\<lambda>(nl :: u64, r). bind_res (get r) (\<lambda>(np :: u64, r).
     bind_res (get r) (\<lambda>(nc :: u64, r). bind_res (get_many (unat nc) get_floats r) (\<lambda>(cs, r).
     bind_res (get r) (\<lambda>(nls :: u64, r). bind_res (get_many (unat nls) get_list r) (\<lambda>(ls, r).
     bind_res (get r) (\<lambda>(nv :: u64, r). bind_res (get_many (unat nv) get_floats r) (\<lambda>(vs, r).
       Inr (i\<lparr>iconfig := (iconfig i)\<lparr>nlist := unat nl, nprobe := unat np\<rparr>, trained := t \<noteq> 0, centroids := cs,
         inverted_lists := ls, ivectors := vs\<rparr>, r))))))))))"

definition ivf_ops :: "(real \<Rightarrow> float32) \<Rightarrow> (nat list \<Rightarrow> nat list) \<Rightarrow> ((real \<times> nat) list \<Rightarrow> (real \<times> nat) list) \<Rightarrow> metric \<Rightarrow> nat \<Rightarrow> ivf index_ops" where
  "ivf_ops rnd shuffle arr m d = \<lparr>ix_new = make_ivf (default_ivf d), ix_train = ivf_train rnd shuffle m, ix_add = ivf_add m,
     ix_allocate = default_allocate (ivf_add m), ix_link = default_link, ix_search = ivf_search arr m,
     ix_size = ivf_size, ix_serialize = ivf_serialize, ix_deserialize = ivf_deserialize\<rparr>"

section \<open>Assignment\<close>

lemma nearest_centroid_less: "nearest_centroid m d cs v < int (length cs)"
proof -
  let ?f = "\<lambda>(b, b_dist) c. let x = metric_fn m v (cs ! c) d in if x < b_dist then (int c, x) else (b, b_dist)"
  have "fst (foldl ?f (-1, float_max) [0..<n]) < int n \<and> -1 \<le> fst (foldl ?f (-1, float_max) [0..<n])" if "n \<le> length cs" for n
    using that
  proof (induction n)
    case (Suc n)
    then show ?case by (cases "foldl ?f (-1, float_max) [0..<n]") (simp add: Let_def)
  qed simp
  then show ?thesis by (simp add: nearest_centroid_def)
qed

lemma nearest_centroid_best:
  assumes "nearest_centroid m d cs v = int c" and "k < length cs"
  shows "metric_fn m v (cs ! c) d \<le> metric_fn m v (cs ! k) d"
proof -
  let ?dist = "\<lambda>c. metric_fn m v (cs ! c) d"
  let ?f = "\<lambda>(b, b_dist) c. let x = ?dist c in if x < b_dist then (int c, x) else (b, b_dist)"
  have "let (b, x) = foldl ?f (-1, float_max) [0..<n] in (\<forall>k<n. x \<le> ?dist k) \<and> (0 \<le> b \<longrightarrow> x = ?dist (nat b))" for n
  proof (induction n)
    case (Suc n)
    then show ?case by (cases "foldl ?f (-1, float_max) [0..<n]") (auto simp: Let_def less_Suc_eq)
  qed simp
  from this [of "length cs"] assms show ?thesis by (auto simp: nearest_centroid_def case_prod_unfold Let_def)
qed

text \<open>A centroid is found as soon as one is nearer than \<open>float_max\<close>.\<close>

lemma nearest_centroid_found:
  assumes "k < length cs" and "metric_fn m v (cs ! k) d < float_max"
  shows "0 \<le> nearest_centroid m d cs v"
proof -
  let ?dist = "\<lambda>c. metric_fn m v (cs ! c) d"
  let ?f = "\<lambda>(b, b_dist) c. let x = ?dist c in if x < b_dist then (int c, x) else (b, b_dist)"
  have "let (b, x) = foldl ?f (-1, float_max) [0..<n] in x \<le> float_max \<and> (k < n \<longrightarrow> x < float_max) \<and> (x < float_max \<longrightarrow> 0 \<le> b)" for n
  proof (induction n)
    case (Suc n)
    then show ?case using assms(2) by (cases "foldl ?f (-1, float_max) [0..<n]") (auto simp: Let_def less_Suc_eq)
  qed simp
  from this [of "length cs"] assms(1) show ?thesis by (simp add: nearest_centroid_def case_prod_unfold Let_def)
qed

lemma mset_concat_update: "k < length ls \<Longrightarrow> mset (concat (ls[k := ls ! k @ [x]])) = add_mset x (mset (concat ls))"
proof (induction ls arbitrary: k)
  case (Cons l ls)
  then show ?case by (cases k) auto
qed simp

text \<open>\<open>assigned near vs ls\<close>: every row is in the list that \<open>near\<close> picks for it.\<close>

definition assigned :: "(fvec \<Rightarrow> int) \<Rightarrow> fvec list \<Rightarrow> internal_id list list \<Rightarrow> bool" where
  "assigned near vs ls \<longleftrightarrow> mset (concat ls) = mset [0..<length vs] \<and> (\<forall>c < length ls. \<forall>k \<in> set (ls ! c). near (vs ! k) = int c)"

lemma assigned_snoc:
  assumes a: "assigned near vs ls" and c: "near v = int c" "c < length ls"
  shows "assigned near (vs @ [v]) (ls[c := ls ! c @ [length vs]])"
proof -
  have lt: "k < length vs" if "c' < length ls" "k \<in> set (ls ! c')" for c' k
  proof -
    have "k \<in> set (concat ls)" using that by auto
    then show ?thesis using a unfolding assigned_def by (metis atLeast0LessThan lessThan_iff set_mset_mset set_upt)
  qed
  have "near ((vs @ [v]) ! k) = int c'" if "c' < length ls" "k \<in> set (ls[c := ls ! c @ [length vs]] ! c')" for c' k
    using that a c lt [of c' k] by (cases "c' = c") (auto simp: assigned_def nth_append)
  then show ?thesis using a c(2) mset_concat_update [of c ls "length vs"] by (simp add: assigned_def)
qed

lemma fill_lists_assigned:
  assumes "fill_lists near vs (length us) ls = Some ls'" and "assigned near us ls" and "\<And>v. near v < int (length ls)"
  shows "assigned near (us @ vs) ls' \<and> length ls' = length ls"
  using assms
proof (induction vs arbitrary: us ls)
  case (Cons v vs)
  define c where "c = nat (near v)"
  have c: "near v = int c" "c < length ls" and rest: "fill_lists near vs (length (us @ [v])) (ls[c := ls ! c @ [length us]]) = Some ls'"
    using Cons.prems(1) Cons.prems(3) [of v] by (auto simp: c_def Let_def split: if_splits)
  from Cons.IH [OF rest assigned_snoc [OF Cons.prems(2) c]] Cons.prems(3) show ?case by simp
qed simp

lemma fill_lists_total: "\<forall>v \<in> set vs. 0 \<le> near v \<Longrightarrow> \<exists>ls'. fill_lists near vs i ls = Some ls'"
  by (induction vs arbitrary: i ls) (auto simp: Let_def)

lemma assign_rows_lengths:
  assumes "assign_rows rnd near vs (tots, counts) = Some (tots', counts')" and "\<forall>s \<in> set tots. length s \<le> d"
    and "\<And>v. near v < int (length tots)"
  shows "length tots' = length tots \<and> (\<forall>s \<in> set tots'. length s \<le> d)"
  using assms
proof (induction vs arbitrary: tots counts)
  case (Cons v vs)
  let ?k = "nat (near v)"
  have "0 \<le> near v" and rest: "assign_rows rnd near vs (tots[?k := map2 (float_add rnd) (tots ! ?k) v], counts[?k := counts ! ?k + 1]) = Some (tots', counts')"
    using Cons.prems(1) by (auto simp: Let_def split: if_splits)
  then have "?k < length tots" using Cons.prems(3) [of v] by simp
  then have "length (tots ! ?k) \<le> d" using Cons.prems(2) nth_mem by blast
  then have "\<forall>s \<in> set (tots[?k := map2 (float_add rnd) (tots ! ?k) v]). length s \<le> d"
    using Cons.prems(2) by (auto dest!: set_update_subset_insert [THEN subsetD])
  from Cons.IH [OF rest this] Cons.prems(3) show ?case by simp
qed simp

lemma assign_rows_total: "\<forall>v \<in> set vs. 0 \<le> near v \<Longrightarrow> \<exists>st'. assign_rows rnd near vs st = Some st'"
  by (induction vs arbitrary: st) (auto simp: Let_def split: prod.splits)

lemma kmeans_lengths:
  assumes "kmeans rnd m d rows n cs = Some cs'" and "\<forall>c \<in> set cs. length c \<le> d"
  shows "length cs' = length cs \<and> (\<forall>c \<in> set cs'. length c \<le> d)"
  using assms
proof (induction n arbitrary: cs)
  case (Suc n)
  obtain tots counts where a: "assign_rows rnd (nearest_centroid m d cs) rows (replicate (length cs) (replicate d 0), replicate (length cs) 0) = Some (tots, counts)"
    and rest: "kmeans rnd m d rows n (move_centroids rnd (tots, counts) cs) = Some cs'"
    using Suc.prems(1) by (auto split: option.splits)
  have "length tots = length cs" "\<forall>s \<in> set tots. length s \<le> d"
    using assign_rows_lengths [OF a, of d] nearest_centroid_less by auto
  then have "\<forall>c \<in> set (move_centroids rnd (tots, counts) cs). length c \<le> d"
    using Suc.prems(2) by (auto simp: move_centroids_def Let_def)
  from Suc.IH [OF rest this] show ?case by (simp add: move_centroids_def)
qed simp

section \<open>The search\<close>

text \<open>The queue holds the best pairs of those offered.\<close>

definition queue_ok :: "nat \<Rightarrow> (real \<times> internal_id) list \<Rightarrow> (real \<times> internal_id) list \<Rightarrow> bool" where
  "queue_ok K xs heap \<longleftrightarrow> sorted heap \<and> length heap = min K (length xs) \<and>
     (\<exists>rest. mset xs = mset heap + mset rest \<and> (\<forall>y \<in> set heap. \<forall>r \<in> set rest. fst y \<le> fst r))"

lemma sorted_fst: "sorted (heap :: (real \<times> internal_id) list) \<Longrightarrow> sorted (map fst heap)"
  by (rule sorted_map_mono) (auto simp: mono_on_def less_eq_prod_def)

lemma last_greatest: "sorted heap \<Longrightarrow> y \<in> set heap \<Longrightarrow> y \<le> last heap" for heap :: "'a::linorder list"
  by (cases heap rule: rev_cases) (auto simp: sorted_append)

lemma offer_ok:
  assumes q: "queue_ok K xs heap" and K: "0 < K"
  shows "queue_ok K (xs @ [x]) (offer K x heap)"
proof -
  obtain rest where h: "sorted heap" "length heap = min K (length xs)" and m: "mset xs = mset heap + mset rest"
    and le: "\<forall>y \<in> set heap. \<forall>r \<in> set rest. fst y \<le> fst r" using q by (auto simp: queue_ok_def)
  have len: "length xs = length heap + length rest" using m by (metis size_mset size_union)
  show ?thesis
  proof (cases "length heap < K")
    case True
    then have l: "length heap = length xs" using h(2) by (simp add: min_def split: if_splits)
    then have "rest = []" using len by simp
    then have e: "mset (xs @ [x]) = mset (insort x heap) + mset []" using m by simp
    from l have "length (insort x heap) = min K (length (xs @ [x]))" using True by simp
    moreover have "sorted (insort x heap)" using h(1) by (simp add: sorted_insort)
    moreover have "offer K x heap = insort x heap" using True by (simp add: offer_def)
    moreover have "\<forall>y \<in> set (insort x heap). \<forall>r \<in> set []. fst y \<le> fst r" by simp
    ultimately show ?thesis unfolding queue_ok_def using e by metis
  next
    case False
    then have K': "length heap = K" and ne: "heap \<noteq> []" using h(2) K by auto
    have heap: "heap = butlast heap @ [last heap]" using ne by simp
    have top: "fst y \<le> fst (last heap)" if "y \<in> set heap" for y
      using last_greatest [OF h(1) that] by (auto simp: less_eq_prod_def)
    show ?thesis
    proof (cases "fst x < fst (last heap)")
      case True
      have "mset heap = mset (butlast heap) + {#last heap#}" by (subst heap) simp
      then have "mset (xs @ [x]) = mset (insort x (butlast heap)) + mset (last heap # rest)" using m by simp
      moreover have "sorted (butlast heap)" using h(1) by (metis heap sorted_append)
      moreover have "fst y \<le> fst r" if "y \<in> set (insort x (butlast heap))" "r \<in> set (last heap # rest)" for y r
      proof -
        have "fst y \<le> fst (last heap)" using that(1) True top [of y] in_set_butlastD [of y heap] by (auto simp: set_insort_key)
        moreover have "fst (last heap) \<le> fst r" using that(2) le ne last_in_set by auto
        ultimately show ?thesis by simp
      qed
      moreover have "offer K x heap = insort x (butlast heap)" using False True by (simp add: offer_def)
      moreover have "length (insort x (butlast heap)) = min K (length (xs @ [x]))" using K' K len by simp
      ultimately show ?thesis unfolding queue_ok_def by (metis sorted_insort)
    next
      case not: False
      have "\<forall>y \<in> set heap. \<forall>r \<in> set (x # rest). fst y \<le> fst r"
      proof (intro ballI)
        fix y r assume "y \<in> set heap" "r \<in> set (x # rest)"
        then show "fst y \<le> fst r" using top [of y] not le by auto
      qed
      moreover have "mset (xs @ [x]) = mset heap + mset (x # rest)" using m by simp
      moreover have "offer K x heap = heap" using False not by (simp add: offer_def)
      moreover have "length heap = min K (length (xs @ [x]))" using K' len by simp
      ultimately show ?thesis unfolding queue_ok_def using h(1) by metis
    qed
  qed
qed

lemma offers_ok: "0 < K \<Longrightarrow> queue_ok K (map f ids) (foldl (\<lambda>heap k. offer K (f k) heap) [] ids)"
proof (induction ids rule: rev_induct)
  case Nil
  then show ?case by (simp add: queue_ok_def)
qed (simp add: offer_ok)

definition probed :: "((real \<times> nat) list \<Rightarrow> (real \<times> nat) list) \<Rightarrow> metric \<Rightarrow> ivf \<Rightarrow> fvec \<Rightarrow> internal_id list" where
  "probed arr m i q = concat (map (\<lambda>p. inverted_lists i ! snd p) (probe_order arr m i q))"

lemma ivf_search_ranks:
  assumes "trained i" and "0 < K" and "centroids i \<noteq> []"
  shows "\<exists>hits. ivf_search arr m i q K = Some hits \<and>
    ranks snd K (map (\<lambda>k. (k, metric_fn m q (ivectors i ! k) (ic_dim (iconfig i)))) (probed arr m i q)) hits"
proof -
  let ?f = "\<lambda>k. (metric_fn m q (ivectors i ! k) (ic_dim (iconfig i)), k)" and ?swap = "\<lambda>(x :: real, k :: nat). (k, x)"
  let ?heap = "foldl (\<lambda>heap k. offer K (?f k) heap) [] (probed arr m i q)"
  have Q: "queue_ok K (map ?f (probed arr m i q)) ?heap" by (rule offers_ok [OF assms(2)])
  then have "ranks fst K (map ?f (probed arr m i q)) ?heap" using sorted_fst by (auto simp: queue_ok_def ranks_def)
  then have "ranks snd K (map ?swap (map ?f (probed arr m i q))) (map ?swap ?heap)" by (rule ranks_map) auto
  then show ?thesis using assms by (simp add: ivf_search_def probed_def comp_def)
qed

section \<open>The probes\<close>

lemma distinct_concat_nth:
  assumes d: "distinct (concat ls)" and "distinct ks" and "\<forall>k \<in> set ks. k < length ls"
  shows "distinct (concat (map ((!) ls) ks))"
proof -
  have one: "distinct (ls ! k)" if "k < length ls" for k
    using d that by (meson distinct_concat_iff nth_mem)
  have disj: "set (ls ! j) \<inter> set (ls ! k) = {}" if "j < k" "k < length ls" for j k
  proof -
    have "concat ls = concat (take k ls) @ concat (drop k ls)" by (metis append_take_drop_id concat_append)
    then have "set (concat (take k ls)) \<inter> set (concat (drop k ls)) = {}" using d by (metis distinct_append)
    moreover have "ls ! j \<in> set (take k ls)" using that nth_mem [of j "take k ls"] by simp
    moreover have "ls ! k \<in> set (drop k ls)" using that(2) by (metis Cons_nth_drop_Suc list.set_intros(1))
    ultimately show ?thesis by auto
  qed
  show ?thesis using assms(2,3)
  proof (induction ks)
    case (Cons k ks)
    have "set (ls ! k) \<inter> set (ls ! j) = {}" if "j \<in> set ks" for j
    proof -
      have "j \<noteq> k" "j < length ls" "k < length ls" using Cons.prems that by auto
      then show ?thesis using disj [of j k] disj [of k j] by (cases "j < k") auto
    qed
    then show ?case using Cons one by auto
  qed simp
qed

lemma probe_order_ok:
  fixes arr m q i
  defines "ps \<equiv> probe_order arr m i q" and "n \<equiv> length (centroids i)" and "dc \<equiv> \<lambda>c. metric_fn m q (centroids i ! c) (ic_dim (iconfig i))"
  shows "distinct (map snd ps)" and "set ps \<subseteq> (\<lambda>c. (dc c, c)) ` {..<n}" and "length ps = min (nprobe (iconfig i)) n"
    and "\<lbrakk>c < n; c \<notin> snd ` set ps; p \<in> set ps\<rbrakk> \<Longrightarrow> fst p \<le> dc c"
proof -
  let ?cd = "map (\<lambda>c. (dc c, c)) [0..<n]" and ?k = "min (nprobe (iconfig i)) n"
  have m: "mset ps = mset (take ?k (sort ?cd))" by (simp add: ps_def probe_order_def Let_def n_def dc_def)
  have split: "mset ?cd = mset ps + mset (drop ?k (sort ?cd))" 
  proof -
    have "mset ?cd = mset (take ?k (sort ?cd) @ drop ?k (sort ?cd))" by (simp only: append_take_drop_id mset_sort)
    then show ?thesis by (simp only: m mset_append)
  qed
  have "distinct (map snd ?cd)" by (simp add: comp_def)
  moreover have "mset (map snd (sort ?cd)) = mset (map snd ?cd)" by (simp only: mset_map mset_sort)
  ultimately have "distinct (map snd (sort ?cd))" using mset_eq_imp_distinct_iff by blast
  then have "distinct (take ?k (map snd (sort ?cd)))" by (rule distinct_take)
  moreover have "mset (take ?k (map snd (sort ?cd))) = mset (map snd ps)" unfolding take_map by (simp only: mset_map m)
  ultimately show "distinct (map snd ps)" using mset_eq_imp_distinct_iff by blast
  have set: "set ?cd = set ps \<union> set (drop ?k (sort ?cd))" using arg_cong [OF split, of set_mset] by (simp only: set_mset_union set_mset_mset)
  then show "set ps \<subseteq> (\<lambda>c. (dc c, c)) ` {..<n}" by (simp add: atLeast0LessThan)
  show "length ps = ?k" using arg_cong [OF m, of size] by (simp only: size_mset) simp
  show "fst p \<le> dc c" if "c < n" "c \<notin> snd ` set ps" "p \<in> set ps"
  proof -
    have "(dc c, c) \<in> set ?cd" "(dc c, c) \<notin> set ps" using that(1,2) by force+
    then have "(dc c, c) \<in> set (drop ?k (sort ?cd))" using set by blast
    moreover have "p \<in> set (take ?k (sort ?cd))" using that(3) m by (metis set_mset_mset)
    moreover have "sorted (take ?k (sort ?cd) @ drop ?k (sort ?cd))" by simp
    ultimately have "p \<le> (dc c, c)" unfolding sorted_append by blast
    then show ?thesis by (auto simp: less_eq_prod_def)
  qed
qed

section \<open>The invariant\<close>

definition ivf_inv :: "nat \<Rightarrow> ivf \<Rightarrow> bool" where
  "ivf_inv d i \<longleftrightarrow> ic_dim (iconfig i) = d \<and> nlist (iconfig i) < 2 ^ 64 \<and> nprobe (iconfig i) < 2 ^ 64 \<and>
     length (inverted_lists i) = length (centroids i) \<and> length (centroids i) < 2 ^ 64 \<and> (\<forall>c \<in> set (centroids i). length c \<le> d) \<and>
     mset (concat (inverted_lists i)) = mset [0..<length (ivectors i)]"

lemma ivf_lists:
  assumes "ivf_inv d i"
  shows "distinct (concat (inverted_lists i))" "set (concat (inverted_lists i)) = {..<length (ivectors i)}"
proof -
  have m: "mset (concat (inverted_lists i)) = mset [0..<length (ivectors i)]" using assms by (simp add: ivf_inv_def)
  then show "distinct (concat (inverted_lists i))" by (metis distinct_upt mset_eq_imp_distinct_iff)
  show "set (concat (inverted_lists i)) = {..<length (ivectors i)}" using m by (metis atLeast_upt set_mset_mset)
qed

lemma union_nth: "(\<Union>k<length ls. set (ls ! k)) = set (concat ls)"
  by (auto simp: set_conv_nth [of ls])

lemma probed_ok:
  assumes "ivf_inv d i"
  shows "distinct (probed arr m i q)" "set (probed arr m i q) \<subseteq> {..<length (ivectors i)}"
    and "length (centroids i) \<le> nprobe (iconfig i) \<Longrightarrow> set (probed arr m i q) = {..<length (ivectors i)}"
proof -
  let ?ps = "probe_order arr m i q"
  note P = probe_order_ok [where arr = arr and m = m and i = i and q = q]
  have len: "length (inverted_lists i) = length (centroids i)" using assms by (simp add: ivf_inv_def)
  have lt: "\<forall>k \<in> set (map snd ?ps). k < length (inverted_lists i)" using P(2) len by auto
  have eq: "probed arr m i q = concat (map ((!) (inverted_lists i)) (map snd ?ps))" by (simp add: probed_def comp_def)
  show "distinct (probed arr m i q)" unfolding eq by (rule distinct_concat_nth [OF ivf_lists(1) [OF assms] P(1) lt])
  have sub: "set (probed arr m i q) = (\<Union>k \<in> set (map snd ?ps). set (inverted_lists i ! k))" by (auto simp: eq)
  then show "set (probed arr m i q) \<subseteq> {..<length (ivectors i)}"
    using lt ivf_lists(2) [OF assms] by (fastforce simp: in_set_conv_nth)
  show "set (probed arr m i q) = {..<length (ivectors i)}" if all: "length (centroids i) \<le> nprobe (iconfig i)"
  proof -
    have "card (set (map snd ?ps)) = length (centroids i)" using P(1,3) all distinct_card [of "map snd ?ps"] by simp
    moreover have "set (map snd ?ps) \<subseteq> {..<length (centroids i)}" using P(2) by auto
    ultimately have "set (map snd ?ps) = {..<length (inverted_lists i)}" unfolding len by (intro card_subset_eq) simp_all
    then show ?thesis using sub ivf_lists(2) [OF assms] union_nth [of "inverted_lists i"] by simp
  qed
qed

text \<open>What a search answers: the nearest of the nodes in the lists it probes.\<close>

lemma ivf_search_ok:
  assumes inv: "ivf_inv d i" and t: "trained i"
  shows "\<exists>hits. ivf_search arr m i q K = Some hits \<and> sound_hits (\<lambda>q v. metric_fn m q v d) (ivectors i) q K hits \<and>
    length hits = min K (length (probed arr m i q)) \<and>
    (\<forall>k \<in> set (probed arr m i q). k \<in> set (map fst hits) \<or> (\<forall>h \<in> set hits. snd h \<le> metric_fn m q (ivectors i ! k) d))"
proof (cases "K = 0 \<or> centroids i = []")
  case True
  have "probed arr m i q = []" if "centroids i = []" using that by (simp add: probed_def probe_order_def Let_def permuted_def)
  then show ?thesis using True t by (auto simp: ivf_search_def sound_hits_def)
next
  case False
  let ?df = "\<lambda>k. metric_fn m q (ivectors i ! k) d" and ?ids = "probed arr m i q"
  have d: "ic_dim (iconfig i) = d" using inv by (simp add: ivf_inv_def)
  obtain hits where h: "ivf_search arr m i q K = Some hits" "ranks snd K (map (\<lambda>k. (k, ?df k)) ?ids) hits"
    using ivf_search_ranks [OF t, of K arr m q] False d by auto
  note R = ranksD [OF h(2)]
  have dm: "distinct (map fst (map (\<lambda>k. (k, ?df k)) ?ids))" using probed_ok(1) [OF inv] by (simp add: comp_def)
  then have "distinct (map (\<lambda>k. (k, ?df k)) ?ids)" unfolding distinct_map [of fst] by blast
  then have "distinct hits" by (rule R(4))
  then have dh: "distinct (map fst hits)" by (rule distinct_map_subset [OF dm _ R(3)])
  have mem: "fst h < length (ivectors i) \<and> snd h = ?df (fst h)" if "h \<in> set hits" for h
    using R(3) that probed_ok(2) [OF inv, of arr m q] by fastforce
  have left: "snd h \<le> ?df k" if k: "k \<in> set ?ids" "k \<notin> set (map fst hits)" "h \<in> set hits" for k h
  proof -
    have "(k, ?df k) \<notin> set hits" using k(2) by force
    then show ?thesis using R(5) [of "(k, ?df k)" h] k by simp
  qed
  have "sound_hits (\<lambda>q v. metric_fn m q v d) (ivectors i) q K hits" using R(1,2) dh mem by (simp add: sound_hits_def)
  then show ?thesis using h(1) R(2) left by (intro exI [of _ hits]) auto
qed

section \<open>It keeps the interface\<close>

lemma ivf_ops_simps [simp]:
  "ix_new (ivf_ops rnd shuffle arr m d) = make_ivf (default_ivf d)" "ix_train (ivf_ops rnd shuffle arr m d) = ivf_train rnd shuffle m"
  "ix_add (ivf_ops rnd shuffle arr m d) = ivf_add m" "ix_allocate (ivf_ops rnd shuffle arr m d) = ivf_add m"
  "ix_link (ivf_ops rnd shuffle arr m d) = default_link" "ix_search (ivf_ops rnd shuffle arr m d) = ivf_search arr m"
  "ix_size (ivf_ops rnd shuffle arr m d) = ivf_size" "ix_serialize (ivf_ops rnd shuffle arr m d) = ivf_serialize"
  "ix_deserialize (ivf_ops rnd shuffle arr m d) = ivf_deserialize"
  by (simp_all add: ivf_ops_def default_allocate_def fun_eq_iff)

lemma ivf_add_ok:
  assumes inv: "ivf_inv d i" and a: "ivf_add m v i = Some (Inr (k, i'))"
  shows "k = length (ivectors i) \<and> ivectors i' = ivectors i @ [take d v] \<and> ivf_inv d i'"
proof -
  let ?c = "nearest_centroid m d (centroids i) v"
  have d: "ic_dim (iconfig i) = d" using inv by (simp add: ivf_inv_def)
  have c: "\<not> ?c < 0" and k: "k = length (ivectors i)"
    and i': "i' = i\<lparr>inverted_lists := (inverted_lists i)[nat ?c := inverted_lists i ! nat ?c @ [k]], ivectors := ivectors i @ [take d v]\<rparr>"
    using a d by (auto simp: ivf_add_def Let_def split: if_splits)
  have "nat ?c < length (inverted_lists i)" using c nearest_centroid_less [of m d "centroids i" v] inv by (simp add: ivf_inv_def)
  then show ?thesis using inv k by (simp add: ivf_inv_def i' mset_concat_update)
qed

lemma ivf_make: "ivf_inv d (make_ivf (default_ivf d))" "ivectors (make_ivf (default_ivf d)) = []"
  by (simp_all add: ivf_inv_def make_ivf_def default_ivf_def)

interpretation ivf: vector_index "ivf_ops rnd shuffle arr m d" d "\<lambda>q v. metric_fn m q v d" "ivf_inv d" ivectors for rnd shuffle arr m d
proof (unfold_locales, goal_cases)
  case (7 i q K hits)
  then have "trained i" by (simp add: ivf_search_def split: if_splits)
  then show ?case using ivf_search_ok [OF 7(1), of arr m q K] 7(2) by auto
qed (use ivf_make ivf_add_ok in \<open>auto simp: ivf_size_def default_link_def\<close>)

section \<open>Bytes\<close>

lemma ivf_serialize_parts:
  "ivf_serialize out i = out @ word_bytes (if trained i then 1 else 0 :: u8) @ word_bytes (of_nat (nlist (iconfig i)) :: u64) @
     word_bytes (of_nat (nprobe (iconfig i)) :: u64) @ word_bytes (of_nat (length (centroids i)) :: u64) @
     concat (map (put_floats []) (centroids i)) @ word_bytes (of_nat (length (inverted_lists i)) :: u64) @
     concat (map (put_list []) (inverted_lists i)) @ word_bytes (of_nat (length (ivectors i)) :: u64) @ concat (map (put_floats []) (ivectors i))"
proof -
  have "foldl put_floats buf xs = buf @ concat (map (put_floats []) xs)" for buf xs
    by (rule foldl_appends) (rule put_floats_append)
  moreover have "foldl put_list buf xs = buf @ concat (map (put_list []) xs)" for buf xs
    by (rule foldl_appends) (simp add: put_list_parts)
  ultimately show ?thesis by (simp add: ivf_serialize_def Let_def put_def)
qed

lemma ivf_deserialize_serialize:
  assumes inv: "ivf_inv d i" and d: "d < 2 ^ 32" and n: "length (ivectors i) < 2 ^ 32" and v: "\<forall>v \<in> set (ivectors i). length v \<le> d"
  shows "ivf_deserialize i0 (ivf_serialize [] i @ rest) = Inr (i0\<lparr>iconfig := (iconfig i0)\<lparr>nlist := nlist (iconfig i), nprobe := nprobe (iconfig i)\<rparr>,
    trained := trained i, centroids := centroids i, inverted_lists := inverted_lists i, ivectors := ivectors i\<rparr>, rest)"
proof -
  have fl: "length x \<le> max_floats" if "length x \<le> d" for x :: fvec using that d by (simp add: max_floats_def)
  have c: "\<forall>v \<in> set (centroids i). length v \<le> max_floats" using inv fl by (auto simp: ivf_inv_def)
  have vs: "\<forall>v \<in> set (ivectors i). length v \<le> max_floats" using v fl by blast
  have l: "\<forall>l \<in> set (inverted_lists i). length l < 2 ^ 64 \<and> (\<forall>k \<in> set l. k < 2 ^ 32)"
  proof
    fix l assume l: "l \<in> set (inverted_lists i)"
    then have "set l \<subseteq> {..<length (ivectors i)}" using ivf_lists(2) [OF inv] by auto
    moreover have "distinct l" using ivf_lists(1) [OF inv] l distinct_concat_iff by blast
    ultimately have "length l \<le> length (ivectors i)" using distinct_card [of l] card_mono [of "{..<length (ivectors i)}" "set l"] by simp
    then show "length l < 2 ^ 64 \<and> (\<forall>k \<in> set l. k < 2 ^ 32)" using n \<open>set l \<subseteq> _\<close> by auto
  qed
  note many = floatsc.get_many_enc [OF c] floatsc.get_many_enc [OF vs] listc.get_many_enc [OF l]
  show ?thesis using inv n many
    by (simp add: ivf_deserialize_def ivf_serialize_parts u8c.dec_enc u64c.dec_enc ivf_inv_def unat_of_nat_64)
qed

interpretation ivf_file: stored_index "ivf_ops rnd shuffle arr m d" d "\<lambda>q v. metric_fn m q v d" "ivf_inv d" ivectors for rnd shuffle arr m d
proof (unfold_locales, goal_cases)
  case (1 buf i)
  then show ?case by (simp add: ivf_serialize_parts [of buf] ivf_serialize_parts [of "[]"])
next
  case (2 i rest)
  then show ?case using ivf_deserialize_serialize [OF 2, of "make_ivf (default_ivf d)" rest]
    by (simp add: ivf_inv_def make_ivf_def default_ivf_def)
qed

section \<open>Training\<close>

lemma kmeans_total:
  assumes "m = Cosine" and "rows = [] \<or> cs \<noteq> []"
  shows "\<exists>cs'. kmeans rnd m d rows n cs = Some cs'"
  using assms(2)
proof (induction n arbitrary: cs)
  case (Suc n)
  have "0 \<le> nearest_centroid m d cs v" if "v \<in> set rows" for v
    using that Suc.prems cosine_range [of v "cs ! 0" d]
    by (intro nearest_centroid_found [of 0]) (auto simp: assms(1) metric_fn_def float_max_def)
  then obtain st where st: "assign_rows rnd (nearest_centroid m d cs) rows (replicate (length cs) (replicate d 0), replicate (length cs) 0) = Some st"
    using assign_rows_total by blast
  have "rows = [] \<or> move_centroids rnd st cs \<noteq> []" using Suc.prems by (auto simp: move_centroids_def case_prod_unfold)
  from Suc.IH [OF this] st show ?case by simp
qed simp

lemma ivf_train_ok:
  assumes cfg: "ic_dim (iconfig i) = d" "nlist (iconfig i) < 2 ^ 64" "nprobe (iconfig i) < 2 ^ 64"
    and a: "ivf_train rnd shuffle m data n i = Some i'"
  shows "ivf_inv d i' \<and> trained i' \<and> ivectors i' = map (row_at data d) [0..<n] \<and> length (centroids i') = min (nlist (iconfig i)) n \<and>
    assigned (nearest_centroid m d (centroids i')) (ivectors i') (inverted_lists i')"
proof -
  let ?rows = "map (row_at data d) [0..<n]" and ?nl = "min (nlist (iconfig i)) n"
  define start where "start = map (\<lambda>k. row_at data d (permuted shuffle [0..<n] ! k)) [0..<?nl]"
  obtain cs ls where k: "kmeans rnd m d ?rows (kmeans_iters (iconfig i)) start = Some cs"
    and f: "fill_lists (nearest_centroid m d cs) ?rows 0 (replicate ?nl []) = Some ls"
    and i': "i' = \<lparr>iconfig = (iconfig i)\<lparr>nlist := ?nl\<rparr>, trained = True, centroids = cs, inverted_lists = ls, ivectors = ?rows\<rparr>"
    using a cfg(1) by (auto simp: ivf_train_def Let_def start_def split: option.splits)
  have "\<forall>c \<in> set start. length c \<le> d" by (auto simp: start_def row_at_def)
  note cs = kmeans_lengths [OF k this]
  have len: "length cs = ?nl" using cs by (simp add: start_def)
  have "assigned (nearest_centroid m d cs) [] (replicate ?nl [])" by (simp add: assigned_def)
  note A = fill_lists_assigned [where us = "[]", simplified, OF f this]
  have A: "assigned (nearest_centroid m d cs) ?rows ls \<and> length ls = ?nl"
    using A nearest_centroid_less [of m d cs] len by simp
  moreover have "?nl < 2 ^ 64" using cfg(2) by simp
  ultimately show ?thesis using cs len cfg by (simp add: i' ivf_inv_def assigned_def)
qed

lemma ivf_train_total:
  assumes "m = Cosine" and "n = 0 \<or> 0 < nlist (iconfig i)"
  shows "\<exists>i'. ivf_train rnd shuffle m data n i = Some i'"
proof -
  let ?d = "ic_dim (iconfig i)" and ?nl = "min (nlist (iconfig i)) n"
  let ?rows = "map (row_at data ?d) [0..<n]" and ?start = "map (\<lambda>k. row_at data ?d (permuted shuffle [0..<n] ! k)) [0..<?nl]"
  have "?rows = [] \<or> ?start \<noteq> []" using assms(2) by auto
  then obtain cs where cs: "kmeans rnd m ?d ?rows (kmeans_iters (iconfig i)) ?start = Some cs" using kmeans_total [OF assms(1)] by blast
  have "length cs = ?nl" using kmeans_lengths [OF cs] by (simp add: row_at_def)
  then have "0 \<le> nearest_centroid m ?d cs v" if "v \<in> set ?rows" for v
    using that assms cosine_range [of v "cs ! 0" ?d]
    by (intro nearest_centroid_found [of 0]) (auto simp: metric_fn_def float_max_def)
  then obtain ls where "fill_lists (nearest_centroid m ?d cs) ?rows 0 (replicate ?nl []) = Some ls" using fill_lists_total by blast
  then show ?thesis using cs by (simp add: ivf_train_def Let_def)
qed

section \<open>Properties\<close>

text \<open>
  C25: a search of the inverted lists is sound and as good as its probes. It returns nodes in
  order of distance, each once and with its own distance; the lists it probes are those of the
  nearest centroids, and no node in them that is left out is nearer than one returned; and with
  every list probed the answer is exact.
\<close>

theorem ivf_search_exact:
  assumes "ivf_inv d i" and "trained i"
  shows "\<exists>hits. ivf_search arr m i q K = Some hits \<and> sound_hits (\<lambda>q v. metric_fn m q v d) (ivectors i) q K hits \<and>
    (\<forall>c\<in>{..<length (centroids i)}. c \<in> snd ` set (probe_order arr m i q) \<or> (\<forall>p\<in>set (probe_order arr m i q). fst p \<le> metric_fn m q (centroids i ! c) d)) \<and>
    (\<forall>p\<in>set (probe_order arr m i q). \<forall>k\<in>set (inverted_lists i ! snd p).
       k \<in> set (map fst hits) \<or> (\<forall>h\<in>set hits. snd h \<le> metric_fn m q (ivectors i ! k) d)) \<and>
    (length (centroids i) \<le> nprobe (iconfig i) \<longrightarrow> length hits = min K (length (ivectors i)) \<and>
       (\<forall>k\<in>{..<length (ivectors i)}. k \<in> set (map fst hits) \<or> (\<forall>h\<in>set hits. snd h \<le> metric_fn m q (ivectors i ! k) d)))"
proof -
  have d: "ic_dim (iconfig i) = d" using assms(1) by (simp add: ivf_inv_def)
  obtain hits where h: "ivf_search arr m i q K = Some hits" "sound_hits (\<lambda>q v. metric_fn m q v d) (ivectors i) q K hits"
    "length hits = min K (length (probed arr m i q))"
    "\<forall>k \<in> set (probed arr m i q). k \<in> set (map fst hits) \<or> (\<forall>h \<in> set hits. snd h \<le> metric_fn m q (ivectors i ! k) d)"
    using ivf_search_ok [OF assms] by blast
  have all: "length (probed arr m i q) = length (ivectors i) \<and> set (probed arr m i q) = {..<length (ivectors i)}"
    if "length (centroids i) \<le> nprobe (iconfig i)"
    using probed_ok(1,3) [OF assms(1), of arr m q] that distinct_card [of "probed arr m i q"] by simp
  have in_probed: "k \<in> set (probed arr m i q)" if "p \<in> set (probe_order arr m i q)" "k \<in> set (inverted_lists i ! snd p)" for p k
    using that by (auto simp: probed_def)
  have probes: "\<forall>c\<in>{..<length (centroids i)}. c \<in> snd ` set (probe_order arr m i q) \<or> (\<forall>p\<in>set (probe_order arr m i q). fst p \<le> metric_fn m q (centroids i ! c) d)"
    using probe_order_ok(4) [where i = i and arr = arr and m = m and q = q] unfolding d by blast
  show ?thesis
  proof (intro exI [of _ hits] conjI)
    show "\<forall>p\<in>set (probe_order arr m i q). \<forall>k\<in>set (inverted_lists i ! snd p).
       k \<in> set (map fst hits) \<or> (\<forall>h\<in>set hits. snd h \<le> metric_fn m q (ivectors i ! k) d)" using h(4) in_probed by blast
    show "length (centroids i) \<le> nprobe (iconfig i) \<longrightarrow> length hits = min K (length (ivectors i)) \<and>
       (\<forall>k\<in>{..<length (ivectors i)}. k \<in> set (map fst hits) \<or> (\<forall>h\<in>set hits. snd h \<le> metric_fn m q (ivectors i ! k) d))"
      using h(3,4) all by simp
  qed (fact h(1) h(2) probes)+
qed

text \<open>
  C26: training partitions the rows. When it returns, the rows are the nodes \<open>0\<close> to \<open>n - 1\<close>,
  every node is in exactly one list, that of a nearest centroid, there are at most \<open>nlist\<close>
  lists, and the invariant of the index holds; over the cosine metric it always returns when there are no rows
  or \<open>nlist\<close> is positive.
\<close>

theorem ivf_train_partitions:
  assumes "ic_dim (iconfig i) = d" and "nlist (iconfig i) < 2 ^ 64" and "nprobe (iconfig i) < 2 ^ 64"
  shows "(ivf_train rnd shuffle m data n i = Some i' \<longrightarrow> ivf_inv d i' \<and> trained i' \<and> ivectors i' = map (row_at data d) [0..<n] \<and>
      length (centroids i') = min (nlist (iconfig i)) n \<and> mset (concat (inverted_lists i')) = mset [0..<n] \<and>
      (\<forall>c\<in>{..<length (inverted_lists i')}. \<forall>k\<in>set (inverted_lists i' ! c). \<forall>b\<in>{..<length (centroids i')}.
        metric_fn m (ivectors i' ! k) (centroids i' ! c) d \<le> metric_fn m (ivectors i' ! k) (centroids i' ! b) d)) \<and>
    (m = Cosine \<and> (n = 0 \<or> 0 < nlist (iconfig i)) \<longrightarrow> (\<exists>i'. ivf_train rnd shuffle m data n i = Some i'))"
proof -
  have "metric_fn m (ivectors i' ! k) (centroids i' ! c) d \<le> metric_fn m (ivectors i' ! k) (centroids i' ! b) d"
    if "ivf_train rnd shuffle m data n i = Some i'" "c < length (inverted_lists i')" "k \<in> set (inverted_lists i' ! c)" "b < length (centroids i')" for c k b
    using ivf_train_ok [OF assms that(1)] that(2-4) by (intro nearest_centroid_best) (auto simp: assigned_def)
  then show ?thesis using ivf_train_ok [OF assms, of rnd shuffle m data n i'] ivf_train_total [of m n i rnd shuffle data]
    by (auto simp: assigned_def)
qed

theorem ivf_train_partitions_witness:
  "\<exists>i'. ivf_train (\<lambda>_. 0) rev Cosine [0x3F800000, 0] 2 (make_ivf (default_ivf 1)) = Some i' \<and> ivf_inv 1 i' \<and> trained i' \<and>
    length (ivectors i') = 2 \<and> length (centroids i') = 2"
proof -
  let ?i = "make_ivf (default_ivf 1)"
  have c: "ic_dim (iconfig ?i) = 1" "nlist (iconfig ?i) < 2 ^ 64" "nprobe (iconfig ?i) < 2 ^ 64" "nlist (iconfig ?i) = 100"
    by (simp_all add: make_ivf_def default_ivf_def)
  obtain i' where i': "ivf_train (\<lambda>_. 0) rev Cosine [0x3F800000, 0] 2 ?i = Some i'"
    using conjunct2 [OF ivf_train_partitions [OF c(1-3), of "\<lambda>_. 0" rev Cosine "[0x3F800000, 0]" 2]] c(4) by auto
  then show ?thesis using ivf_train_partitions [OF c(1-3), of "\<lambda>_. 0" rev Cosine "[0x3F800000, 0]" 2 i'] c(4) by simp
qed

theorem ivf_search_exact_witness:
  "\<exists>i hits. trained i \<and> length (ivectors i) = 2 \<and> ivf_search rev Cosine i [0] 5 = Some hits \<and> length hits = 2"
proof -
  let ?i = "make_ivf (default_ivf 1)"
  have c: "ic_dim (iconfig ?i) = 1" "nlist (iconfig ?i) < 2 ^ 64" "nprobe (iconfig ?i) < 2 ^ 64" "nlist (iconfig ?i) = 100" "nprobe (iconfig ?i) = 8"
    by (simp_all add: make_ivf_def default_ivf_def)
  obtain i' where t: "ivf_train (\<lambda>_. 0) rev Cosine [0x3F800000, 0] 2 ?i = Some i'"
    using ivf_train_total [of Cosine 2 ?i "\<lambda>_. 0" rev "[0x3F800000, 0]"] c(4) by auto
  note T = ivf_train_ok [OF c(1-3) t]
  have "nprobe (iconfig i') = 8" using t c(5) by (auto simp: ivf_train_def Let_def split: option.splits)
  moreover have "length (centroids i') \<le> 2" "length (ivectors i') = 2" using T by simp_all
  moreover obtain hits where "ivf_search rev Cosine i' [0] 5 = Some hits" "length (centroids i') \<le> nprobe (iconfig i') \<longrightarrow> length hits = min 5 (length (ivectors i'))"
    using ivf_search_exact [of 1 i' rev Cosine "[0]" 5] T by blast
  ultimately show ?thesis using T by (intro exI [of _ i'] exI [of _ hits]) simp
qed

end
