(* ===== verification/Vdb_Ivf.thy ===== *)
theory Vdb_Ivf
  imports Vdb_Run Ivf_Index
begin

text \<open>
  The database over the inverted-file index. The class cannot use it: no path of \<open>VDB\<close> trains a
  fresh index before the first insertion, and \<open>compact()\<close> trains it with the vectors that it
  then adds a second time.
\<close>

definition ivf_for :: "(real \<Rightarrow> float32) \<Rightarrow> (nat list \<Rightarrow> nat list) \<Rightarrow> ((real \<times> nat) list \<Rightarrow> (real \<times> nat) list) \<Rightarrow> vdb_config \<Rightarrow> ivf index_ops" where
  "ivf_for rnd shuffle arr cfg = ivf_ops rnd shuffle arr (vmetric cfg) (vdim cfg)"

text \<open>An insertion into a fresh database fails the \<open>assert(trained_)\<close> of \<open>IVFIndex::add\<close>, a search that of \<open>search\<close>.\<close>

theorem ivf_unusable:
  assumes "make_vdb (ivf_for rnd shuffle arr cfg) cfg = Inr s" and "validate (mschema (vmeta s)) rec = None" and "0 < K"
  shows "vdb_insert (ivf_for rnd shuffle arr cfg) vec rec s = None \<and> ix_search (ivf_for rnd shuffle arr cfg) (index s) q K = None"
proof -
  have "\<not> trained (index s)" using assms(1) by (auto simp: make_vdb_def bind_res_eq_Inr ivf_for_def make_ivf_def)
  then show ?thesis using assms(2)
    by (simp add: vdb_insert_def validated_def bind_method_def reserve_id_def insert_reserved_def insert_allocate_def allocate_node_def
        ivf_for_def ivf_add_def ivf_search_def)
qed

text \<open>
  Were the index trained, a compaction that keeps a row would not return: \<open>train\<close> leaves the
  \<open>n\<close> live vectors in the index, the first \<open>append_\<close> gets the node \<open>n\<close> where it asserts 0.
\<close>

theorem ivf_compact_fails:
  assumes "vkind (config s) = IVF" and "live_ids s \<noteq> []"
  shows "compact (ivf_for rnd shuffle arr cfg) s \<noteq> Some (Inr x, s')"
proof
  let ?ops = "ivf_for rnd shuffle arr cfg" and ?vs = "map ((!) (vectors s)) (live_ids s)"
  assume "compact ?ops s = Some (Inr x, s')"
  then obtain m s0 where "train_index ?ops ?vs (fresh_maps ?ops (s\<lparr>vectors := move_vectors (live_ids s) (vectors s), vmeta := m\<rparr>)) = Some (Inr (), s0)"
    and app: "append_all ?ops (zip (map ((!) (int_to_ext s)) (live_ids s)) ?vs) s0 = Some (Inr x, s')"
    unfolding compact_def Let_def method_simps by auto
  then have "length (ivectors (index s0)) = length (live_ids s)" "int_to_ext s0 = []"
    using assms by (auto simp: train_index_def fresh_maps_def ivf_for_def ivf_train_def Let_def split: option.splits)
  moreover from this have "append_node ?ops ext v s0 \<noteq> Some (Inr k, s1)" for ext v k s1
    using assms(2) by (auto simp: append_node_def ivf_for_def ivf_add_def Let_def split: option.splits sum.splits if_splits)
  moreover obtain i ks where "live_ids s = i # ks" using assms(2) by (cases "live_ids s") auto
  ultimately show False using app by (auto simp: method_simps)
qed

end
