(* ===== verification/Durable_Brute.thy ===== *)
theory Durable_Brute
  imports Brute_Database
begin

text \<open>
  The properties of the durable database over the exhaustive index: its contents are those of
  its history, a crash loses nothing durable and leaves the contents of a prefix of the history,
  its calls, commits and checkpoints return, and an insertion that fails validation makes the
  directory unrecoverable.
\<close>

section \<open>Contents\<close>

text \<open>
  C4: the durable database is its history. In every reachable state, whatever calls, syncs,
  checkpoints and crashes ran and however their critical sections interleaved, the database
  answers for an id as the map that the logged operations describe, unless an operation on that
  id is logged and not yet applied.
\<close>

theorem durable_refines:
  assumes "dur_reach (brute_for cfg arrange) cfg s" and "ext \<notin> ext_id ` flying s"
  shows "shows_id (ddb (obj s)) (contents_after (logged s)) ext"
  by (rule bdb.object_contents [OF bdb.dur_reach_inv [OF assms(1) refl] refl assms(2)])


section \<open>Calls\<close>

text \<open>
  C16: group commit returns. A caller that finds no sync under way becomes the leader; after one
  \<open>fsync\<close> its lsn and every other that the log has are durable, and the loop ends.
\<close>

theorem commit_returns:
  assumes "dur_reach (brute_for cfg arrange) cfg s" and "l \<le> highest_lsn (dwal (obj s))" and "\<not> syncing (obj s)"
  shows "\<exists>t. group_commit l (obj s) = Some (Inr (), obj t) \<and> dur_reach (brute_for cfg arrange) cfg t \<and> logged t = logged s \<and>
    l \<le> durable_lsn (obj t)"
  using bdb.group_commit_run [OF assms(1) refl assms(2,3)] bdb.ghostsD(1) by blast

text \<open>
  C17: a checkpoint returns when no operation is in flight. Afterwards the snapshot covers every
  operation logged before it, and the database is unchanged.
\<close>

theorem checkpoint_returns:
  assumes "dur_reach (brute_for cfg arrange) cfg s" and "settled s" and "log_space (obj s)" and "snapshot_fits (ddb (obj s))"
  shows "\<exists>t. checkpoint (brute_for cfg arrange) now (obj s) = Some (Inr (), obj t) \<and> dur_reach (brute_for cfg arrange) cfg t \<and>
    ddb (obj t) = ddb (obj s) \<and> (\<forall>r \<in> set (logged s). lsn r \<le> covered t) \<and> contents_after (logged t) = contents_after (logged s)"
proof -
  note D = dur_invD [OF bdb.dur_reach_inv [OF assms(1) refl]]
  have idle: "stage s = Idle" "in_flight (obj s) = 0" using flight_okD(3) [OF D(6)] assms(2) by (simp_all add: settled_def)
  obtain t r where t: "checkpoint (brute_for cfg arrange) now (obj s) = Some (Inr (), obj t)" "dur_reach (brute_for cfg arrange) cfg t"
    "logged t = logged s @ [r]" "rtype r = rt_checkpoint" "covered t = next_lsn (obj s) - 1" "ddb (obj t) = ddb (obj s)"
    using bdb.checkpoint_run [OF assms(1) refl idle assms(3,4)] by blast
  have "next_lsn (obj s) \<noteq> 0" using log_okD(7) [OF D(4)] by auto
  then have "lsn q \<le> next_lsn (obj s) - 1" if "q \<in> set (logged s)" for q
    using log_okD(3) [OF D(4)] that by (simp add: le_pred_iff)
  moreover have "contents_after (logged t) = contents_after (logged s)"
    by (simp add: t(3) contents_after_append eff_def t(4) rt_defs)
  ultimately show ?thesis using t by auto
qed

text \<open>
  C14: an insertion that runs alone returns, with the id it logged, and a new row is in the
  history; under \<open>Policy::PerOpSync\<close> every operation logged so far is durable when it returns.
  Only a full ordered index makes it throw.
\<close>

theorem insert_durable:
  assumes "dur_reach (brute_for cfg arrange) cfg s" and "settled s" and "log_space (obj s)" and "next_ext_id (ddb (obj s)) \<noteq> -1"
    and "valid_meta (vschema cfg) rec" and "record_fits (vmeta (ddb (obj s))) rec" and "ops_since_checkpoint (obj s) + 1 < checkpoint_ops (dopts (obj s))"
    and "r = canon_record \<lparr>rtype = rt_insert, lsn = next_lsn (obj s), ext_id = next_ext_id (ddb (obj s)), vec = take (vdim cfg) v, meta = rec\<rparr>" and "record_ok r"
  shows "logs_op (brute_for cfg arrange) cfg s r (durable_insert (brute_for cfg arrange) now v rec) (ext_id r)"
  by (rule bdb.insert_call [OF assms(1) refl assms(2-)])

text \<open>
  C15: an update with a record, a metadata update and a removal of an id that the database has
  return the same way, each with its own record at the end of the history.
\<close>

theorem mutations_durable:
  assumes "dur_reach (brute_for cfg arrange) cfg s" and "settled s" and "log_space (obj s)" and "contains (ddb (obj s)) ext"
    and "valid_meta (vschema cfg) rec" and "record_fits (vmeta (ddb (obj s))) rec" and "ops_since_checkpoint (obj s) + 1 < checkpoint_ops (dopts (obj s))"
    and "mk = (\<lambda>ty v rec. canon_record \<lparr>rtype = ty, lsn = next_lsn (obj s), ext_id = ext, vec = v, meta = rec\<rparr>)"
    and "record_ok (mk rt_update (take (vdim cfg) v) rec)" and "record_ok (mk rt_set_meta [] rec)"
  shows "logs_op (brute_for cfg arrange) cfg s (mk rt_update (take (vdim cfg) v) rec) (durable_update (brute_for cfg arrange) now ext v (Some rec)) True \<and>
    logs_op (brute_for cfg arrange) cfg s (mk rt_set_meta [] rec) (durable_set_metadata (brute_for cfg arrange) now ext rec) True \<and>
    logs_op (brute_for cfg arrange) cfg s (mk rt_delete [] empty_meta) (durable_remove (brute_for cfg arrange) now ext) True"
proof (intro conjI)
  note mk = assms(8)
  show "logs_op (brute_for cfg arrange) cfg s (mk rt_update (take (vdim cfg) v) rec) (durable_update (brute_for cfg arrange) now ext v (Some rec)) True"
    by (rule bdb.update_call [OF assms(1) refl assms(2-4), where rec = rec]) (use assms(5-7,9) in \<open>simp_all add: mk\<close>)
  show "logs_op (brute_for cfg arrange) cfg s (mk rt_set_meta [] rec) (durable_set_metadata (brute_for cfg arrange) now ext rec) True"
    by (rule bdb.set_call [OF assms(1) refl assms(2-7)]) (use assms(10) in \<open>simp_all add: mk\<close>)
  show "logs_op (brute_for cfg arrange) cfg s (mk rt_delete [] empty_meta) (durable_remove (brute_for cfg arrange) now ext) True"
    by (rule bdb.remove_call [OF assms(1) refl assms(2-4,7)]) (simp add: mk canon_record_def)
qed

text \<open>
  C18: an insertion whose record fails validation is logged before it is validated. The call
  throws what \<open>validate\<close> throws, its operation stays in flight, so that a checkpoint waits for
  ever, and after it no crash or restart leaves a directory that the constructor can open: each
  replay of the record throws again.
\<close>

theorem refused_insert_unrecoverable:
  assumes "dur_reach (brute_for cfg arrange) cfg s" and "settled s" and "log_space (obj s)" and "next_ext_id (ddb (obj s)) \<noteq> -1"
    and "dpolicy (dopts (obj s)) = PerOpSync" and "validate (vschema cfg) rec = Some e" and "ops_since_checkpoint (obj s) + 1 < checkpoint_ops (dopts (obj s))"
    and "record_ok (canon_record \<lparr>rtype = rt_insert, lsn = next_lsn (obj s), ext_id = next_ext_id (ddb (obj s)), vec = take (vdim cfg) v, meta = rec\<rparr>)"
  shows "\<exists>o2. durable_insert (brute_for cfg arrange) now v rec (obj s) = Some (Inl e, o2) \<and> (\<forall>now. checkpoint (brute_for cfg arrange) now o2 = None) \<and>
    (\<forall>dr h opts now. crashed (dwal_dir o2) dr \<and> crashed (dhome o2) h \<and> recovery_room (brute_for cfg arrange) cfg opts h dr \<longrightarrow>
      recover (brute_for cfg arrange) cfg opts h dr now \<in> {Some (Inl e), Some (Inl LengthError)})"
  by (rule bdb.refused_insert [OF assms(1) refl assms(2-)])

end
