(* ===== verification/Durable_Demo.thy ===== *)
theory Durable_Demo
  imports Durable_Brute Vdb_Demo
begin

text \<open>
  A durable database that starts in an empty directory, with the configuration of the first
  database of \<open>Vdb_Demo\<close>, and the states after its first insertion.
\<close>

section \<open>The first states\<close>

definition demo_opts :: durable_options where
  "demo_opts = \<lparr>dpolicy = PerOpSync, flush_interval_ms = 0, checkpoint_ops = 100, wal_seg_max = 4096\<rparr>"

definition demo_first :: wal_record where
  "demo_first = \<lparr>rtype = rt_insert, lsn = 1, ext_id = 0, vec = [0], meta = demo_int 5\<rparr>"

lemma demo_canon [simp]: "canon_meta (demo_int x) = demo_int x"
  by (rule canon_meta_id) (simp add: demo_int_def attr_int_def value_canonical_def)

lemma demo_record_ok: "rtype r \<in> {rt_insert, rt_update, rt_set_meta, rt_delete} \<Longrightarrow> length (vec r) \<le> 1 \<Longrightarrow> (\<not> carries_vector (rtype r) \<Longrightarrow> vec r = []) \<Longrightarrow>
  meta r = (if carries_meta (rtype r) then demo_int x else empty_meta) \<Longrightarrow> record_ok r"
  by (cases "vec r") (auto simp: record_ok_def encode_body_parts put_meta_parts put_attr_def demo_int_def attr_int_def value_canonical_def
      carries_vector_def carries_meta_def rt_defs empty_meta_def put_def put_string_bytes put_bytes_def Let_def)

lemma demo_valid: "valid_meta (vschema demo_cfg) (demo_int x)" "record_fits demo_index0 (demo_int x)"
  by (simp_all add: valid_meta_def demo_cfg_def validate_def demo_int_def demo_index_schema_def attr_int_def
      record_fits_def attr_at_def value_fits_def new_column_def demo_index0_def)

lemma demo_made: "make_vdb demo_ops demo_cfg = Inr demo_db0"
  by (simp add: make_vdb_def demo_index_steps(1) demo_db0_def demo_cfg_def)

lemma demo_started:
  obtains s where "dur_reach demo_ops demo_cfg s" "settled s" "log_space (obj s)" "ddb (obj s) = demo_db0" "dopts (obj s) = demo_opts"
    "logged s = []" "shist s = []" "ops_since_checkpoint (obj s) = 0" "next_lsn (obj s) = 1" "durable_lsn (obj s) = 0" "dhome (obj s) = []"
    "number (last (segments (dwal (obj s)))) = 1" "dpend s = {}" "held s = Map.empty"
proof -
  have dr: "discover_segments [] = []" "distinct (map fst [])" "map_of ([] :: disk) snapshot_path = None" by (simp_all add: discover_segments_def)
  obtain w d where rec: "recover demo_ops demo_cfg demo_opts [] [] 0 = Some (Inr (rebuilt demo_cfg demo_opts 0 [] w d 0 demo_db0))"
    and w: "highest_lsn w = 0" "number (last (segments w)) = 1"
    using recover_empty [OF dr demo_made] by blast
  show ?thesis
    by (rule that [OF dr_start [OF dr rec]]) (use w in \<open>simp_all add: settled_def log_space_def rebuilt_def\<close>)
qed

lemma append_number:
  assumes "append_wal r w d = (None, w', d')" shows "number (last (segments w')) \<le> number (last (segments w)) + 1"
  using assms
  by (auto simp: append_wal_def rotate_wal_def open_new_segment_def note_lsn_def new_segment_def Let_def split: if_splits option.splits prod.splits)

lemma log_op_number:
  assumes "log_op mk o1 = Some (Inr (l, b), o2)" shows "number (last (segments (dwal o2))) \<le> number (last (segments (dwal o1))) + 1"
proof -
  obtain w d c where "append_wal (mk l) (dwal o1) (dwal_dir o1) = (None, w, d)" "dwal o2 = w" using log_op_run [OF assms] by auto
  then show ?thesis using append_number by blast
qed

lemma demo_insert_applied: "insert_reserved demo_ops 0 [0] (demo_int 5) (demo_db0\<lparr>next_ext_id := 1\<rparr>) = Some (Inr (), demo_db2)"
proof -
  have "reserve_id demo_db0 = Some (Inr 0, demo_db0\<lparr>next_ext_id := 1\<rparr>)" by (simp add: reserve_id_def demo_db0_def)
  then show ?thesis using demo_insert by (auto simp: vdb_insert_def method_simps)
qed

text \<open>The first insertion logged, applied and finished, and not yet durable.\<close>

lemma demo_inserted:
  obtains s where "dur_reach demo_ops demo_cfg s" "settled s" "log_space (obj s)" "ddb (obj s) = demo_db2" "dopts (obj s) = demo_opts"
    "logged s = [demo_first]" "ops_since_checkpoint (obj s) = 1" "next_lsn (obj s) = 2" "durable_lsn (obj s) = 0"
    "1 \<le> highest_lsn (dwal (obj s))" "dhome (obj s) = []"
proof -
  obtain s where s: "dur_reach demo_ops demo_cfg s" "settled s" "log_space (obj s)" "ddb (obj s) = demo_db0" "dopts (obj s) = demo_opts"
    "logged s = []" "shist s = []" "ops_since_checkpoint (obj s) = 0" "next_lsn (obj s) = 1" "durable_lsn (obj s) = 0" "dhome (obj s) = []"
    "number (last (segments (dwal (obj s)))) = 1" "dpend s = {}" "held s = Map.empty" by (rule demo_started)
  note inv = bdb.dur_reach_inv [OF s(1) refl]
  have cfg: "dconfig (obj s) = demo_cfg" by (rule dur_invD(1) [OF inv])
  have res: "reserve_id demo_db0 = Some (Inr 0, demo_db0\<lparr>next_ext_id := 1\<rparr>)" by (simp add: reserve_id_def demo_db0_def)
  have ext: "next_ext_id demo_db0 = 0" by (simp add: demo_db0_def)
  let ?mk = "\<lambda>l. \<lparr>rtype = rt_insert, lsn = l, ext_id = 0, vec = take (vdim (dconfig (obj s))) [0], meta = demo_int 5\<rparr>"
  have mk: "canon_record (?mk 1) = demo_first" "record_ok demo_first"
    by (simp_all add: canon_record_def demo_first_def cfg demo_cfg_def, rule demo_record_ok [where x = 5])
      (simp_all add: carries_vector_def carries_meta_def)
  let ?s = "s\<lparr>obj := (obj s)\<lparr>ddb := demo_db0\<lparr>next_ext_id := 1\<rparr>\<rparr>, ids := insert 0 (ids s)\<rparr>"
  have inv0: "dur_inv demo_ops demo_cfg ?s" using bdb.reserve_inv [OF inv, of 0 "demo_db0\<lparr>next_ext_id := 1\<rparr>"] s(4) res ext by simp
  obtain w dr where log: "log_op ?mk (obj ?s) = Some (Inr (1, False), (obj ?s)\<lparr>next_lsn := 2, dwal := w, dwal_dir := dr, in_flight := in_flight (obj s) + 1, ops_since_checkpoint := 1\<rparr>)"
    and w: "1 \<le> highest_lsn w"
    using bdb.log_op_alone [OF inv0, of ?mk] s(3,5,8,9) mk by (auto simp: log_space_def demo_opts_def)
  have num: "number (last (segments w)) \<le> 2" using log_op_number [OF log] s(12) by simp
  let ?o = "(obj ?s)\<lparr>next_lsn := 2, dwal := w, dwal_dir := dr, in_flight := in_flight (obj s) + 1, ops_since_checkpoint := 1\<rparr>"
  have pre: "insert_prefix [0] (demo_int 5) (obj s) = Some (Inr (0, 1, False), ?o)"
    using log by (simp add: insert_prefix_def bind_method_def on_db_def s(4) res give_def)
  define s1 where "s1 = (start_op demo_first s)\<lparr>obj := ?o, ids := insert 0 (ids s)\<rparr>"
  have "dur_step demo_ops demo_cfg s s1" unfolding s1_def
    by (rule ds_insert [OF _ s(3) _ demo_valid(1) pre _ mk(2)]) (use s(2,4) mk(1) ext cfg in \<open>simp_all add: settled_def\<close>)
  then have r1: "dur_reach demo_ops demo_cfg s1" by (rule dr_step [OF s(1)])
  have f1: "flying s1 = {demo_first}" "finishing s1 = {}" "dpend s1 = {}" "stage s1 = Idle" "obj s1 = ?o" "logged s1 = [demo_first]"
    using s by (simp_all add: s1_def start_op_def add_record_def settled_def)
  have first: "rtype demo_first = rt_insert" "ext_id demo_first = 0" "vec demo_first = [0]" "meta demo_first = demo_int 5" by (simp_all add: demo_first_def)
  have "insert_reserved demo_ops (ext_id demo_first) [0] (demo_int 5) (ddb (obj s1)) = Some (Inr (), demo_db2)"
    using demo_insert_applied by (simp add: f1 first)
  then obtain s2 where s2: "dur_reach demo_ops demo_cfg s2" "obj s2 = ?o\<lparr>ddb := demo_db2\<rparr>" "logged s2 = [demo_first]" "flying s2 = {}"
    "finishing s2 = {demo_first}" "stage s2 = Idle"
    using bdb.insert_steps [OF r1 refl f1(1-4) first(1), of "[0]" "demo_int 5" demo_db2] demo_valid(2)
    by (auto simp: f1 first demo_cfg_def demo_db0_def)
  define s3 where "s3 = s2\<lparr>obj := (obj s2)\<lparr>in_flight := in_flight (obj s2) - 1\<rparr>, finishing := finishing s2 - {demo_first}\<rparr>"
  have "dur_step demo_ops demo_cfg s2 s3" unfolding s3_def
    by (rule ds_finish) (simp_all add: s2 finish_op_def modify_def)
  then have "dur_reach demo_ops demo_cfg s3" by (rule dr_step [OF s2(1)])
  then show ?thesis
    by (rule that) (use s num w in \<open>simp_all add: s3_def s2 settled_def log_space_def\<close>)
qed


lemma demo_contents: "contents_after [demo_first] = [0 \<mapsto> ([0], demo_int 5)]"
  by (simp add: contents_after_def eff_def demo_first_def)

lemma demo_column:
  obtains c where "vmeta demo_db2 = demo5" "mcolumns demo5 = [c]" "ctype c = Int64" "cdict c = []" "mrows demo5 = 1" "mpayloads demo5 = [[]]"
    "mschema demo5 = demo_index_schema"
proof -
  obtain t where e: "demo5 = demo4\<lparr>mcolumns := [(hd (mcolumns demo4))\<lparr>cindex := Some t\<rparr>]\<rparr>" by (rule demo5_eq)
  show ?thesis
    by (intro that [of "(hd (mcolumns demo4))\<lparr>cindex := Some t\<rparr>"])
      (simp_all add: e demo4_eq(2) demo_index0_def new_column_def demo_index_schema_def demo_db2_def)
qed

lemma demo_db_fits: "snapshot_fits demo_db2" "record_fits (vmeta demo_db2) (demo_int x)"
proof -
  obtain c where c: "vmeta demo_db2 = demo5" "mcolumns demo5 = [c]" "ctype c = Int64" "cdict c = []" "mrows demo5 = 1" "mpayloads demo5 = [[]]"
    "mschema demo5 = demo_index_schema" by (rule demo_column)
  have "vdim (config demo_db2) = 1" "length (int_to_ext demo_db2) = 1" by (simp_all add: demo_db2_def demo_db1_def demo_db0_def demo_cfg_def)
  then show "snapshot_fits demo_db2" using c by (simp add: snapshot_fits_def store_fits_def column_fits_def)
  show "record_fits (vmeta demo_db2) (demo_int x)"
    using c by (simp add: record_fits_def validate_def demo_int_def demo_index_schema_def attr_int_def attr_at_def value_fits_def)
qed

lemma history_part_single:
  assumes "history_part s rs" and h: "whist s = [r]" shows "rs \<in> {[], [r]}"
proof -
  obtain n m where "rs = take m (drop n [r])" using assms by (auto simp: history_part_def)
  then show ?thesis by (cases n; cases m) simp_all
qed

section \<open>The properties at these states\<close>

theorem durable_refines_witness: "\<exists>s. dur_reach demo_ops demo_cfg s \<and> shows_id (ddb (obj s)) [0 \<mapsto> ([0], demo_int 5)] 0"
proof -
  obtain s where s: "dur_reach demo_ops demo_cfg s" "settled s" "logged s = [demo_first]" by (rule demo_inserted)
  have "(0 :: u64) \<notin> ext_id ` flying s" using s(2) by (simp add: settled_def)
  from durable_refines [OF s(1) this] show ?thesis using s demo_contents by auto
qed


theorem commit_returns_witness:
  "\<exists>(s :: brute dsys) (t :: brute dsys). durable_lsn (obj s) = 0 \<and> group_commit 1 (obj s) = Some (Inr (), obj t) \<and> 1 \<le> durable_lsn (obj t)"
proof -
  obtain s where s: "dur_reach demo_ops demo_cfg s" "settled s" "durable_lsn (obj s) = 0" "1 \<le> highest_lsn (dwal (obj s))" by (rule demo_inserted)
  then show ?thesis using commit_returns [OF s(1,4)] by (simp add: settled_def) blast
qed

theorem checkpoint_returns_witness:
  "\<exists>(s :: brute dsys) (t :: brute dsys). settled s \<and> checkpoint demo_ops 0 (obj s) = Some (Inr (), obj t) \<and> lsn demo_first \<le> covered t \<and> ddb (obj t) = demo_db2"
proof -
  obtain s where s: "dur_reach demo_ops demo_cfg s" "settled s" "log_space (obj s)" "ddb (obj s) = demo_db2" "logged s = [demo_first]" by (rule demo_inserted)
  show ?thesis using checkpoint_returns [OF s(1-3), of 0] demo_db_fits(1) s(2,4,5) by (simp add: s(4,5)) blast
qed

theorem insert_durable_witness:
  "\<exists>s. dur_reach demo_ops demo_cfg s \<and> logs_op demo_ops demo_cfg s demo_first (durable_insert demo_ops 0 [0] (demo_int 5)) 0"
proof -
  obtain s where s: "dur_reach demo_ops demo_cfg s" "settled s" "log_space (obj s)" "ddb (obj s) = demo_db0" "dopts (obj s) = demo_opts"
    "ops_since_checkpoint (obj s) = 0" "next_lsn (obj s) = 1" by (rule demo_started)
  have "record_ok demo_first" by (rule demo_record_ok [where x = 5]) (simp_all add: demo_first_def carries_vector_def carries_meta_def)
  then have "logs_op demo_ops demo_cfg s demo_first (durable_insert demo_ops 0 [0] (demo_int 5)) (ext_id demo_first)"
    by (intro insert_durable [OF s(1-3) _ demo_valid(1)])
      (use s(4-) demo_valid(2) in \<open>simp_all add: demo_db0_def demo_opts_def demo_first_def canon_record_def demo_cfg_def\<close>)
  then show ?thesis using s(1) by (auto simp: demo_first_def)
qed

theorem mutations_durable_witness:
  "\<exists>s r. dur_reach demo_ops demo_cfg s \<and> logs_op demo_ops demo_cfg s r (durable_remove demo_ops 0 0) True \<and> rtype r = rt_delete"
proof -
  obtain s where s: "dur_reach demo_ops demo_cfg s" "settled s" "log_space (obj s)" "ddb (obj s) = demo_db2" "dopts (obj s) = demo_opts"
    "ops_since_checkpoint (obj s) = 1" by (rule demo_inserted)
  let ?mk = "\<lambda>ty v rec. canon_record \<lparr>rtype = ty, lsn = next_lsn (obj s), ext_id = 0, vec = v, meta = rec\<rparr>"
  have x: "contains (ddb (obj s)) 0" by (simp add: s(4) contains_def demo_db2_def)
  have "record_ok (?mk rt_update (take (vdim demo_cfg) [0]) (demo_int 6))" "record_ok (?mk rt_set_meta [] (demo_int 6))"
    by (rule demo_record_ok [where x = 6]; simp add: demo_cfg_def carries_vector_def carries_meta_def rt_defs)+
  then have "logs_op demo_ops demo_cfg s (?mk rt_delete [] empty_meta) (durable_remove demo_ops 0 0) True"
    using mutations_durable [OF s(1-3) x demo_valid(1), of 6 ?mk "[0]" 0] demo_db_fits(2) s(4-) by (simp add: demo_opts_def)
  then show ?thesis using s(1) by (intro exI [of _ s] exI [of _ "?mk rt_delete [] empty_meta"]) simp
qed

theorem refused_insert_unrecoverable_witness:
  "\<exists>s o2 d. settled s \<and> durable_insert demo_ops 0 [0] \<lparr>attrs = [attr_int 1, attr_int 2], payload = []\<rparr> (obj s) = Some (Inl InvalidArgument, o2) \<and>
    checkpoint demo_ops 0 o2 = None \<and> crashed (dwal_dir o2) d \<and>
    recover demo_ops demo_cfg demo_opts [] d 0 \<in> {Some (Inl InvalidArgument), Some (Inl LengthError)}"
proof -
  obtain s where s: "dur_reach demo_ops demo_cfg s" "settled s" "log_space (obj s)" "ddb (obj s) = demo_db0" "dopts (obj s) = demo_opts"
    "shist s = []" "ops_since_checkpoint (obj s) = 0" "dhome (obj s) = []" by (rule demo_started)
  let ?rec = "\<lparr>attrs = [attr_int 1, attr_int 2], payload = []\<rparr>"
  let ?r = "canon_record \<lparr>rtype = rt_insert, lsn = next_lsn (obj s), ext_id = next_ext_id (ddb (obj s)), vec = take (vdim demo_cfg) [0], meta = ?rec\<rparr>"
  have ok: "record_ok ?r"
    by (simp add: record_ok_def encode_body_parts put_meta_parts put_attr_def attr_int_def canon_value_def value_canonical_def
        carries_vector_def carries_meta_def rt_defs put_def put_string_bytes put_bytes_def Let_def demo_cfg_def)
  have h: "next_ext_id (ddb (obj s)) \<noteq> -1" "dpolicy (dopts (obj s)) = PerOpSync" "ops_since_checkpoint (obj s) + 1 < checkpoint_ops (dopts (obj s))"
    "validate (vschema demo_cfg) ?rec = Some InvalidArgument"
    using s by (simp_all add: demo_db0_def demo_opts_def validate_def demo_cfg_def demo_index_schema_def)
  obtain o2 acks where o2: "durable_insert demo_ops 0 [0] ?rec (obj s) = Some (Inl InvalidArgument, o2)" "dhome o2 = []" "conf_ok demo_cfg (dwal o2)"
    and W: "wal_inv (wal_of (s\<lparr>obj := o2, shist := [?r], sacked := acks\<rparr>))"
    using bdb.refused_state [OF bdb.dur_reach_inv [OF s(1) refl] refl s(2,3) h(1,2,4,3) refl ok, of 0] s(6,8) that by auto
  define d where "d = map (\<lambda>(n, f). (n, f\<lparr>fdurable := length (fdata f)\<rparr>)) (dwal_dir o2)"
  have cr: "crashed (dwal_dir o2) d" "crashed (dhome o2) []" unfolding d_def o2(2) by (rule crashed_refl) (simp add: crashed_def)
  have load: "load_home demo_ops demo_db0 [] = Some (Inr (0, demo_db0))" by (simp add: load_home_def)
  let ?t = "s\<lparr>obj := o2, shist := [?r], sacked := acks\<rparr>"
  have "snap_ok demo_ops demo_cfg (dhome (obj ?t)) (covered ?t) (snap_held ?t) (snap_ids ?t) (logged s)"
    using dur_invD(7) [OF bdb.dur_reach_inv [OF s(1) refl]] s(8) o2(2) by simp
  then have "history_part (wal_of ?t) (delivered demo_cfg demo_opts d)"
    using bdb.crash_parts [OF W between _ _ refl _ _ demo_made load refl, of "logged s" d demo_opts] cr o2(3) by auto
  then have "delivered demo_cfg demo_opts d \<in> {[], [?r]}" by (rule history_part_single) (simp add: wal_of_def)
  moreover have "dict_room (vmeta demo_db0) (meta ?r)"
    by (simp add: dict_room_def demo_db0_def demo_index0_def demo_index_schema_def new_column_def Let_def)
  ultimately have "recovery_room demo_ops demo_cfg demo_opts [] d"
    by (auto simp: recovery_room_def demo_made load split: option.split sum.split prod.split)
  then show ?thesis
    using refused_insert_unrecoverable [OF s(1-3) h(1,2,4,3) ok, of 0] o2(1) cr s(2) by (intro exI [of _ s] exI [of _ o2] exI [of _ d]) (auto simp: o2(2))
qed

end
