(* ===== verification/Spec2Isabelle.thy ===== *)
theory Spec2Isabelle
  imports Sortable_Bits BPlus_Spec Wal_Spec Metadata_Spec Text_Search Metadata_Codec Filter_Planner Brute_Index Vdb_Fusion Vdb_Demo Vdb_Ivf Durable_Demo
begin

text \<open>
  A verification development of \<open>vdb\<close>, a vector database in C++17.

  \<^bold>\<open>The program.\<close> A client inserts, updates, removes and searches vectors with metadata
  through \<open>class VDB\<close> (\<open>include/vdb.h\<close>, \<open>src/vdb.cpp\<close>). It keeps an index of the vectors
  behind the interface \<open>class Index\<close> (\<open>include/index.h\<close>; exhaustive in \<open>src/brute_index.cpp\<close>,
  inverted lists in \<open>src/ivf_index.cpp\<close>, a graph in \<open>src/hnsw_index.cpp\<close>), the maps between
  external and internal ids, tombstones, and one metadata row per node in a columnar store
  (\<open>src/metadata.cpp\<close>) with posting lists, live counts and, for indexed attributes, B-link
  trees (\<open>src/bplus_tree.cpp\<close>) over order-preserving keys (\<open>include/sortable_bits.h\<close>). Text
  attributes are tokenized and ranked by BM25. A cost model (\<open>src/filter_planner.cpp\<close>) picks
  the strategy of a filtered search. The write-ahead log (\<open>src/wal.cpp\<close>) makes mutations
  durable; its frames carry a CRC32C (\<open>src/crc32c.cpp\<close>). \<open>class DurableVDB\<close>
  (\<open>src/durable_vdb.cpp\<close>) logs every mutation before it applies it, saves snapshots
  (\<open>src/snapshot.cpp\<close>) and rebuilds the database from both when it is constructed.

  \<^bold>\<open>The theories\<close>, in the order of their imports:

  \<^item> \<open>Prelude\<close>: machine words, exceptions as values, vector and search primitives of the
    standard library. \<open>Effects\<close>: actions on a state that may throw or never return. \<open>Ranking\<close>:
    \<open>std::nth_element\<close>, \<open>std::sort\<close> and \<open>std::partial_sort\<close> and the contract \<open>ranks\<close>.
  \<^item> \<open>Sortable_Bits\<close>: both key transforms, their order and their inverses.
  \<^item> \<open>BPlus_Tree\<close>, \<open>BPlus_Read\<close>, \<open>BPlus_Insert\<close>, \<open>BPlus_Siblings\<close>, \<open>BPlus_Remove\<close>: the node
    arena of the B-link tree and its operations, \<open>BPlus_Inv\<close> the shape invariant, \<open>BPlus_Spec\<close>
    the contract: the tree is a sorted list of pairs, all its leaves are equally deep, with bounds
    on its height and nodes.
  \<^item> \<open>Crc32c\<close>, \<open>Serialize\<close>, \<open>Values\<close>, \<open>Wal_Record\<close>: checksums, the byte codecs, and the
    frames of the log with round trips, torn and corrupted frames.
  \<^item> \<open>Wal\<close>, \<open>Wal_Rep\<close>, \<open>Wal_Recovery\<close>, \<open>Wal_Spec\<close>: the log over a file system that in a
    crash keeps at least the synced bytes; the directories between the system calls of a rotation
    and of a truncation, where a crash may stop them; group commit; replay; durability of every
    reachable log.
    \<open>Wal_Replay\<close>: a replay with any callback is a fold over the records it delivers.
  \<^item> \<open>Schema\<close>, \<open>Tokenizer\<close>, \<open>Columns\<close>, \<open>Metadata\<close>: schema validation and fingerprint, the
    tokenizer, one column, the store. \<open>Column_Ops\<close>, \<open>Column_Inv\<close>, \<open>Column_Rows\<close>,
    \<open>Column_Permute\<close>, \<open>Metadata_Inv\<close> and \<open>Metadata_Spec\<close>: every operation keeps the columns,
    postings, counts and ordered indexes true to an abstract list of rows, and predicates
    resolve to the rows they describe; ranges of doubles by their numeric order, but for the two
    zeros, whose keys differ. \<open>Metadata_Codec\<close>: the store's bytes and back.
    \<open>Text_Search\<close>: BM25 against its formula.
  \<^item> \<open>Filter_Planner\<close>: the calibration and the choice of the strategy.
  \<^item> \<open>Distance\<close>: the metrics. \<open>Vector_Index\<close>: the virtual functions of \<open>class Index\<close> as a
    record and the contracts \<open>vector_index\<close> (sound answers), \<open>rebuilt_index\<close> (can be compacted),
    \<open>exact_index\<close>, \<open>stored_index\<close> (can be saved) and their combinations. \<open>Brute_Index\<close> is an
    exact database index; \<open>Ivf_Index\<close>, with training and k-means, an approximate one that can be
    saved but not compacted.
  \<^item> \<open>Vdb\<close>: the writers of \<open>class VDB\<close> as their critical sections, \<open>Vdb_Search\<close> the readers,
    \<open>Snapshot\<close> the bytes of a snapshot and their loading.
    \<open>Vdb_Run\<close>: the step relation \<open>db_run\<close> of all interleavings, with the calls in flight and
    the abstract contents, a map from ids to vectors and records; loading a snapshot is a step. \<open>Vdb_Inv\<close>: every step keeps
    the invariant, proved once for any index. \<open>Vdb_Answers\<close>, \<open>Vdb_Spec\<close>: what searches and
    lookups give. \<open>Brute_Database\<close> discharges the contracts for the exhaustive index,
    \<open>Vdb_Brute\<close> has the properties over it, \<open>Vdb_Demo\<close> concrete runs. \<open>Vdb_Fusion\<close>: reciprocal rank fusion. \<open>Vdb_Ivf\<close>: why \<open>VDB\<close> cannot use the inverted lists.
  \<^item> \<open>Durable\<close>: \<open>class DurableVDB\<close> as its critical sections, and the snapshot's file.
    \<open>Durable_Run\<close>: the step relation \<open>dur_step\<close> of all interleavings of calls, syncs,
    checkpoints and crashes, with the history of logged operations and what it says of the
    contents. \<open>Durable_Inv\<close>: the critical sections keep the invariant, \<open>Durable_Recovery\<close>: so
    does recovery from any crash. \<open>Durable_Spec\<close>: recovery, commits, checkpoints and calls
    return, and what they give. \<open>Durable_Damage\<close>: a record that the database refuses spoils the
    log. \<open>Durable_Brute\<close> has the properties over the exhaustive index, \<open>Durable_Demo\<close> concrete runs.

  \<^bold>\<open>How the code is read.\<close> A class is a record, a method a function from the state to a
  result and a new state, an exception a value \<open>Inl e\<close>, a failed \<open>assert\<close> or a loop that does
  not end \<open>None\<close>. The phases of a method that releases its lock are separate definitions, and
  concurrency is the interleaving of these steps. The loops of the tree run on fuel, the number
  of nodes of the arena, which no walk exceeds in a well-formed tree: the properties say that
  the operations return. An \<open>unordered_map\<close> is a map or an association list, and the order in
  which it is walked is a parameter, like the order that sorting leaves equal keys in. Waiting
  for a condition that another thread must make true is \<open>None\<close> in a call that runs alone; in
  \<open>dur_step\<close> such a wait is the premise of the next critical section.

  \<^bold>\<open>Bounds.\<close> \<open>ExternalId\<close> and the counters are 64-bit words, \<open>InternalId\<close> a natural number
  with the bound \<open>2 ^ 32\<close> where it matters. A run leaves out the greatest external id, after
  which the counter wraps. A \<open>float\<close> is its bit pattern; arithmetic on distances, scores and
  costs is exact, in the reals, without the rounding of \<open>float\<close> and \<open>double\<close>.

  \<^bold>\<open>Not modelled.\<close> The HNSW index; failing system calls; a crash within the
  very first creation of the log, or within a recovery after it has cut a torn tail
  (\<open>crashed_trans\<close> covers one before that; a crash within a later \<open>open_new_segment_\<close> is a step of
  the model and may leave a torn header, with which the constructor throws); writers that disregard the rule of one thread per id; the node mutexes of the tree beyond the state between the two steps of a split; benchmarks, tests and
  the gRPC server, which is glue around generated code; texts of exception messages, memory
  exhaustion.
\<close>

end
